(* ===== verification/LC_Prelude.thy ===== *)
theory LC_Prelude
  imports Complex_Main "HOL-Library.AList" "HOL-Library.Sublist" "HOL-Library.Multiset"
    "HOL-Library.List_Lexorder" "HOL-Library.Char_ord" "HOL-Library.Product_Lexorder"
begin

text \<open>
  Prelude of the longctx development: the theorem collections the components feed, the
  type names they share, the interface of an insertion-ordered Python \<open>dict\<close> with its
  laws as a locale, and the generic list lemmas.

  A Python \<open>dict\<close> (and an \<open>OrderedDict\<close>) remembers insertion order, and several
  components rely on that order (LRU eviction, first match wins). It is an association
  list with distinct keys: storing under an existing key keeps its position, storing
  under a new key appends.
\<close>

declare map_of_eq_Some_iff [simp del]
  \<comment> \<open>dictionaries are reasoned about by lookup, not by membership in the entry list\<close>

named_theorems dict_simps \<open>lookup laws of the dictionary operations\<close>
named_theorems inv_intros \<open>invariant preservation, one rule per operation\<close>

type_synonym time = real

text \<open>The exceptions the modelled code raises itself; \<open>error + 'a\<close> is a call that may raise.\<close>

datatype exc =
    ValueError
  | KeyError
  | IndexError
  | OSError
  | JSONDecodeError
  | TypeError
  | RuntimeError
  | EmbedderMismatch
  | SnapshotSchemaMismatch
  | AssertionError
  | ZeroDivisionError
  | IntegrityError
  | ForbiddenProject
  | FileNotFound

section \<open>Python dictionaries\<close>

type_synonym ('k, 'v) dict = "('k \<times> 'v) list"

abbreviation dict_get :: "('k, 'v) dict \<Rightarrow> 'k \<Rightarrow> 'v option" where
  "dict_get \<equiv> map_of"

abbreviation dict_set :: "'k \<Rightarrow> 'v \<Rightarrow> ('k, 'v) dict \<Rightarrow> ('k, 'v) dict" where
  "dict_set \<equiv> AList.update"

abbreviation dict_pop :: "'k \<Rightarrow> ('k, 'v) dict \<Rightarrow> ('k, 'v) dict" where
  "dict_pop \<equiv> AList.delete"

abbreviation dict_keys :: "('k, 'v) dict \<Rightarrow> 'k list" where
  "dict_keys \<equiv> map fst"

abbreviation dict_wf :: "('k, 'v) dict \<Rightarrow> bool" where
  "dict_wf d \<equiv> distinct (map fst d)"

definition dict_move_to_end :: "'k \<Rightarrow> ('k, 'v) dict \<Rightarrow> ('k, 'v) dict" where
  \<comment> \<open>\<open>OrderedDict.move_to_end(k)\<close>; the callers have looked \<open>k\<close> up before.\<close>
  "dict_move_to_end k d = (case map_of d k of None \<Rightarrow> d | Some v \<Rightarrow> AList.delete k d @ [(k, v)])"

text \<open>The interface the state-keeping components program against.\<close>

locale py_dict =
  fixes get :: "'d \<Rightarrow> 'k \<Rightarrow> 'v option"
    and put :: "'k \<Rightarrow> 'v \<Rightarrow> 'd \<Rightarrow> 'd"
    and pop :: "'k \<Rightarrow> 'd \<Rightarrow> 'd"
    and items :: "'d \<Rightarrow> ('k \<times> 'v) list"
    and wf :: "'d \<Rightarrow> bool"
  assumes get_put: "get (put k v d) k' = (if k' = k then Some v else get d k')"
    and get_pop: "get (pop k d) k' = (if k' = k then None else get d k')"
    and items_get: "wf d \<Longrightarrow> (k, v) \<in> set (items d) \<longleftrightarrow> get d k = Some v"
    and wf_put: "wf d \<Longrightarrow> wf (put k v d)"
    and wf_pop: "wf d \<Longrightarrow> wf (pop k d)"
begin

text \<open>The sweep all idle checks share: collect the keys of the stale entries, then pop each.\<close>

lemma get_pops: "get (fold pop ks d) k = (if k \<in> set ks then None else get d k)"
  by (induction ks arbitrary: d) (auto simp: get_pop)

lemma wf_pops: "wf d \<Longrightarrow> wf (fold pop ks d)"
  by (induction ks arbitrary: d) (auto simp: wf_pop)

lemma stale_iff: "wf d \<Longrightarrow> k \<in> set (map fst (filter (\<lambda>x. P (snd x)) (items d))) \<longleftrightarrow> (\<exists>v. get d k = Some v \<and> P v)"
  by (auto simp: items_get image_iff split: prod.splits)

lemma get_sweep:
  assumes "wf d"
  shows "get (fold pop (map fst (filter (\<lambda>x. P (snd x)) (items d))) d) k =
     (case get d k of None \<Rightarrow> None | Some v \<Rightarrow> if P v then None else Some v)"
  unfolding get_pops stale_iff [OF assms] by (auto split: option.splits)

lemma sweep_again:
  fixes P :: "'v \<Rightarrow> bool"
  assumes "wf d"
  defines "d' \<equiv> fold pop (map fst (filter (\<lambda>x. P (snd x)) (items d))) d"
  shows "filter (\<lambda>x. P (snd x)) (items d') = []"
proof -
  have "wf d'" unfolding d'_def by (rule wf_pops [OF assms(1)])
  have "\<not> P v" if "(k, v) \<in> set (items d')" for k v
    using that get_sweep [OF assms(1), of P k] unfolding items_get [OF \<open>wf d'\<close>]
    by (auto simp flip: d'_def split: option.splits if_splits)
  then show ?thesis by (auto simp: filter_empty_conv)
qed

end

lemma dict_get_pop: "map_of (AList.delete k d) k' = (if k' = k then None else map_of d k')"
  by (simp add: delete_conv')

interpretation od: py_dict map_of AList.update AList.delete "\<lambda>d. d" "\<lambda>d. distinct (map fst d)"
  by unfold_locales
    (simp_all add: update_conv' delete_conv' map_of_eq_Some_iff distinct_update distinct_delete)

lemmas od_laws [dict_simps] = od.get_put od.get_pop

lemma dict_move_get [dict_simps]: "map_of (dict_move_to_end k d) k' = map_of d k'"
  by (auto simp: dict_move_to_end_def map_add_def delete_conv' split: option.splits)

lemma dict_move_wf: "dict_wf d \<Longrightarrow> dict_wf (dict_move_to_end k d)"
  by (simp add: dict_move_to_end_def delete_keys distinct_removeAll split: option.splits)

lemma dict_move_keys_set: "set (map fst (dict_move_to_end k d)) = set (map fst d)"
proof -
  have "x \<in> set (map fst (dict_move_to_end k d)) \<longleftrightarrow> x \<in> set (map fst d)" for x
    using dict_move_get [of k d x] by (metis map_of_eq_None_iff list.set_map)
  then show ?thesis by blast
qed

text \<open>The entry lists of a dictionary, as sets: what a loop over \<open>items()\<close> visits.\<close>

lemma dict_item_get: "dict_wf d \<Longrightarrow> (k, v) \<in> set d \<longleftrightarrow> map_of d k = Some v"
  by (simp add: map_of_eq_Some_iff)

section \<open>Lists\<close>

lemma pair_list_empty: "(\<And>a b. (a, b) \<notin> set xs) \<Longrightarrow> xs = []"
  by (cases xs) auto

text \<open>Keeping the last \<open>n\<close> elements: a bounded sliding window.\<close>

definition last_n :: "nat \<Rightarrow> 'a list \<Rightarrow> 'a list" where
  "last_n n xs = drop (length xs - n) xs"

lemma length_last_n: "length (last_n n xs) = min n (length xs)"
  by (simp add: last_n_def)

lemma last_n_snoc: "last_n (Suc n) (xs @ [x]) = last_n n xs @ [x]"
  by (simp add: last_n_def)

lemma tl_last_n: "n < length xs \<Longrightarrow> tl (last_n (Suc n) xs) = last_n n xs"
proof -
  assume "n < length xs"
  then have "length xs - n = Suc (length xs - Suc n)" by simp
  then show ?thesis by (simp add: last_n_def drop_Suc tl_drop)
qed

lemma last_n_idle: "length xs \<le> n \<Longrightarrow> last_n n xs = xs"
  by (simp add: last_n_def)

text \<open>Python's first-occurrence dedupe loop (a \<open>seen\<close> set beside an output list).\<close>

fun dedupe :: "'a set \<Rightarrow> 'a list \<Rightarrow> 'a list" where
  "dedupe seen [] = []"
| "dedupe seen (x # xs) = (if x \<in> seen then dedupe seen xs else x # dedupe (insert x seen) xs)"

lemma set_dedupe: "set (dedupe seen xs) = set xs - seen"
  by (induction seen xs rule: dedupe.induct) auto

lemma distinct_dedupe: "distinct (dedupe seen xs)"
  by (induction seen xs rule: dedupe.induct) (auto simp: set_dedupe)

lemma subseq_dedupe: "subseq (dedupe seen xs) xs"
  by (induction seen xs rule: dedupe.induct) auto

lemma dedupe_distinct: "distinct xs \<Longrightarrow> set xs \<inter> seen = {} \<Longrightarrow> dedupe seen xs = xs"
  by (induction seen xs rule: dedupe.induct) auto

lemma length_dedupe: "length (dedupe {} xs) = card (set xs)"
  using distinct_card [OF distinct_dedupe, of "{}" xs] by (simp add: set_dedupe)

lemma hd_dedupe: "xs \<noteq> [] \<Longrightarrow> hd (dedupe {} xs) = hd xs"
  by (cases xs) auto

lemma dedupe_nonempty: "xs \<noteq> [] \<Longrightarrow> dedupe {} xs \<noteq> []"
  by (cases xs) auto

text \<open>Python's stable \<open>sort(key=..., reverse=True)\<close>: descending by the key, ties in input order.\<close>

definition sort_desc :: "('a \<Rightarrow> 'b::linorder) \<Rightarrow> 'a list \<Rightarrow> 'a list" where
  "sort_desc f xs = rev (sort_key f (rev xs))"

lemma mset_sort_desc: "mset (sort_desc f xs) = mset xs"
  by (simp add: sort_desc_def)

lemma set_sort_desc [simp]: "set (sort_desc f xs) = set xs"
  by (simp add: sort_desc_def)

lemma length_sort_desc [simp]: "length (sort_desc f xs) = length xs"
  by (simp add: sort_desc_def)

lemma sort_desc_Nil [simp]: "sort_desc f xs = [] \<longleftrightarrow> xs = []"
  by (simp flip: length_0_conv)

lemma sorted_sort_desc: "sorted_wrt (\<lambda>a b. f b \<le> f a) (sort_desc f xs)"
proof -
  have "sorted (map f (sort_key f (rev xs)))" by simp
  then have "sorted_wrt (\<lambda>a b. f a \<le> f b) (sort_key f (rev xs))"
    by (simp add: sorted_wrt_map)
  then show ?thesis by (simp add: sort_desc_def sorted_wrt_rev)
qed

lemma hd_sort_desc_max: "x \<in> set xs \<Longrightarrow> f x \<le> f (hd (sort_desc f xs))"
proof -
  assume x: "x \<in> set xs"
  then obtain y ys where ys: "sort_desc f xs = y # ys"
    by (metis list.set_cases set_sort_desc)
  have "sorted_wrt (\<lambda>a b. f b \<le> f a) (y # ys)"
    using sorted_sort_desc [of f xs] ys by simp
  moreover have "x \<in> set (y # ys)" using x ys by (metis set_sort_desc)
  ultimately show ?thesis using ys by auto
qed

text \<open>Taking from the front of a descending list: what is left out is not better.\<close>

lemma sorted_desc_take_drop:
  assumes "sorted_wrt (\<lambda>a b. f b \<le> f a) xs" and "a \<in> set (take k xs)" and "b \<in> set (drop k xs)"
  shows "f b \<le> (f a :: 'b :: linorder)"
proof -
  have "sorted_wrt (\<lambda>a b. f b \<le> f a) (take k xs @ drop k xs)" using assms(1) by simp
  then show ?thesis using assms(2,3) by (simp only: sorted_wrt_append)
qed

section \<open>Histories\<close>

text \<open>
  A component with state is a machine: its operations keep an invariant, and may implement
  operations on an abstract state. What holds of one operation then holds of every history.
\<close>

locale machine =
  fixes step :: "'op \<Rightarrow> 's \<Rightarrow> 's"
    and inv :: "'s \<Rightarrow> bool"
  assumes step_inv: "inv s \<Longrightarrow> inv (step op s)"
begin

lemma run_inv: "inv s \<Longrightarrow> inv (fold step ops s)"
  by (induction ops arbitrary: s) (simp_all add: step_inv)

end

locale refining_machine = machine +
  fixes view :: "'b \<Rightarrow> 'v"
    and vstep :: "'a \<Rightarrow> 'v \<Rightarrow> 'v"
  assumes step_view: "inv s \<Longrightarrow> view (step op s) = vstep op (view s)"
begin

lemma run_view: "inv s \<Longrightarrow> view (fold step ops s) = fold vstep ops (view s)"
  by (induction ops arbitrary: s) (simp_all add: step_inv step_view)

end

text \<open>
  Where the operations answer, and the abstract state depends on the answer (an allocator
  chooses the row it hands out), the answers are kept beside the operations.
\<close>

fun run_log :: "('op \<Rightarrow> 's \<Rightarrow> 'r \<times> 's) \<Rightarrow> 'op list \<Rightarrow> 's \<Rightarrow> ('op \<times> 'r) list \<times> 's" where
  "run_log step [] s = ([], s)"
| "run_log step (op # ops) s = (let (r, s) = step op s; (rs, s) = run_log step ops s in ((op, r) # rs, s))"

fun log_allowed :: "('op \<times> 'r \<Rightarrow> 'v \<Rightarrow> bool) \<Rightarrow> ('op \<times> 'r \<Rightarrow> 'v \<Rightarrow> 'v) \<Rightarrow> ('op \<times> 'r) list \<Rightarrow> 'v \<Rightarrow> bool" where
  "log_allowed ok vstep [] v \<longleftrightarrow> True"
| "log_allowed ok vstep (x # xs) v \<longleftrightarrow> ok x v \<and> log_allowed ok vstep xs (vstep x v)"

locale answering_machine =
  fixes step :: "'op \<Rightarrow> 's \<Rightarrow> 'r \<times> 's"
    and inv :: "'s \<Rightarrow> bool"
    and view :: "'s \<Rightarrow> 'v"
    and ok :: "'op \<times> 'r \<Rightarrow> 'v \<Rightarrow> bool"
    and vstep :: "'op \<times> 'r \<Rightarrow> 'v \<Rightarrow> 'v"
  assumes step_answers: "inv s \<Longrightarrow> step op s = (r, s') \<Longrightarrow> inv s' \<and> view s' = vstep (op, r) (view s) \<and> ok (op, r) (view s)"
begin

lemma run_answers:
  "inv s \<Longrightarrow> run_log step ops s = (xs, s') \<Longrightarrow>
   inv s' \<and> view s' = fold vstep xs (view s) \<and> log_allowed ok vstep xs (view s)"
proof (induction ops arbitrary: s xs)
  case (Cons op ops)
  obtain r s1 where s: "step op s = (r, s1)" by fastforce
  obtain xs' where t: "run_log step ops s1 = (xs', s')" "xs = (op, r) # xs'"
    using Cons.prems(2) by (auto simp: s split: prod.splits)
  show ?case using step_answers [OF Cons.prems(1) s] Cons.IH [OF _ t(1)] by (simp add: t(2))
qed simp

end

end
