(* ===== verification/LC_Str.thy ===== *)
theory LC_Str
  imports LC_Prelude
begin

text \<open>
  Python strings over the first 256 code points. A HOL \<open>char\<close> is read as a code point
  (not as a byte), so \<open>length\<close> counts what \<open>len\<close> counts and the character tests
  below are Python's, restricted to that range: \<open>str.isspace\<close>, \<open>str.lower\<close>,
  \<open>str.splitlines\<close>, \<open>str.strip\<close>, the regex class \<open>\w\<close>. Code points from 256 on are
  outside the model.
\<close>

section \<open>Character classes\<close>

definition cp :: "char \<Rightarrow> nat" where
  "cp c = of_char c"

definition is_space :: "char \<Rightarrow> bool" where
  "is_space c \<longleftrightarrow> cp c \<in> {9, 10, 11, 12, 13, 28, 29, 30, 31, 32, 133, 160}"

definition is_line_break :: "char \<Rightarrow> bool" where
  "is_line_break c \<longleftrightarrow> cp c \<in> {10, 11, 12, 13, 28, 29, 30, 133}"

definition is_upper_ascii :: "char \<Rightarrow> bool" where
  "is_upper_ascii c \<longleftrightarrow> 65 \<le> cp c \<and> cp c \<le> 90"

definition is_lower_ascii :: "char \<Rightarrow> bool" where
  "is_lower_ascii c \<longleftrightarrow> 97 \<le> cp c \<and> cp c \<le> 122"

definition is_digit :: "char \<Rightarrow> bool" where
  "is_digit c \<longleftrightarrow> 48 \<le> cp c \<and> cp c \<le> 57"

definition is_alnum_ascii :: "char \<Rightarrow> bool" where
  "is_alnum_ascii c \<longleftrightarrow> is_upper_ascii c \<or> is_lower_ascii c \<or> is_digit c"

definition is_word :: "char \<Rightarrow> bool" where
  \<comment> \<open>the regex class \<open>\w\<close> of a Python \<open>str\<close> pattern, up to code point 255\<close>
  "is_word c \<longleftrightarrow> is_alnum_ascii c \<or> cp c = 95
     \<or> cp c \<in> {170, 178, 179, 181, 185, 186, 188, 189, 190}
     \<or> (192 \<le> cp c \<and> cp c \<noteq> 215 \<and> cp c \<noteq> 247)"

definition lower_char :: "char \<Rightarrow> char" where
  "lower_char c = (if is_upper_ascii c \<or> (192 \<le> cp c \<and> cp c \<le> 222 \<and> cp c \<noteq> 215)
     then char_of (cp c + 32) else c)"

definition py_lower :: "string \<Rightarrow> string" where
  "py_lower s = map lower_char s"

lemma cp_char_of: "n < 256 \<Longrightarrow> cp (char_of n) = n"
  by (simp add: cp_def)

lemma cp_lower_char: "cp (lower_char c) =
    (if is_upper_ascii c \<or> (192 \<le> cp c \<and> cp c \<le> 222 \<and> cp c \<noteq> 215) then cp c + 32 else cp c)"
  by (auto simp: lower_char_def is_upper_ascii_def intro!: cp_char_of)

lemma lower_char_idem [simp]: "lower_char (lower_char c) = lower_char c"
  using cp_lower_char [of c]
  by (subst lower_char_def) (auto simp: is_upper_ascii_def split: if_splits)

lemma py_lower_idem [simp]: "py_lower (py_lower s) = py_lower s"
  by (simp add: py_lower_def comp_def)

lemma length_py_lower [simp]: "length (py_lower s) = length s"
  by (simp add: py_lower_def)

section \<open>Strip, split, join\<close>

definition py_lstrip :: "string \<Rightarrow> string" where
  "py_lstrip s = dropWhile is_space s"

definition py_rstrip_by :: "(char \<Rightarrow> bool) \<Rightarrow> string \<Rightarrow> string" where
  "py_rstrip_by P s = rev (dropWhile P (rev s))"

definition py_rstrip :: "string \<Rightarrow> string" where
  "py_rstrip s = py_rstrip_by is_space s"

definition py_strip :: "string \<Rightarrow> string" where
  "py_strip s = py_rstrip (py_lstrip s)"

definition py_blank :: "string \<Rightarrow> bool" where
  \<comment> \<open>\<open>not s.strip()\<close>\<close>
  "py_blank s \<longleftrightarrow> py_strip s = []"

definition py_join :: "string \<Rightarrow> string list \<Rightarrow> string" where
  "py_join sep xs = (case xs of [] \<Rightarrow> [] | y # ys \<Rightarrow> y @ concat (map (\<lambda>z. sep @ z) ys))"

text \<open>\<open>str.splitlines(keepends=True)\<close>: \<open>\r\n\<close> is one line end.\<close>

fun split_keep :: "string \<Rightarrow> string \<Rightarrow> string list" where
  "split_keep acc [] = (if acc = [] then [] else [rev acc])"
| "split_keep acc [c] = [rev (c # acc)]"
| "split_keep acc (c # d # s) =
     (if cp c = 13 \<and> cp d = 10 then rev (d # c # acc) # split_keep [] s
      else if is_line_break c then rev (c # acc) # split_keep [] (d # s)
      else split_keep (c # acc) (d # s))"

definition splitlines_keep :: "string \<Rightarrow> string list" where
  "splitlines_keep s = split_keep [] s"

lemma concat_split_keep: "concat (split_keep acc s) = rev acc @ s"
  by (induction acc s rule: split_keep.induct) auto

lemma concat_splitlines_keep [simp]: "concat (splitlines_keep s) = s"
  by (simp add: splitlines_keep_def concat_split_keep)

lemma split_keep_nonempty: "l \<in> set (split_keep acc s) \<Longrightarrow> l \<noteq> []"
  by (induction acc s rule: split_keep.induct) (auto split: if_splits)

lemma splitlines_keep_eq_Nil [simp]: "splitlines_keep s = [] \<longleftrightarrow> s = []"
  using concat_splitlines_keep [of s] split_keep_nonempty [of _ "[]" s]
  by (metis concat.simps(1) concat_eq_Nil_conv list.set_intros(1) neq_Nil_conv splitlines_keep_def)

lemma py_rstrip_by_prefix: "prefix (py_rstrip_by P s) s"
proof -
  have "s = rev (dropWhile P (rev s)) @ rev (takeWhile P (rev s))"
    by (metis rev_append rev_rev_ident takeWhile_dropWhile_id)
  then show ?thesis by (metis prefixI py_rstrip_by_def)
qed

lemma length_py_rstrip: "length (py_rstrip s) \<le> length s"
  using prefix_length_le [OF py_rstrip_by_prefix] by (simp add: py_rstrip_def)

lemma py_rstrip_by_last: "py_rstrip_by P s \<noteq> [] \<Longrightarrow> \<not> P (last (py_rstrip_by P s))"
  by (metis hd_dropWhile hd_rev py_rstrip_by_def rev_is_Nil_conv rev_rev_ident)

lemma py_rstrip_by_idem: "py_rstrip_by P (py_rstrip_by P s) = py_rstrip_by P s"
  by (simp add: py_rstrip_by_def)

section \<open>Decimal numerals: \<open>str(n)\<close> of a non-negative int\<close>

definition digit_char :: "nat \<Rightarrow> char" where
  "digit_char d = char_of (48 + d)"

fun nat_str :: "nat \<Rightarrow> string" where
  "nat_str n = (if n < 10 then [digit_char n] else nat_str (n div 10) @ [digit_char (n mod 10)])"

declare nat_str.simps [simp del]

definition digit_val :: "char \<Rightarrow> nat" where
  "digit_val c = cp c - 48"

definition str_nat :: "string \<Rightarrow> nat" where
  "str_nat s = foldl (\<lambda>n c. 10 * n + digit_val c) 0 s"

lemma digit_val_char: "d < 10 \<Longrightarrow> digit_val (digit_char d) = d"
  by (simp add: digit_val_def digit_char_def cp_char_of)

lemma is_digit_char: "d < 10 \<Longrightarrow> is_digit (digit_char d)"
  by (simp add: digit_char_def is_digit_def cp_char_of)

lemma str_nat_nat_str [simp]: "str_nat (nat_str n) = n"
proof (induction n rule: nat_str.induct)
  case (1 n)
  show ?case
    by (cases "n < 10") (use 1 in \<open>auto simp: nat_str.simps [of n] str_nat_def digit_val_char\<close>)
qed

lemma nat_str_inj: "nat_str m = nat_str n \<longleftrightarrow> m = n"
  by (metis str_nat_nat_str)

lemma nat_str_digits: "c \<in> set (nat_str n) \<Longrightarrow> is_digit c"
proof (induction n rule: nat_str.induct)
  case (1 n)
  then show ?case
    by (cases "n < 10") (auto simp: nat_str.simps [of n] is_digit_char)
qed

lemma nat_str_nonempty: "nat_str n \<noteq> []"
  by (subst nat_str.simps) simp

definition int_str :: "int \<Rightarrow> string" where
  "int_str i = (if i < 0 then CHR ''-'' # nat_str (nat (- i)) else nat_str (nat i))"

lemma int_str_inj: "int_str i = int_str j \<longleftrightarrow> i = j"
proof -
  have "hd (nat_str n) \<noteq> CHR ''-''" for n
    using nat_str_digits [of "hd (nat_str n)" n] nat_str_nonempty [of n] by (auto simp: is_digit_def cp_def)
  then show ?thesis by (auto simp: int_str_def nat_str_inj split: if_splits)
      (metis list.sel(1))+
qed

end
