(* ===== verification/LC_Path.thy ===== *)
theory LC_Path
  imports LC_Str
begin

text \<open>
  Pure POSIX paths (\<open>pathlib.PurePosixPath\<close>) as their \<open>parts\<close> tuple: an absolute path
  has the part \<open>/\<close> first, \<open>Path('.')\<close> has no part. The filesystem is not here: what
  the code reads from it is an argument of the operations that read it.
\<close>

type_synonym path = "string list"

definition path_abs :: "path \<Rightarrow> bool" where
  "path_abs p \<longleftrightarrow> p \<noteq> [] \<and> hd p = ''/''"

definition path_str :: "path \<Rightarrow> string" where
  "path_str p = (if p = [] then ''.'' else if path_abs p then ''/'' @ py_join ''/'' (tl p)
     else py_join ''/'' p)"

definition path_parents :: "path \<Rightarrow> path list" where
  \<comment> \<open>\<open>p.parents\<close>: the proper ancestors, the nearest first\<close>
  "path_parents p = map (\<lambda>i. take i p) (rev [(if path_abs p then 1 else 0)..<length p])"

definition path_parent :: "path \<Rightarrow> path" where
  \<comment> \<open>\<open>p.parent\<close>: the root and \<open>.\<close> are their own parents\<close>
  "path_parent p = (if p = [] \<or> p = [''/''] then p else butlast p)"

definition path_name :: "path \<Rightarrow> string" where
  "path_name p = (if p = [] \<or> p = [''/''] then [] else last p)"

definition dot_char :: char where "dot_char = CHR ''.''"

definition path_suffix :: "path \<Rightarrow> string" where
  \<comment> \<open>\<open>p.suffix\<close>: from the last dot of the name, unless it is the first or the last character\<close>
  "path_suffix p = (let n = path_name p; t = takeWhile (\<lambda>c. c \<noteq> dot_char) (rev n)
     in if length t = length n \<or> t = [] \<or> length t + 1 = length n then [] else dot_char # rev t)"

fun split_on :: "char \<Rightarrow> string \<Rightarrow> string list" where
  \<comment> \<open>\<open>s.split(c)\<close>\<close>
  "split_on c [] = [[]]"
| "split_on c (x # s) = (if x = c then [] # split_on c s
     else case split_on c s of [] \<Rightarrow> [[x]] | y # ys \<Rightarrow> (x # y) # ys)"

definition path_of :: "string \<Rightarrow> path" where
  \<comment> \<open>\<open>Path(s)\<close>: empty and \<open>.\<close> components vanish\<close>
  "path_of s = (if s \<noteq> [] \<and> hd s = CHR ''/'' then [''/''] else [])
     @ filter (\<lambda>x. x \<noteq> [] \<and> x \<noteq> ''.'') (split_on (CHR ''/'') s)"

definition relative_to :: "path \<Rightarrow> path \<Rightarrow> path option" where
  "relative_to p base = (if prefix base p then Some (drop (length base) p) else None)"

definition wf_path :: "path \<Rightarrow> bool" where
  \<comment> \<open>what pathlib's parser guarantees: parts are separator-free and not empty, but for a leading root\<close>
  "wf_path p \<longleftrightarrow> (\<forall>x \<in> set (if path_abs p then tl p else p). x \<noteq> [] \<and> CHR ''/'' \<notin> set x)"

lemma py_join_simps [simp]:
  "py_join sep [] = []" "py_join sep [x] = x" "py_join sep (x # y # ys) = x @ sep @ py_join sep (y # ys)"
  by (simp_all add: py_join_def)

lemma first_occurrence_eq:
  "c \<notin> set a \<Longrightarrow> c \<notin> set b \<Longrightarrow> a @ c # r = b @ c # s \<longleftrightarrow> a = b \<and> r = s"
proof (induction a arbitrary: b)
  case Nil
  then show ?case by (cases b) auto
next
  case (Cons x a)
  then show ?case by (cases b) auto
qed

lemma py_join_inj:
  assumes "length xs = length ys"
    and "\<forall>x \<in> set xs. CHR ''/'' \<notin> set x" and "\<forall>y \<in> set ys. CHR ''/'' \<notin> set y"
    and "py_join ''/'' xs = py_join ''/'' ys"
  shows "xs = ys"
  using assms
proof (induction xs ys rule: list_induct2)
  case (Cons x xs y ys)
  then show ?case
    by (cases xs; cases ys) (auto simp: first_occurrence_eq)
qed simp

lemma wf_path_take: "wf_path p \<Longrightarrow> wf_path (take n p)"
  by (cases p; cases n) (auto simp: wf_path_def path_abs_def dest: in_set_takeD split: if_splits)

lemma path_str_inj:
  assumes "wf_path p" "wf_path q" "length p = length q" "path_str p = path_str q"
  shows "p = q"
proof (cases "p = []")
  case False
  then have q: "q \<noteq> []" using assms(3) by auto
  have hd_str: "path_abs r \<longleftrightarrow> hd (path_str r) = CHR ''/''" if "wf_path r" "r \<noteq> []" for r
    using that by (cases r; cases "tl r")
      (auto simp: path_str_def wf_path_def path_abs_def split: if_splits dest: hd_in_set)
  have ab: "path_abs p = path_abs q"
    using hd_str [OF assms(1) False] hd_str [OF assms(2) q] assms(4) by simp
  show ?thesis
  proof (cases "path_abs p")
    case True
    have "tl p = tl q"
      by (rule py_join_inj) (use assms ab True False q in \<open>auto simp: path_str_def wf_path_def\<close>)
    then show ?thesis using True ab False q by (metis list.expand path_abs_def)
  next
    case nab: False
    show ?thesis
      by (rule py_join_inj) (use assms ab nab False q in \<open>auto simp: path_str_def wf_path_def\<close>)
  qed
qed (use assms in simp)

lemma path_parents_iff:
  "a \<in> set (path_parents p) \<longleftrightarrow> strict_prefix a p \<and> (path_abs p \<longrightarrow> a \<noteq> [])"
proof
  assume "a \<in> set (path_parents p)"
  then obtain i where "i < length p" "a = take i p" "path_abs p \<longrightarrow> 1 \<le> i"
    by (auto simp: path_parents_def split: if_splits)
  then show "strict_prefix a p \<and> (path_abs p \<longrightarrow> a \<noteq> [])"
    by (auto simp: strict_prefix_def take_is_prefix path_abs_def)
next
  assume a: "strict_prefix a p \<and> (path_abs p \<longrightarrow> a \<noteq> [])"
  then have "a = take (length a) p" "length a < length p" "path_abs p \<longrightarrow> 1 \<le> length a"
    by (auto simp: strict_prefix_def prefix_def Suc_le_eq)
  then show "a \<in> set (path_parents p)"
    by (auto simp: path_parents_def image_iff intro!: bexI [of _ "length a"])
qed

lemma path_parents_trans:
  "a \<in> set (path_parents b) \<Longrightarrow> b \<in> set (path_parents c) \<Longrightarrow> a \<in> set (path_parents c)"
  by (auto simp: path_parents_iff path_abs_def strict_prefix_def prefix_def)

lemma path_parents_irrefl: "p \<notin> set (path_parents p)"
  by (simp add: path_parents_iff)

lemma length_path_parents: "a \<in> set (path_parents p) \<Longrightarrow> length a < length p"
  by (simp add: path_parents_iff prefix_length_less)

lemma distinct_path_parents: "distinct (path_parents p)"
proof -
  have "inj_on (\<lambda>i. take i p) (set (rev [(if path_abs p then 1 else 0)..<length p]))"
    by (rule inj_onI) (metis (no_types, lifting) atLeastLessThan_iff length_take less_imp_le min.absorb2 set_rev set_upt)
  then show ?thesis by (simp add: path_parents_def distinct_map)
qed

lemma path_parent_in_parents:
  assumes "path_parent p \<noteq> p"
  shows "path_parent p \<in> set (path_parents p)"
proof -
  from assms have p: "p \<noteq> []" "p \<noteq> [''/'']" "path_parent p = butlast p"
    by (auto simp: path_parent_def split: if_splits)
  have "strict_prefix (butlast p) p"
    using p(1) by (metis append_butlast_last_id not_Cons_self2 self_append_conv prefixI strict_prefixI)
  moreover have "path_abs p \<Longrightarrow> butlast p \<noteq> []"
    using p(1,2) by (cases p) (auto simp: path_abs_def split: if_splits)
  ultimately show ?thesis using p(3) by (simp add: path_parents_iff)
qed

lemma path_parent_shorter: "path_parent p \<noteq> p \<Longrightarrow> length (path_parent p) < length p"
  by (auto simp: path_parent_def split: if_splits)

end
