(* ===== verification/Svc_Config.thy ===== *)
theory Svc_Config
  imports LC_Path
begin

text \<open>
  The service configuration (\<open>longctx_svc/config.py\<close>): the name and extension tables, the
  limits with their environment overrides, the top-level configuration. The environment is a
  function from names to values. Only the limits the modelled code reads are used elsewhere;
  all fields are here.
\<close>

type_synonym environ = "string \<Rightarrow> string option"

section \<open>\<open>int(str)\<close>\<close>

fun digits_value :: "nat \<Rightarrow> bool \<Rightarrow> string \<Rightarrow> nat option" where
  \<comment> \<open>digits with single underscores between them; the flag says a digit came last\<close>
  "digits_value acc dg [] = (if dg then Some acc else None)"
| "digits_value acc dg (c # s) =
     (if is_digit c then digits_value (10 * acc + (cp c - 48)) True s
      else if c = CHR ''_'' \<and> dg then digits_value acc False s
      else None)"

definition py_int :: "string \<Rightarrow> exc + int" where
  "py_int s =
     (let t = py_strip s;
          neg = (t \<noteq> [] \<and> hd t = CHR ''-'');
          u = (if t \<noteq> [] \<and> (hd t = CHR ''-'' \<or> hd t = CHR ''+'') then tl t else t)
      in case digits_value 0 False u of
           None \<Rightarrow> Inl ValueError
         | Some n \<Rightarrow> Inr (if neg then - int n else int n))"

lemma digits_value_digits:
  "\<forall>c \<in> set s. is_digit c \<Longrightarrow> s \<noteq> [] \<or> dg \<Longrightarrow>
   digits_value acc dg s = Some (foldl (\<lambda>n c. 10 * n + digit_val c) acc s)"
  by (induction acc dg s rule: digits_value.induct) (auto simp: digit_val_def)

lemma digit_not_space: "is_digit c \<Longrightarrow> \<not> is_space c"
  by (auto simp: is_digit_def is_space_def)

lemma py_strip_id:
  assumes "s \<noteq> []" "\<not> is_space (hd s)" "\<not> is_space (last s)"
  shows "py_strip s = s"
proof -
  have "dropWhile is_space s = s" using assms(1,2) by (cases s) simp_all
  moreover have "dropWhile is_space (rev s) = rev s" using assms(1,3) by (cases s rule: rev_cases) simp_all
  ultimately show ?thesis by (simp add: py_strip_def py_lstrip_def py_rstrip_def py_rstrip_by_def)
qed

lemma py_int_int_str: "py_int (int_str i) = Inr i"
proof -
  have d: "digits_value 0 False (nat_str n) = Some n" for n
    using digits_value_digits [of "nat_str n" False 0] nat_str_digits nat_str_nonempty
    by (simp add: str_nat_nat_str flip: str_nat_def)
  have h: "is_digit (hd (nat_str n))" "is_digit (last (nat_str n))" for n
    using nat_str_digits nat_str_nonempty by (metis hd_in_set, metis last_in_set)
  have "is_digit (CHR ''-'') = False" "is_digit (CHR ''+'') = False" by (simp_all add: is_digit_def cp_def)
  then have sgn: "hd (nat_str n) \<noteq> CHR ''-''" "hd (nat_str n) \<noteq> CHR ''+''" for n using h(1) by metis+
  have "\<not> is_space (CHR ''-'')" by (simp add: is_space_def cp_def)
  then have "py_strip (int_str i) = int_str i"
    using h digit_not_space nat_str_nonempty by (intro py_strip_id) (auto simp: int_str_def)
  then show ?thesis using sgn nat_str_nonempty by (auto simp: py_int_def int_str_def d Let_def)
qed

section \<open>Tables\<close>

definition sentinels :: "string list" where
  "sentinels = [''.git'', ''pyproject.toml'', ''package.json'', ''pnpm-workspace.yaml'', ''Cargo.toml'',
     ''go.mod'', ''WORKSPACE'', ''BUILD.bazel'', ''pom.xml'', ''Gemfile'']"

definition always_skip_dirs :: "string list" where
  "always_skip_dirs = [''.git'', ''node_modules'', ''.venv'', ''venv'', ''__pycache__'', ''dist'', ''build'',
     ''target'', ''.next'', ''.cache'', ''.pytest_cache'', ''.mypy_cache'', ''.ruff_cache'', ''.idea'',
     ''.vscode'', ''.tox'']"

definition lockfile_names :: "string list" where
  "lockfile_names = [''package-lock.json'', ''yarn.lock'', ''pnpm-lock.yaml'', ''Cargo.lock'', ''go.sum'',
     ''Pipfile.lock'', ''poetry.lock'', ''uv.lock'', ''composer.lock'', ''Gemfile.lock'']"

definition code_exts :: "string list" where
  "code_exts = [''.py'', ''.pyx'', ''.pyi'', ''.ts'', ''.tsx'', ''.js'', ''.jsx'', ''.mjs'', ''.cjs'',
     ''.go'', ''.rs'', ''.swift'', ''.java'', ''.kt'', ''.scala'',
     ''.cpp'', ''.cxx'', ''.cc'', ''.c'', ''.h'', ''.hpp'', ''.hh'', ''.cs'', ''.fs'', ''.vb'',
     ''.rb'', ''.php'', ''.pl'', ''.lua'', ''.sh'', ''.bash'', ''.zsh'', ''.fish'', ''.sql'']"

definition prose_exts :: "string list" where
  "prose_exts = [''.md'', ''.markdown'', ''.txt'', ''.rst'', ''.adoc'', ''.org'']"

definition config_exts :: "string list" where
  "config_exts = [''.json'', ''.yaml'', ''.yml'', ''.toml'', ''.ini'', ''.cfg'', ''.env'', ''.properties'']"

definition binary_exts :: "string list" where
  "binary_exts = [''.png'', ''.jpg'', ''.jpeg'', ''.gif'', ''.bmp'', ''.webp'', ''.ico'', ''.svg'',
     ''.pdf'', ''.doc'', ''.docx'', ''.xls'', ''.xlsx'', ''.ppt'', ''.pptx'',
     ''.zip'', ''.tar'', ''.gz'', ''.bz2'', ''.xz'', ''.7z'', ''.rar'',
     ''.so'', ''.dylib'', ''.dll'', ''.o'', ''.a'', ''.lib'', ''.exe'',
     ''.pyc'', ''.pyo'', ''.class'', ''.jar'',
     ''.mp3'', ''.mp4'', ''.wav'', ''.flac'', ''.mov'', ''.avi'', ''.mkv'', ''.webm'',
     ''.ttf'', ''.otf'', ''.woff'', ''.woff2'', ''.eot'', ''.sqlite'', ''.db'', ''.dat'',
     ''.pkl'', ''.npy'', ''.npz'', ''.bin'', ''.safetensors'', ''.gguf'']"

lemma ext_tables_disjoint: "set code_exts \<inter> set prose_exts = {}" "set code_exts \<inter> set config_exts = {}"
  "set prose_exts \<inter> set config_exts = {}" "set (code_exts @ prose_exts @ config_exts) \<inter> set binary_exts = {}"
  by code_simp+

section \<open>Limits and the service configuration\<close>

record limits =
  max_file_size_bytes :: int
  max_files_hot :: int
  max_files_package :: int
  soft_index_seconds :: int
  hard_index_seconds :: int
  max_indexes_in_memory :: int
  session_idle_timeout_seconds :: int
  index_idle_timeout_seconds :: int
  chunk_lines_default :: int
  chunk_lines_overlap :: int
  watcher_debounce_seconds :: real
  confidence_threshold :: real
  confidence_consecutive_low :: int
  rerank_min_chunks_cfg :: int
  multiquery_min_chunks :: int
  rerank_prefilter_small :: int
  rerank_prefilter_large :: int
  coarse_filter_min_chunks :: int
  rrf_k :: int
  splice_max_chars :: int

definition limits_default :: "limits" where
  "limits_default = \<lparr>max_file_size_bytes = 5 * 1024 * 1024, max_files_hot = 1000, max_files_package = 50000,
     soft_index_seconds = 60, hard_index_seconds = 5 * 60, max_indexes_in_memory = 4,
     session_idle_timeout_seconds = 2 * 60 * 60, index_idle_timeout_seconds = 30 * 60,
     chunk_lines_default = 50, chunk_lines_overlap = 5, watcher_debounce_seconds = 1,
     confidence_threshold = 3 / 10, confidence_consecutive_low = 2,
     rerank_min_chunks_cfg = 1000, multiquery_min_chunks = 1000, rerank_prefilter_small = 20,
     rerank_prefilter_large = 100, coarse_filter_min_chunks = 5000, rrf_k = 60, splice_max_chars = 4096 * 4\<rparr>"

definition env_int :: "environ \<Rightarrow> string \<Rightarrow> int \<Rightarrow> exc + int" where
  "env_int env name dflt = (case env name of None \<Rightarrow> Inr dflt | Some s \<Rightarrow> py_int s)"

definition limits_from_env :: "environ \<Rightarrow> exc + limits" where
  "limits_from_env env =
     (case env_int env ''LONGCTX_MAX_FILE_BYTES'' (max_file_size_bytes limits_default) of Inl e \<Rightarrow> Inl e
      | Inr a \<Rightarrow> (case env_int env ''LONGCTX_MAX_HOT'' (max_files_hot limits_default) of Inl e \<Rightarrow> Inl e
      | Inr b \<Rightarrow> (case env_int env ''LONGCTX_MAX_PACKAGE'' (max_files_package limits_default) of Inl e \<Rightarrow> Inl e
      | Inr c \<Rightarrow> (case env_int env ''LONGCTX_COARSE_FILTER_MIN_CHUNKS'' (coarse_filter_min_chunks limits_default) of Inl e \<Rightarrow> Inl e
      | Inr d \<Rightarrow> Inr (limits_default\<lparr>max_file_size_bytes := a, max_files_hot := b, max_files_package := c,
                       coarse_filter_min_chunks := d\<rparr>)))))"

record service_config =
  cf_cache_dir :: string
  cf_embedder_model :: string
  cf_reranker_model :: string
  cf_use_multi_query :: bool
  cf_use_treesitter :: bool
  cf_use_coarse_filter :: bool
  cf_use_symbol_augment :: bool
  cf_limits :: limits

definition env_get :: "environ \<Rightarrow> string \<Rightarrow> string \<Rightarrow> string" where
  "env_get env name dflt = (case env name of None \<Rightarrow> dflt | Some s \<Rightarrow> s)"

definition service_config_of :: "string \<Rightarrow> environ \<Rightarrow> exc + service_config" where
  \<comment> \<open>\<open>ServiceConfig()\<close>; \<open>home\<close> is \<open>Path.home()\<close> as a string\<close>
  "service_config_of home env =
     (case limits_from_env env of Inl e \<Rightarrow> Inl e
      | Inr l \<Rightarrow> Inr \<lparr>
          cf_cache_dir = (let c = env_get env ''LONGCTX_CACHE_DIR'' [] in if c = [] then home @ ''/.longctx'' else c),
          cf_embedder_model = env_get env ''LONGCTX_EMBEDDER'' ''sentence-transformers/all-MiniLM-L6-v2'',
          cf_reranker_model = env_get env ''LONGCTX_RERANKER'' ''BAAI/bge-reranker-v2-m3'',
          cf_use_multi_query = (env_get env ''LONGCTX_MULTIQUERY'' ''1'' = ''1''),
          cf_use_treesitter = (env_get env ''LONGCTX_TS'' ''0'' = ''1''),
          cf_use_coarse_filter = (env_get env ''LONGCTX_COARSE_FILTER'' ''0'' = ''1''),
          cf_use_symbol_augment = (env_get env ''LONGCTX_SYMBOL_AUGMENT'' ''1'' = ''1''),
          cf_limits = l\<rparr>)"

definition get_config :: "string \<Rightarrow> environ \<Rightarrow> service_config option \<Rightarrow> (exc + service_config) \<times> service_config option" where
  \<comment> \<open>the singleton: read once, then kept whatever the environment becomes\<close>
  "get_config home env cur =
     (case cur of
        Some c \<Rightarrow> (Inr c, cur)
      | None \<Rightarrow> (case service_config_of home env of Inl e \<Rightarrow> (Inl e, None) | Inr c \<Rightarrow> (Inr c, Some c)))"

lemma get_config_sticky:
  "get_config home env cur = (Inr c, cur') \<Longrightarrow> get_config home' env' cur' = (Inr c, cur')"
  by (auto simp: get_config_def split: option.splits sum.splits)

lemma env_int_default: "env name = None \<Longrightarrow> env_int env name d = Inr d"
  by (simp add: env_int_def)

lemma config_no_env: "service_config_of home (\<lambda>n. None) = Inr \<lparr>cf_cache_dir = home @ ''/.longctx'',
     cf_embedder_model = ''sentence-transformers/all-MiniLM-L6-v2'', cf_reranker_model = ''BAAI/bge-reranker-v2-m3'',
     cf_use_multi_query = True, cf_use_treesitter = False, cf_use_coarse_filter = False,
     cf_use_symbol_augment = True, cf_limits = limits_default\<rparr>"
  by (simp add: service_config_of_def limits_from_env_def env_int_default env_get_def limits_default_def)

text \<open>
  An integer override survives the environment. Whatever integers are written, as Python
  prints them, to the four variables, the limits read them back exactly and every other limit
  keeps its default.
\<close>

lemma limits_env_roundtrip:
  "limits_from_env [''LONGCTX_MAX_FILE_BYTES'' \<mapsto> int_str a, ''LONGCTX_MAX_HOT'' \<mapsto> int_str b,
      ''LONGCTX_MAX_PACKAGE'' \<mapsto> int_str c, ''LONGCTX_COARSE_FILTER_MIN_CHUNKS'' \<mapsto> int_str d]
   = Inr (limits_default\<lparr>max_file_size_bytes := a, max_files_hot := b, max_files_package := c,
       coarse_filter_min_chunks := d\<rparr>)"
  by (simp add: limits_from_env_def env_int_def py_int_int_str)

end
