(* ===== verification/LC_Lines.thy ===== *)
theory LC_Lines
  imports LC_Str
begin

text \<open>
  Line ranges. Python slices, the fact that splitting a run of lines again gives those lines,
  and the sliding line window that two chunkers share.
\<close>

section \<open>Slices\<close>

definition slice_bound :: "nat \<Rightarrow> int \<Rightarrow> nat" where
  "slice_bound n i = (if i < 0 then nat (int n + i) else min n (nat i))"

definition py_slice :: "int \<Rightarrow> int \<Rightarrow> 'a list \<Rightarrow> 'a list" where
  \<comment> \<open>\<open>xs[a:b]\<close>: bounds clamp to the list, negative ones count from its end\<close>
  "py_slice a b xs = take (slice_bound (length xs) b - slice_bound (length xs) a) (drop (slice_bound (length xs) a) xs)"

lemma py_slice_in: "0 \<le> a \<Longrightarrow> b \<le> int (length xs) \<Longrightarrow> 0 \<le> b \<Longrightarrow> py_slice a b xs = take (nat b - nat a) (drop (nat a) xs)"
  by (auto simp: py_slice_def slice_bound_def min_def)

lemma py_slice_sublist: "sublist (py_slice a b xs) xs"
  by (simp add: py_slice_def sublist_take sublist_drop sublist_order.order.trans [OF sublist_take sublist_drop])

lemma length_py_slice: "0 \<le> a \<Longrightarrow> a \<le> b \<Longrightarrow> b \<le> int (length xs) \<Longrightarrow> length (py_slice a b xs) = nat (b - a)"
  by (simp add: py_slice_in nat_diff_distrib')

lemma py_slice_nth_in: "0 \<le> a \<Longrightarrow> a \<le> int i \<Longrightarrow> int i < b \<Longrightarrow> b \<le> int (length xs) \<Longrightarrow> xs ! i \<in> set (py_slice a b xs)"
proof -
  assume a: "0 \<le> a" "a \<le> int i" "int i < b" "b \<le> int (length xs)"
  have "drop (nat a) xs ! (i - nat a) = xs ! i" using a by (subst nth_drop) auto
  then have "take (nat b - nat a) (drop (nat a) xs) ! (i - nat a) = xs ! i"
    using a by (subst nth_take) auto
  moreover have "i - nat a < length (take (nat b - nat a) (drop (nat a) xs))" using a by auto
  ultimately have "xs ! i \<in> set (take (nat b - nat a) (drop (nat a) xs))" by (metis nth_mem)
  then show ?thesis using a by (simp add: py_slice_in)
qed

section \<open>Splitting lines again\<close>

lemma split_keep_tail: "split_keep acc s = l # ls \<Longrightarrow> split_keep [] (concat ls) = ls"
  by (induction acc s rule: split_keep.induct) (auto simp: concat_split_keep split: if_splits)

lemma splitlines_drop: "splitlines_keep (concat (drop k (splitlines_keep s))) = drop k (splitlines_keep s)"
proof (induction k arbitrary: s)
  case (Suc k)
  show ?case
  proof (cases "splitlines_keep s")
    case (Cons l ls)
    then have "splitlines_keep (concat ls) = ls" by (metis split_keep_tail splitlines_keep_def)
    then show ?thesis using Suc [of "concat ls"] Cons by simp
  qed (simp add: splitlines_keep_def)
qed simp

lemma split_keep_head: "\<exists>t ls. split_keep acc (d # s) = (rev acc @ d # t) # ls"
proof (induction acc "d # s" arbitrary: d s rule: split_keep.induct)
  case (3 acc c d s)
  show ?case
  proof (cases "(cp c = 13 \<and> cp d = 10) \<or> is_line_break c")
    case False
    then obtain t ls where "split_keep (c # acc) (d # s) = (rev (c # acc) @ d # t) # ls"
      using 3(3) by blast
    then show ?thesis using False by auto
  qed auto
qed auto

lemma split_keep_take:
  "split_keep acc s \<noteq> [] \<Longrightarrow> split_keep acc (drop (length acc) (concat (take (Suc k) (split_keep acc s)))) = take (Suc k) (split_keep acc s)"
proof (induction acc s arbitrary: k rule: split_keep.induct)
  case (3 acc c d s)
  consider "cp c = 13 \<and> cp d = 10" | "\<not> (cp c = 13 \<and> cp d = 10)" "is_line_break c"
    | "\<not> (cp c = 13 \<and> cp d = 10)" "\<not> is_line_break c" by blast
  then show ?case
  proof cases
    case 1
    show ?thesis
    proof (cases "take k (split_keep [] s) = []")
      case False
      then obtain k' where k: "k = Suc k'" "split_keep [] s \<noteq> []" by (cases k) auto
      then show ?thesis using 1 3(1) [OF 1 k(2), of k'] by simp
    qed (use 1 in auto)
  next
    case 2
    show ?thesis
    proof (cases k)
      case (Suc k')
      obtain t ls where h: "split_keep [] (d # s) = (d # t) # ls" using split_keep_head [of "[]" d s] by auto
      then have "split_keep [] (concat (take (Suc k') (split_keep [] (d # s)))) = take (Suc k') (split_keep [] (d # s))"
        using 3(2) [OF 2, of k'] by simp
      then show ?thesis using 2 Suc h by auto
    qed (use 2 in simp)
  next
    case 3
    obtain t ls where h: "split_keep (c # acc) (d # s) = (rev acc @ c # d # t) # ls"
      using split_keep_head [of "c # acc" d s] by auto
    have "split_keep (c # acc) (drop (length (c # acc)) (concat (take (Suc k) (split_keep (c # acc) (d # s)))))
        = take (Suc k) (split_keep (c # acc) (d # s))"
      by (rule "3.IH"(3) [OF 3]) (simp add: h)
    then show ?thesis using 3 h by auto
  qed
qed auto

lemma splitlines_take: "splitlines_keep (concat (take k (splitlines_keep s))) = take k (splitlines_keep s)"
  using split_keep_take [of "[]" s "k - 1"]
  by (cases k; cases "split_keep [] s = []") (simp_all add: splitlines_keep_def)

lemma splitlines_range:
  "splitlines_keep (concat (take m (drop k (splitlines_keep s)))) = take m (drop k (splitlines_keep s))"
  using splitlines_take [of m "concat (drop k (splitlines_keep s))"] by (simp add: splitlines_drop)

section \<open>The sliding window\<close>

function windows :: "int \<Rightarrow> int \<Rightarrow> int \<Rightarrow> int \<Rightarrow> (int \<times> int) list" where
  \<comment> \<open>\<open>while start < n\<close>: half-open line ranges; \<open>step\<close> is at least one at every call\<close>
  "windows wsz step n start =
     (if n \<le> start \<or> step < 1 then []
      else let e = min (start + wsz) n in
        if e = n then [(start, e)] else (start, e) # windows wsz step n (start + step))"
  by pat_completeness auto
termination
  by (relation "measure (\<lambda>(wsz, step, n, start). nat (n - start))") auto

declare windows.simps [simp del]

lemma windows_bounds:
  "(s, e) \<in> set (windows wsz step n start) \<Longrightarrow> 1 \<le> wsz \<Longrightarrow>
   start \<le> s \<and> s < e \<and> e \<le> n \<and> e - s \<le> wsz \<and> (s - start) mod step = 0"
proof (induction wsz step n start rule: windows.induct)
  case (1 wsz step n start)
  have "(s - (start + step)) mod step = (s - start) mod step"
    by (metis diff_diff_add minus_mod_self2)
  moreover have "1 \<le> step" using 1(2) by (cases "step < 1") (auto simp: windows.simps [of wsz step n start])
  ultimately show ?case
    using 1 by (auto simp: windows.simps [of wsz step n start] Let_def min_def split: if_splits)
qed

lemma windows_cover:
  "1 \<le> step \<Longrightarrow> step \<le> wsz \<Longrightarrow> start \<le> i \<Longrightarrow> i < n \<Longrightarrow> \<exists>(s, e) \<in> set (windows wsz step n start). s \<le> i \<and> i < e"
proof (induction wsz step n start rule: windows.induct)
  case (1 wsz step n start)
  show ?case
  proof (cases "i < start + wsz \<or> n \<le> start + wsz")
    case True
    then show ?thesis using 1(2-) by (auto simp: windows.simps [of wsz step n start] Let_def min_def)
  next
    case False
    then have "\<exists>(s, e) \<in> set (windows wsz step n (start + step)). s \<le> i \<and> i < e"
      using 1 by (auto simp: Let_def min_def)
    then show ?thesis using 1(2-) False by (auto simp: windows.simps [of wsz step n start] Let_def min_def)
  qed
qed

lemma windows_nonempty: "1 \<le> step \<Longrightarrow> start < n \<Longrightarrow> windows wsz step n start \<noteq> []"
  by (simp add: windows.simps [of wsz step n start] Let_def)

lemma hd_windows: "1 \<le> step \<Longrightarrow> start < n \<Longrightarrow> hd (windows wsz step n start) = (start, min (start + wsz) n)"
  by (simp add: windows.simps [of wsz step n start] Let_def)

lemma windows_count:
  "1 \<le> step \<Longrightarrow> step \<le> wsz \<Longrightarrow> start < n \<Longrightarrow> int (length (windows wsz step n start)) * step \<le> n - start + step - 1"
proof (induction wsz step n start rule: windows.induct)
  case (1 wsz step n start)
  show ?case
  proof (cases "n \<le> start + wsz")
    case True
    then show ?thesis using 1(2-) by (simp add: windows.simps [of wsz step n start] Let_def)
  next
    case False
    then have "int (length (windows wsz step n (start + step))) * step \<le> n - (start + step) + step - 1"
      using 1 by (simp add: Let_def)
    then show ?thesis using 1(2-) False
      by (simp add: windows.simps [of wsz step n start] Let_def distrib_right)
  qed
qed

end
