(* ===== verification/Svc_Chunker.thy ===== *)
theory Svc_Chunker
  imports LC_Lines Svc_Config
begin

text \<open>
  File chunking (\<open>longctx_svc/indexer/chunker.py\<close>): the classification by extension, the
  sliding line window, and the prose chunker that groups paragraphs. The locale
  \<open>line_chunker\<close> is the contract of a line-window chunker; the tree-sitter chunker's own
  window satisfies it too.
\<close>

record chunk =
  ck_text :: string
  ck_file :: string
  ck_start :: int
  ck_end :: int
  ck_type :: string

definition chunk_display :: "chunk \<Rightarrow> string" where
  "chunk_display c = ck_file c @ '':'' @ int_str (ck_start c) @ ''-'' @ int_str (ck_end c)"

definition classify :: "path \<Rightarrow> string" where
  "classify p =
     (let ext = py_lower (path_suffix p) in
      if ext \<in> set code_exts then ''code''
      else if ext \<in> set prose_exts then ''prose''
      else if ext \<in> set config_exts then ''config''
      else ''other'')"

definition chunk_lines :: "string list \<Rightarrow> int \<Rightarrow> int \<Rightarrow> string \<Rightarrow> string \<Rightarrow> chunk list" where
  "chunk_lines lines lines_per_chunk overlap file_path file_type =
     (if lines = [] then []
      else
        let n = int (length lines) in
        if n \<le> lines_per_chunk
        then [\<lparr>ck_text = concat lines, ck_file = file_path, ck_start = 1, ck_end = n, ck_type = file_type\<rparr>]
        else
          let step = max 1 (lines_per_chunk - overlap)
          in map (\<lambda>(start, e). \<lparr>ck_text = concat (py_slice start e lines), ck_file = file_path,
                 ck_start = start + 1, ck_end = e, ck_type = file_type\<rparr>) (windows lines_per_chunk step n 0))"

section \<open>Paragraphs\<close>

type_synonym para = "int \<times> int \<times> string"

record para_state =
  pa_start :: "int option"
  pa_text :: "string list"
  pa_out :: "para list"

definition para_line :: "nat \<times> string \<Rightarrow> para_state \<Rightarrow> para_state" where
  \<comment> \<open>\<open>cur_start\<close> is set whenever \<open>cur_text\<close> is not empty\<close>
  "para_line il st =
     (let i = int (fst il); line = snd il in
      if \<not> py_blank line
      then st\<lparr>pa_start := (case pa_start st of None \<Rightarrow> Some i | Some s \<Rightarrow> Some s), pa_text := pa_text st @ [line]\<rparr>
      else if pa_text st \<noteq> []
      then st\<lparr>pa_start := None, pa_text := [],
              pa_out := pa_out st @ [(the (pa_start st), i - 1, concat (pa_text st))]\<rparr>
      else st)"

definition int_or :: "int option \<Rightarrow> int \<Rightarrow> int" where
  \<comment> \<open>\<open>x or d\<close> for an optional int: zero is falsy\<close>
  "int_or x d = (case x of None \<Rightarrow> d | Some v \<Rightarrow> if v = 0 then d else v)"

definition paragraphs_of :: "string list \<Rightarrow> para list" where
  "paragraphs_of lines =
     (let st = fold para_line (enumerate 1 lines) \<lparr>pa_start = None, pa_text = [], pa_out = []\<rparr>
      in if pa_text st \<noteq> []
         then pa_out st @ [(int_or (pa_start st) 1, int (length lines), concat (pa_text st))]
         else pa_out st)"

record para_buf =
  pb_chunks :: "chunk list"
  pb_text :: string
  pb_start :: "int option"
  pb_end :: "int option"
  pb_lines :: int

definition prose_chunk :: "string \<Rightarrow> string \<Rightarrow> int \<Rightarrow> int \<Rightarrow> chunk" where
  "prose_chunk file_path t s e = \<lparr>ck_text = t, ck_file = file_path, ck_start = s, ck_end = e, ck_type = ''prose''\<rparr>"

definition buf_flush :: "string \<Rightarrow> int \<Rightarrow> int \<Rightarrow> para_buf \<Rightarrow> para_buf" where
  "buf_flush file_path s e b =
     (if pb_text b \<noteq> []
      then \<lparr>pb_chunks = pb_chunks b @ [prose_chunk file_path (pb_text b) (int_or (pb_start b) s) (int_or (pb_end b) e)],
            pb_text = [], pb_start = None, pb_end = None, pb_lines = 0\<rparr>
      else b)"

definition buf_para :: "string \<Rightarrow> int \<Rightarrow> int \<Rightarrow> string list \<Rightarrow> para \<Rightarrow> para_buf \<Rightarrow> para_buf" where
  "buf_para file_path max_lines overlap lines p b =
     (case p of (s, e, t) \<Rightarrow>
        let plen = e - s + 1 in
        if max_lines < plen
        then
          let b = buf_flush file_path s e b
          in b\<lparr>pb_chunks := pb_chunks b @ chunk_lines (py_slice (s - 1) e lines) max_lines overlap file_path ''prose''\<rparr>
        else
          let b = (if max_lines < pb_lines b + plen then buf_flush file_path s e b else b)
          in b\<lparr>pb_start := (case pb_start b of None \<Rightarrow> Some s | Some x \<Rightarrow> Some x), pb_end := Some e,
               pb_text := pb_text b @ (if pb_text b \<noteq> [] then [CHR 0x0A] else []) @ t,
               pb_lines := pb_lines b + plen\<rparr>)"

definition chunk_paragraphs :: "string \<Rightarrow> string \<Rightarrow> int \<Rightarrow> int \<Rightarrow> chunk list" where
  "chunk_paragraphs text file_path max_lines overlap =
     (let lines = splitlines_keep text; paragraphs = paragraphs_of lines in
      if paragraphs = [] then []
      else
        let b = fold (buf_para file_path max_lines overlap lines) paragraphs
                  \<lparr>pb_chunks = [], pb_text = [], pb_start = None, pb_end = None, pb_lines = 0\<rparr>
        in if pb_text b \<noteq> []
           then pb_chunks b @ [prose_chunk file_path (pb_text b) (int_or (pb_start b) 1) (int_or (pb_end b) (int (length lines)))]
           else pb_chunks b)"

section \<open>The contract of a line window\<close>

locale line_chunker =
  fixes chunks_of :: "string list \<Rightarrow> chunk list" and base :: int and budget :: int
  assumes chunk_range: "c \<in> set (chunks_of ls) \<Longrightarrow>
      base \<le> ck_start c \<and> ck_start c \<le> ck_end c \<and> ck_end c < base + int (length ls) \<and> ck_end c - ck_start c < budget"
    and chunk_text_lines: "c \<in> set (chunks_of ls) \<Longrightarrow>
      ck_text c = concat (py_slice (ck_start c - base) (ck_end c - base + 1) ls)"
    and chunk_cover: "base \<le> i \<Longrightarrow> i < base + int (length ls) \<Longrightarrow> \<exists>c \<in> set (chunks_of ls). ck_start c \<le> i \<and> i \<le> ck_end c"
begin

lemma line_kept:
  assumes "i < length ls"
  shows "\<exists>c \<in> set (chunks_of ls). ck_start c \<le> base + int i \<and> base + int i \<le> ck_end c \<and> sublist (ls ! i) (ck_text c)"
proof -
  obtain c where c: "c \<in> set (chunks_of ls)" "ck_start c \<le> base + int i" "base + int i \<le> ck_end c"
    using chunk_cover [of "base + int i" ls] assms by auto
  have "ls ! i \<in> set (py_slice (ck_start c - base) (ck_end c - base + 1) ls)"
    using c chunk_range [OF c(1)] by (intro py_slice_nth_in) auto
  then obtain us vs where "py_slice (ck_start c - base) (ck_end c - base + 1) ls = us @ ls ! i # vs"
    by (meson split_list)
  then have "ck_text c = concat us @ ls ! i @ concat vs" using chunk_text_lines [OF c(1)] by simp
  then have "sublist (ls ! i) (ck_text c)" by (metis sublist_appendI)
  then show ?thesis using c by blast
qed

lemma nothing_iff: "chunks_of ls = [] \<longleftrightarrow> ls = []"
proof
  show "ls = []" if "chunks_of ls = []" using that line_kept [of 0 ls] by auto
  show "chunks_of ls = []" if "ls = []" using that chunk_range [of _ ls] by (cases "chunks_of ls") fastforce+
qed

end

lemma chunk_lines_cases:
  assumes "1 \<le> L" "0 \<le> ov"
  shows "c \<in> set (chunk_lines ls L ov f ty) \<longleftrightarrow> (\<exists>s e. (s, e) \<in> set (windows L (max 1 (L - ov)) (int (length ls)) 0)
     \<and> c = \<lparr>ck_text = concat (py_slice s e ls), ck_file = f, ck_start = s + 1, ck_end = e, ck_type = ty\<rparr>)"
proof (cases "int (length ls) \<le> L \<and> ls \<noteq> []")
  case True
  then have "windows L (max 1 (L - ov)) (int (length ls)) 0 = [(0, int (length ls))]"
    by (subst windows.simps) (auto simp: Let_def)
  moreover have "py_slice 0 (int (length ls)) ls = ls" by (simp add: py_slice_in)
  ultimately show ?thesis using True by (auto simp: chunk_lines_def)
next
  case False
  then show ?thesis
    by (cases "ls = []") (auto simp: chunk_lines_def Let_def windows.simps [of _ _ 0] intro: rev_image_eqI)
qed

interpretation lw: line_chunker "\<lambda>ls. chunk_lines ls (max 1 L) (max 0 ov) f ty" 1 "max 1 L"
proof
  fix c ls
  assume "c \<in> set (chunk_lines ls (max 1 L) (max 0 ov) f ty)"
  then obtain s e where se: "(s, e) \<in> set (windows (max 1 L) (max 1 (max 1 L - max 0 ov)) (int (length ls)) 0)"
    and c: "c = \<lparr>ck_text = concat (py_slice s e ls), ck_file = f, ck_start = s + 1, ck_end = e, ck_type = ty\<rparr>"
    by (auto simp: chunk_lines_cases)
  from windows_bounds [OF se] have "0 \<le> s \<and> s < e \<and> e \<le> int (length ls) \<and> e - s \<le> max 1 L" by simp
  then show "1 \<le> ck_start c \<and> ck_start c \<le> ck_end c \<and> ck_end c < 1 + int (length ls) \<and> ck_end c - ck_start c < max 1 L"
    by (simp add: c)
  show "ck_text c = concat (py_slice (ck_start c - 1) (ck_end c - 1 + 1) ls)" by (simp add: c)
next
  fix i :: int and ls :: "string list"
  assume "1 \<le> i" "i < 1 + int (length ls)"
  then obtain s e where se: "(s, e) \<in> set (windows (max 1 L) (max 1 (max 1 L - max 0 ov)) (int (length ls)) 0)"
    "s \<le> i - 1" "i - 1 < e"
    using windows_cover [of "max 1 (max 1 L - max 0 ov)" "max 1 L" 0 "i - 1" "int (length ls)"] by auto
  then have "\<lparr>ck_text = concat (py_slice s e ls), ck_file = f, ck_start = s + 1, ck_end = e, ck_type = ty\<rparr>
      \<in> set (chunk_lines ls (max 1 L) (max 0 ov) f ty)"
    unfolding chunk_lines_cases [of "max 1 L" "max 0 ov", simplified] by auto
  then show "\<exists>c \<in> set (chunk_lines ls (max 1 L) (max 0 ov) f ty). ck_start c \<le> i \<and> i \<le> ck_end c"
    using se by (intro bexI) auto
qed

section \<open>Paragraphs are the maximal runs of non-blank lines\<close>

definition para_ok :: "string list \<Rightarrow> para \<Rightarrow> bool" where
  "para_ok ls p = (case p of (s, e, t) \<Rightarrow> 1 \<le> s \<and> s \<le> e \<and> e \<le> int (length ls)
     \<and> t = concat (py_slice (s - 1) e ls) \<and> (\<forall>l \<in> set (py_slice (s - 1) e ls). \<not> py_blank l))"

definition para_before :: "para \<Rightarrow> para \<Rightarrow> bool" where
  "para_before p q \<longleftrightarrow> fst (snd p) < fst q"

lemma py_slice_append: "0 \<le> a \<Longrightarrow> 0 \<le> b \<Longrightarrow> b \<le> int (length xs) \<Longrightarrow> py_slice a b (xs @ ys) = py_slice a b xs"
  by (simp add: py_slice_in)

lemma para_ok_append: "para_ok ls p \<Longrightarrow> para_ok (ls @ ls') p"
  by (auto simp: para_ok_def py_slice_append split: prod.splits)

definition para_inv :: "string list \<Rightarrow> para_state \<Rightarrow> bool" where
  "para_inv ls st \<longleftrightarrow>
     (\<forall>p \<in> set (pa_out st). para_ok ls p) \<and> sorted_wrt para_before (pa_out st)
   \<and> (case pa_start st of
        None \<Rightarrow> pa_text st = []
      | Some s \<Rightarrow> 1 \<le> s \<and> s \<le> int (length ls) \<and> pa_text st = drop (nat (s - 1)) ls
          \<and> (\<forall>l \<in> set (pa_text st). \<not> py_blank l) \<and> (\<forall>p \<in> set (pa_out st). fst (snd p) < s))
   \<and> (\<forall>i < length ls. \<not> py_blank (ls ! i) \<longrightarrow>
        (\<exists>p \<in> set (pa_out st). fst p \<le> int i + 1 \<and> int i + 1 \<le> fst (snd p))
        \<or> (\<exists>s. pa_start st = Some s \<and> s \<le> int i + 1))"

lemma para_inv_start: "para_inv [] \<lparr>pa_start = None, pa_text = [], pa_out = []\<rparr>"
  by (simp add: para_inv_def)

lemma para_close:
  assumes inv: "para_inv ls st" and t: "pa_text st \<noteq> []"
  shows "\<exists>s. pa_start st = Some s \<and> 1 \<le> s \<and> para_ok ls (s, int (length ls), concat (pa_text st))
    \<and> sorted_wrt para_before (pa_out st @ [(s, int (length ls), concat (pa_text st))])"
proof -
  obtain s where s: "pa_start st = Some s" "1 \<le> s" "s \<le> int (length ls)" "pa_text st = drop (nat (s - 1)) ls"
      "\<forall>l \<in> set (pa_text st). \<not> py_blank l" "\<forall>p \<in> set (pa_out st). fst (snd p) < s"
    using inv t by (auto simp: para_inv_def split: option.splits)
  have "py_slice (s - 1) (int (length ls)) ls = pa_text st" using s(2,4) by (simp add: py_slice_in)
  then show ?thesis
    using s inv by (auto simp: para_ok_def para_inv_def sorted_wrt_append para_before_def)
qed

lemma para_line_inv:
  assumes inv: "para_inv ls st"
  shows "para_inv (ls @ [l]) (para_line (Suc (length ls), l) st)"
proof (cases "py_blank l")
  case True
  show ?thesis
  proof (cases "pa_text st = []")
    case empty: True
    then have "pa_start st = None" using inv by (auto simp: para_inv_def split: option.splits)
    then show ?thesis using inv True empty
      by (auto simp: para_line_def Let_def para_inv_def para_ok_append nth_append less_Suc_eq)
  next
    case False
    from para_close [OF inv False] obtain s where s: "pa_start st = Some s" "1 \<le> s"
        "para_ok ls (s, int (length ls), concat (pa_text st))"
        "sorted_wrt para_before (pa_out st @ [(s, int (length ls), concat (pa_text st))])" by blast
    have st': "para_line (Suc (length ls), l) st
        = st\<lparr>pa_start := None, pa_text := [], pa_out := pa_out st @ [(s, int (length ls), concat (pa_text st))]\<rparr>"
      using True False s(1) by (simp add: para_line_def)
    have "(\<exists>p \<in> set (pa_out st @ [(s, int (length ls), concat (pa_text st))]). fst p \<le> int i + 1 \<and> int i + 1 \<le> fst (snd p))"
      if "i < Suc (length ls)" "\<not> py_blank ((ls @ [l]) ! i)" for i
      using that inv s(1) True by (auto simp: para_inv_def nth_append less_Suc_eq split: if_splits)
    then show ?thesis unfolding st' using s inv
      by (simp add: para_inv_def para_ok_append)
  qed
next
  case False
  have sd: "\<exists>s. (case pa_start st of None \<Rightarrow> Some (int (length ls) + 1) | Some x \<Rightarrow> Some x) = Some s
      \<and> 1 \<le> s \<and> s \<le> int (length ls) + 1 \<and> pa_text st @ [l] = drop (nat (s - 1)) (ls @ [l])
      \<and> (\<forall>p \<in> set (pa_out st). fst (snd p) < s)"
    using inv by (fastforce simp: para_inv_def para_ok_def split: option.splits)
  then obtain s where s: "(case pa_start st of None \<Rightarrow> Some (int (length ls) + 1) | Some x \<Rightarrow> Some x) = Some s"
      "1 \<le> s" "s \<le> int (length ls) + 1" "pa_text st @ [l] = drop (nat (s - 1)) (ls @ [l])"
      "\<forall>p \<in> set (pa_out st). fst (snd p) < s" by blast
  have st': "para_line (Suc (length ls), l) st = st\<lparr>pa_start := Some s, pa_text := pa_text st @ [l]\<rparr>"
    using False s(1) by (cases "pa_start st") (simp_all add: para_line_def add.commute)
  have nb: "\<forall>x \<in> set (pa_text st). \<not> py_blank x" using inv by (auto simp: para_inv_def split: option.splits)
  have "(\<exists>p \<in> set (pa_out st). fst p \<le> int i + 1 \<and> int i + 1 \<le> fst (snd p)) \<or> s \<le> int i + 1"
    if "i < Suc (length ls)" "\<not> py_blank ((ls @ [l]) ! i)" for i
  proof (cases "i < length ls")
    case True
    then have "(\<exists>p \<in> set (pa_out st). fst p \<le> int i + 1 \<and> int i + 1 \<le> fst (snd p)) \<or> (\<exists>x. pa_start st = Some x \<and> x \<le> int i + 1)"
      using that inv by (simp add: para_inv_def nth_append)
    then show ?thesis using s(1) by auto
  next
    case False
    then show ?thesis using that(1) s(3) by simp
  qed
  then show ?thesis unfolding st' using s inv nb False
    by (simp add: para_inv_def para_ok_append)
qed

lemma para_lines_inv: "para_inv ls (fold para_line (enumerate 1 ls) \<lparr>pa_start = None, pa_text = [], pa_out = []\<rparr>)"
proof (induction ls rule: rev_induct)
  case (snoc l ls)
  then show ?case using para_line_inv by (simp add: enumerate_append_eq)
qed (simp add: para_inv_start)

lemma paragraphs_ok: "\<forall>p \<in> set (paragraphs_of ls). para_ok ls p" "sorted_wrt para_before (paragraphs_of ls)"
  and paragraphs_cover: "i < length ls \<Longrightarrow> \<not> py_blank (ls ! i) \<Longrightarrow>
    \<exists>p \<in> set (paragraphs_of ls). fst p \<le> int i + 1 \<and> int i + 1 \<le> fst (snd p)"
proof -
  let ?st = "fold para_line (enumerate 1 ls) \<lparr>pa_start = None, pa_text = [], pa_out = []\<rparr>"
  note inv = para_lines_inv [of ls]
  have none: "pa_text ?st = [] \<Longrightarrow> pa_start ?st = None"
    using inv by (auto simp: para_inv_def split: option.splits)
  have eq: "paragraphs_of ls = pa_out ?st \<and> pa_text ?st = [] \<or>
      (\<exists>s. pa_start ?st = Some s \<and> paragraphs_of ls = pa_out ?st @ [(s, int (length ls), concat (pa_text ?st))]
        \<and> para_ok ls (s, int (length ls), concat (pa_text ?st))
        \<and> sorted_wrt para_before (pa_out ?st @ [(s, int (length ls), concat (pa_text ?st))]))"
    using para_close [OF inv] by (cases "pa_text ?st = []") (auto simp: paragraphs_of_def Let_def int_or_def)
  show "\<forall>p \<in> set (paragraphs_of ls). para_ok ls p" "sorted_wrt para_before (paragraphs_of ls)"
    using eq inv by (auto simp: para_inv_def)
  assume "i < length ls" "\<not> py_blank (ls ! i)"
  then have "(\<exists>p \<in> set (pa_out ?st). fst p \<le> int i + 1 \<and> int i + 1 \<le> fst (snd p)) \<or> (\<exists>s. pa_start ?st = Some s \<and> s \<le> int i + 1)"
    using inv by (simp add: para_inv_def)
  then show "\<exists>p \<in> set (paragraphs_of ls). fst p \<le> int i + 1 \<and> int i + 1 \<le> fst (snd p)"
    using eq none \<open>i < length ls\<close> by auto
qed

section \<open>Grouping loses no line\<close>

definition para_size :: "para \<Rightarrow> int" where
  "para_size p = fst (snd p) - fst p + 1"

definition chunk_has :: "para \<Rightarrow> chunk \<Rightarrow> bool" where
  "chunk_has p c \<longleftrightarrow> ck_start c \<le> fst p \<and> fst (snd p) \<le> ck_end c \<and> sublist (snd (snd p)) (ck_text c)"

definition buf_has :: "para \<Rightarrow> para_buf \<Rightarrow> bool" where
  "buf_has p b \<longleftrightarrow> (\<exists>bs be. pb_start b = Some bs \<and> pb_end b = Some be \<and> bs \<le> fst p \<and> fst (snd p) \<le> be
     \<and> sublist (snd (snd p)) (pb_text b))"

definition buf_inv :: "string \<Rightarrow> int \<Rightarrow> int \<Rightarrow> string list \<Rightarrow> para list \<Rightarrow> para_buf \<Rightarrow> bool" where
  "buf_inv f M ov ls ps b \<longleftrightarrow>
     (pb_text b = [] \<longleftrightarrow> pb_start b = None) \<and> (pb_text b = [] \<longleftrightarrow> pb_end b = None)
   \<and> (\<forall>x. pb_start b = Some x \<longrightarrow> 1 \<le> x \<and> (\<exists>p \<in> set ps. x = fst p)) \<and> (\<forall>x. pb_end b = Some x \<longrightarrow> 1 \<le> x \<and> (\<exists>p \<in> set ps. x = fst (snd p)))
   \<and> (\<forall>p \<in> set ps. para_size p \<le> M \<longrightarrow> (\<exists>c \<in> set (pb_chunks b). chunk_has p c) \<or> buf_has p b)
   \<and> (\<forall>p \<in> set ps. M < para_size p \<longrightarrow>
        set (chunk_lines (py_slice (fst p - 1) (fst (snd p)) ls) M ov f ''prose'') \<subseteq> set (pb_chunks b))"

lemma int_or_pos: "1 \<le> v \<Longrightarrow> int_or (Some v) d = v"
  by (simp add: int_or_def)

lemma flush_has: "buf_has p b \<Longrightarrow> buf_inv f M ov ls ps b \<Longrightarrow> \<exists>c \<in> set (pb_chunks (buf_flush f s e b)). chunk_has p c"
  by (auto simp: buf_has_def buf_inv_def buf_flush_def chunk_has_def prose_chunk_def int_or_pos)

lemma buf_flush_inv:
  assumes "buf_inv f M ov ls ps b"
  shows "buf_inv f M ov ls ps (buf_flush f s e b)" "pb_text (buf_flush f s e b) = []"
    and "\<forall>p \<in> set ps. para_size p \<le> M \<longrightarrow> (\<exists>c \<in> set (pb_chunks (buf_flush f s e b)). chunk_has p c)"
proof -
  have grow: "set (pb_chunks b) \<subseteq> set (pb_chunks (buf_flush f s e b))" by (auto simp: buf_flush_def)
  show tx: "pb_text (buf_flush f s e b) = []" by (simp add: buf_flush_def)
  show all: "\<forall>p \<in> set ps. para_size p \<le> M \<longrightarrow> (\<exists>c \<in> set (pb_chunks (buf_flush f s e b)). chunk_has p c)"
    using assms flush_has [OF _ assms, of _ s e] grow unfolding buf_inv_def by blast
  have none: "pb_start (buf_flush f s e b) = None" "pb_end (buf_flush f s e b) = None"
    using assms by (auto simp: buf_flush_def buf_inv_def)
  have "\<forall>p \<in> set ps. M < para_size p \<longrightarrow>
        set (chunk_lines (py_slice (fst p - 1) (fst (snd p)) ls) M ov f ''prose'') \<subseteq> set (pb_chunks (buf_flush f s e b))"
    using assms grow unfolding buf_inv_def by blast
  then show "buf_inv f M ov ls ps (buf_flush f s e b)" using tx all none by (simp add: buf_inv_def)
qed

lemma para_text_nonempty: "para_ok ls (s, e, t) \<Longrightarrow> t \<noteq> []"
proof -
  assume ok: "para_ok ls (s, e, t)"
  then have "length (py_slice (s - 1) e ls) = nat (e - (s - 1))" by (intro length_py_slice) (auto simp: para_ok_def)
  then have "py_slice (s - 1) e ls \<noteq> []" using ok by (auto simp: para_ok_def)
  then obtain l where "l \<in> set (py_slice (s - 1) e ls)" by fastforce
  moreover from this have "l \<noteq> []" using ok by (auto simp: para_ok_def py_blank_def py_strip_def py_rstrip_def py_rstrip_by_def py_lstrip_def)
  ultimately show ?thesis using ok by (auto simp: para_ok_def)
qed

definition buf_add :: "para \<Rightarrow> para_buf \<Rightarrow> para_buf" where
  \<comment> \<open>the fall-through branch of the grouping loop\<close>
  "buf_add p b = (case p of (s, e, t) \<Rightarrow>
     b\<lparr>pb_start := (case pb_start b of None \<Rightarrow> Some s | Some x \<Rightarrow> Some x), pb_end := Some e,
       pb_text := pb_text b @ (if pb_text b \<noteq> [] then [CHR 0x0A] else []) @ t,
       pb_lines := pb_lines b + (e - s + 1)\<rparr>)"

lemma buf_add_inv:
  assumes inv: "buf_inv f M ov ls ps b" and ok: "para_ok ls p" and before: "\<forall>q \<in> set ps. para_before q p \<and> para_ok ls q"
    and small: "para_size p \<le> M"
  shows "buf_inv f M ov ls (ps @ [p]) (buf_add p b)"
proof -
  obtain s e t where p: "p = (s, e, t)" by (cases p)
  have se: "1 \<le> s" "s \<le> e" "t \<noteq> []" using ok para_text_nonempty by (auto simp: para_ok_def p)
  have start: "\<exists>x. pb_start (buf_add p b) = Some x \<and> 1 \<le> x \<and> x \<le> s \<and> (\<exists>q \<in> set (ps @ [p]). x = fst q)"
    using inv before se by (cases "pb_start b") (fastforce simp: buf_add_def buf_inv_def para_before_def para_ok_def p)+
  have old: "buf_has q (buf_add p b)" if "buf_has q b" "q \<in> set ps" for q
    using that before se by (fastforce simp: buf_has_def buf_add_def para_before_def p intro: sublist_order.order.trans sublist_appendI)
  have new: "buf_has p (buf_add p b)"
    using start sublist_appendI [of t "pb_text b @ [CHR 0x0A]" "[]"] by (auto simp: buf_has_def buf_add_def p)
  have tx: "pb_text (buf_add p b) \<noteq> []" "pb_end (buf_add p b) = Some e" "pb_chunks (buf_add p b) = pb_chunks b"
    using se by (simp_all add: buf_add_def p)
  have 1: "\<forall>x. pb_start (buf_add p b) = Some x \<longrightarrow> 1 \<le> x \<and> (\<exists>q \<in> set (ps @ [p]). x = fst q)" using start by (metis option.inject)
  have 2: "\<forall>x. pb_end (buf_add p b) = Some x \<longrightarrow> 1 \<le> x \<and> (\<exists>q \<in> set (ps @ [p]). x = fst (snd q))" using tx se by (simp add: p)
  have 3: "\<forall>q \<in> set (ps @ [p]). para_size q \<le> M \<longrightarrow> (\<exists>c \<in> set (pb_chunks (buf_add p b)). chunk_has q c) \<or> buf_has q (buf_add p b)"
    using inv old new unfolding buf_inv_def tx by auto
  have 4: "\<forall>q \<in> set (ps @ [p]). M < para_size q \<longrightarrow>
      set (chunk_lines (py_slice (fst q - 1) (fst (snd q)) ls) M ov f ''prose'') \<subseteq> set (pb_chunks (buf_add p b))"
    using inv small unfolding buf_inv_def tx by auto
  show ?thesis using 1 2 3 4 tx(1,2) start unfolding buf_inv_def by auto
qed

lemma buf_large_inv:
  assumes inv: "buf_inv f M ov ls ps b" and large: "M < para_size p" and tx: "pb_text b = []"
    and all: "\<forall>q \<in> set ps. para_size q \<le> M \<longrightarrow> (\<exists>c \<in> set (pb_chunks b). chunk_has q c)"
  shows "buf_inv f M ov ls (ps @ [p])
    (b\<lparr>pb_chunks := pb_chunks b @ chunk_lines (py_slice (fst p - 1) (fst (snd p)) ls) M ov f ''prose''\<rparr>)"
  using inv large tx all unfolding buf_inv_def by auto

lemma buf_para_inv:
  assumes inv: "buf_inv f M ov ls ps b" and ok: "para_ok ls p" and before: "\<forall>q \<in> set ps. para_before q p \<and> para_ok ls q"
  shows "buf_inv f M ov ls (ps @ [p]) (buf_para f M ov ls p b)"
proof (cases "M < para_size p")
  case True
  note fl = buf_flush_inv [OF inv, of "fst p" "fst (snd p)"]
  have "buf_para f M ov ls p b = (buf_flush f (fst p) (fst (snd p)) b)\<lparr>pb_chunks :=
      pb_chunks (buf_flush f (fst p) (fst (snd p)) b) @ chunk_lines (py_slice (fst p - 1) (fst (snd p)) ls) M ov f ''prose''\<rparr>"
    using True by (cases p) (simp add: buf_para_def para_size_def Let_def)
  then show ?thesis using buf_large_inv [OF fl(1) True fl(2,3)] by simp
next
  case False
  then have "buf_para f M ov ls p b =
      buf_add p (if M < pb_lines b + para_size p then buf_flush f (fst p) (fst (snd p)) b else b)"
    by (cases p) (simp add: buf_para_def buf_add_def para_size_def Let_def)
  moreover have "buf_inv f M ov ls ps (if M < pb_lines b + para_size p then buf_flush f (fst p) (fst (snd p)) b else b)"
    using inv buf_flush_inv(1) by simp
  ultimately show ?thesis using buf_add_inv [OF _ ok before] False by simp
qed

lemma buf_paras_inv:
  assumes "\<forall>p \<in> set ps. para_ok ls p" "sorted_wrt para_before ps"
  shows "buf_inv f M ov ls ps (fold (buf_para f M ov ls) ps
    \<lparr>pb_chunks = [], pb_text = [], pb_start = None, pb_end = None, pb_lines = 0\<rparr>)"
  using assms
proof (induction ps rule: rev_induct)
  case (snoc p ps)
  then have "buf_inv f M ov ls ps (fold (buf_para f M ov ls) ps
      \<lparr>pb_chunks = [], pb_text = [], pb_start = None, pb_end = None, pb_lines = 0\<rparr>)"
    by (simp add: sorted_wrt_append)
  from buf_para_inv [OF this] snoc.prems show ?case by (simp add: sorted_wrt_append)
qed (simp add: buf_inv_def)

lemma chunk_paragraphs_has:
  fixes f :: string and M ov :: int
  assumes p: "p \<in> set (paragraphs_of (splitlines_keep text))"
  defines "cs \<equiv> chunk_paragraphs text f M ov"
  shows "para_size p \<le> M \<Longrightarrow> \<exists>c \<in> set cs. chunk_has p c"
    and "M < para_size p \<Longrightarrow> set (chunk_lines (py_slice (fst p - 1) (fst (snd p)) (splitlines_keep text)) M ov f ''prose'') \<subseteq> set cs"
proof -
  let ?ls = "splitlines_keep text"
  let ?b = "fold (buf_para f M ov ?ls) (paragraphs_of ?ls) \<lparr>pb_chunks = [], pb_text = [], pb_start = None, pb_end = None, pb_lines = 0\<rparr>"
  have inv: "buf_inv f M ov ?ls (paragraphs_of ?ls) ?b" by (rule buf_paras_inv [OF paragraphs_ok])
  have cs: "cs = pb_chunks (buf_flush f 1 (int (length ?ls)) ?b)"
    using p by (auto simp: cs_def chunk_paragraphs_def Let_def buf_flush_def)
  show "\<exists>c \<in> set cs. chunk_has p c" if "para_size p \<le> M"
    using buf_flush_inv(3) [OF inv] p that unfolding cs by blast
  show "set (chunk_lines (py_slice (fst p - 1) (fst (snd p)) ?ls) M ov f ''prose'') \<subseteq> set cs" if "M < para_size p"
    using buf_flush_inv(1) [OF inv, of 1 "int (length ?ls)"] p that unfolding cs buf_inv_def by blast
qed

section \<open>The contract of chunking\<close>

text \<open>
  The line window cuts a file into faithful overlapping pieces. For a positive window and a
  non-negative overlap, every chunk is the text of the line range it names, of at most the
  window's size; every line lies in some chunk; and there are no chunks iff there are no lines.
\<close>

lemma line_window_faithful:
  assumes "1 \<le> L" "0 \<le> ov"
  shows "(\<forall>c \<in> set (chunk_lines ls L ov f ty).
           1 \<le> ck_start c \<and> ck_start c \<le> ck_end c \<and> ck_end c \<le> int (length ls) \<and> ck_end c - ck_start c < L
         \<and> ck_text c = concat (py_slice (ck_start c - 1) (ck_end c) ls))
    \<and> (\<forall>i < length ls. \<exists>c \<in> set (chunk_lines ls L ov f ty). ck_start c \<le> int i + 1 \<and> int i + 1 \<le> ck_end c)
    \<and> (chunk_lines ls L ov f ty = [] \<longleftrightarrow> ls = [])"
proof -
  have L: "max 1 L = L" "max 0 ov = ov" using assms by simp_all
  note range = lw.chunk_range [where L = L and ov = ov and f = f and ty = ty, unfolded L]
  note lines = lw.chunk_text_lines [where L = L and ov = ov and f = f and ty = ty, unfolded L]
  note kept = lw.line_kept [where L = L and ov = ov and f = f and ty = ty, unfolded L]
  note empty = lw.nothing_iff [where L = L and ov = ov and f = f and ty = ty, unfolded L]
  show ?thesis using range lines kept empty by (fastforce simp: add.commute)
qed

lemma line_window_faithful_witness:
  "\<exists>c \<in> set (chunk_lines [''a'', ''b'', ''c''] 2 1 ''f'' ''code''). ck_start c \<le> int 2 + 1 \<and> int 2 + 1 \<le> ck_end c"
proof -
  have "2 < length [''a'', ''b'', ''c'']" by simp
  then show ?thesis using line_window_faithful [of 2 1 "[''a'', ''b'', ''c'']" "''f''" "''code''"] by fastforce
qed

text \<open>
  C18: the prose chunker loses no text. For a positive line budget and a non-negative overlap,
  every non-blank line of the text is contained in some chunk, whether its paragraph was grouped
  with others or was itself over the budget and cut by the line window.
\<close>

theorem prose_complete:
  assumes "1 \<le> M" "0 \<le> ov" "l \<in> set (splitlines_keep text)" "\<not> py_blank l"
  shows "\<exists>c \<in> set (chunk_paragraphs text f M ov). sublist l (ck_text c)"
proof -
  let ?ls = "splitlines_keep text"
  obtain i where i: "i < length ?ls" "?ls ! i = l" using assms(3) by (metis in_set_conv_nth)
  obtain p where p: "p \<in> set (paragraphs_of ?ls)" "fst p \<le> int i + 1" "int i + 1 \<le> fst (snd p)"
    using paragraphs_cover [of i ?ls] i assms(4) by auto
  then obtain s e t where ste: "p = (s, e, t)" "1 \<le> s" "e \<le> int (length ?ls)" "t = concat (py_slice (s - 1) e ?ls)"
    using paragraphs_ok(1) [of ?ls] by (cases p) (auto simp: para_ok_def)
  have mem: "l \<in> set (py_slice (s - 1) e ?ls)"
    using p ste i py_slice_nth_in [of "s - 1" i e ?ls] by simp
  show ?thesis
  proof (cases "para_size p \<le> M")
    case True
    have "sublist l t" using mem unfolding ste(4) by (metis concat.simps(2) concat_append split_list sublist_appendI)
    moreover obtain c where "c \<in> set (chunk_paragraphs text f M ov)" "chunk_has p c"
      using chunk_paragraphs_has(1) [OF p(1) True] by blast
    ultimately show ?thesis by (auto simp: chunk_has_def ste(1) intro: sublist_order.order.trans)
  next
    case False
    have L: "max 1 M = M" "max 0 ov = ov" using assms by simp_all
    obtain j where j: "j < length (py_slice (s - 1) e ?ls)" "py_slice (s - 1) e ?ls ! j = l"
      using mem by (metis in_set_conv_nth)
    obtain c where "c \<in> set (chunk_lines (py_slice (s - 1) e ?ls) M ov f ''prose'')" "sublist l (ck_text c)"
      using lw.line_kept [where L = M and ov = ov and f = f and ty = "''prose''", unfolded L, OF j(1)] j(2) by blast
    then show ?thesis using chunk_paragraphs_has(2) [OF p(1), where f = f and M = M and ov = ov] False by (auto simp: ste(1))
  qed
qed

definition demo_prose :: "string" where
  "demo_prose = ''one'' @ [CHR 0x0A, CHR 0x0A] @ ''two'' @ [CHR 0x0A] @ ''three'' @ [CHR 0x0A] @ ''four'' @ [CHR 0x0A]"

theorem prose_complete_witness:
  "\<exists>c \<in> set (chunk_paragraphs demo_prose ''f.md'' 2 0). sublist (''three'' @ [CHR 0x0A]) (ck_text c)"
  by (rule prose_complete) (simp, simp, code_simp+)

text \<open>
  A paragraph within the budget is located correctly, one over it is not. A paragraph of at
  most the budget is contained in one chunk whose line range covers the paragraph's lines. The
  windows of a longer paragraph number its lines from one, wherever in the file it stands: among
  the chunks is one that starts at line 1 with the paragraph's first lines.
\<close>

lemma prose_locations:
  assumes "1 \<le> M" "0 \<le> ov" "(s, e, t) \<in> set (paragraphs_of (splitlines_keep text))"
  shows "(e - s + 1 \<le> M \<longrightarrow> (\<exists>c \<in> set (chunk_paragraphs text f M ov). ck_start c \<le> s \<and> e \<le> ck_end c \<and> sublist t (ck_text c)))
    \<and> (M < e - s + 1 \<longrightarrow> (\<exists>c \<in> set (chunk_paragraphs text f M ov). ck_start c = 1 \<and> ck_end c = M
          \<and> ck_text c = concat (py_slice 0 M (py_slice (s - 1) e (splitlines_keep text)))))"
proof (intro conjI impI)
  show "\<exists>c \<in> set (chunk_paragraphs text f M ov). ck_start c \<le> s \<and> e \<le> ck_end c \<and> sublist t (ck_text c)" if "e - s + 1 \<le> M"
    using chunk_paragraphs_has(1) [OF assms(3), where f = f and M = M and ov = ov] that by (auto simp: para_size_def chunk_has_def)
  assume large: "M < e - s + 1"
  let ?big = "py_slice (s - 1) e (splitlines_keep text)"
  have "para_ok (splitlines_keep text) (s, e, t)" using assms(3) paragraphs_ok(1) by blast
  then have n: "int (length ?big) = e - s + 1" by (simp add: para_ok_def length_py_slice)
  have "hd (windows M (max 1 (M - ov)) (int (length ?big)) 0) = (0, M)"
    using n large assms(1) by (subst hd_windows) auto
  moreover have "windows M (max 1 (M - ov)) (int (length ?big)) 0 \<noteq> []"
    using n large assms(1) by (intro windows_nonempty) auto
  ultimately have "(0, M) \<in> set (windows M (max 1 (M - ov)) (int (length ?big)) 0)" by (metis hd_in_set)
  then have "\<lparr>ck_text = concat (py_slice 0 M ?big), ck_file = f, ck_start = 0 + 1, ck_end = M, ck_type = ''prose''\<rparr>
      \<in> set (chunk_lines ?big M ov f ''prose'')"
    unfolding chunk_lines_cases [OF assms(1,2)] by blast
  then show "\<exists>c \<in> set (chunk_paragraphs text f M ov). ck_start c = 1 \<and> ck_end c = M \<and> ck_text c = concat (py_slice 0 M ?big)"
    using chunk_paragraphs_has(2) [OF assms(3), where f = f and M = M and ov = ov] large by (force simp: para_size_def)
qed

lemma prose_locations_witness:
  "\<exists>c \<in> set (chunk_paragraphs demo_prose ''f.md'' 2 0). ck_start c = 1 \<and> ck_end c = 2
     \<and> ck_text c = ''two'' @ [CHR 0x0A] @ ''three'' @ [CHR 0x0A]"
proof -
  have "(3, 5, ''two'' @ [CHR 0x0A] @ ''three'' @ [CHR 0x0A] @ ''four'' @ [CHR 0x0A]) \<in> set (paragraphs_of (splitlines_keep demo_prose))"
    by code_simp
  note loc = prose_locations [where M = 2 and ov = 0 and f = "''f.md''", OF _ _ this]
  have "concat (py_slice 0 2 (py_slice (3 - 1) 5 (splitlines_keep demo_prose))) = ''two'' @ [CHR 0x0A] @ ''three'' @ [CHR 0x0A]"
    by code_simp
  then show ?thesis using loc by simp
qed

end
