(* ===== verification/Svc_Treesitter.thy ===== *)
theory Svc_Treesitter
  imports Svc_Chunker
begin

text \<open>
  The tree-sitter code chunker (\<open>longctx_svc/indexer/treesitter_chunker.py\<close>): the parser
  cache, the walk over the top-level definitions, the window for what is too long or lies
  between them. The grammars are not part of this repository: \<open>ts_env\<close> says which load and
  what a grammar's parse of a text has at top level (\<open>None\<close>: the parse raised).
\<close>

record ts_node =
  tn_type :: string
  tn_start_row :: int
  tn_end_row :: int

record ts_env =
  ts_load :: "string \<Rightarrow> string \<Rightarrow> bool"
  ts_parse :: "string \<Rightarrow> string \<Rightarrow> ts_node list option"

definition js_nodes :: "string list" where
  "js_nodes = [''function_declaration'', ''class_declaration'', ''method_definition'', ''export_statement'']"

definition typescript_nodes :: "string list" where
  "typescript_nodes = [''function_declaration'', ''class_declaration'', ''method_definition'',
     ''interface_declaration'', ''export_statement'']"

definition lang_registry :: "(string, string \<times> string list) dict" where
  "lang_registry =
     [(''.py'', ''tree_sitter_python'', [''function_definition'', ''class_definition'', ''decorated_definition'']),
      (''.ts'', ''tree_sitter_typescript'', typescript_nodes),
      (''.tsx'', ''tree_sitter_typescript'', typescript_nodes),
      (''.js'', ''tree_sitter_javascript'', js_nodes),
      (''.jsx'', ''tree_sitter_javascript'', js_nodes),
      (''.mjs'', ''tree_sitter_javascript'', js_nodes),
      (''.cjs'', ''tree_sitter_javascript'', js_nodes),
      (''.go'', ''tree_sitter_go'', [''function_declaration'', ''method_declaration'', ''type_declaration'']),
      (''.rs'', ''tree_sitter_rust'', [''function_item'', ''impl_item'', ''struct_item'', ''trait_item'', ''enum_item''])]"

text \<open>A parser is known by the grammar it was made from; the cache maps a module to its parser.\<close>

type_synonym parser_cache = "(string, string option) dict"

definition grammar_of :: "string \<Rightarrow> string \<Rightarrow> string" where
  "grammar_of mod_name ext =
     (if mod_name = ''tree_sitter_typescript'' then (if ext \<noteq> ''.tsx'' then ''typescript'' else ''tsx'') else mod_name)"

definition get_parser :: "ts_env \<Rightarrow> string \<Rightarrow> string \<Rightarrow> parser_cache \<Rightarrow> string option \<times> parser_cache" where
  "get_parser en mod_name ext cache =
     (case dict_get cache mod_name of
        Some p \<Rightarrow> (p, cache)
      | None \<Rightarrow>
          let p = (if ts_load en mod_name (grammar_of mod_name ext) then Some (grammar_of mod_name ext) else None)
          in (p, dict_set mod_name p cache))"

definition has_parser_for :: "ts_env \<Rightarrow> path \<Rightarrow> parser_cache \<Rightarrow> bool \<times> parser_cache" where
  "has_parser_for en p cache =
     (let ext = py_lower (path_suffix p) in
      case dict_get lang_registry ext of
        None \<Rightarrow> (False, cache)
      | Some (mod_name, _) \<Rightarrow> (let (q, cache) = get_parser en mod_name ext cache in (q \<noteq> None, cache)))"

definition ts_window :: "string \<Rightarrow> string \<Rightarrow> int \<Rightarrow> int \<Rightarrow> chunk list" where
  "ts_window text file_path max_lines base_line =
     (let lines = splitlines_keep text; n = int (length lines) in
      if n = 0 then []
      else if n \<le> max_lines
      then [\<lparr>ck_text = text, ck_file = file_path, ck_start = base_line, ck_end = base_line + n - 1, ck_type = ''code''\<rparr>]
      else
        let overlap = max 0 (max_lines div 10); step = max 1 (max_lines - overlap)
        in map (\<lambda>(start, e). \<lparr>ck_text = concat (py_slice start e lines), ck_file = file_path,
               ck_start = base_line + start, ck_end = base_line + e - 1, ck_type = ''code''\<rparr>) (windows max_lines step n 0))"

definition ts_node_step ::
  "string \<Rightarrow> int \<Rightarrow> string list \<Rightarrow> string list \<Rightarrow> ts_node \<Rightarrow> chunk list \<times> int \<Rightarrow> chunk list \<times> int" where
  \<comment> \<open>one turn of the walk; the state is what was emitted and the line cursor\<close>
  "ts_node_step file_path max_lines node_types lines node st =
     (case st of (chunks, cursor) \<Rightarrow>
        if tn_type node \<notin> set node_types then (chunks, cursor)
        else
          let start_row = tn_start_row node; end_row = tn_end_row node;
              preamble = concat (py_slice cursor start_row lines);
              chunks = (if cursor < start_row \<and> \<not> py_blank preamble
                        then chunks @ ts_window preamble file_path max_lines (cursor + 1) else chunks);
              body = concat (py_slice start_row (end_row + 1) lines);
              chunks = (if end_row - start_row + 1 \<le> max_lines
                        then chunks @ [\<lparr>ck_text = body, ck_file = file_path, ck_start = start_row + 1,
                                        ck_end = end_row + 1, ck_type = ''code''\<rparr>]
                        else chunks @ ts_window body file_path max_lines (start_row + 1))
          in (chunks, end_row + 1))"

definition chunk_code_treesitter ::
  "ts_env \<Rightarrow> string \<Rightarrow> string \<Rightarrow> string \<Rightarrow> int \<Rightarrow> parser_cache \<Rightarrow> chunk list option \<times> parser_cache" where
  "chunk_code_treesitter en text file_path ext max_lines cache =
     (case dict_get lang_registry ext of
        None \<Rightarrow> (None, cache)
      | Some (mod_name, node_types) \<Rightarrow>
          (case get_parser en mod_name ext cache of
             (None, cache) \<Rightarrow> (None, cache)
           | (Some parser, cache) \<Rightarrow>
               (case ts_parse en parser text of
                  None \<Rightarrow> (None, cache)
                | Some nodes \<Rightarrow>
                    let lines = splitlines_keep text; n_lines = int (length lines) in
                    if n_lines = 0 then (Some [], cache)
                    else
                      let (chunks, cursor) = fold (ts_node_step file_path max_lines node_types lines) nodes ([], 0);
                          tail = concat (py_slice cursor n_lines lines);
                          chunks = (if cursor < n_lines \<and> \<not> py_blank tail
                                    then chunks @ ts_window tail file_path max_lines (cursor + 1) else chunks)
                      in if chunks = [] then (None, cache) else (Some chunks, cache))))"

section \<open>The window\<close>

definition ts_window_lines :: "string list \<Rightarrow> string \<Rightarrow> int \<Rightarrow> int \<Rightarrow> chunk list" where
  "ts_window_lines lines f M base =
     map (\<lambda>(s, e). \<lparr>ck_text = concat (py_slice s e lines), ck_file = f, ck_start = base + s, ck_end = base + e - 1,
       ck_type = ''code''\<rparr>) (windows M (max 1 (M - max 0 (M div 10))) (int (length lines)) 0)"

lemma ts_window_eq:
  assumes "splitlines_keep (concat ls) = ls"
  shows "ts_window (concat ls) f M base = ts_window_lines ls f M base"
proof (cases "int (length ls) \<le> M \<and> ls \<noteq> []")
  case True
  then have "windows M (max 1 (M - max 0 (M div 10))) (int (length ls)) 0 = [(0, int (length ls))]"
    by (subst windows.simps) (auto simp: Let_def)
  moreover have "py_slice 0 (int (length ls)) ls = ls" by (simp add: py_slice_in)
  ultimately show ?thesis using True by (simp add: ts_window_def ts_window_lines_def assms)
next
  case False
  then show ?thesis
    by (cases "ls = []") (simp_all add: ts_window_def ts_window_lines_def assms Let_def windows.simps [of _ _ 0])
qed

interpretation tw: line_chunker "\<lambda>ls. ts_window_lines ls f (max 1 M) base" base "max 1 M"
proof
  fix c ls
  assume "c \<in> set (ts_window_lines ls f (max 1 M) base)"
  then obtain s e where se: "(s, e) \<in> set (windows (max 1 M) (max 1 (max 1 M - max 0 (max 1 M div 10))) (int (length ls)) 0)"
    and c: "c = \<lparr>ck_text = concat (py_slice s e ls), ck_file = f, ck_start = base + s, ck_end = base + e - 1, ck_type = ''code''\<rparr>"
    by (auto simp: ts_window_lines_def)
  from windows_bounds [OF se] have "0 \<le> s \<and> s < e \<and> e \<le> int (length ls) \<and> e - s \<le> max 1 M" by simp
  then show "base \<le> ck_start c \<and> ck_start c \<le> ck_end c \<and> ck_end c < base + int (length ls) \<and> ck_end c - ck_start c < max 1 M"
    by (simp add: c)
  show "ck_text c = concat (py_slice (ck_start c - base) (ck_end c - base + 1) ls)" by (simp add: c)
next
  fix i :: int and ls :: "string list"
  let ?step = "max 1 (max 1 M - max 0 (max 1 M div 10))"
  have "max 1 M div 10 < max 1 M" "0 \<le> max 1 M div 10" by (rule int_div_less_self) (simp_all add: pos_imp_zdiv_nonneg_iff)
  then have step: "1 \<le> ?step" "?step \<le> max 1 M" by linarith+
  assume "base \<le> i" "i < base + int (length ls)"
  then obtain s e where se: "(s, e) \<in> set (windows (max 1 M) ?step (int (length ls)) 0)" "s \<le> i - base" "i - base < e"
    using windows_cover [OF step, of 0 "i - base" "int (length ls)"] by auto
  then have "\<lparr>ck_text = concat (py_slice s e ls), ck_file = f, ck_start = base + s, ck_end = base + e - 1, ck_type = ''code''\<rparr>
      \<in> set (ts_window_lines ls f (max 1 M) base)"
    by (auto simp: ts_window_lines_def intro: rev_image_eqI)
  then show "\<exists>c \<in> set (ts_window_lines ls f (max 1 M) base). ck_start c \<le> i \<and> i \<le> ck_end c"
    using se by (intro bexI) auto
qed

section \<open>Every chunk is a range of lines, and every line with text is in one\<close>

definition located :: "string list \<Rightarrow> chunk \<Rightarrow> bool" where
  "located lines c \<longleftrightarrow> 1 \<le> ck_start c \<and> ck_start c \<le> ck_end c \<and> ck_end c \<le> int (length lines)
     \<and> ck_text c = concat (py_slice (ck_start c - 1) (ck_end c) lines)"

definition covered :: "string list \<Rightarrow> chunk list \<Rightarrow> int \<Rightarrow> bool" where
  "covered lines cs k \<longleftrightarrow> (\<forall>i < length lines. int i < k \<longrightarrow> \<not> py_blank (lines ! i)
     \<longrightarrow> (\<exists>c \<in> set cs. ck_start c \<le> int i + 1 \<and> int i + 1 \<le> ck_end c))"

lemma py_slice_slice:
  assumes "0 \<le> a" "a \<le> b" "b \<le> int (length xs)" "0 \<le> u" "u \<le> v" "v \<le> b - a"
  shows "py_slice u v (py_slice a b xs) = py_slice (a + u) (a + v) xs"
proof -
  have "py_slice u v (py_slice a b xs) = take (nat v - nat u) (drop (nat u) (take (nat b - nat a) (drop (nat a) xs)))"
    using assms by (simp add: py_slice_in)
  also have "\<dots> = take (min (nat v - nat u) (nat b - nat a - nat u)) (drop (nat u + nat a) xs)"
    by (simp add: drop_take)
  also have "\<dots> = take (nat (a + v) - nat (a + u)) (drop (nat (a + u)) xs)"
    using assms by (intro arg_cong2 [where f = take] arg_cong2 [where f = drop]) auto
  also have "\<dots> = py_slice (a + u) (a + v) xs" using assms by (simp add: py_slice_in)
  finally show ?thesis .
qed

lemma splitlines_slice:
  assumes "0 \<le> a" "a \<le> b" "b \<le> int (length (splitlines_keep t))"
  shows "splitlines_keep (concat (py_slice a b (splitlines_keep t))) = py_slice a b (splitlines_keep t)"
  using assms splitlines_range by (simp add: py_slice_in)

lemma window_of_range:
  fixes f :: string
  assumes r: "0 \<le> a" "a \<le> b" "b \<le> int (length (splitlines_keep t))" and M: "1 \<le> M"
  defines "w \<equiv> ts_window (concat (py_slice a b (splitlines_keep t))) f M (a + 1)"
  shows "c \<in> set w \<Longrightarrow> located (splitlines_keep t) c"
    and "a \<le> int i \<Longrightarrow> int i < b \<Longrightarrow> \<exists>c \<in> set w. ck_start c \<le> int i + 1 \<and> int i + 1 \<le> ck_end c"
proof -
  let ?seg = "py_slice a b (splitlines_keep t)"
  have M1: "max 1 M = M" using M by simp
  have w: "w = ts_window_lines ?seg f M (a + 1)" unfolding w_def by (rule ts_window_eq) (rule splitlines_slice [OF r])
  have len: "int (length ?seg) = b - a" using r by (simp add: length_py_slice)
  note range = tw.chunk_range [where M = M and f = f, unfolded M1]
    and lines = tw.chunk_text_lines [where M = M and f = f, unfolded M1]
    and cover = tw.chunk_cover [where M = M and f = f, unfolded M1]
  show "located (splitlines_keep t) c" if c: "c \<in> set w"
  proof -
    have rc: "a + 1 \<le> ck_start c" "ck_start c \<le> ck_end c" "ck_end c < a + 1 + (b - a)"
      using range [OF c [unfolded w]] len by simp_all
    then have "py_slice (ck_start c - (a + 1)) (ck_end c - (a + 1) + 1) ?seg = py_slice (ck_start c - 1) (ck_end c) (splitlines_keep t)"
      using r by (subst py_slice_slice) auto
    then show ?thesis using lines [OF c [unfolded w]] rc r by (simp add: located_def)
  qed
  show "\<exists>c \<in> set w. ck_start c \<le> int i + 1 \<and> int i + 1 \<le> ck_end c" if "a \<le> int i" "int i < b"
    using cover [of "a + 1" "int i + 1" ?seg] that len unfolding w by simp
qed

lemma py_blank_iff: "py_blank s \<longleftrightarrow> (\<forall>c \<in> set s. is_space c)"
proof
  assume "py_blank s"
  then have "dropWhile is_space (rev (dropWhile is_space s)) = []"
    by (simp add: py_blank_def py_strip_def py_rstrip_def py_rstrip_by_def py_lstrip_def)
  then have "\<forall>c \<in> set (dropWhile is_space s). is_space c" by (simp add: dropWhile_eq_Nil_conv)
  then show "\<forall>c \<in> set s. is_space c" by (metis hd_dropWhile hd_in_set dropWhile_eq_Nil_conv)
qed (auto simp: py_blank_def py_strip_def py_rstrip_def py_rstrip_by_def py_lstrip_def dropWhile_eq_Nil_conv dest: set_dropWhileD)

lemma blank_segment:
  assumes "py_blank (concat (py_slice a b lines))" "0 \<le> a" "b \<le> int (length lines)" "a \<le> int i" "int i < b"
  shows "py_blank (lines ! i)"
  using assms py_slice_nth_in [of a i b lines] by (auto simp: py_blank_iff)

definition segment_chunks :: "string \<Rightarrow> string list \<Rightarrow> int \<Rightarrow> int \<Rightarrow> int \<Rightarrow> chunk list" where
  \<comment> \<open>the window over the lines \<open>a..b-1\<close>, or nothing when they are blank or none\<close>
  "segment_chunks f lines M a b =
     (if a < b \<and> \<not> py_blank (concat (py_slice a b lines)) then ts_window (concat (py_slice a b lines)) f M (a + 1) else [])"

lemma segment_located:
  assumes "c \<in> set (segment_chunks f (splitlines_keep t) M a b)" "0 \<le> a" "b \<le> int (length (splitlines_keep t))" "1 \<le> M"
  shows "located (splitlines_keep t) c"
  using assms window_of_range(1) [where a = a and b = b and t = t and M = M and c = c and f = f] by (auto simp: segment_chunks_def split: if_splits)

lemma segment_covered:
  assumes "covered (splitlines_keep t) cs a" "0 \<le> a" "b \<le> int (length (splitlines_keep t))" "1 \<le> M"
  shows "covered (splitlines_keep t) (cs @ segment_chunks f (splitlines_keep t) M a b) (max a b)"
  unfolding covered_def
proof (intro allI impI)
  fix i assume i: "i < length (splitlines_keep t)" "int i < max a b" "\<not> py_blank (splitlines_keep t ! i)"
  show "\<exists>c \<in> set (cs @ segment_chunks f (splitlines_keep t) M a b). ck_start c \<le> int i + 1 \<and> int i + 1 \<le> ck_end c"
  proof (cases "int i < a")
    case True
    then show ?thesis using assms(1) i by (auto simp: covered_def)
  next
    case False
    then have ib: "a \<le> int i" "int i < b" using i by (auto simp: max_def split: if_splits)
    then have "\<not> py_blank (concat (py_slice a b (splitlines_keep t)))" "a < b"
      using blank_segment [OF _ assms(2,3) ib] i by auto
    then show ?thesis using window_of_range(2) [where a = a and b = b and t = t and M = M and i = i and f = f] False i assms by (auto simp: segment_chunks_def)
  qed
qed

lemma node_step_eq:
  assumes "tn_type node \<in> set types"
  shows "ts_node_step f M types lines node (cs, cursor) =
     (cs @ segment_chunks f lines M cursor (tn_start_row node)
        @ (if tn_end_row node - tn_start_row node + 1 \<le> M
           then [\<lparr>ck_text = concat (py_slice (tn_start_row node) (tn_end_row node + 1) lines), ck_file = f,
                  ck_start = tn_start_row node + 1, ck_end = tn_end_row node + 1, ck_type = ''code''\<rparr>]
           else ts_window (concat (py_slice (tn_start_row node) (tn_end_row node + 1) lines)) f M (tn_start_row node + 1)),
      tn_end_row node + 1)"
  using assms by (simp add: ts_node_step_def segment_chunks_def Let_def)

definition rows_ok :: "string list \<Rightarrow> ts_node list \<Rightarrow> bool" where
  \<comment> \<open>what the parser promises: nodes span rows of the text\<close>
  "rows_ok lines nodes \<longleftrightarrow> (\<forall>n \<in> set nodes. 0 \<le> tn_start_row n \<and> tn_start_row n \<le> tn_end_row n
     \<and> tn_end_row n < int (length lines))"

definition walk_inv :: "string list \<Rightarrow> chunk list \<times> int \<Rightarrow> bool" where
  "walk_inv lines st \<longleftrightarrow> (\<forall>c \<in> set (fst st). located lines c) \<and> covered lines (fst st) (snd st)
     \<and> 0 \<le> snd st \<and> snd st \<le> int (length lines)"

lemma covered_append: "covered lines cs k \<Longrightarrow> covered lines (cs @ ds) k"
  by (auto simp: covered_def)

lemma node_step_inv:
  fixes t :: string
  defines "lines \<equiv> splitlines_keep t"
  assumes inv: "walk_inv lines st" and row: "rows_ok lines [node]" and M: "1 \<le> M"
  shows "walk_inv lines (ts_node_step f M types lines node st)"
proof (cases "tn_type node \<in> set types")
  case False
  then show ?thesis using inv by (simp add: ts_node_step_def split: prod.split)
next
  case True
  obtain cs cursor where st: "st = (cs, cursor)" by (cases st)
  let ?a = "tn_start_row node" and ?b = "tn_end_row node + 1"
  have ab: "0 \<le> ?a" "?a < ?b" "?b \<le> int (length lines)" using row by (auto simp: rows_ok_def)
  define body where "body = (if tn_end_row node - ?a + 1 \<le> M
      then [\<lparr>ck_text = concat (py_slice ?a ?b lines), ck_file = f, ck_start = ?a + 1, ck_end = ?b, ck_type = ''code''\<rparr>]
      else ts_window (concat (py_slice ?a ?b lines)) f M (?a + 1))"
  have step: "ts_node_step f M types lines node st = (cs @ segment_chunks f lines M cursor ?a @ body, ?b)"
    using True by (simp add: st node_step_eq body_def)
  have win: "c \<in> set (ts_window (concat (py_slice ?a ?b lines)) f M (?a + 1)) \<Longrightarrow> located lines c"
    "?a \<le> int i \<Longrightarrow> int i < ?b \<Longrightarrow> \<exists>c \<in> set (ts_window (concat (py_slice ?a ?b lines)) f M (?a + 1)). ck_start c \<le> int i + 1 \<and> int i + 1 \<le> ck_end c"
    for c i using window_of_range [of ?a ?b t M, folded lines_def] ab M by auto
  have body: "c \<in> set body \<Longrightarrow> located lines c"
    "?a \<le> int i \<Longrightarrow> int i < ?b \<Longrightarrow> \<exists>c \<in> set body. ck_start c \<le> int i + 1 \<and> int i + 1 \<le> ck_end c" for c i
    using win ab by (auto simp: body_def located_def split: if_splits)
  have seg: "covered lines (cs @ segment_chunks f lines M cursor ?a) (max cursor ?a)"
    using segment_covered [of t cs cursor ?a M f, folded lines_def] inv ab M by (simp add: walk_inv_def st)
  have "covered lines (cs @ segment_chunks f lines M cursor ?a @ body) ?b"
    unfolding covered_def
  proof (intro allI impI)
    fix i assume i: "i < length lines" "int i < ?b" "\<not> py_blank (lines ! i)"
    show "\<exists>c \<in> set (cs @ segment_chunks f lines M cursor ?a @ body). ck_start c \<le> int i + 1 \<and> int i + 1 \<le> ck_end c"
    proof (cases "int i < ?a")
      case True
      then have "\<exists>c \<in> set (cs @ segment_chunks f lines M cursor ?a). ck_start c \<le> int i + 1 \<and> int i + 1 \<le> ck_end c"
        using seg i unfolding covered_def by (meson less_max_iff_disj)
      then show ?thesis by auto
    next
      case False
      then show ?thesis using body(2) [of i] i by auto
    qed
  qed
  moreover have "located lines c" if "c \<in> set (segment_chunks f lines M cursor ?a)" for c
    using segment_located [of c f t M cursor ?a, folded lines_def] that inv ab M by (simp add: walk_inv_def st)
  ultimately show ?thesis
    unfolding step using inv body(1) ab by (auto simp: walk_inv_def st)
qed

lemma nodes_fold_inv:
  "walk_inv (splitlines_keep t) st \<Longrightarrow> rows_ok (splitlines_keep t) nodes \<Longrightarrow> 1 \<le> M \<Longrightarrow>
   walk_inv (splitlines_keep t) (fold (ts_node_step f M types (splitlines_keep t)) nodes st)"
proof (induction nodes arbitrary: st)
  case (Cons n nodes)
  then show ?case using node_step_inv [of t st n M f types] by (simp add: rows_ok_def)
qed simp

text \<open>
  C29: tree-sitter chunks locate the code they hold and miss none of it. When the parse reports
  rows that exist and the chunker produces a result, every chunk's text is exactly the lines of
  the range it names, and every line with text on it is in some chunk.
\<close>

theorem treesitter_faithful:
  assumes "fst (chunk_code_treesitter en text f ext M cache) = Some cs" "1 \<le> M"
    and "\<forall>g nodes. ts_parse en g text = Some nodes \<longrightarrow> rows_ok (splitlines_keep text) nodes"
  shows "(\<forall>c \<in> set cs. located (splitlines_keep text) c)
    \<and> (\<forall>i < length (splitlines_keep text). \<not> py_blank (splitlines_keep text ! i)
        \<longrightarrow> (\<exists>c \<in> set cs. ck_start c \<le> int i + 1 \<and> int i + 1 \<le> ck_end c))"
proof (cases "splitlines_keep text = []")
  case True
  then show ?thesis using assms(1)
    by (auto simp: chunk_code_treesitter_def splitlines_keep_def Let_def split: option.splits prod.splits if_splits)
next
  case False
  let ?ls = "splitlines_keep text"
  obtain m types where reg: "dict_get lang_registry ext = Some (m, types)"
    using assms(1) by (cases "dict_get lang_registry ext") (auto simp: chunk_code_treesitter_def)
  obtain p cache' where ps: "get_parser en m ext cache = (Some p, cache')"
    using assms(1) reg by (cases "get_parser en m ext cache"; cases "fst (get_parser en m ext cache)") (auto simp: chunk_code_treesitter_def)
  obtain nodes where nodes: "ts_parse en p text = Some nodes"
    using assms(1) reg ps by (cases "ts_parse en p text") (auto simp: chunk_code_treesitter_def)
  have n: "rows_ok ?ls nodes" using assms(3) nodes by blast
  obtain ds cursor where w: "fold (ts_node_step f M types ?ls) nodes ([], 0) = (ds, cursor)" by fastforce
  have cs: "cs = ds @ segment_chunks f ?ls M cursor (int (length ?ls))"
    using assms(1) False by (auto simp: chunk_code_treesitter_def reg ps nodes w segment_chunks_def Let_def split: if_splits)
  have inv: "walk_inv ?ls (ds, cursor)"
    unfolding w [symmetric] by (rule nodes_fold_inv [OF _ n assms(2)]) (simp add: walk_inv_def covered_def)
  then have "covered ?ls cs (max cursor (int (length ?ls)))"
    using segment_covered [of "text" ds cursor "int (length ?ls)" M f] assms(2) by (simp add: cs walk_inv_def)
  then show ?thesis
    using inv segment_located [of _ f "text" M cursor "int (length ?ls)"] assms(2)
    by (auto simp: covered_def walk_inv_def cs)
qed

definition demo_ts :: "ts_env" where
  "demo_ts = \<lparr>ts_load = (\<lambda>m g. True),
     ts_parse = (\<lambda>g t. Some (if length (splitlines_keep t) < 4 then [] else [\<lparr>tn_type = ''function_definition'', tn_start_row = 2, tn_end_row = 3\<rparr>]))\<rparr>"

definition demo_code :: "string" where
  "demo_code = concat (map (\<lambda>l. l @ [CHR 0x0A]) [''import os'', [], ''def f():'', ''  return 1'', ''f()''])"

theorem treesitter_faithful_witness:
  "\<exists>cs. fst (chunk_code_treesitter demo_ts demo_code ''m.py'' ''.py'' 10 []) = Some cs
     \<and> length cs = 3 \<and> list_all (located (splitlines_keep demo_code)) cs"
proof -
  define cs where "cs = the (fst (chunk_code_treesitter demo_ts demo_code ''m.py'' ''.py'' 10 []))"
  have "fst (chunk_code_treesitter demo_ts demo_code ''m.py'' ''.py'' 10 []) \<noteq> None" by code_simp
  then have cs: "fst (chunk_code_treesitter demo_ts demo_code ''m.py'' ''.py'' 10 []) = Some cs" by (simp add: cs_def)
  have len: "length (the (fst (chunk_code_treesitter demo_ts demo_code ''m.py'' ''.py'' 10 []))) = 3" by code_simp
  have "\<forall>g nodes. ts_parse demo_ts g demo_code = Some nodes \<longrightarrow> rows_ok (splitlines_keep demo_code) nodes"
    by (simp add: demo_ts_def rows_ok_def)
  from treesitter_faithful [OF cs _ this] len cs show ?thesis by (simp add: list_all_iff)
qed

text \<open>
  One parser serves both TypeScript grammars. The parser cache is keyed by the Python module
  alone, so whichever of \<open>.ts\<close> and \<open>.tsx\<close> is asked for first fixes the grammar of both: after a
  \<open>.ts\<close> file a \<open>.tsx\<close> file gets the plain TypeScript parser, and the other way round.
\<close>

lemma parser_cache_shared:
  assumes "dict_get cache ''tree_sitter_typescript'' = None" "ts_load en ''tree_sitter_typescript'' (grammar_of ''tree_sitter_typescript'' first)"
  shows "fst (get_parser en ''tree_sitter_typescript'' second (snd (get_parser en ''tree_sitter_typescript'' first cache)))
    = Some (grammar_of ''tree_sitter_typescript'' first)"
  using assms by (simp add: get_parser_def Let_def dict_simps)

lemma parser_cache_shared_witness:
  "fst (get_parser demo_ts ''tree_sitter_typescript'' ''.tsx'' (snd (get_parser demo_ts ''tree_sitter_typescript'' ''.ts'' []))) = Some ''typescript''"
  using parser_cache_shared [of "[]" demo_ts "''.ts''" "''.tsx''"] by (simp add: demo_ts_def grammar_of_def)

end
