(* ===== verification/LC_Rank.thy ===== *)
theory LC_Rank
  imports LC_Str
begin

text \<open>
  Scores and ranking. Vectors are lists of reals: the code's float32 and float64 arithmetic is
  read as real arithmetic. \<open>xreal\<close> is what a negated, masked score array holds (a finite
  value, or \<open>+inf\<close> where the mask is off).

  The index sorts are numpy's, not this program's, so they are parameters of the definitions
  that use them. What the code relies on is stated here as predicates on them:
  \<open>argsort_ok\<close> (a permutation of the indices that reads the array in ascending order; the
  default algorithm is not stable, so the order of ties is left open) and
  \<open>argpartition_ok\<close> (the element at the pivot is where sorting would put it).
\<close>

type_synonym vec = "real list"

definition dot :: "vec \<Rightarrow> vec \<Rightarrow> real" where
  "dot u v = sum_list (map2 (*) u v)"

definition l2norm :: "vec \<Rightarrow> real" where
  "l2norm v = sqrt (dot v v)"

definition normalize_eps :: "vec \<Rightarrow> vec" where
  \<comment> \<open>\<open>v / (np.linalg.norm(v) + 1e-9)\<close>\<close>
  "normalize_eps v = (let n = l2norm v + 1 / 10 ^ 9 in map (\<lambda>x. x / n) v)"

datatype xreal = Fin real | PInf

instantiation xreal :: linorder
begin

fun less_eq_xreal :: "xreal \<Rightarrow> xreal \<Rightarrow> bool" where
  "Fin a \<le> Fin b \<longleftrightarrow> a \<le> b"
| "x \<le> PInf \<longleftrightarrow> True"
| "PInf \<le> Fin b \<longleftrightarrow> False"

definition less_xreal :: "xreal \<Rightarrow> xreal \<Rightarrow> bool" where
  "(x :: xreal) < y \<longleftrightarrow> x \<le> y \<and> \<not> y \<le> x"

instance
proof
  fix x y z :: xreal
  show "x < y \<longleftrightarrow> x \<le> y \<and> \<not> y \<le> x" by (simp add: less_xreal_def)
  show "x \<le> x" by (cases x) simp_all
  show "x \<le> y \<Longrightarrow> y \<le> z \<Longrightarrow> x \<le> z" by (cases x; cases y; cases z) simp_all
  show "x \<le> y \<Longrightarrow> y \<le> x \<Longrightarrow> x = y" by (cases x; cases y) simp_all
  show "x \<le> y \<or> y \<le> x" by (cases x; cases y) auto
qed

end

section \<open>The index sorts the code calls\<close>

definition argsort_ok :: "('a::linorder list \<Rightarrow> nat list) \<Rightarrow> bool" where
  "argsort_ok f \<longleftrightarrow> (\<forall>xs. mset (f xs) = mset [0..<length xs] \<and> sorted (map ((!) xs) (f xs)))"

definition argpartition_ok :: "('a::linorder list \<Rightarrow> nat \<Rightarrow> nat list) \<Rightarrow> bool" where
  "argpartition_ok f \<longleftrightarrow> (\<forall>xs k. k < length xs \<longrightarrow> mset (f xs k) = mset [0..<length xs]
     \<and> (\<forall>i \<in> set (take (Suc k) (f xs k)). \<forall>j \<in> set (drop (Suc k) (f xs k)). xs ! i \<le> xs ! j))"

text \<open>Both are satisfied by a stable sort of the indices.\<close>

definition stable_argsort :: "'a::linorder list \<Rightarrow> nat list" where
  "stable_argsort xs = sort_key ((!) xs) [0..<length xs]"

lemma stable_argsort_ok: "argsort_ok stable_argsort"
  by (simp add: argsort_ok_def stable_argsort_def)

lemma stable_argpartition_ok: "argpartition_ok (\<lambda>xs k. stable_argsort xs)"
proof -
  have "xs ! i \<le> xs ! j" if "i \<in> set (take (Suc k) (stable_argsort xs))" "j \<in> set (drop (Suc k) (stable_argsort xs))"
    for xs :: "'a list" and i j k
  proof -
    have "sorted_wrt (\<lambda>i j. xs ! i \<le> xs ! j) (take (Suc k) (stable_argsort xs) @ drop (Suc k) (stable_argsort xs))"
      using sorted_sort_key [of "(!) xs" "[0..<length xs]"]
      by (simp add: stable_argsort_def sorted_map)
    then show ?thesis using that by (simp only: sorted_wrt_append)
  qed
  then show ?thesis
    by (auto simp: argpartition_ok_def) (simp add: stable_argsort_def)
qed

lemma argsort_perm: "argsort_ok f \<Longrightarrow> set (f xs) = {0..<length xs} \<and> distinct (f xs) \<and> length (f xs) = length xs"
proof -
  assume "argsort_ok f"
  then have m: "mset (f xs) = mset [0..<length xs]" by (simp add: argsort_ok_def)
  then have "set (f xs) = set [0..<length xs]" by (metis set_mset_mset)
  moreover have "distinct (f xs)" using m mset_eq_imp_distinct_iff by (metis distinct_upt)
  moreover have "length (f xs) = length [0..<length xs]" using m by (metis size_mset)
  ultimately show ?thesis by simp
qed

section \<open>Top-k selection: partition, cut, sort\<close>

definition select_top :: "('a::linorder list \<Rightarrow> nat \<Rightarrow> nat list) \<Rightarrow> ('a list \<Rightarrow> nat list) \<Rightarrow> 'a list \<Rightarrow> nat \<Rightarrow> nat list" where
  \<comment> \<open>the \<open>n\<close> least elements' indices, in ascending order of the elements\<close>
  "select_top part srt xs n =
     (let idx = take n (part xs (n - 1)) in map ((!) idx) (srt (map ((!) xs) idx)))"

lemma select_top_mset:
  assumes "argsort_ok srt"
  shows "mset (select_top part srt xs n) = mset (take n (part xs (n - 1)))"
proof -
  let ?idx = "take n (part xs (n - 1))"
  have "mset (srt (map ((!) xs) ?idx)) = mset [0..<length ?idx]"
    using assms by (simp add: argsort_ok_def)
  then have "mset (map ((!) ?idx) (srt (map ((!) xs) ?idx))) = image_mset ((!) ?idx) (mset [0..<length ?idx])"
    by (simp only: mset_map)
  also have "\<dots> = mset (map ((!) ?idx) [0..<length ?idx])" by simp
  also have "\<dots> = mset ?idx" by (simp only: map_nth)
  finally show ?thesis by (simp add: select_top_def Let_def)
qed

lemma select_top_sorted:
  assumes "argsort_ok srt"
  shows "sorted (map ((!) xs) (select_top part srt xs n))"
proof -
  let ?idx = "take n (part xs (n - 1))"
  let ?o = "srt (map ((!) xs) ?idx)"
  have "set ?o = {0..<length ?idx}" using argsort_perm [OF assms, of "map ((!) xs) ?idx"] by simp
  then have "map ((!) xs) (map ((!) ?idx) ?o) = map ((!) (map ((!) xs) ?idx)) ?o" by simp
  moreover have "sorted (map ((!) (map ((!) xs) ?idx)) ?o)" using assms by (simp add: argsort_ok_def)
  ultimately show ?thesis by (simp only: select_top_def Let_def)
qed

lemma select_top_props:
  assumes part: "argpartition_ok part" and srt: "argsort_ok srt" and n: "0 < n" "n \<le> length xs"
  shows "length (select_top part srt xs n) = n"
    and "distinct (select_top part srt xs n)"
    and "set (select_top part srt xs n) \<subseteq> {0..<length xs}"
    and "\<forall>i \<in> set (select_top part srt xs n). \<forall>j \<in> {0..<length xs} - set (select_top part srt xs n). xs ! i \<le> xs ! j"
proof -
  let ?p = "part xs (n - 1)" and ?s = "select_top part srt xs n"
  have m: "mset ?p = mset [0..<length xs]"
    and split: "\<forall>i \<in> set (take n ?p). \<forall>j \<in> set (drop n ?p). xs ! i \<le> xs ! j"
    using part [unfolded argpartition_ok_def, rule_format, of "n - 1" xs] n by simp_all
  have dist: "distinct ?p" using m mset_eq_imp_distinct_iff by (metis distinct_upt)
  have set_p: "set ?p = {0..<length xs}" using m by (metis set_mset_mset set_upt)
  have len: "length ?p = length xs" using m by (metis size_mset length_upt minus_nat.diff_0)
  note sm = select_top_mset [OF srt, of part xs n]
  have set_s: "set ?s = set (take n ?p)" using sm by (metis set_mset_mset)
  show "length ?s = n" using sm len n(2) by (metis size_mset length_take min.absorb2)
  show "distinct ?s" using sm dist mset_eq_imp_distinct_iff by (metis distinct_take)
  show "set ?s \<subseteq> {0..<length xs}" using set_s set_p set_take_subset by fastforce
  have "{0..<length xs} - set ?s \<subseteq> set (drop n ?p)"
    using set_p set_s by (metis Diff_subset_conv append_take_drop_id order_refl set_append)
  then show "\<forall>i \<in> set ?s. \<forall>j \<in> {0..<length xs} - set ?s. xs ! i \<le> xs ! j"
    using split set_s by blast
qed

text \<open>When enough entries are finite, only finite entries are selected.\<close>

lemma select_top_finite:
  assumes part: "argpartition_ok part" and srt: "argsort_ok srt" and n: "0 < n"
    and fin: "n \<le> card {j. j < length xs \<and> xs ! j \<noteq> PInf}" and i: "i \<in> set (select_top part srt xs n)"
  shows "xs ! i \<noteq> PInf"
proof
  assume inf: "xs ! i = PInf"
  let ?s = "select_top part srt xs n" and ?F = "{j. j < length xs \<and> xs ! j \<noteq> PInf}"
  have "card ?F \<le> card {0..<length xs}" by (intro card_mono) auto
  then have len: "n \<le> length xs" using fin by simp
  note props = select_top_props [OF part srt n len]
  have "j \<in> set ?s" if "j \<in> ?F" for j
  proof (rule ccontr)
    assume "j \<notin> set ?s"
    then have "PInf \<le> xs ! j" using props(4) i that inf by fastforce
    then show False using that by (cases "xs ! j") auto
  qed
  moreover have "i \<notin> ?F" using inf by simp
  ultimately have "?F \<subset> set ?s" using i by blast
  then have "card ?F < card (set ?s)" by (intro psubset_card_mono) auto
  then show False using fin props(1,2) distinct_card by fastforce
qed

text \<open>The picks are candidates, best first by \<open>f\<close>, and no candidate left out is better.\<close>

definition best_by :: "(nat \<Rightarrow> real) \<Rightarrow> nat set \<Rightarrow> nat list \<Rightarrow> bool" where
  "best_by f cand picks \<longleftrightarrow> distinct picks \<and> set picks \<subseteq> cand \<and> sorted_wrt (\<lambda>i j. f j \<le> f i) picks
     \<and> (\<forall>i \<in> set picks. \<forall>j \<in> cand - set picks. f j \<le> f i)"

lemma select_top_best:
  assumes part: "argpartition_ok part" and srt: "argsort_ok srt" and n: "0 < n" "n \<le> length xs"
    and val: "\<And>j. j \<in> cand \<Longrightarrow> xs ! j = Fin (- f j)" and cand: "cand = {j. j < length xs \<and> xs ! j \<noteq> PInf}"
  defines "picks \<equiv> filter (\<lambda>i. xs ! i \<noteq> PInf) (select_top part srt xs n)"
  shows "best_by f cand picks \<and> length picks = min n (card cand)"
proof -
  let ?s = "select_top part srt xs n"
  note props = select_top_props [OF part srt n]
  have fin: "finite cand" by (simp add: cand)
  have sub: "set picks \<subseteq> cand" using props(3) by (auto simp: picks_def cand)
  have dist: "distinct picks" using props(2) by (simp add: picks_def)
  have "sorted_wrt (\<lambda>i j. xs ! i \<le> xs ! j) ?s" using select_top_sorted [OF srt, of xs part n] by (simp add: sorted_map)
  then have "sorted_wrt (\<lambda>i j. xs ! i \<le> xs ! j) picks" by (simp add: picks_def sorted_wrt_filter)
  moreover have "f j \<le> f i" if "i \<in> set picks" "j \<in> set picks" "xs ! i \<le> xs ! j" for i j
  proof -
    have "xs ! i = Fin (- f i)" "xs ! j = Fin (- f j)" using that(1,2) sub val by blast+
    then show ?thesis using that(3) by simp
  qed
  ultimately have ordered: "sorted_wrt (\<lambda>i j. f j \<le> f i) picks"
    by (auto elim: sorted_wrt_mono_rel [rotated])
  have out: "j \<notin> set ?s" if "j \<in> cand - set picks" for j
    using that by (auto simp: picks_def cand)
  have best: "f j \<le> f i" if "i \<in> set picks" "j \<in> cand - set picks" for i j
  proof -
    have "i \<in> set ?s" "i \<in> cand" using that(1) sub by (auto simp: picks_def)
    then have "xs ! i \<le> xs ! j" using props(4) out [OF that(2)] that(2) by (simp add: cand)
    then show ?thesis using val [OF \<open>i \<in> cand\<close>] val [of j] that(2) by simp
  qed
  have "length picks = min n (card cand)"
  proof (cases "\<exists>i \<in> set ?s. xs ! i = PInf")
    case True
    have "cand \<subseteq> set picks"
    proof (rule ccontr)
      assume "\<not> cand \<subseteq> set picks"
      then obtain j where j: "j \<in> cand - set picks" by blast
      then have "PInf \<le> xs ! j" using True props(4) out [OF j] by (metis Diff_iff atLeast0LessThan cand lessThan_iff mem_Collect_eq)
      then show False using val [of j] j by simp
    qed
    then have "set picks = cand" using sub by blast
    then have "length picks = card cand" using distinct_card [OF dist] by simp
    moreover have "length picks \<le> n" using props(1) by (metis length_filter_le picks_def)
    ultimately show ?thesis by simp
  next
    case False
    then have "picks = ?s" by (simp add: picks_def filter_id_conv)
    then have "length picks = n" using props(1) by simp
    moreover have "length picks \<le> card cand" using distinct_card [OF dist] sub fin by (metis card_mono)
    ultimately show ?thesis by simp
  qed
  then show ?thesis using dist sub ordered best by (simp add: best_by_def)
qed

text \<open>A Python slice \<open>xs[:k]\<close>: a negative bound counts from the end.\<close>

definition py_take :: "int \<Rightarrow> 'a list \<Rightarrow> 'a list" where
  "py_take k xs = (if 0 \<le> k then take (nat k) xs else take (nat (int (length xs) + k)) xs)"

lemma set_py_take: "set (py_take k xs) \<subseteq> set xs"
  by (auto simp: py_take_def dest: in_set_takeD)

lemma length_py_take: "0 \<le> k \<Longrightarrow> int (length (py_take k xs)) \<le> k"
  by (simp add: py_take_def)

section \<open>Tokenizers\<close>

text \<open>The maximal runs of characters of a class: \<open>re.findall(C+)\<close>, or splitting on its complement.\<close>

function runs_of :: "(char \<Rightarrow> bool) \<Rightarrow> string \<Rightarrow> string list" where
  "runs_of P [] = []"
| "runs_of P (c # s) = (if P c then (c # takeWhile P s) # runs_of P (dropWhile P s) else runs_of P s)"
  by pat_completeness auto
termination
  by (relation "measure (\<lambda>(P, s). length s)") (auto simp: length_dropWhile_le le_imp_less_Suc)

lemma runs_of_sound: "t \<in> set (runs_of P s) \<Longrightarrow> t \<noteq> [] \<and> (\<forall>c \<in> set t. P c)"
proof (induction P s rule: runs_of.induct)
  case (2 P c s)
  then show ?case by (cases "P c") (auto simp: runs_of.simps dest: set_takeWhileD)
qed (simp add: runs_of.simps)

lemma filter_takeWhile_dropWhile: "filter P s = takeWhile P s @ filter P (dropWhile P s)"
  by (induction s) auto

lemma concat_runs_of: "concat (runs_of P s) = filter P s"
proof (induction P s rule: runs_of.induct)
  case (2 P c s)
  then show ?case
    by (cases "P c") (simp_all add: runs_of.simps filter_takeWhile_dropWhile [of P s])
qed (simp add: runs_of.simps)

lemma runs_of_empty: "runs_of P s = [] \<longleftrightarrow> (\<forall>c \<in> set s. \<not> P c)"
proof -
  have "runs_of P s = [] \<longleftrightarrow> concat (runs_of P s) = []"
    using runs_of_sound by (metis concat.simps(1) concat_eq_Nil_conv list.set_intros(1) neq_Nil_conv)
  then show ?thesis by (simp add: concat_runs_of filter_empty_conv)
qed

end
