(* ===== verification/Svc_Builder.thy ===== *)
theory Svc_Builder
  imports Svc_Treesitter LC_Rank
begin

text \<open>
  From files to an index (\<open>chunk_text\<close>, \<open>chunk_file\<close> of \<open>longctx_svc/indexer/chunker.py\<close> and all of
  \<open>longctx_svc/indexer/builder.py\<close>): chunk every file, embed every chunk, and keep the embedding
  rows in step with the chunk list through incremental updates.

  The files are what \<open>read_text\<close> returns for a path (\<open>None\<close>: it raised \<open>OSError\<close>) and whether
  the path exists; an embedding matrix is its list of rows.
\<close>

record index_env =
  ix_cfg :: service_config
  ix_ts :: ts_env
  ix_read :: "path \<Rightarrow> string option"
  ix_exists :: "path \<Rightarrow> bool"
  ix_encode :: "string list \<Rightarrow> vec list"

definition chunk_text ::
  "index_env \<Rightarrow> string \<Rightarrow> string \<Rightarrow> string option \<Rightarrow> int option \<Rightarrow> int option \<Rightarrow> parser_cache \<Rightarrow> chunk list \<times> parser_cache" where
  "chunk_text en text file_path file_type lines_per_chunk overlap cache =
     (let l = int_or lines_per_chunk (chunk_lines_default (cf_limits (ix_cfg en)));
          ov = (case overlap of Some v \<Rightarrow> v | None \<Rightarrow> chunk_lines_overlap (cf_limits (ix_cfg en)));
          ty = (case file_type of Some t \<Rightarrow> t | None \<Rightarrow> classify (path_of file_path));
          lines = splitlines_keep text
      in if ty = ''prose'' then (chunk_paragraphs text file_path l ov, cache)
         else if ty = ''config'' then
           ((if int (length lines) \<le> l
             then [\<lparr>ck_text = text, ck_file = file_path, ck_start = 1, ck_end = max 1 (int (length lines)), ck_type = ''config''\<rparr>]
             else chunk_lines lines l ov file_path ''config''), cache)
         else
           let (ts_result, cache) = (if ty = ''code'' \<and> cf_use_treesitter (ix_cfg en)
                 then chunk_code_treesitter (ix_ts en) text file_path (py_lower (path_suffix (path_of file_path))) l cache
                 else (None, cache))
           in case ts_result of
                Some cs \<Rightarrow> (cs, cache)
              | None \<Rightarrow> (chunk_lines lines l ov file_path ty, cache))"

definition chunk_file :: "index_env \<Rightarrow> path \<Rightarrow> int option \<Rightarrow> int option \<Rightarrow> parser_cache \<Rightarrow> chunk list \<times> parser_cache" where
  "chunk_file en p lines_per_chunk overlap cache =
     (case ix_read en p of
        None \<Rightarrow> ([], cache)
      | Some text \<Rightarrow> if text = [] then ([], cache)
          else chunk_text en text (path_str p) (Some (classify p)) lines_per_chunk overlap cache)"

section \<open>The index of a scope\<close>

record scope_index =
  sx_root :: path
  sx_hash :: string
  sx_chunks :: "chunk list"
  sx_embeddings :: "vec list option"
  sx_file_count :: nat
  sx_built_at :: time
  sx_last_query_at :: time
  sx_embedder_name :: string

definition chunk_count :: "scope_index \<Rightarrow> nat" where
  "chunk_count ix = length (sx_chunks ix)"

definition matrix_size :: "vec list \<Rightarrow> nat" where
  "matrix_size m = sum_list (map length m)"

definition memory_bytes :: "scope_index \<Rightarrow> nat" where
  \<comment> \<open>\<open>nbytes\<close> of a float32 array\<close>
  "memory_bytes ix = (case sx_embeddings ix of None \<Rightarrow> 0 | Some m \<Rightarrow> 4 * matrix_size m)"

definition touch_index :: "time \<Rightarrow> scope_index \<Rightarrow> scope_index" where
  "touch_index now ix = ix\<lparr>sx_last_query_at := now\<rparr>"

definition resolve_device :: "string \<Rightarrow> bool option \<Rightarrow> bool \<Rightarrow> string" where
  \<comment> \<open>\<open>cuda\<close> is \<open>None\<close> when torch does not import\<close>
  "resolve_device device cuda mps =
     (if device \<noteq> ''auto'' then device
      else case cuda of None \<Rightarrow> ''cpu'' | Some True \<Rightarrow> ''cuda'' | Some False \<Rightarrow> if mps then ''mps'' else ''cpu'')"

definition chunk_files :: "index_env \<Rightarrow> path list \<Rightarrow> parser_cache \<Rightarrow> chunk list \<times> parser_cache" where
  "chunk_files en files cache =
     fold (\<lambda>f (chunks, cache). let (cs, cache) = chunk_file en f None None cache in (chunks @ cs, cache)) files ([], cache)"

definition vstack :: "vec list \<Rightarrow> vec list \<Rightarrow> exc + vec list" where
  "vstack a b = (if \<forall>u \<in> set a. \<forall>v \<in> set b. length u = length v then Inr (a @ b) else Inl ValueError)"

definition take_rows :: "vec list \<Rightarrow> nat list \<Rightarrow> exc + vec list" where
  \<comment> \<open>\<open>m[idx]\<close>\<close>
  "take_rows m idx = (if \<forall>i \<in> set idx. i < length m then Inr (map ((!) m) idx) else Inl IndexError)"

definition update_files :: "index_env \<Rightarrow> time \<Rightarrow> scope_index \<Rightarrow> path list \<Rightarrow> parser_cache \<Rightarrow> (exc + scope_index) \<times> parser_cache" where
  "update_files en now ix files cache =
     (let targets = set (map path_str files) in
      if targets = {} then (Inr ix, cache)
      else
        let keep_idx = filter (\<lambda>i. ck_file (sx_chunks ix ! i) \<notin> targets) [0..<length (sx_chunks ix)];
            kept = (case sx_embeddings ix of
                      None \<Rightarrow> Inr None
                    | Some m \<Rightarrow> if keep_idx = [] then Inr None
                        else (case take_rows m keep_idx of Inl e \<Rightarrow> Inl e | Inr r \<Rightarrow> Inr (Some r)));
            kept_chunks = map ((!) (sx_chunks ix)) keep_idx
        in case kept of
             Inl e \<Rightarrow> (Inl e, cache)
           | Inr kept_embs \<Rightarrow>
               let (new_chunks, cache) = chunk_files en (filter (ix_exists en) files) cache in
               if new_chunks \<noteq> [] then
                 let new_embs = ix_encode en (map ck_text new_chunks) in
                 (case (case kept_embs of
                          Some k \<Rightarrow> if matrix_size k \<noteq> 0 then vstack k new_embs else Inr new_embs
                        | None \<Rightarrow> Inr new_embs) of
                    Inl e \<Rightarrow> (Inl e, cache)
                  | Inr embs \<Rightarrow>
                      (Inr (ix\<lparr>sx_embeddings := Some embs, sx_chunks := kept_chunks @ new_chunks, sx_built_at := now\<rparr>), cache))
               else
                 (Inr (ix\<lparr>sx_embeddings := (case kept_embs of
                            Some k \<Rightarrow> if matrix_size k \<noteq> 0 then Some k else None | None \<Rightarrow> None),
                          sx_chunks := kept_chunks, sx_built_at := now\<rparr>), cache))"

definition build_index :: "index_env \<Rightarrow> time \<Rightarrow> path \<Rightarrow> path list \<Rightarrow> string \<Rightarrow> parser_cache \<Rightarrow> scope_index \<times> parser_cache" where
  "build_index en now scope_root files scope_hash cache =
     (let (chunks, cache) = chunk_files en files cache in
      (\<lparr>sx_root = scope_root, sx_hash = scope_hash, sx_chunks = chunks,
        sx_embeddings = (if chunks = [] then None else Some (ix_encode en (map ck_text chunks))),
        sx_file_count = length files, sx_built_at = now, sx_last_query_at = 0,
        sx_embedder_name = cf_embedder_model (ix_cfg en)\<rparr>, cache))"

section \<open>Rows and chunks stay in step\<close>

definition encoder_ok :: "index_env \<Rightarrow> (string \<Rightarrow> vec) \<Rightarrow> nat \<Rightarrow> bool" where
  \<comment> \<open>the encoder works text by text and its vectors have one positive dimension\<close>
  "encoder_ok en e dm \<longleftrightarrow> 0 < dm \<and> (\<forall>ts. ix_encode en ts = map e ts) \<and> (\<forall>t. length (e t) = dm)"

definition index_sound :: "(string \<Rightarrow> vec) \<Rightarrow> scope_index \<Rightarrow> bool" where
  "index_sound e ix \<longleftrightarrow> sx_embeddings ix = (if sx_chunks ix = [] then None else Some (map (e \<circ> ck_text) (sx_chunks ix)))"

lemma build_index_sound: "encoder_ok en e dm \<Longrightarrow> index_sound e (fst (build_index en now r fs h cache))"
  by (simp add: build_index_def index_sound_def encoder_ok_def split: prod.split)

lemma matrix_size_pos: "encoder_ok en e dm \<Longrightarrow> ts \<noteq> [] \<Longrightarrow> matrix_size (map (e \<circ> g) ts) \<noteq> 0"
  by (cases ts) (auto simp: matrix_size_def encoder_ok_def)

lemma map_nth_filter_upt: "map ((!) xs) (filter (\<lambda>i. P (xs ! i)) [0..<length xs]) = filter P xs"
proof -
  have "filter P (map ((!) xs) [0..<length xs]) = map ((!) xs) (filter (\<lambda>i. P (xs ! i)) [0..<length xs])"
    by (simp add: filter_map comp_def)
  then show ?thesis by (simp only: map_nth)
qed

lemma update_files_sound:
  fixes cache :: parser_cache
  assumes en: "encoder_ok en e dm" and ix: "index_sound e ix" and ne: "files \<noteq> []"
  defines "kept \<equiv> filter (\<lambda>c. ck_file c \<notin> set (map path_str files)) (sx_chunks ix)"
  defines "new \<equiv> fst (chunk_files en (filter (ix_exists en) files) cache)"
  shows "\<exists>ix'. fst (update_files en now ix files cache) = Inr ix' \<and> sx_chunks ix' = kept @ new \<and> index_sound e ix'"
proof -
  let ?keep = "filter (\<lambda>i. ck_file (sx_chunks ix ! i) \<notin> set (map path_str files)) [0..<length (sx_chunks ix)]"
  have rows: "map ((!) (sx_chunks ix)) ?keep = kept" unfolding kept_def by (rule map_nth_filter_upt)
  have "map ((!) (map (e \<circ> ck_text) (sx_chunks ix))) ?keep = map (e \<circ> ck_text) (map ((!) (sx_chunks ix)) ?keep)"
    by auto
  then have embs: "map ((!) (map (e \<circ> ck_text) (sx_chunks ix))) ?keep = map (e \<circ> ck_text) kept" by (simp only: rows)
  have kn: "?keep = [] \<longleftrightarrow> kept = []" using rows by (metis map_is_Nil_conv)
  obtain cache' where cf: "chunk_files en (filter (ix_exists en) files) cache = (new, cache')"
    unfolding new_def by (metis prod.collapse)
  have kept_embs: "(case sx_embeddings ix of None \<Rightarrow> Inr None | Some m \<Rightarrow> if ?keep = [] then Inr None
        else (case take_rows m ?keep of Inl e \<Rightarrow> Inl e | Inr r \<Rightarrow> Inr (Some r)))
      = (Inr (if kept = [] then None else Some (map (e \<circ> ck_text) kept)) :: exc + vec list option)"
  proof (cases "sx_chunks ix = []")
    case False
    then have "sx_embeddings ix = Some (map (e \<circ> ck_text) (sx_chunks ix))" using ix by (simp add: index_sound_def)
    moreover have "take_rows (map (e \<circ> ck_text) (sx_chunks ix)) ?keep = Inr (map (e \<circ> ck_text) kept)"
      unfolding embs [symmetric] by (simp add: take_rows_def)
    ultimately show ?thesis using kn by simp
  qed (use ix in \<open>simp add: index_sound_def kept_def\<close>)
  have stack: "vstack (map (e \<circ> ck_text) kept) (map e (map ck_text new)) = Inr (map (e \<circ> ck_text) (kept @ new))"
    using en by (simp add: vstack_def encoder_ok_def)
  have enc: "ix_encode en ts = map e ts" for ts using en by (simp add: encoder_ok_def)
  have ts: "set (map path_str files) \<noteq> {}" using ne by simp
  show ?thesis
    unfolding update_files_def Let_def if_not_P [OF ts] kept_embs rows cf
    using matrix_size_pos [OF en, of kept ck_text] stack
    by (cases "kept = []"; cases "new = []") (simp_all add: index_sound_def enc)
qed

section \<open>Incremental updates give what a rebuild gives\<close>

lemma chunk_lines_file: "c \<in> set (chunk_lines ls l ov f ty) \<Longrightarrow> ck_file c = f"
  by (auto simp: chunk_lines_def Let_def split: if_splits)

lemma buf_paras_file:
  "\<forall>c \<in> set (pb_chunks b). ck_file c = f \<Longrightarrow> \<forall>c \<in> set (pb_chunks (fold (buf_para f M ov ls) ps b)). ck_file c = f"
proof (induction ps arbitrary: b)
  case (Cons p ps)
  have "\<forall>c \<in> set (pb_chunks (buf_para f M ov ls p b)). ck_file c = f"
    using Cons.prems chunk_lines_file [of _ "py_slice (fst p - 1) (fst (snd p)) ls" M ov f "''prose''"]
    by (cases p) (auto simp: buf_para_def buf_flush_def prose_chunk_def Let_def)
  then show ?case using Cons.IH by simp
qed simp

lemma chunk_paragraphs_file: "c \<in> set (chunk_paragraphs t f M ov) \<Longrightarrow> ck_file c = f"
  using buf_paras_file [of "\<lparr>pb_chunks = [], pb_text = [], pb_start = None, pb_end = None, pb_lines = 0\<rparr>" f M ov
      "splitlines_keep t" "paragraphs_of (splitlines_keep t)"]
  by (auto simp: chunk_paragraphs_def prose_chunk_def Let_def split: if_splits)

definition file_chunks :: "index_env \<Rightarrow> path \<Rightarrow> chunk list" where
  "file_chunks en f = fst (chunk_file en f None None [])"

lemma chunk_file_line_window:
  assumes "\<not> cf_use_treesitter (ix_cfg en)"
  shows "chunk_file en f None None cache = (file_chunks en f, cache)"
  using assms by (simp add: file_chunks_def chunk_file_def chunk_text_def Let_def split: option.split)

lemma chunk_files_line_window:
  assumes "\<not> cf_use_treesitter (ix_cfg en)"
  shows "chunk_files en fs cache = (concat (map (file_chunks en) fs), cache)"
proof (induction fs rule: rev_induct)
  case (snoc f fs)
  then show ?case by (simp add: chunk_files_def chunk_file_line_window [OF assms])
qed (simp add: chunk_files_def)

lemma file_chunks_file:
  assumes "\<not> cf_use_treesitter (ix_cfg en)" "c \<in> set (file_chunks en f)"
  shows "ck_file c = path_str f"
  using assms
  by (auto simp: file_chunks_def chunk_file_def chunk_text_def Let_def dest: chunk_lines_file chunk_paragraphs_file
      split: option.splits if_splits)

lemma filter_concat_files:
  assumes "\<And>f c. f \<in> set fs \<Longrightarrow> c \<in> set (g f) \<Longrightarrow> (P c \<longleftrightarrow> Q f)"
  shows "filter P (concat (map g fs)) = concat (map g (filter Q fs))"
  using assms by (induction fs) (auto simp: filter_id_conv filter_empty_conv)

lemma mset_concat_split:
  "mset (concat (map g fs)) = mset (concat (map g (filter Q fs))) + mset (concat (map g (filter (\<lambda>f. \<not> Q f) fs)))"
  by (induction fs) auto

lemma chunk_text_cong:
  assumes "ix_cfg a = ix_cfg b" "ix_ts a = ix_ts b"
  shows "chunk_text a t f ty l ov cache = chunk_text b t f ty l ov cache"
  unfolding chunk_text_def assms by (rule refl)

text \<open>
  C4: an incremental update gives the index a rebuild would give. With the line-window chunker
  and an encoder that works text by text: after some of the indexed files changed (or vanished),
  updating exactly those files succeeds, and yields the chunks, as a multiset, of building the
  index anew from all files; each chunk's embedding row is again the embedding of its text.
\<close>

theorem incremental_equals_rebuild:
  assumes "\<not> cf_use_treesitter (ix_cfg en)" "encoder_ok en e d" "distinct (map path_str fs)"
    and "distinct upd" "set upd \<subseteq> set fs" "upd \<noteq> []"
    and "\<forall>f \<in> set fs - set upd. read' f = ix_read en f" "\<forall>f \<in> set upd. \<not> exists' f \<longrightarrow> read' f = None"
  defines "en' \<equiv> en\<lparr>ix_read := read', ix_exists := exists'\<rparr>"
  shows "\<exists>ix. fst (update_files en' now (fst (build_index en t r fs h cache)) upd cache') = Inr ix
    \<and> mset (sx_chunks ix) = mset (sx_chunks (fst (build_index en' t r fs h cache))) \<and> index_sound e ix"
proof -
  have en': "encoder_ok en' e d" "\<not> cf_use_treesitter (ix_cfg en')" using assms(1,2) by (auto simp: en'_def encoder_ok_def)
  have inj: "inj_on path_str (set fs)" using assms(3) by (simp add: distinct_map)
  have same: "file_chunks en' f = file_chunks en f" if "f \<in> set fs - set upd" for f
    using that assms(7) chunk_text_cong [of en' en]
    by (cases "ix_read en f") (auto simp: file_chunks_def chunk_file_def en'_def)
  have gone: "file_chunks en' f = []" if "f \<in> set upd" "\<not> exists' f" for f
    using that assms(8) by (simp add: file_chunks_def chunk_file_def en'_def)
  have chunks: "sx_chunks (fst (build_index e' t r fs h cache)) = concat (map (file_chunks e') fs)"
    if "\<not> cf_use_treesitter (ix_cfg e')" for e' by (simp add: build_index_def chunk_files_line_window [OF that])
  have mem: "path_str f \<in> path_str ` set upd \<longleftrightarrow> f \<in> set upd" if "f \<in> set fs" for f
    using that assms(5) inj by (auto dest: inj_onD)
  have kept: "filter (\<lambda>c. ck_file c \<notin> set (map path_str upd)) (sx_chunks (fst (build_index en t r fs h cache)))
      = concat (map (file_chunks en') (filter (\<lambda>f. f \<notin> set upd) fs))"
  proof -
    have "filter (\<lambda>c. ck_file c \<notin> set (map path_str upd)) (concat (map (file_chunks en) fs))
        = concat (map (file_chunks en) (filter (\<lambda>f. f \<notin> set upd) fs))"
      using mem by (intro filter_concat_files) (auto simp: file_chunks_file [OF assms(1)])
    also have "\<dots> = concat (map (file_chunks en') (filter (\<lambda>f. f \<notin> set upd) fs))"
      using same by (intro arg_cong [where f = concat] map_cong) auto
    finally show ?thesis by (simp add: chunks [OF assms(1)])
  qed
  have new: "concat (map (file_chunks en') (filter exists' upd)) = concat (map (file_chunks en') upd)"
    using gone by (induction upd) auto
  have perm: "mset (filter (\<lambda>f. \<not> f \<notin> set upd) fs) = mset upd"
  proof -
    have "distinct fs" using assms(3) by (simp add: distinct_map)
    then have "distinct (filter (\<lambda>f. f \<in> set upd) fs)" "set (filter (\<lambda>f. f \<in> set upd) fs) = set upd" using assms(5) by auto
    then have "mset (filter (\<lambda>f. f \<in> set upd) fs) = mset upd" using assms(4) set_eq_iff_mset_eq_distinct by blast
    then show ?thesis by simp
  qed
  then have "mset (concat (map (file_chunks en') (filter (\<lambda>f. \<not> f \<notin> set upd) fs))) = mset (concat (map (file_chunks en') upd))"
    by (metis mset_concat mset_map sum_mset_sum_list)
  then have "mset (concat (map (file_chunks en') fs))
      = mset (concat (map (file_chunks en') (filter (\<lambda>f. f \<notin> set upd) fs)) @ concat (map (file_chunks en') upd))"
    using mset_concat_split [of "file_chunks en'" fs "\<lambda>f. f \<notin> set upd"] by simp
  moreover have "ix_exists en' = exists'" by (simp add: en'_def)
  ultimately show ?thesis
    using update_files_sound [OF en'(1) build_index_sound [OF assms(2)] assms(6), of now t r fs h cache cache']
    unfolding kept chunk_files_line_window [OF en'(2)] fst_conv chunks [OF en'(2)] by (metis new)
qed

definition demo_cfg :: "service_config" where
  "demo_cfg = \<lparr>cf_cache_dir = ''/c'', cf_embedder_model = ''m'', cf_reranker_model = ''r'', cf_use_multi_query = True,
     cf_use_treesitter = False, cf_use_coarse_filter = False, cf_use_symbol_augment = True, cf_limits = limits_default\<rparr>"

definition demo_ix :: "index_env" where
  "demo_ix = \<lparr>ix_cfg = demo_cfg, ix_ts = demo_ts,
     ix_read = [[''a.py''] \<mapsto> ''x = 1'', [''b.md''] \<mapsto> ''hello''], ix_exists = (\<lambda>p. True), ix_encode = map (\<lambda>t. [1])\<rparr>"

theorem incremental_equals_rebuild_witness:
  "\<exists>ix. fst (update_files (demo_ix\<lparr>ix_read := [[''a.py''] \<mapsto> ''x = 1''], ix_exists := \<lambda>p. p = [''a.py'']\<rparr>) 2
        (fst (build_index demo_ix 1 [] [[''a.py''], [''b.md'']] ''h'' [])) [[''b.md'']] []) = Inr ix
    \<and> index_sound (\<lambda>t. [1]) ix"
proof -
  have enc: "encoder_ok demo_ix (\<lambda>t. [1]) 1" by (simp add: encoder_ok_def demo_ix_def)
  have dist: "distinct (map path_str [[''a.py''], [''b.md'']])" by code_simp
  have ts: "\<not> cf_use_treesitter (ix_cfg demo_ix)" by (simp add: demo_ix_def demo_cfg_def)
  show ?thesis
    using incremental_equals_rebuild [OF ts enc dist, of "[[''b.md'']]" "[[''a.py''] \<mapsto> ''x = 1'']" "\<lambda>p. p = [''a.py'']" 2 1 "[]" "''h''" "[]" "[]"]
    by (auto simp: demo_ix_def)
qed

end
