(* ===== verification/LC_Regex.thy ===== *)
theory LC_Regex
  imports LC_Str
begin

text \<open>
  Python's \<open>re\<close>, for the constructs the code uses: character classes, sequence, ordered
  alternation, greedy repetition, groups, \<open>\b\<close>, start of text, the start or a given character behind, negative lookahead. A run
  from a position yields the end positions in the order the backtracking matcher tries them, so
  the match is the head of that list. \<open>find_iter\<close> is \<open>finditer\<close> for patterns that match no
  empty text.
\<close>

datatype rx =
    RChar "char \<Rightarrow> bool"
  | REmpty
  | RSeq rx rx
  | RAlt rx rx
  | RStar rx
  | RBound
  | RStart
  | RNotAhead rx
  | RGroup nat rx
  | RAfter "char \<Rightarrow> bool"

text \<open>A position: what was read (reversed), what is left, the groups captured so far (latest first).\<close>

record rpos =
  rp_pre :: string
  rp_rest :: string
  rp_groups :: "(nat \<times> string) list"

definition word_boundary :: "rpos \<Rightarrow> bool" where
  "word_boundary p \<longleftrightarrow> (rp_pre p \<noteq> [] \<and> is_word (hd (rp_pre p))) \<noteq> (rp_rest p \<noteq> [] \<and> is_word (hd (rp_rest p)))"

definition step_char :: "(char \<Rightarrow> bool) \<Rightarrow> rpos \<Rightarrow> rpos list" where
  "step_char P p = (case rp_rest p of
     [] \<Rightarrow> []
   | c # s \<Rightarrow> if P c then [p\<lparr>rp_pre := c # rp_pre p, rp_rest := s\<rparr>] else [])"

definition close_group :: "nat \<Rightarrow> rpos \<Rightarrow> rpos \<Rightarrow> rpos" where
  "close_group n p q = q\<lparr>rp_groups := (n, take (length (rp_rest p) - length (rp_rest q)) (rp_rest p)) # rp_groups q\<rparr>"

function rx_run :: "rx \<Rightarrow> rpos \<Rightarrow> rpos list" where
  "rx_run (RChar P) p = step_char P p"
| "rx_run REmpty p = [p]"
| "rx_run (RSeq r s) p = concat (map (rx_run s) (rx_run r p))"
| "rx_run (RAlt r s) p = rx_run r p @ rx_run s p"
| "rx_run (RStar r) p =
     concat (map (\<lambda>q. if length (rp_rest q) < length (rp_rest p) then rx_run (RStar r) q else []) (rx_run r p)) @ [p]"
| "rx_run RBound p = (if word_boundary p then [p] else [])"
| "rx_run RStart p = (if rp_pre p = [] then [p] else [])"
| "rx_run (RNotAhead r) p = (if rx_run r p = [] then [p] else [])"
| "rx_run (RGroup n r) p = map (close_group n p) (rx_run r p)"
| "rx_run (RAfter P) p = (if rp_pre p = [] \<or> P (hd (rp_pre p)) then [p] else [])"
  by pat_completeness auto
termination
  by (relation "measures [\<lambda>(r, p). size r, \<lambda>(r, p). length (rp_rest p)]") auto

declare rx_run.simps [simp del]

definition rplus :: "rx \<Rightarrow> rx" where "rplus r = RSeq r (RStar r)"
definition ropt :: "rx \<Rightarrow> rx" where "ropt r = RAlt r REmpty"

fun rseq :: "rx list \<Rightarrow> rx" where
  "rseq [] = REmpty"
| "rseq [r] = r"
| "rseq (r # rs) = RSeq r (rseq rs)"

fun rstr :: "string \<Rightarrow> rx" where
  "rstr [] = REmpty"
| "rstr [c] = RChar (\<lambda>x. x = c)"
| "rstr (c # d # s) = RSeq (RChar (\<lambda>x. x = c)) (rstr (d # s))"

fun ralts :: "rx list \<Rightarrow> rx" where
  "ralts [] = RNotAhead REmpty"
| "ralts [r] = r"
| "ralts (r # rs) = RAlt r (ralts rs)"

definition rahead :: "rx \<Rightarrow> rx" where
  \<comment> \<open>\<open>(?=r)\<close>\<close>
  "rahead r = RNotAhead (RNotAhead r)"

definition rbol :: rx where
  \<comment> \<open>\<open>^\<close> under \<open>MULTILINE\<close>\<close>
  "rbol = RAfter (\<lambda>c. c = CHR 0x0A)"

fun rci :: "string \<Rightarrow> rx" where
  \<comment> \<open>a literal under \<open>IGNORECASE\<close>\<close>
  "rci [] = REmpty"
| "rci (c # s) = RSeq (RChar (\<lambda>x. lower_char x = lower_char c)) (rci s)"

fun rupto :: "nat \<Rightarrow> rx \<Rightarrow> rx" where
  \<comment> \<open>\<open>r{0,n}\<close>\<close>
  "rupto 0 r = REmpty"
| "rupto (Suc n) r = RAlt (RSeq r (rupto n r)) REmpty"

definition group_text :: "nat \<Rightarrow> rpos \<Rightarrow> string" where
  "group_text n q = (case map_of (rp_groups q) n of None \<Rightarrow> [] | Some s \<Rightarrow> s)"

definition rx_match_at :: "rx \<Rightarrow> string \<Rightarrow> string \<Rightarrow> rpos option" where
  "rx_match_at r pre s = (case rx_run r \<lparr>rp_pre = pre, rp_rest = s, rp_groups = []\<rparr> of [] \<Rightarrow> None | q # _ \<Rightarrow> Some q)"

function find_iter_from :: "rx \<Rightarrow> string \<Rightarrow> string \<Rightarrow> rpos list" where
  "find_iter_from r pre s =
     (case rx_match_at r pre s of
        Some q \<Rightarrow>
          if length (rp_rest q) < length s then q # find_iter_from r (rp_pre q) (rp_rest q)
          else (case s of [] \<Rightarrow> [q] | c # s' \<Rightarrow> q # find_iter_from r (c # pre) s')
      | None \<Rightarrow> (case s of [] \<Rightarrow> [] | c # s' \<Rightarrow> find_iter_from r (c # pre) s'))"
  by pat_completeness auto
termination
  by (relation "measure (\<lambda>(r, pre, s). length s)") auto

declare find_iter_from.simps [simp del]

definition find_iter :: "rx \<Rightarrow> string \<Rightarrow> rpos list" where
  "find_iter r s = find_iter_from r [] s"

definition find_all1 :: "rx \<Rightarrow> string \<Rightarrow> string list" where
  \<comment> \<open>\<open>findall\<close> of a pattern with one group\<close>
  "find_all1 r s = map (group_text 1) (find_iter r s)"

definition rx_search :: "rx \<Rightarrow> string \<Rightarrow> bool" where
  \<comment> \<open>\<open>search(s) is not None\<close>\<close>
  "rx_search r s \<longleftrightarrow> find_iter r s \<noteq> []"

section \<open>What a run can do\<close>

text \<open>A run reads a prefix of what is left and keeps the groups it had.\<close>

definition run_reads :: "rpos \<Rightarrow> rpos \<Rightarrow> string \<Rightarrow> bool" where
  "run_reads p q m \<longleftrightarrow> rp_rest p = m @ rp_rest q \<and> rp_pre q = rev m @ rp_pre p \<and> suffix (rp_groups p) (rp_groups q)"

lemma run_reads_refl: "run_reads p p []"
  by (simp add: run_reads_def)

lemma run_reads_trans: "run_reads p q m \<Longrightarrow> run_reads q r n \<Longrightarrow> run_reads p r (m @ n)"
  by (auto simp: run_reads_def suffix_def)

lemma rx_run_reads: "q \<in> set (rx_run r p) \<Longrightarrow> \<exists>m. run_reads p q m"
proof (induction r p arbitrary: q rule: rx_run.induct)
  case (1 P p)
  then show ?case by (auto simp: rx_run.simps step_char_def run_reads_def split: list.splits if_splits)
next
  case (3 r s p)
  then show ?case by (simp add: rx_run.simps) (metis run_reads_trans)
next
  case (5 r p)
  consider "q = p" | q' where "q' \<in> set (rx_run r p)" "length (rp_rest q') < length (rp_rest p)" "q \<in> set (rx_run (RStar r) q')"
    using 5(3) by (subst (asm) rx_run.simps) (auto split: if_splits)
  then show ?case
  proof cases
    case 1
    then show ?thesis using run_reads_refl by blast
  next
    case 2
    obtain m where "run_reads p q' m" using 5(1) [OF 2(1)] by blast
    moreover obtain n where "run_reads q' q n" using 5(2) [OF 2] by blast
    ultimately show ?thesis using run_reads_trans by blast
  qed
next
  case (9 n r p)
  then obtain q' where q': "q' \<in> set (rx_run r p)" "q = close_group n p q'" by (auto simp: rx_run.simps)
  obtain m where "run_reads p q' m" using 9(1) [OF q'(1)] by blast
  then have "run_reads p q m" using q'(2) by (simp add: run_reads_def close_group_def suffix_ConsI)
  then show ?case by blast
qed (auto simp: rx_run.simps intro: run_reads_refl split: if_splits)

lemma rx_group_run:
  assumes "q \<in> set (rx_run (RGroup n r) p)"
  shows "\<exists>q' m. q' \<in> set (rx_run r p) \<and> run_reads p q' m \<and> rp_rest q = rp_rest q' \<and> rp_pre q = rp_pre q'
    \<and> rp_groups q = (n, m) # rp_groups q'"
proof -
  obtain q' where q': "q' \<in> set (rx_run r p)" "q = close_group n p q'" using assms by (auto simp: rx_run.simps)
  obtain m where m: "run_reads p q' m" using rx_run_reads [OF q'(1)] by blast
  then have "take (length (rp_rest p) - length (rp_rest q')) (rp_rest p) = m" by (simp add: run_reads_def)
  then show ?thesis using q' m by (auto simp: close_group_def)
qed

lemma rx_char_run: "q \<in> set (rx_run (RChar P) p) \<Longrightarrow> \<exists>c. P c \<and> rp_rest p = c # rp_rest q \<and> rp_groups q = rp_groups p"
  by (auto simp: rx_run.simps step_char_def split: list.splits if_splits)

lemma rx_star_char: "q \<in> set (rx_run (RStar (RChar P)) p) \<Longrightarrow> \<exists>m. rp_rest p = m @ rp_rest q \<and> (\<forall>c \<in> set m. P c) \<and> rp_groups q = rp_groups p"
proof (induction "length (rp_rest p)" arbitrary: p rule: less_induct)
  case less
  consider "q = p" | q' where "q' \<in> set (rx_run (RChar P) p)" "length (rp_rest q') < length (rp_rest p)"
      "q \<in> set (rx_run (RStar (RChar P)) q')"
    using less.prems by (subst (asm) rx_run.simps) (auto split: if_splits)
  then show ?case
  proof cases
    case 2
    obtain c where c: "P c" "rp_rest p = c # rp_rest q'" "rp_groups q' = rp_groups p" using rx_char_run [OF 2(1)] by blast
    obtain m where "rp_rest q' = m @ rp_rest q" "\<forall>c \<in> set m. P c" "rp_groups q = rp_groups q'"
      using less.hyps [OF 2(2,3)] by blast
    then show ?thesis using c by (intro exI [of _ "c # m"]) simp
  qed simp
qed

lemma rx_str_run: "q \<in> set (rx_run (rstr s) p) \<Longrightarrow> rp_rest p = s @ rp_rest q \<and> rp_groups q = rp_groups p"
proof (induction s arbitrary: p rule: rstr.induct)
  case (2 c)
  then show ?case by (auto dest: rx_char_run)
next
  case (3 c d s)
  then obtain q' where "q' \<in> set (rx_run (RChar (\<lambda>x. x = c)) p)" "q \<in> set (rx_run (rstr (d # s)) q')"
    by (auto simp: rx_run.simps)
  then show ?case using "3.IH" [of q'] by (auto dest: rx_char_run)
qed (simp add: rx_run.simps)

lemma find_iter_from_sound:
  "q \<in> set (find_iter_from r pre s) \<Longrightarrow>
   \<exists>m t. s = m @ t \<and> q \<in> set (rx_run r \<lparr>rp_pre = rev m @ pre, rp_rest = t, rp_groups = []\<rparr>)"
proof (induction r pre s rule: find_iter_from.induct)
  case (1 r pre s)
  let ?p = "\<lparr>rp_pre = pre, rp_rest = s, rp_groups = []\<rparr>"
  have at: "q' \<in> set (rx_run r ?p)" if "rx_match_at r pre s = Some q'" for q'
    using that by (auto simp: rx_match_at_def split: list.splits)
  have step: "\<exists>m t. s = m @ t \<and> q \<in> set (rx_run r \<lparr>rp_pre = rev m @ pre, rp_rest = t, rp_groups = []\<rparr>)"
    if "s = c # s'" "\<exists>m t. s' = m @ t \<and> q \<in> set (rx_run r \<lparr>rp_pre = rev m @ c # pre, rp_rest = t, rp_groups = []\<rparr>)" for c s'
    using that by (metis append.assoc append_Cons append_Nil rev.simps(2))
  show ?case
  proof (cases "rx_match_at r pre s")
    case None
    then obtain c s' where s: "s = c # s'" and q: "q \<in> set (find_iter_from r (c # pre) s')"
      using 1(4) by (subst (asm) find_iter_from.simps) (auto split: list.splits)
    show ?thesis by (rule step [OF s]) (rule 1(1) [OF None s q])
  next
    case (Some q')
    note run = at [OF Some]
    show ?thesis
    proof (cases "length (rp_rest q') < length s")
      case True
      then consider "q = q'" | "q \<in> set (find_iter_from r (rp_pre q') (rp_rest q'))"
        using 1(4) Some by (subst (asm) find_iter_from.simps) auto
      then show ?thesis
      proof cases
        case 2
        obtain m where m: "s = m @ rp_rest q'" "rp_pre q' = rev m @ pre"
          using rx_run_reads [OF run] by (auto simp: run_reads_def)
        obtain m' t where "rp_rest q' = m' @ t" "q \<in> set (rx_run r \<lparr>rp_pre = rev m' @ rp_pre q', rp_rest = t, rp_groups = []\<rparr>)"
          using 1(2) [OF Some True 2] by blast
        then show ?thesis using m by (intro exI [of _ "m @ m'"] exI [of _ t]) simp
      qed (use run in force)
    next
      case False
      then consider "q = q'" | c s' where "s = c # s'" "q \<in> set (find_iter_from r (c # pre) s')"
        using 1(4) Some by (subst (asm) find_iter_from.simps) (auto split: list.splits)
      then show ?thesis
      proof cases
        case 2
        show ?thesis by (rule step [OF 2(1)]) (rule 1(3) [OF Some False 2])
      qed (use run in force)
    qed
  qed
qed

lemma find_iter_sound:
  "q \<in> set (find_iter r s) \<Longrightarrow> \<exists>m t. s = m @ t \<and> q \<in> set (rx_run r \<lparr>rp_pre = rev m, rp_rest = t, rp_groups = []\<rparr>)"
  using find_iter_from_sound [of q r "[]" s] by (simp add: find_iter_def)

lemma find_iter_from_complete:
  "rx_run r \<lparr>rp_pre = rev m @ pre, rp_rest = t, rp_groups = []\<rparr> \<noteq> [] \<Longrightarrow> find_iter_from r pre (m @ t) \<noteq> []"
proof (induction m arbitrary: pre)
  case Nil
  then have "rx_match_at r pre t \<noteq> None" by (cases "rx_run r \<lparr>rp_pre = pre, rp_rest = t, rp_groups = []\<rparr>") (simp_all add: rx_match_at_def)
  then obtain q where "rx_match_at r pre t = Some q" by blast
  then show ?case by (subst find_iter_from.simps) (auto split: list.split)
next
  case (Cons c m)
  show ?case
  proof (cases "rx_match_at r pre ((c # m) @ t)")
    case None
    have "find_iter_from r (c # pre) (m @ t) \<noteq> []" using Cons by simp
    then show ?thesis using None by (subst find_iter_from.simps) simp
  next
    case (Some q)
    then show ?thesis by (subst find_iter_from.simps) simp
  qed
qed

lemma rx_search_iff:
  "rx_search r s \<longleftrightarrow> (\<exists>m t. s = m @ t \<and> rx_run r \<lparr>rp_pre = rev m, rp_rest = t, rp_groups = []\<rparr> \<noteq> [])"
proof
  assume "rx_search r s"
  then obtain q where "q \<in> set (find_iter r s)" unfolding rx_search_def by (meson list.set_sel(1))
  from find_iter_sound [OF this] show "\<exists>m t. s = m @ t \<and> rx_run r \<lparr>rp_pre = rev m, rp_rest = t, rp_groups = []\<rparr> \<noteq> []"
    by (metis empty_iff empty_set)
next
  assume "\<exists>m t. s = m @ t \<and> rx_run r \<lparr>rp_pre = rev m, rp_rest = t, rp_groups = []\<rparr> \<noteq> []"
  then obtain m t where "s = m @ t" "rx_run r \<lparr>rp_pre = rev m, rp_rest = t, rp_groups = []\<rparr> \<noteq> []" by blast
  then show "rx_search r s" using find_iter_from_complete [of r m "[]" t] by (simp add: rx_search_def find_iter_def)
qed

lemma rx_run_rci:
  "rx_run (rci n) p =
     (if length n \<le> length (rp_rest p) \<and> py_lower (take (length n) (rp_rest p)) = py_lower n
      then [p\<lparr>rp_pre := rev (take (length n) (rp_rest p)) @ rp_pre p, rp_rest := drop (length n) (rp_rest p)\<rparr>] else [])"
proof (induction n arbitrary: p)
  case (Cons c n)
  show ?case
  proof (cases "rp_rest p")
    case Nil
    then show ?thesis by (simp add: rx_run.simps step_char_def)
  next
    case (Cons d t)
    then show ?thesis using Cons.IH [of "p\<lparr>rp_pre := d # rp_pre p, rp_rest := t\<rparr>"]
      by (simp add: rx_run.simps step_char_def py_lower_def)
  qed
qed (simp add: rx_run.simps py_lower_def)

section \<open>Groups are pieces of the text\<close>

definition text_of :: "rpos \<Rightarrow> string" where
  "text_of p = rev (rp_pre p) @ rp_rest p"

definition groups_within :: "string \<Rightarrow> rpos \<Rightarrow> bool" where
  "groups_within s p \<longleftrightarrow> text_of p = s \<and> (\<forall>(n, g) \<in> set (rp_groups p). sublist g s)"

lemma run_reads_text: "run_reads p q m \<Longrightarrow> text_of q = text_of p"
  by (auto simp: run_reads_def text_of_def)

lemma rx_run_groups: "q \<in> set (rx_run r p) \<Longrightarrow> groups_within s p \<Longrightarrow> groups_within s q"
proof (induction r p arbitrary: q rule: rx_run.induct)
  case (1 P p)
  then show ?case by (auto simp: rx_run.simps step_char_def groups_within_def text_of_def split: list.splits if_splits)
next
  case (3 r t p)
  then show ?case by (auto simp: rx_run.simps)
next
  case (5 r p)
  consider "q = p" | q' where "q' \<in> set (rx_run r p)" "length (rp_rest q') < length (rp_rest p)" "q \<in> set (rx_run (RStar r) q')"
    using 5(3) by (subst (asm) rx_run.simps) (auto split: if_splits)
  then show ?case
  proof cases
    case 1
    then show ?thesis using 5(4) by simp
  next
    case 2
    show ?thesis by (rule 5(2) [OF 2 5(1) [OF 2(1) 5(4)]])
  qed
next
  case (9 n r p)
  then obtain q' where q': "q' \<in> set (rx_run r p)" "q = close_group n p q'" by (auto simp: rx_run.simps)
  have w: "groups_within s q'" by (rule 9(1) [OF q'(1) 9(3)])
  obtain m where m: "run_reads p q' m" using rx_run_reads [OF q'(1)] by blast
  have "take (length (rp_rest p) - length (rp_rest q')) (rp_rest p) = m" using m by (simp add: run_reads_def)
  moreover have "sublist m s"
    using m 9(3) by (auto simp: groups_within_def text_of_def run_reads_def sublist_def)
  ultimately show ?case using w q'(2) by (simp add: groups_within_def close_group_def text_of_def)
qed (auto simp: rx_run.simps split: if_splits)

lemma find_iter_group:
  assumes "q \<in> set (find_iter r s)"
  shows "sublist (group_text n q) s"
proof -
  obtain m t where s: "s = m @ t" "q \<in> set (rx_run r \<lparr>rp_pre = rev m, rp_rest = t, rp_groups = []\<rparr>)"
    using find_iter_sound [OF assms] by blast
  have "groups_within s q" by (rule rx_run_groups [OF s(2)]) (simp add: groups_within_def text_of_def s(1))
  then show ?thesis
    by (cases "map_of (rp_groups q) n") (auto simp: groups_within_def group_text_def dest: map_of_SomeD)
qed

end
