(* ===== verification/Svc_Detect.thy ===== *)
theory Svc_Detect
  imports Svc_Config Svc_Builder LC_Regex
begin

text \<open>
  Scope detection (\<open>longctx_svc/scope/detect.py\<close>): the paths a prompt mentions, the sentinel
  root above each, and the scope or scopes they select.

  The file system is a parameter: \<open>is_dir\<close> and \<open>exists\<close> (\<open>None\<close>: raises), \<open>resolve\<close> (\<open>None\<close>:
  raises). The upward walk is a loop with no bound in the code; here it is a partial function,
  whose value \<open>None\<close> would be not returning, and it is proved to return.
\<close>

record detect_env =
  dt_is_dir :: "path \<Rightarrow> bool option"
  dt_exists :: "path \<Rightarrow> bool option"
  dt_resolve :: "path \<Rightarrow> path option"
  dt_expand_resolve :: "path \<Rightarrow> path option"  \<comment> \<open>\<open>expanduser().resolve()\<close>\<close>
  dt_darwin :: bool
  dt_sha16 :: "string \<Rightarrow> string"               \<comment> \<open>the first 16 hex digits of the digest\<close>

section \<open>Paths in the prompt\<close>

definition boundary_rx :: rx where
  "boundary_rx = RAlt RStart (RChar (\<lambda>c. is_space c \<or> c \<in> {CHR 0x27, CHR 0x22, CHR 0x60, CHR ''(''}))"

definition path_char :: "char \<Rightarrow> bool" where
  "path_char c \<longleftrightarrow> \<not> (is_space c \<or> c \<in> {CHR 0x27, CHR 0x22, CHR 0x60, CHR '')'', CHR '']''})"

definition path_roots :: "string list" where
  "path_roots = [''Users'', ''home'', ''opt'', ''var'', ''usr'', ''tmp'', ''mnt'', ''workspace'', ''repo'', ''repos'',
     ''private'', ''root'', ''srv'', ''data'']"

definition path_rx :: rx where
  "path_rx = rseq [boundary_rx, RGroup 1 (rseq [rstr ''/'', ralts (map rstr path_roots), rstr ''/'', rplus (RChar path_char)])]"

definition name_char :: "char \<Rightarrow> bool" where
  "name_char c \<longleftrightarrow> is_word c \<or> c = CHR ''.'' \<or> c = CHR ''-''"

definition letter :: "char \<Rightarrow> bool" where
  "letter c \<longleftrightarrow> is_upper_ascii c \<or> is_lower_ascii c"

definition rel_path_rx :: rx where
  "rel_path_rx = rseq [boundary_rx, RGroup 1 (rseq [RNotAhead (rstr ''/''), RChar (\<lambda>c. letter c \<or> c = CHR ''_''),
     RStar (RChar name_char), rplus (RSeq (rstr ''/'') (rplus (RChar name_char))), rstr ''.'', RChar letter, rupto 7 (RChar is_word)])]"

definition trim_punct :: "string \<Rightarrow> string" where
  "trim_punct s = py_rstrip_by (\<lambda>c. c \<in> set ''.,;:!?'') s"

definition join_path :: "path \<Rightarrow> string \<Rightarrow> path" where
  \<comment> \<open>\<open>p / s\<close>\<close>
  "join_path p s = (let q = path_of s in if path_abs q then q else p @ q)"

definition mentions :: "rx \<Rightarrow> string \<Rightarrow> string list" where
  "mentions r prefill = map trim_punct (find_all1 r prefill)"

definition extract_paths_from_prefill :: "detect_env \<Rightarrow> string \<Rightarrow> path option \<Rightarrow> path list" where
  "extract_paths_from_prefill en prefill default_scope =
     (let absolute = dedupe {} (mentions path_rx prefill);
          paths = map path_of absolute
      in case default_scope of
           None \<Rightarrow> paths
         | Some d \<Rightarrow>
             let base = (case dt_expand_resolve en d of None \<Rightarrow> d | Some r \<Rightarrow> r);
                 relative = dedupe (set absolute) (mentions rel_path_rx prefill)
             in paths @ filter (\<lambda>full. dt_exists en full = Some True) (map (join_path base) relative))"

section \<open>Canonical roots and sentinels\<close>

definition canonicalize_scope :: "detect_env \<Rightarrow> path \<Rightarrow> path" where
  "canonicalize_scope en p =
     (case dt_resolve en p of
        None \<Rightarrow> p
      | Some rp \<Rightarrow>
          let s = py_rstrip_by (\<lambda>c. c = CHR ''/'') (path_str rp)
          in path_of (if dt_darwin en then py_lower s else s))"

definition hash_scope :: "detect_env \<Rightarrow> path \<Rightarrow> string" where
  "hash_scope en p = dt_sha16 en (path_str p)"

fun first_sentinel :: "detect_env \<Rightarrow> path \<Rightarrow> string list \<Rightarrow> exc + string option" where
  "first_sentinel en p [] = Inr None"
| "first_sentinel en p (s # ss) =
     (case dt_exists en (join_path p s) of
        None \<Rightarrow> Inl OSError
      | Some True \<Rightarrow> Inr (Some s)
      | Some False \<Rightarrow> first_sentinel en p ss)"

partial_function (option) sentinel_loop :: "detect_env \<Rightarrow> string list \<Rightarrow> path \<Rightarrow> (exc + (path \<times> string) option) option" where
  "sentinel_loop en ss p =
     (case first_sentinel en p ss of
        Inl e \<Rightarrow> Some (Inl e)
      | Inr (Some s) \<Rightarrow> Some (Inr (Some (p, s)))
      | Inr None \<Rightarrow> if path_parent p = p then Some (Inr None) else sentinel_loop en ss (path_parent p))"

definition walk_start :: "detect_env \<Rightarrow> path \<Rightarrow> bool \<Rightarrow> path" where
  "walk_start en start is_dir =
     (let p = (if is_dir then start else path_parent start)
      in case dt_resolve en p of None \<Rightarrow> p | Some r \<Rightarrow> r)"

definition find_sentinel_root :: "detect_env \<Rightarrow> string list \<Rightarrow> path \<Rightarrow> (exc + (path \<times> string) option) option" where
  "find_sentinel_root en ss start =
     (case dt_is_dir en start of
        None \<Rightarrow> Some (Inl OSError)
      | Some d \<Rightarrow> sentinel_loop en (if ss = [] then sentinels else ss) (walk_start en start d))"

function common_parts :: "path \<Rightarrow> path list \<Rightarrow> path" where
  \<comment> \<open>the columns of \<open>zip(*parts_list)\<close> whose parts all agree, up to the first that does not\<close>
  "common_parts [] ps = []"
| "common_parts (x # xs) ps =
     (if list_all (\<lambda>q. q \<noteq> [] \<and> hd q = x) ps then x # common_parts xs (map tl ps) else [])"
  by pat_completeness auto
termination by (relation "measure (\<lambda>(p, ps). length p)") auto

definition shared_subpath :: "detect_env \<Rightarrow> path list \<Rightarrow> exc + path option" where
  "shared_subpath en ps =
     (case ps of
        [] \<Rightarrow> Inr None
      | [p] \<Rightarrow> (case dt_is_dir en p of None \<Rightarrow> Inl OSError | Some d \<Rightarrow> Inr (Some (if d then p else path_parent p)))
      | p # qs \<Rightarrow> let common = common_parts p qs in Inr (if common = [] then None else Some common))"

section \<open>Scopes\<close>

record detected_scope =
  ds_root :: path
  ds_sentinel :: string
  ds_hash :: string
  ds_mentioned :: "path list"

fun group_roots :: "detect_env \<Rightarrow> string list \<Rightarrow> path list \<Rightarrow> (path, string \<times> path list) dict \<Rightarrow> (exc + (path, string \<times> path list) dict) option" where
  "group_roots en ss [] seen = Some (Inr seen)"
| "group_roots en ss (p # ps) seen =
     (case find_sentinel_root en ss p of
        None \<Rightarrow> None
      | Some (Inl e) \<Rightarrow> Some (Inl e)
      | Some (Inr None) \<Rightarrow> group_roots en ss ps seen
      | Some (Inr (Some (base, sent))) \<Rightarrow>
          let canon = canonicalize_scope en base;
              (sent', originals) = (case dict_get seen canon of None \<Rightarrow> (sent, []) | Some x \<Rightarrow> x)
          in group_roots en ss ps (dict_set canon (sent', originals @ [p]) seen))"

definition scope_at :: "detect_env \<Rightarrow> path \<Rightarrow> string \<Rightarrow> path list \<Rightarrow> detected_scope" where
  "scope_at en canon sent originals =
     \<lparr>ds_root = canon, ds_sentinel = sent, ds_hash = hash_scope en canon, ds_mentioned = originals\<rparr>"

definition detect_scopes :: "detect_env \<Rightarrow> string \<Rightarrow> string list \<Rightarrow> path option \<Rightarrow> (exc + detected_scope list) option" where
  "detect_scopes en prefill ss default_scope =
     (let paths = extract_paths_from_prefill en prefill default_scope
      in if paths = [] then Some (Inr [])
         else map_option (map_sum id (map (\<lambda>(canon, sent, originals). scope_at en canon sent originals)))
           (group_roots en ss paths []))"

fun roots_of :: "detect_env \<Rightarrow> string list \<Rightarrow> path list \<Rightarrow> (exc + (path \<times> string \<times> path) list) option" where
  "roots_of en ss [] = Some (Inr [])"
| "roots_of en ss (p # ps) =
     (case find_sentinel_root en ss p of
        None \<Rightarrow> None
      | Some (Inl e) \<Rightarrow> Some (Inl e)
      | Some (Inr None) \<Rightarrow> roots_of en ss ps
      | Some (Inr (Some (r, s))) \<Rightarrow> map_option (map_sum id (Cons (r, s, p))) (roots_of en ss ps))"

fun first_max :: "('a \<Rightarrow> nat) \<Rightarrow> 'a list \<Rightarrow> 'a option" where
  \<comment> \<open>\<open>max\<close>: the first of the greatest\<close>
  "first_max f [] = None"
| "first_max f (x # xs) = (case first_max f xs of None \<Rightarrow> Some x | Some m \<Rightarrow> Some (if f m \<le> f x then x else m))"

definition most_common :: "'a list \<Rightarrow> 'a option" where
  \<comment> \<open>\<open>Counter(xs).most_common(1)\<close>\<close>
  "most_common xs = first_max (\<lambda>x. length (filter ((=) x) xs)) (dedupe {} xs)"

definition sub_package :: "detect_env \<Rightarrow> string list \<Rightarrow> path list \<Rightarrow> path \<times> string \<Rightarrow> (exc + path \<times> string) option" where
  \<comment> \<open>prefer a sentinel between the best root and what its paths share\<close>
  "sub_package en ss inside best =
     (case shared_subpath en inside of
        Inl e \<Rightarrow> Some (Inl e)
      | Inr None \<Rightarrow> Some (Inr best)
      | Inr (Some shared) \<Rightarrow>
          if shared \<noteq> fst best \<and> fst best \<in> set (path_parents shared) then
            (case find_sentinel_root en ss shared of
               None \<Rightarrow> None
             | Some (Inl e) \<Rightarrow> Some (Inl e)
             | Some (Inr None) \<Rightarrow> Some (Inr best)
             | Some (Inr (Some hit)) \<Rightarrow>
                 Some (Inr (if fst hit \<noteq> fst best \<and> fst best \<in> set (path_parents (fst hit)) then hit else best)))
          else Some (Inr best))"

definition detect_scope ::
  "detect_env \<Rightarrow> string \<Rightarrow> path option \<Rightarrow> string list \<Rightarrow> path option \<Rightarrow> (exc + detected_scope option) option" where
  "detect_scope en prefill explicit_root ss default_scope =
     (case explicit_root of
        Some r \<Rightarrow> let canon = canonicalize_scope en r in Some (Inr (Some (scope_at en canon ''explicit'' [canon])))
      | None \<Rightarrow>
          let paths = extract_paths_from_prefill en prefill default_scope in
          if paths = [] then Some (Inr None)
          else case roots_of en ss paths of
            None \<Rightarrow> None
          | Some (Inl e) \<Rightarrow> Some (Inl e)
          | Some (Inr roots) \<Rightarrow>
              (case most_common (map (\<lambda>(r, s, p). (r, s)) roots) of
                 None \<Rightarrow> Some (Inr None)
               | Some best \<Rightarrow>
                   (case sub_package en ss (map (\<lambda>(r, s, p). p) (filter (\<lambda>(r, s, p). r = fst best) roots)) best of
                      None \<Rightarrow> None
                    | Some (Inl e) \<Rightarrow> Some (Inl e)
                    | Some (Inr (r, s)) \<Rightarrow>
                        Some (Inr (Some (scope_at en (canonicalize_scope en r) s (map (\<lambda>(r, s, p). p) roots)))))))"

section \<open>The upward walk\<close>

lemma path_parents_unfold:
  "path_parents p = (if path_parent p = p then [] else path_parent p # path_parents (path_parent p))"
proof (cases "p = [] \<or> p = [''/'']")
  case True
  then show ?thesis by (auto simp: path_parents_def path_parent_def path_abs_def)
next
  case False
  define m where "m = length p - 1"
  let ?k = "if path_abs p then 1 else 0 :: nat"
  have len: "length p = Suc m" and parent: "path_parent p = butlast p" and m: "butlast p = take m p"
    using False by (simp_all add: m_def path_parent_def butlast_conv_take)
  have ne: "path_parent p \<noteq> p" using len parent by (metis length_butlast diff_Suc_1 n_not_Suc_n)
  have k: "?k \<le> m" using False len by (cases p) (auto simp: path_abs_def m_def Suc_le_eq)
  have abs: "path_abs (butlast p) = path_abs p"
    using False by (cases p) (auto simp: path_abs_def)
  have "path_parents p = take m p # map (\<lambda>i. take i p) (rev [?k..<m])"
    using k by (simp add: path_parents_def len)
  also have "map (\<lambda>i. take i p) (rev [?k..<m]) = map (\<lambda>i. take i (butlast p)) (rev [?k..<m])"
    by (auto simp: m min_def)
  also have "\<dots> = path_parents (butlast p)" by (simp add: path_parents_def abs len)
  finally show ?thesis using ne parent m by simp
qed

fun nearest :: "detect_env \<Rightarrow> string list \<Rightarrow> path list \<Rightarrow> exc + (path \<times> string) option" where
  \<comment> \<open>the first directory of the list that has a sentinel\<close>
  "nearest en ss [] = Inr None"
| "nearest en ss (p # ps) =
     (case first_sentinel en p ss of
        Inl e \<Rightarrow> Inl e | Inr (Some s) \<Rightarrow> Inr (Some (p, s)) | Inr None \<Rightarrow> nearest en ss ps)"

lemma sentinel_loop_nearest: "sentinel_loop en ss p = Some (nearest en ss (p # path_parents p))"
proof (induction "length p" arbitrary: p rule: less_induct)
  case less
  show ?case
  proof (cases "first_sentinel en p ss = Inr None \<and> path_parent p \<noteq> p")
    case True
    then have "sentinel_loop en ss p = sentinel_loop en ss (path_parent p)"
      by (subst sentinel_loop.simps) simp
    also have "\<dots> = Some (nearest en ss (path_parent p # path_parents (path_parent p)))"
      using less True path_parent_shorter by blast
    finally show ?thesis using True path_parents_unfold [of p] by simp
  next
    case False
    then show ?thesis using path_parents_unfold [of p]
      by (subst sentinel_loop.simps) (auto split: sum.splits option.splits)
  qed
qed

definition chosen_sentinels :: "string list \<Rightarrow> string list" where
  "chosen_sentinels ss = (if ss = [] then sentinels else ss)"

text \<open>
  The upward walk returns the nearest sentinel root. For every file system and every path the
  loop ends, and its answer is the first of the start directory and its ancestors, from the
  inside out, in which a sentinel exists, with the first sentinel of the list that does; no
  answer when there is none up to the root; and the error of the first test that raises.
\<close>

lemma sentinel_root_nearest:
  "find_sentinel_root en ss start = Some (case dt_is_dir en start of
     None \<Rightarrow> Inl OSError
   | Some d \<Rightarrow> nearest en (chosen_sentinels ss) (walk_start en start d # path_parents (walk_start en start d)))"
  by (cases "dt_is_dir en start") (simp_all add: find_sentinel_root_def sentinel_loop_nearest chosen_sentinels_def del: nearest.simps)

definition root_of :: "detect_env \<Rightarrow> string list \<Rightarrow> path \<Rightarrow> exc + (path \<times> string) option" where
  "root_of en ss start = (case dt_is_dir en start of
     None \<Rightarrow> Inl OSError
   | Some d \<Rightarrow> nearest en (chosen_sentinels ss) (walk_start en start d # path_parents (walk_start en start d)))"

lemma find_root_of [code]: "find_sentinel_root en ss start = Some (root_of en ss start)"
  by (cases "dt_is_dir en start") (simp_all add: find_sentinel_root_def sentinel_loop_nearest root_of_def chosen_sentinels_def del: nearest.simps)

lemma roots_of_returns: "\<exists>r. roots_of en ss ps = Some r"
  by (induction ps) (auto simp: find_root_of split: sum.split option.split)

lemma group_roots_returns: "\<exists>r. group_roots en ss ps seen = Some r"
  by (induction ps arbitrary: seen) (auto simp: find_root_of Let_def split: sum.split option.split prod.split)

lemma sub_package_returns: "\<exists>r. sub_package en ss inside best = Some r"
  by (auto simp: sub_package_def find_root_of split: sum.split option.split)

text \<open>
  C32: scope detection always returns. Whatever the prompt, the file system and the sentinels,
  both entry points come back with scopes or with the error of a file test.
\<close>

theorem detection_returns:
  "(\<exists>r. detect_scope en prefill explicit_root ss default_scope = Some r)
   \<and> (\<exists>r. detect_scopes en prefill ss default_scope = Some r)"
proof
  let ?paths = "extract_paths_from_prefill en prefill default_scope"
  obtain r where r: "roots_of en ss ?paths = Some r" using roots_of_returns by blast
  show "\<exists>r. detect_scope en prefill explicit_root ss default_scope = Some r"
  proof (cases r)
    case (Inl e)
    then show ?thesis using r by (auto simp: detect_scope_def Let_def split: option.split)
  next
    case (Inr rs)
    have "\<exists>q. sub_package en ss (map (\<lambda>(r, s, p). p) (filter (\<lambda>(r, s, p). r = fst best) rs)) best = Some q" for best
      by (rule sub_package_returns)
    then show ?thesis using r Inr
      by (auto simp: detect_scope_def Let_def split: option.split sum.split) (metis option.distinct(1))+
  qed
  obtain g where "group_roots en ss ?paths [] = Some g" using group_roots_returns by blast
  then show "\<exists>r. detect_scopes en prefill ss default_scope = Some r" by (simp add: detect_scopes_def Let_def)
qed

section \<open>The sub-package preference\<close>

abbreviation chain :: "path \<Rightarrow> path list" where
  "chain p \<equiv> p # path_parents p"

lemma chain_suffix: "q \<in> set (chain p) \<Longrightarrow> \<exists>xs. chain p = xs @ chain q"
proof (induction "length p" arbitrary: p rule: less_induct)
  case less
  show ?case
  proof (cases "q = p")
    case True
    then show ?thesis by (intro exI [of _ "[]"]) simp
  next
    case False
    then have q: "q \<in> set (chain (path_parent p))" and ne: "path_parent p \<noteq> p"
      using less.prems path_parents_unfold [of p] by (auto split: if_splits)
    obtain xs where "chain (path_parent p) = xs @ chain q"
      using less.hyps [OF path_parent_shorter [OF ne] q] by blast
    then have "chain p = (p # xs) @ chain q" using path_parents_unfold [of p] ne by simp
    then show ?thesis by blast
  qed
qed

lemma chain_trans: "q \<in> set (chain p) \<Longrightarrow> r \<in> set (chain q) \<Longrightarrow> r \<in> set (chain p)"
  using chain_suffix by (metis Un_iff set_append)

lemma parent_in_chain: "path_parent p \<in> set (chain p)"
  using path_parent_in_parents by (cases "path_parent p = p") auto

lemma distinct_chain: "distinct (chain p)"
  using distinct_path_parents path_parents_irrefl by simp

lemma nearest_append: "nearest en ss (xs @ ys) = Inr (Some (r, s)) \<Longrightarrow> r \<notin> set xs \<Longrightarrow> nearest en ss ys = Inr (Some (r, s))"
  by (induction xs) (auto split: sum.splits option.splits)

lemma nearest_above:
  assumes "nearest en ss (chain p) = Inr (Some (r, s))" "q \<in> set (chain p)" "r \<in> set (chain q)"
  shows "nearest en ss (chain q) = Inr (Some (r, s))"
proof -
  obtain xs where xs: "chain p = xs @ chain q" using chain_suffix [OF assms(2)] by blast
  have "distinct (xs @ chain q)" unfolding xs [symmetric] by (rule distinct_chain)
  then have "r \<notin> set xs" using assms(3) by auto
  with assms(1) show ?thesis unfolding xs by (rule nearest_append)
qed

definition plain_fs :: "detect_env \<Rightarrow> bool" where
  \<comment> \<open>no links to resolve, and asking whether a path is a directory never raises\<close>
  "plain_fs en \<longleftrightarrow> (\<forall>p. dt_resolve en p = Some p) \<and> (\<forall>p. dt_is_dir en p \<noteq> None)"

definition start_dir :: "detect_env \<Rightarrow> path \<Rightarrow> path" where
  "start_dir en p = (if dt_is_dir en p = Some True then p else path_parent p)"

lemma root_of_plain: "plain_fs en \<Longrightarrow> root_of en ss p = nearest en (chosen_sentinels ss) (chain (start_dir en p))"
proof -
  assume plain: "plain_fs en"
  obtain d where "dt_is_dir en p = Some d" using plain unfolding plain_fs_def by blast
  then show ?thesis using plain by (simp add: plain_fs_def root_of_def walk_start_def start_dir_def del: nearest.simps)
qed

lemma start_in_chain: "start_dir en p \<in> set (chain p)"
  using parent_in_chain by (simp add: start_dir_def)

lemma above_start: "q \<in> set (path_parents p) \<Longrightarrow> q \<in> set (chain (start_dir en p))"
  using path_parents_unfold [of p] by (auto simp: start_dir_def split: if_splits)

lemma root_of_above:
  assumes "plain_fs en" "root_of en ss p = Inr (Some (r, s))" "q \<in> set (chain (start_dir en p)) \<or> q = p" "r \<in> set (path_parents q)"
  shows "root_of en ss q = Inr (Some (r, s))"
proof (cases "q = p")
  case False
  then have q: "q \<in> set (chain (start_dir en p))" using assms(3) by blast
  have "start_dir en q \<in> set (chain (start_dir en p))" using chain_trans [OF q start_in_chain] .
  moreover have "r \<in> set (chain (start_dir en q))" by (rule above_start [OF assms(4)])
  ultimately show ?thesis
    using nearest_above assms(2) unfolding root_of_plain [OF assms(1)] by blast
qed (use assms in simp)

lemma common_parts_prefix: "prefix (common_parts p ps) p"
  by (induction p ps rule: common_parts.induct) auto

lemma shared_between:
  assumes "plain_fs en" "shared_subpath en (p # ps) = Inr (Some sh)" "r \<in> set (path_parents sh)"
  shows "sh \<in> set (chain (start_dir en p)) \<or> sh = p"
proof (cases ps)
  case Nil
  then have "sh = start_dir en p" using assms(1,2) by (auto simp: shared_subpath_def start_dir_def split: option.splits)
  then show ?thesis by simp
next
  case (Cons q qs)
  then have sh: "sh = common_parts p ps" "sh \<noteq> []" using assms(2) by (auto simp: shared_subpath_def Let_def split: if_splits)
  then have "prefix sh p" using common_parts_prefix by simp
  then have "sh = p \<or> sh \<in> set (path_parents p)" using sh(2) by (auto simp: path_parents_iff strict_prefix_def)
  then show ?thesis using above_start by blast
qed

lemma sub_package_idle:
  assumes "plain_fs en" "inside \<noteq> []" "\<forall>p \<in> set inside. \<exists>s. root_of en ss p = Inr (Some (fst best, s))"
  shows "sub_package en ss inside best = Some (Inr best)"
proof -
  obtain p ps where i: "inside = p # ps" using assms(2) by (cases inside) auto
  obtain d where "dt_is_dir en p = Some d" using assms(1) unfolding plain_fs_def by blast
  then obtain sh where sh: "shared_subpath en inside = Inr sh"
    unfolding i by (cases ps) (auto simp: shared_subpath_def Let_def)
  show ?thesis
  proof (cases "\<exists>q. sh = Some q \<and> q \<noteq> fst best \<and> fst best \<in> set (path_parents q)")
    case True
    then obtain q where q: "sh = Some q" "fst best \<in> set (path_parents q)" by blast
    obtain s where "root_of en ss p = Inr (Some (fst best, s))" using assms(3) i by auto
    then have "root_of en ss q = Inr (Some (fst best, s))"
      using root_of_above [OF assms(1) _ shared_between q(2)] assms(1) sh q i by blast
    then show ?thesis using sh q by (simp add: sub_package_def find_root_of)
  next
    case False
    then show ?thesis using sh by (auto simp: sub_package_def split: option.split)
  qed
qed

lemma map_sum_Inr: "map_sum f g z = Inr y \<Longrightarrow> (\<And>x. z = Inr x \<Longrightarrow> y = g x \<Longrightarrow> P) \<Longrightarrow> P"
  by (cases z) auto

lemma roots_of_sound: "roots_of en ss ps = Some (Inr rs) \<Longrightarrow> (r, s, p) \<in> set rs \<Longrightarrow> root_of en ss p = Inr (Some (r, s))"
proof (induction ps arbitrary: rs)
  case (Cons q ps)
  consider "roots_of en ss ps = Some (Inr rs)"
    | a b rs' where "root_of en ss q = Inr (Some (a, b))" "roots_of en ss ps = Some (Inr rs')" "rs = (a, b, q) # rs'"
    using Cons.prems(1) roots_of_returns [of en ss ps]
    by (auto simp: find_root_of split: sum.splits option.splits elim!: map_sum_Inr)
  then show ?case using Cons.IH Cons.prems(2) by cases auto
qed simp

lemma first_max_mem: "first_max f xs = Some x \<Longrightarrow> x \<in> set xs"
  by (induction xs arbitrary: x) (auto split: option.splits if_splits)

lemma most_common_mem: "most_common xs = Some x \<Longrightarrow> x \<in> set xs"
  using first_max_mem set_dedupe by (fastforce simp: most_common_def)

definition most_common_scope :: "detect_env \<Rightarrow> string \<Rightarrow> string list \<Rightarrow> path option \<Rightarrow> (exc + detected_scope option) option" where
  \<comment> \<open>the root hit most often, without the sub-package step\<close>
  "most_common_scope en prefill ss default_scope =
     (let paths = extract_paths_from_prefill en prefill default_scope in
      if paths = [] then Some (Inr None)
      else case roots_of en ss paths of
        None \<Rightarrow> None
      | Some (Inl e) \<Rightarrow> Some (Inl e)
      | Some (Inr roots) \<Rightarrow> Some (Inr (map_option (\<lambda>(r, s). scope_at en (canonicalize_scope en r) s (map (\<lambda>(r, s, p). p) roots))
          (most_common (map (\<lambda>(r, s, p). (r, s)) roots)))))"

text \<open>
  The sub-package preference never takes effect. On a file system without links, scope
  detection is the most frequent nearest root: a root found for every shared path is already the
  nearest sentinel above them, so the later search for a deeper one finds the same root again.
\<close>

lemma sub_package_never_wins:
  assumes "plain_fs en"
  shows "detect_scope en prefill None ss default_scope = most_common_scope en prefill ss default_scope"
proof -
  let ?paths = "extract_paths_from_prefill en prefill default_scope"
  obtain r where r: "roots_of en ss ?paths = Some r" using roots_of_returns by blast
  show ?thesis
  proof (cases r)
    case (Inl e)
    then show ?thesis using r by (simp add: detect_scope_def most_common_scope_def Let_def)
  next
    case (Inr rs)
    show ?thesis
    proof (cases "most_common (map (\<lambda>(r, s, p). (r, s)) rs)")
      case None
      then show ?thesis using r Inr by (simp add: detect_scope_def most_common_scope_def Let_def)
    next
      case (Some best)
      let ?inside = "map (\<lambda>(r, s, p). p) (filter (\<lambda>(r, s, p). r = fst best) rs)"
      obtain p where p: "(fst best, snd best, p) \<in> set rs" using most_common_mem [OF Some] by auto
      then have "?inside \<noteq> []" by (auto simp: filter_empty_conv)
      moreover have "\<forall>p \<in> set ?inside. \<exists>s. root_of en ss p = Inr (Some (fst best, s))"
        using roots_of_sound r Inr by fastforce
      ultimately have "sub_package en ss ?inside best = Some (Inr best)" by (rule sub_package_idle [OF assms])
      then show ?thesis using r Inr Some
        by (simp add: detect_scope_def most_common_scope_def Let_def split: prod.split)
    qed
  qed
qed

section \<open>All the scopes of a prompt\<close>

definition canon_of :: "detect_env \<Rightarrow> string list \<Rightarrow> path \<Rightarrow> path option" where
  \<comment> \<open>the canonical root a mentioned path belongs to\<close>
  "canon_of en ss p = (case root_of en ss p of Inr (Some (r, _)) \<Rightarrow> Some (canonicalize_scope en r) | _ \<Rightarrow> None)"

definition originals :: "(path, string \<times> path list) dict \<Rightarrow> path \<Rightarrow> path list" where
  "originals seen c = (case dict_get seen c of None \<Rightarrow> [] | Some x \<Rightarrow> snd x)"

definition grouped :: "(path, string \<times> path list) dict \<Rightarrow> bool" where
  "grouped seen \<longleftrightarrow> dict_wf seen \<and> (\<forall>c x. dict_get seen c = Some x \<longrightarrow> snd x \<noteq> [])"

lemma group_roots_spec:
  "group_roots en ss ps seen = Some (Inr out) \<Longrightarrow> grouped seen \<Longrightarrow>
   grouped out \<and> (\<forall>c. originals out c = originals seen c @ filter (\<lambda>p. canon_of en ss p = Some c) ps)"
proof (induction ps arbitrary: seen)
  case (Cons p ps)
  show ?case
  proof (cases "root_of en ss p")
    case (Inl e)
    then show ?thesis using Cons.prems(1) by (simp add: find_root_of)
  next
    case (Inr hit)
    show ?thesis
    proof (cases hit)
      case None
      then have "canon_of en ss p = None" using Inr by (simp add: canon_of_def)
      then show ?thesis using Cons Inr None by (simp add: find_root_of)
    next
      case (Some x)
      obtain b s where x: "x = (b, s)" by (cases x)
      let ?c = "canonicalize_scope en b"
      obtain s' os where so: "(case dict_get seen ?c of None \<Rightarrow> (s, []) | Some x \<Rightarrow> x) = (s', os)" by fastforce
      then have os: "os = originals seen ?c" by (auto simp: originals_def split: option.splits)
      let ?seen = "dict_set ?c (s', os @ [p]) seen"
      have "group_roots en ss ps ?seen = Some (Inr out)"
        using Cons.prems(1) Inr Some x so by (simp add: find_root_of)
      moreover have "grouped ?seen" using Cons.prems(2) distinct_update [of seen ?c] by (auto simp: grouped_def dict_simps)
      ultimately have IH: "grouped out"
          "\<And>c. originals out c = originals ?seen c @ filter (\<lambda>p. canon_of en ss p = Some c) ps"
        using Cons.IH by blast+
      have "canon_of en ss p = Some ?c" using Inr Some x by (simp add: canon_of_def)
      moreover have "originals ?seen c = (if c = ?c then os @ [p] else originals seen c)" for c
        by (simp add: originals_def dict_simps)
      ultimately show ?thesis using IH os by simp
    qed
  qed
qed simp

text \<open>
  Multi-scope detection partitions the mentioned paths. The scopes it returns have distinct
  roots, each holds exactly the mentioned paths whose nearest sentinel root is its root, in the
  order of mention, none is empty, and every path that has a root is in the scope of that root.
\<close>

lemma scopes_partition_mentions:
  assumes "detect_scopes en prefill ss default_scope = Some (Inr out)"
  defines "paths \<equiv> extract_paths_from_prefill en prefill default_scope"
  shows "distinct (map ds_root out)
    \<and> (\<forall>sc \<in> set out. ds_mentioned sc = filter (\<lambda>p. canon_of en ss p = Some (ds_root sc)) paths \<and> ds_mentioned sc \<noteq> [])
    \<and> (\<forall>p \<in> set paths. \<forall>c. canon_of en ss p = Some c \<longrightarrow> c \<in> ds_root ` set out)"
proof (cases "paths = []")
  case True
  then show ?thesis using assms by (simp add: detect_scopes_def)
next
  case False
  then obtain g where g: "group_roots en ss paths [] = Some (Inr g)"
      "out = map (\<lambda>(canon, sent, os). scope_at en canon sent os) g"
    using assms group_roots_returns [of en ss paths "[]"]
    by (auto simp: detect_scopes_def Let_def elim!: map_sum_Inr)
  have spec: "grouped g" "\<And>c. originals g c = filter (\<lambda>p. canon_of en ss p = Some c) paths"
    using group_roots_spec [OF g(1)] by (auto simp: grouped_def originals_def)
  have roots: "map ds_root out = dict_keys g" unfolding g(2) by (induction g) (auto simp: scope_at_def)
  then have dist: "distinct (map ds_root out)" using spec(1) by (simp add: grouped_def)
  have each: "ds_mentioned sc = filter (\<lambda>p. canon_of en ss p = Some (ds_root sc)) paths \<and> ds_mentioned sc \<noteq> []"
    if mem: "sc \<in> set out" for sc
  proof -
    obtain c s os where sc: "(c, s, os) \<in> set g" "sc = scope_at en c s os" using mem unfolding g(2) by auto
    then have get: "dict_get g c = Some (s, os)" using spec(1) by (simp add: grouped_def)
    then have "os = originals g c" "os \<noteq> []" using spec(1) unfolding grouped_def originals_def by auto
    then show ?thesis using sc(2) spec(2) by (simp add: scope_at_def)
  qed
  have "c \<in> ds_root ` set out" if "p \<in> set paths" "canon_of en ss p = Some c" for p c
  proof -
    have "p \<in> set (originals g c)" using that spec(2) by simp
    then have "dict_get g c \<noteq> None" by (cases "dict_get g c") (auto simp: originals_def)
    then have "c \<in> set (dict_keys g)" by (simp add: map_of_eq_None_iff)
    then show ?thesis using roots by (metis list.set_map)
  qed
  then show ?thesis using dist each by blast
qed

section \<open>What is extracted\<close>

lemma ralts_run: "q \<in> set (rx_run (ralts rs) p) \<Longrightarrow> \<exists>r \<in> set rs. q \<in> set (rx_run r p)"
  by (induction rs rule: ralts.induct) (auto simp: rx_run.simps split: if_splits)

lemma rseq_run: "q \<in> set (rx_run (RSeq r s) p) \<Longrightarrow> \<exists>q'. q' \<in> set (rx_run r p) \<and> q \<in> set (rx_run s q')"
  by (auto simp: rx_run.simps)

lemma path_rx_sound:
  assumes "m \<in> set (find_all1 path_rx prefill)"
  shows "sublist m prefill \<and> (\<exists>w. m = CHR ''/'' # w) \<and> (\<exists>d c w. d \<in> set path_roots \<and> m = ''/'' @ d @ ''/'' @ c # w)"
proof -
  obtain q where q: "q \<in> set (find_iter path_rx prefill)" "m = group_text 1 q"
    using assms by (auto simp: find_all1_def)
  obtain a t where t: "prefill = a @ t" and run: "q \<in> set (rx_run path_rx \<lparr>rp_pre = rev a, rp_rest = t, rp_groups = []\<rparr>)"
    using find_iter_sound [OF q(1)] by blast
  let ?p = "\<lparr>rp_pre = rev a, rp_rest = t, rp_groups = []\<rparr>"
  let ?body = "RSeq (rstr ''/'') (RSeq (ralts (map rstr path_roots)) (RSeq (rstr ''/'') (rplus (RChar path_char))))"
  have rx: "path_rx = RSeq boundary_rx (RGroup 1 ?body)" by (simp add: path_rx_def)
  obtain q1 where q1: "q1 \<in> set (rx_run boundary_rx ?p)" "q \<in> set (rx_run (RGroup 1 ?body) q1)"
    using rseq_run [OF run [unfolded rx]] by blast
  obtain b where b: "t = b @ rp_rest q1" using rx_run_reads [OF q1(1)] by (auto simp: run_reads_def)
  obtain q2 m' where g: "q2 \<in> set (rx_run ?body q1)" "run_reads q1 q2 m'" "rp_groups q = (1, m') # rp_groups q2"
    using rx_group_run [OF q1(2)] by blast
  have m: "m = m'" using q(2) g(3) by (simp add: group_text_def)
  have rest1: "rp_rest q1 = m @ rp_rest q2" using g(2) m by (simp add: run_reads_def)
  obtain q3 where q3: "q3 \<in> set (rx_run (rstr ''/'') q1)"
      "q2 \<in> set (rx_run (RSeq (ralts (map rstr path_roots)) (RSeq (rstr ''/'') (rplus (RChar path_char)))) q3)"
    using rseq_run [OF g(1)] by blast
  obtain q4 where q4: "q4 \<in> set (rx_run (ralts (map rstr path_roots)) q3)"
      "q2 \<in> set (rx_run (RSeq (rstr ''/'') (rplus (RChar path_char))) q4)"
    using rseq_run [OF q3(2)] by blast
  obtain q5 where q5: "q5 \<in> set (rx_run (rstr ''/'') q4)" "q2 \<in> set (rx_run (rplus (RChar path_char)) q5)"
    using rseq_run [OF q4(2)] by blast
  obtain q6 where q6: "q6 \<in> set (rx_run (RChar path_char) q5)" "q2 \<in> set (rx_run (RStar (RChar path_char)) q6)"
    using rseq_run q5(2) unfolding rplus_def by blast
  obtain d where d: "d \<in> set path_roots" "q4 \<in> set (rx_run (rstr d) q3)" using ralts_run [OF q4(1)] by auto
  obtain c where c: "rp_rest q5 = c # rp_rest q6" using rx_char_run [OF q6(1)] by blast
  obtain w where w: "rp_rest q6 = w @ rp_rest q2" using rx_star_char [OF q6(2)] by blast
  have "rp_rest q1 = ''/'' @ d @ ''/'' @ c # w @ rp_rest q2"
    using rx_str_run [OF q3(1)] rx_str_run [OF d(2)] rx_str_run [OF q5(1)] c w by simp
  then have form: "m = ''/'' @ d @ ''/'' @ c # w" using rest1 by simp
  have "prefill = (a @ b) @ m @ rp_rest q2" using t b rest1 by simp
  then have "sublist m prefill" by (metis sublist_appendI)
  then show ?thesis using form d(1) by auto
qed

text \<open>
  Only what the prompt says is extracted. Without a default scope, every extracted path is
  the text of a mention: a piece of the prompt that starts with a slash and one of the known
  top-level directories, less trailing punctuation, and no mention is extracted twice.
\<close>

lemma extracted_paths_mentioned:
  "\<exists>ms. extract_paths_from_prefill en prefill None = map path_of ms \<and> distinct ms
     \<and> (\<forall>m \<in> set ms. \<exists>s d c w. m = trim_punct s \<and> sublist s prefill \<and> d \<in> set path_roots \<and> s = ''/'' @ d @ ''/'' @ c # w)"
proof (intro exI conjI)
  show "extract_paths_from_prefill en prefill None = map path_of (dedupe {} (mentions path_rx prefill))"
    by (simp add: extract_paths_from_prefill_def Let_def)
  show "distinct (dedupe {} (mentions path_rx prefill))" by (rule distinct_dedupe)
  show "\<forall>m \<in> set (dedupe {} (mentions path_rx prefill)).
      \<exists>s d c w. m = trim_punct s \<and> sublist s prefill \<and> d \<in> set path_roots \<and> s = ''/'' @ d @ ''/'' @ c # w"
    using path_rx_sound unfolding set_dedupe mentions_def by fastforce
qed

section \<open>A small file system\<close>

definition demo_fs :: "detect_env" where
  "demo_fs = \<lparr>dt_is_dir = (\<lambda>p. Some (p = [''/'', ''home'', ''u''])), dt_exists = (\<lambda>p. Some (p = [''/'', ''home'', ''u'', ''.git''])),
     dt_resolve = Some, dt_expand_resolve = Some, dt_darwin = False, dt_sha16 = (\<lambda>s. s)\<rparr>"

definition demo_prompt :: "string" where
  "demo_prompt = ''see /home/u/a.py, and (/home/u/b.py)''"

lemma demo_extract: "extract_paths_from_prefill demo_fs demo_prompt None =
    [[''/'', ''home'', ''u'', ''a.py''], [''/'', ''home'', ''u'', ''b.py'']]"
  by code_simp

lemma demo_scopes: "detect_scopes demo_fs demo_prompt [''.git''] None = Some (Inr
    [scope_at demo_fs [''/'', ''home'', ''u''] ''.git'' [[''/'', ''home'', ''u'', ''a.py''], [''/'', ''home'', ''u'', ''b.py'']]])"
  by code_simp

lemma extracted_paths_mentioned_witness:
  "\<exists>m d c w. [''/'', ''home'', ''u'', ''a.py''] = path_of m \<and> (\<exists>s. m = trim_punct s \<and> sublist s demo_prompt \<and> s = ''/'' @ d @ ''/'' @ c # w)"
proof -
  obtain ms where ms: "extract_paths_from_prefill demo_fs demo_prompt None = map path_of ms"
      "\<forall>m \<in> set ms. \<exists>s d c w. m = trim_punct s \<and> sublist s demo_prompt \<and> d \<in> set path_roots \<and> s = ''/'' @ d @ ''/'' @ c # w"
    using extracted_paths_mentioned [of demo_fs demo_prompt] by blast
  then obtain m where "m \<in> set ms" "path_of m = [''/'', ''home'', ''u'', ''a.py'']"
    using demo_extract by (cases ms) auto
  then show ?thesis using ms(2) by metis
qed

lemma scopes_partition_mentions_witness:
  "[[''/'', ''home'', ''u'', ''a.py''], [''/'', ''home'', ''u'', ''b.py'']]
   = filter (\<lambda>p. canon_of demo_fs [''.git''] p = Some [''/'', ''home'', ''u'']) (extract_paths_from_prefill demo_fs demo_prompt None)"
  using scopes_partition_mentions [OF demo_scopes] by (simp add: scope_at_def)

lemma sub_package_never_wins_witness:
  "detect_scope demo_fs demo_prompt None [''.git''] None = most_common_scope demo_fs demo_prompt [''.git''] None"
  by (rule sub_package_never_wins) (simp add: plain_fs_def demo_fs_def)

text \<open>
  A root that canonicalizes to the file system root becomes the current directory: stripping the
  trailing slash of \<open>/\<close> leaves nothing.
\<close>

lemma canonicalize_root: "canonicalize_scope demo_fs [''/''] = []"
  by code_simp

end
