(* ===== verification/Svc_Walk.thy ===== *)
theory Svc_Walk
  imports Svc_Config LC_Rank
begin

text \<open>
  Which files of a scope are indexed (\<open>longctx_svc/scope/walk.py\<close>): the skip rules, the
  stack-driven directory walk with its cap, the Hot and the Package scope.

  A directory tree is a value: what \<open>is_symlink\<close>, \<open>is_dir\<close>, \<open>is_file\<close>, \<open>stat\<close> and \<open>iterdir\<close> say
  of each entry, in the order \<open>iterdir\<close> lists them. A directory also carries what reading its
  \<open>.gitignore\<close> gives. The \<open>pathspec\<close> matcher is a parameter.
\<close>

datatype node =
    NFile "int option"                                                  \<comment> \<open>its size, \<open>None\<close>: \<open>stat\<close> raises\<close>
  | NDir "exc + string list option" "(string \<times> node) list option"  \<comment> \<open>\<open>None\<close>: \<open>iterdir\<close> raises\<close>
  | NLink
  | NOther
  | NBroken                                                             \<comment> \<open>asking what it is raises \<open>OSError\<close>\<close>

type_synonym spec = "path \<times> (string \<Rightarrow> bool)"

record walk_env =
  wk_limits :: limits
  wk_compile :: "string list \<Rightarrow> exc + (string \<Rightarrow> bool)"
  wk_node :: "path \<Rightarrow> node option"
  wk_resolve :: "path \<Rightarrow> path option"

section \<open>The rules\<close>

definition load_gitignore :: "walk_env \<Rightarrow> node \<Rightarrow> exc + (string \<Rightarrow> bool) option" where
  "load_gitignore en nd =
     (case nd of
        NDir (Inl e) _ \<Rightarrow> Inl e
      | NDir (Inr (Some ls)) _ \<Rightarrow> (case wk_compile en ls of Inl e \<Rightarrow> Inl e | Inr m \<Rightarrow> Inr (Some m))
      | _ \<Rightarrow> Inr None)"

definition file_excluded :: "path \<Rightarrow> int option \<Rightarrow> spec list \<Rightarrow> int \<Rightarrow> bool" where
  "file_excluded p st_size specs max_size \<longleftrightarrow>
     path_name p \<in> set lockfile_names \<or>
     py_lower (path_suffix p) \<in> set binary_exts \<or>
     (case st_size of
        None \<Rightarrow> True
      | Some n \<Rightarrow> n > max_size \<or> n = 0 \<or>
          list_ex (\<lambda>(base, match_file). case relative_to p base of
             None \<Rightarrow> False | Some rel \<Rightarrow> match_file (path_str rel)) specs)"

definition dir_skipped :: "string \<Rightarrow> bool" where
  "dir_skipped name \<longleftrightarrow> name \<in> set always_skip_dirs
     \<or> (take 1 name = ''.'' \<and> name \<notin> {''.github'', ''.vscode-config''})"

section \<open>The walk\<close>

type_synonym frame = "path \<times> node \<times> spec list"

fun scan_entries ::
  "walk_env \<Rightarrow> bool \<Rightarrow> int \<Rightarrow> path \<Rightarrow> spec list \<Rightarrow> (string \<times> node) list \<Rightarrow> int \<Rightarrow> frame list \<Rightarrow> path list \<times> int \<times> frame list" where
  \<comment> \<open>the loop over the entries of one directory; the top of the stack is its head\<close>
  "scan_entries en recursive cap cur specs [] yielded stack = ([], yielded, stack)"
| "scan_entries en recursive cap cur specs ((name, nd) # es) yielded stack =
     (if yielded \<ge> cap then ([], yielded, stack)
      else case nd of
        NDir _ _ \<Rightarrow>
          if dir_skipped name \<or> \<not> recursive then scan_entries en recursive cap cur specs es yielded stack
          else scan_entries en recursive cap cur specs es yielded ((cur @ [name], nd, specs) # stack)
      | NFile sz \<Rightarrow>
          if file_excluded (cur @ [name]) sz specs (max_file_size_bytes (wk_limits en))
          then scan_entries en recursive cap cur specs es yielded stack
          else let (out, y, st) = scan_entries en recursive cap cur specs es (yielded + 1) stack
               in ((cur @ [name]) # out, y, st)
      | _ \<Rightarrow> scan_entries en recursive cap cur specs es yielded stack)"

definition entries_of :: "node \<Rightarrow> (string \<times> node) list option" where
  "entries_of nd = (case nd of NDir _ es \<Rightarrow> es | _ \<Rightarrow> None)"

definition local_specs :: "path \<Rightarrow> path \<Rightarrow> (string \<Rightarrow> bool) option \<Rightarrow> spec list \<Rightarrow> spec list" where
  "local_specs walk_root cur gi specs =
     (case gi of None \<Rightarrow> specs | Some m \<Rightarrow> if cur \<noteq> walk_root then specs @ [(cur, m)] else specs)"

text \<open>The weight of a tree bounds the work left.\<close>

lemma size_entry [termination_simp]: "x \<in> set es \<Longrightarrow> size (snd x) < Suc (size_list (size_prod (\<lambda>_. 0) size) es)"
  by (induction es) auto

fun node_weight :: "node \<Rightarrow> nat" where
  "node_weight (NDir _ (Some es)) = Suc (sum_list (map (\<lambda>x. node_weight (snd x)) es))"
| "node_weight _ = 1"

definition stack_weight :: "frame list \<Rightarrow> nat" where
  "stack_weight st = sum_list (map (\<lambda>(p, nd, sp). node_weight nd) st)"

lemma scan_entries_weight:
  "scan_entries en r c cur sp es y st = (out, y', st') \<Longrightarrow>
   stack_weight st' \<le> stack_weight st + sum_list (map (\<lambda>x. node_weight (snd x)) es)"
proof (induction en r c cur sp es y st arbitrary: out y' st' rule: scan_entries.induct)
  case (2 en r c cur sp name nd es y st)
  then show ?case
    by (cases nd) (fastforce simp: stack_weight_def Let_def split: if_splits prod.splits)+
qed (simp add: stack_weight_def)

function walk_loop :: "walk_env \<Rightarrow> bool \<Rightarrow> int \<Rightarrow> path \<Rightarrow> frame list \<Rightarrow> int \<Rightarrow> exc + path list" where
  "walk_loop en recursive cap walk_root [] yielded = Inr []"
| "walk_loop en recursive cap walk_root ((cur, nd, specs) # stack) yielded =
     (if yielded \<ge> cap then Inr []
      else case entries_of nd of
        None \<Rightarrow> walk_loop en recursive cap walk_root stack yielded
      | Some es \<Rightarrow>
          (case load_gitignore en nd of
             Inl e \<Rightarrow> Inl e
           | Inr gi \<Rightarrow>
               (case scan_entries en recursive cap cur (local_specs walk_root cur gi specs) es yielded stack of
                  (out, y, st) \<Rightarrow> map_sum id (append out) (walk_loop en recursive cap walk_root st y))))"
  by pat_completeness auto
termination
proof (relation "measure (\<lambda>(en, r, c, root, st, y). stack_weight st)", goal_cases)
  case (2 en r c root cur nd sp st y)
  have "0 < node_weight nd" by (cases nd rule: node_weight.cases) simp_all
  then show ?case by (simp add: stack_weight_def)
next
  case prems: (3 en r c root cur nd sp st y es gi x out y' st')
  have "stack_weight st' \<le> stack_weight st + sum_list (map (\<lambda>x. node_weight (snd x)) es)"
    using scan_entries_weight [of en r c cur _ es y st x y' st'] prems(4,5) by simp
  moreover have "node_weight nd = Suc (sum_list (map (\<lambda>x. node_weight (snd x)) es))"
    using prems(2) by (cases nd) (auto simp: entries_of_def)
  ultimately show ?case by (simp add: stack_weight_def)
qed simp

definition walk_dir :: "walk_env \<Rightarrow> bool \<Rightarrow> int \<Rightarrow> path \<Rightarrow> node \<Rightarrow> exc + path list" where
  "walk_dir en recursive max_files base nd =
     (case load_gitignore en nd of
        Inl e \<Rightarrow> Inl e
      | Inr gi \<Rightarrow> walk_loop en recursive max_files base
          [(base, nd, case gi of None \<Rightarrow> [] | Some m \<Rightarrow> [(base, m)])] 0)"

definition node_at :: "walk_env \<Rightarrow> path \<Rightarrow> node" where
  \<comment> \<open>a missing path reads as nothing to list and nothing to index\<close>
  "node_at en p = (case wk_node en p of None \<Rightarrow> NOther | Some nd \<Rightarrow> nd)"

definition walk_package_scope :: "walk_env \<Rightarrow> path \<Rightarrow> exc + path list" where
  "walk_package_scope en base = walk_dir en True (max_files_package (wk_limits en)) base (node_at en base)"

section \<open>Hot scope\<close>

definition add_path :: "path list \<Rightarrow> path \<Rightarrow> path list" where
  "add_path out p = (if p \<in> set out then out else out @ [p])"

definition add_walk :: "walk_env \<Rightarrow> bool \<Rightarrow> path \<Rightarrow> path list \<Rightarrow> exc + path list" where
  \<comment> \<open>walk \<open>base\<close> for as many files as the cap leaves, adding each\<close>
  "add_walk en recursive base out =
     map_sum id (foldl add_path out)
       (walk_dir en recursive (max_files_hot (wk_limits en) - int (length out)) base (node_at en base))"

definition add_mentioned :: "walk_env \<Rightarrow> path \<Rightarrow> path \<Rightarrow> path list \<Rightarrow> exc + path list" where
  "add_mentioned en base mp out =
     (case wk_resolve en mp of
        None \<Rightarrow> Inr out
      | Some rp \<Rightarrow>
          if relative_to rp base = None then Inr out
          else case node_at en rp of
            NBroken \<Rightarrow> Inl OSError
          | NFile _ \<Rightarrow> Inr (add_path out rp)
          | NDir _ _ \<Rightarrow> add_walk en False rp out
          | _ \<Rightarrow> Inr out)"

definition add_siblings :: "walk_env \<Rightarrow> path \<Rightarrow> path list \<Rightarrow> exc + path list" where
  "add_siblings en mp out =
     (case wk_resolve en mp of
        None \<Rightarrow> Inr out
      | Some rp \<Rightarrow>
          (case node_at en rp of
             NBroken \<Rightarrow> Inl OSError
           | NFile _ \<Rightarrow> add_walk en False (path_parent rp) out
           | _ \<Rightarrow> Inr out))"

fun for_each :: "('a \<Rightarrow> 'b \<Rightarrow> exc + 'b) \<Rightarrow> 'a list \<Rightarrow> 'b \<Rightarrow> exc + 'b" where
  "for_each f [] s = Inr s"
| "for_each f (x # xs) s = (case f x s of Inl e \<Rightarrow> Inl e | Inr s' \<Rightarrow> for_each f xs s')"

definition walk_hot_scope :: "walk_env \<Rightarrow> path \<Rightarrow> path list \<Rightarrow> exc + path list" where
  "walk_hot_scope en base mentioned =
     (case for_each (add_mentioned en base) mentioned [] of
        Inl e \<Rightarrow> Inl e
      | Inr out \<Rightarrow>
     (case for_each (add_siblings en) mentioned out of
        Inl e \<Rightarrow> Inl e
      | Inr out \<Rightarrow>
     (case (case node_at en (base @ [''src'']) of
              NBroken \<Rightarrow> Inl OSError
            | NDir _ _ \<Rightarrow> add_walk en True (base @ [''src'']) out
            | _ \<Rightarrow> Inr out) of
        Inl e \<Rightarrow> Inl e
      | Inr out \<Rightarrow> if length out < 50 then add_walk en False base out else Inr out)))"

section \<open>The walk as a recursion over the tree\<close>

text \<open>What the walk meets, in order: files to index, and the errors that end it.\<close>

definition file_events :: "walk_env \<Rightarrow> path \<Rightarrow> spec list \<Rightarrow> (string \<times> node) list \<Rightarrow> (exc + path) list" where
  "file_events en cur specs es = concat (map (\<lambda>(name, nd). case nd of
     NFile sz \<Rightarrow> if file_excluded (cur @ [name]) sz specs (max_file_size_bytes (wk_limits en)) then [] else [Inr (cur @ [name])]
   | _ \<Rightarrow> []) es)"

function tree_events :: "walk_env \<Rightarrow> bool \<Rightarrow> path \<Rightarrow> path \<Rightarrow> node \<Rightarrow> spec list \<Rightarrow> (exc + path) list" where
  "tree_events en recursive walk_root cur nd specs =
     (case entries_of nd of
        None \<Rightarrow> []
      | Some es \<Rightarrow>
          (case load_gitignore en nd of
             Inl e \<Rightarrow> [Inl e]
           | Inr gi \<Rightarrow>
               let local = local_specs walk_root cur gi specs in
               file_events en cur local es
               @ concat (rev (map (\<lambda>x. if entries_of (snd x) \<noteq> None \<and> \<not> dir_skipped (fst x) \<and> recursive
                    then tree_events en recursive walk_root (cur @ [fst x]) (snd x) local else []) es))))"
  by pat_completeness auto
termination
proof (relation "measure (\<lambda>(en, r, root, cur, nd, specs). size nd)", goal_cases)
  case (2 en r root cur nd sp es gi local x)
  then show ?case using size_entry [of x es] by (cases nd) (auto simp: entries_of_def)
qed simp

declare tree_events.simps [simp del]

fun first_events :: "int \<Rightarrow> (exc + path) list \<Rightarrow> exc + path list" where
  "first_events n [] = Inr []"
| "first_events n (ev # evs) =
     (if n \<le> 0 then Inr []
      else case ev of Inl e \<Rightarrow> Inl e | Inr p \<Rightarrow> map_sum id (Cons p) (first_events (n - 1) evs))"

definition frames_of :: "bool \<Rightarrow> path \<Rightarrow> spec list \<Rightarrow> (string \<times> node) list \<Rightarrow> frame list" where
  "frames_of recursive cur specs es = concat (map (\<lambda>(name, nd). case nd of
     NDir _ _ \<Rightarrow> if dir_skipped name \<or> \<not> recursive then [] else [(cur @ [name], nd, specs)] | _ \<Rightarrow> []) es)"

lemma file_events_simps [simp]:
  "file_events en cur sp [] = []"
  "file_events en cur sp ((n, NFile sz) # es) =
     (if file_excluded (cur @ [n]) sz sp (max_file_size_bytes (wk_limits en)) then [] else [Inr (cur @ [n])]) @ file_events en cur sp es"
  "file_events en cur sp ((n, NDir gi ds) # es) = file_events en cur sp es"
  "file_events en cur sp ((n, NLink) # es) = file_events en cur sp es"
  "file_events en cur sp ((n, NOther) # es) = file_events en cur sp es"
  "file_events en cur sp ((n, NBroken) # es) = file_events en cur sp es"
  by (simp_all add: file_events_def)

lemma frames_of_simps [simp]:
  "frames_of r cur sp [] = []"
  "frames_of r cur sp ((n, NDir gi ds) # es) =
     (if dir_skipped n \<or> \<not> r then [] else [(cur @ [n], NDir gi ds, sp)]) @ frames_of r cur sp es"
  "frames_of r cur sp ((n, NFile sz) # es) = frames_of r cur sp es"
  "frames_of r cur sp ((n, NLink) # es) = frames_of r cur sp es"
  "frames_of r cur sp ((n, NOther) # es) = frames_of r cur sp es"
  "frames_of r cur sp ((n, NBroken) # es) = frames_of r cur sp es"
  by (simp_all add: frames_of_def)

lemma scan_full: "cap \<le> y \<Longrightarrow> scan_entries en r cap cur sp es y st = ([], y, st)"
  by (cases es) auto

lemma scan_open:
  assumes "\<not> cap \<le> y"
  shows "scan_entries en r cap cur sp ((n, NFile sz) # es) y st =
      (if file_excluded (cur @ [n]) sz sp (max_file_size_bytes (wk_limits en)) then scan_entries en r cap cur sp es y st
       else let (out, y, st) = scan_entries en r cap cur sp es (y + 1) st in ((cur @ [n]) # out, y, st))"
    and "scan_entries en r cap cur sp ((n, NDir gi ds) # es) y st =
      scan_entries en r cap cur sp es y (if dir_skipped n \<or> \<not> r then st else (cur @ [n], NDir gi ds, sp) # st)"
    and "scan_entries en r cap cur sp ((n, NLink) # es) y st = scan_entries en r cap cur sp es y st"
    and "scan_entries en r cap cur sp ((n, NOther) # es) y st = scan_entries en r cap cur sp es y st"
    and "scan_entries en r cap cur sp ((n, NBroken) # es) y st = scan_entries en r cap cur sp es y st"
  using assms by simp_all

definition scan_ok :: "walk_env \<Rightarrow> bool \<Rightarrow> int \<Rightarrow> path \<Rightarrow> spec list \<Rightarrow> (string \<times> node) list \<Rightarrow> int \<Rightarrow> frame list \<Rightarrow> path list \<times> int \<times> frame list \<Rightarrow> bool" where
  "scan_ok en r cap cur sp es y st res = (case res of (out, y', st') \<Rightarrow>
     y' = y + int (length out)
   \<and> (y' < cap \<longrightarrow> map Inr out = file_events en cur sp es \<and> st' = rev (frames_of r cur sp es) @ st)
   \<and> (cap \<le> y' \<longrightarrow> y \<le> cap \<longrightarrow> y' = cap \<and> map Inr out = take (nat (cap - y)) (file_events en cur sp es)))"

lemma scan_entries_events: "scan_ok en r cap cur sp es y st (scan_entries en r cap cur sp es y st)"
proof (induction es arbitrary: y st)
  case Nil
  show ?case by (simp add: scan_ok_def)
next
  case (Cons x es)
  obtain n nd where x: "x = (n, nd)" by (cases x)
  show ?case
  proof (cases "cap \<le> y")
    case True
    then show ?thesis by (simp add: scan_full scan_ok_def del: scan_entries.simps)
  next
    case False
    note step = scan_open [OF False, where en = en and r = r and cur = cur and sp = sp and n = n and es = es and st = st]
    show ?thesis
    proof (cases nd)
      case (NFile sz)
      show ?thesis
      proof (cases "file_excluded (cur @ [n]) sz sp (max_file_size_bytes (wk_limits en))")
        case True
        then show ?thesis using Cons [of y st] unfolding x NFile step by (simp add: scan_ok_def del: scan_entries.simps)
      next
        case excl: False
        obtain o1 y1 s1 where s: "scan_entries en r cap cur sp es (y + 1) st = (o1, y1, s1)" by (metis prod_cases3)
        have "nat (cap - y) = Suc (nat (cap - (y + 1)))" using False by simp
        then show ?thesis using Cons [of "y + 1" st] False excl unfolding x NFile step s
          by (auto simp: scan_ok_def simp del: scan_entries.simps)
      qed
    next
      case (NDir gi ds)
      show ?thesis
        using Cons [of y "if dir_skipped n \<or> \<not> r then st else (cur @ [n], NDir gi ds, sp) # st"]
        unfolding x NDir scan_open(2) [OF False]
        by (cases "dir_skipped n \<or> \<not> r") (simp_all add: scan_ok_def split: prod.splits del: scan_entries.simps)
    next
      case NLink
      show ?thesis using Cons [of y st] unfolding x NLink step by (simp add: scan_ok_def del: scan_entries.simps)
    next
      case NOther
      show ?thesis using Cons [of y st] unfolding x NOther step by (simp add: scan_ok_def del: scan_entries.simps)
    next
      case NBroken
      show ?thesis using Cons [of y st] unfolding x NBroken step by (simp add: scan_ok_def del: scan_entries.simps)
    qed
  qed
qed

lemma first_events_files:
  "int (length ps) \<le> n \<Longrightarrow> first_events n (map Inr ps @ evs) = map_sum id (append ps) (first_events (n - int (length ps)) evs)"
proof (induction ps arbitrary: n)
  case Nil
  then show ?case by (cases "first_events n evs") simp_all
next
  case (Cons p ps)
  then show ?case by (cases "first_events (n - 1 - int (length ps)) evs") (simp_all add: algebra_simps)
qed

lemma first_events_none: "n \<le> 0 \<Longrightarrow> first_events n evs = Inr []"
  by (cases evs) simp_all

lemma frames_events:
  "concat (map (\<lambda>(c, nd, sp). tree_events en r w c nd sp) (rev (frames_of r cur sp es)))
   = concat (rev (map (\<lambda>x. if entries_of (snd x) \<noteq> None \<and> \<not> dir_skipped (fst x) \<and> r
       then tree_events en r w (cur @ [fst x]) (snd x) sp else []) es))"
proof (induction es)
  case (Cons x es)
  obtain n nd where x: "x = (n, nd)" by (cases x)
  have none: "entries_of nd = None \<Longrightarrow> tree_events en r w (cur @ [n]) nd sp = []"
    by (simp add: tree_events.simps)
  show ?case using Cons none by (cases nd) (auto simp: x entries_of_def)
qed simp

lemma walk_loop_events:
  "walk_loop en r cap w st y
   = first_events (cap - y) (concat (map (\<lambda>(c, nd, sp). tree_events en r w c nd sp) st))"
proof (induction en r cap w st y rule: walk_loop.induct)
  case (2 en r cap w cur nd sp st y)
  show ?case
  proof (cases "cap \<le> y")
    case True
    then show ?thesis by (simp add: first_events_none)
  next
    case False
    show ?thesis
    proof (cases "entries_of nd")
      case None
      then show ?thesis using 2(1) [OF False None] False by (simp add: tree_events.simps [of _ _ _ _ nd])
    next
      case (Some es)
      show ?thesis
      proof (cases "load_gitignore en nd")
        case (Inl e)
        then show ?thesis using False Some by (simp add: tree_events.simps [of _ _ _ _ nd])
      next
        case (Inr gi)
        let ?sp = "local_specs w cur gi sp"
        obtain out y' st' where s: "scan_entries en r cap cur ?sp es y st = (out, y', st')" by (metis prod_cases3)
        note ev = scan_entries_events [of en r cap cur ?sp es y st, unfolded s scan_ok_def, simplified]
        note IH = 2(2) [OF False Some Inr s [symmetric] refl]
        let ?T = "\<lambda>(c, nd, sp). tree_events en r w c nd sp"
        have L: "walk_loop en r cap w ((cur, nd, sp) # st) y = map_sum id (append out) (first_events (cap - y') (concat (map ?T st')))"
          using False Some Inr s IH by simp
        have R: "concat (map ?T ((cur, nd, sp) # st))
            = file_events en cur ?sp es @ concat (map ?T (rev (frames_of r cur ?sp es) @ st))"
          using Some Inr by (simp add: tree_events.simps [of _ _ _ _ nd] Let_def frames_events)
        show ?thesis
        proof (cases "y' < cap")
          case True
          then have "file_events en cur ?sp es = map Inr out" "st' = rev (frames_of r cur ?sp es) @ st" "y' = y + int (length out)"
            using ev by auto
          then show ?thesis unfolding L R using True by (simp add: first_events_files algebra_simps)
        next
          case full: False
          then have o: "y' = cap" "int (length out) = cap - y" "map Inr out = take (nat (cap - y)) (file_events en cur ?sp es)"
            using ev False by auto
          have split: "file_events en cur ?sp es = map Inr out @ drop (nat (cap - y)) (file_events en cur ?sp es)"
            unfolding o(3) by simp
          show ?thesis unfolding L R by (subst split) (simp add: first_events_files o(1,2) first_events_none del: o(3))
        qed
      qed
    qed
  qed
qed simp

lemma first_events_take: "first_events n evs = Inr out \<Longrightarrow> map Inr out = take (nat n) evs"
proof (induction n evs arbitrary: out rule: first_events.induct)
  case (2 n ev evs)
  show ?case
  proof (cases "n \<le> 0")
    case False
    then obtain p where p: "ev = Inr p" using 2 by (cases ev) auto
    then obtain ps where ps: "first_events (n - 1) evs = Inr ps" "out = p # ps"
      using 2 False by (cases "first_events (n - 1) evs") auto
    have "nat n = Suc (nat (n - 1))" using False by simp
    then show ?thesis using 2(1) [OF False p ps(1)] p ps(2) by simp
  qed (use 2 in simp)
qed simp

definition root_specs :: "path \<Rightarrow> (string \<Rightarrow> bool) option \<Rightarrow> spec list" where
  "root_specs base gi = (case gi of None \<Rightarrow> [] | Some m \<Rightarrow> [(base, m)])"

text \<open>
  C27: the stack walk is the depth-first walk of the tree. Walking with an explicit stack, a
  counter and early exits gives the first \<open>max_files\<close> of what the recursion over the tree meets:
  the files of a directory in listing order, then its subdirectories from the last to the first,
  an unreadable \<open>.gitignore\<close> ending the walk unless the cap came first.
\<close>

theorem walk_reference:
  "walk_dir en recursive max_files base nd =
     (case load_gitignore en nd of
        Inl e \<Rightarrow> Inl e
      | Inr gi \<Rightarrow> first_events max_files (tree_events en recursive base base nd (root_specs base gi)))"
  by (cases "load_gitignore en nd") (simp_all add: walk_dir_def walk_loop_events root_specs_def)

text \<open>The directories the walk enters, each with the ignore rules that apply in it.\<close>

inductive visits :: "walk_env \<Rightarrow> bool \<Rightarrow> path \<Rightarrow> frame \<Rightarrow> frame \<Rightarrow> bool" for en r w f0 where
  start: "visits en r w f0 f0"
| enter: "visits en r w f0 (cur, nd, sp) \<Longrightarrow> entries_of nd = Some es \<Longrightarrow> load_gitignore en nd = Inr gi \<Longrightarrow>
    (name, d) \<in> set es \<Longrightarrow> entries_of d \<noteq> None \<Longrightarrow> \<not> dir_skipped name \<Longrightarrow> r \<Longrightarrow>
    visits en r w f0 (cur @ [name], d, local_specs w cur gi sp)"

lemma visits_front:
  assumes "visits en r w (cur @ [name], d, local_specs w cur gi sp) f"
    and "entries_of nd = Some es" "load_gitignore en nd = Inr gi" "(name, d) \<in> set es" "entries_of d \<noteq> None"
      "\<not> dir_skipped name" "r"
  shows "visits en r w (cur, nd, sp) f"
  using assms(1)
proof (induction rule: visits.induct)
  case start
  show ?case by (rule visits.enter [OF visits.start assms(2-7)])
qed (rule visits.enter)

definition picks :: "walk_env \<Rightarrow> path \<Rightarrow> frame \<Rightarrow> path \<Rightarrow> bool" where
  \<comment> \<open>the file \<open>p\<close> is listed in this directory and no rule excludes it\<close>
  "picks en w f p = (case f of (cur, nd, sp) \<Rightarrow>
     (\<exists>es gi name sz. entries_of nd = Some es \<and> load_gitignore en nd = Inr gi \<and> (name, NFile sz) \<in> set es
        \<and> p = cur @ [name] \<and> \<not> file_excluded p sz (local_specs w cur gi sp) (max_file_size_bytes (wk_limits en))))"

lemma file_events_iff:
  "Inr p \<in> set (file_events en cur sp es) \<longleftrightarrow>
   (\<exists>name sz. (name, NFile sz) \<in> set es \<and> p = cur @ [name] \<and> \<not> file_excluded p sz sp (max_file_size_bytes (wk_limits en)))"
  by (fastforce simp: file_events_def split: node.splits if_splits)

lemma tree_events_iff:
  "Inr p \<in> set (tree_events en r w cur nd sp) \<longleftrightarrow>
     picks en w (cur, nd, sp) p \<or>
     (\<exists>es gi name d. entries_of nd = Some es \<and> load_gitignore en nd = Inr gi \<and> (name, d) \<in> set es
        \<and> entries_of d \<noteq> None \<and> \<not> dir_skipped name \<and> r
        \<and> Inr p \<in> set (tree_events en r w (cur @ [name]) d (local_specs w cur gi sp)))"
  (is "_ \<longleftrightarrow> ?rhs")
proof (cases "entries_of nd")
  case None
  then show ?thesis by (simp add: tree_events.simps [of _ _ _ _ nd] picks_def)
next
  case (Some es)
  show ?thesis
  proof (cases "load_gitignore en nd")
    case (Inl e)
    then show ?thesis using Some by (simp add: tree_events.simps [of _ _ _ _ nd] picks_def)
  next
    case (Inr gi)
    have "Inr p \<in> set (tree_events en r w cur nd sp) \<longleftrightarrow>
        Inr p \<in> set (file_events en cur (local_specs w cur gi sp) es) \<or>
        (\<exists>x \<in> set es. entries_of (snd x) \<noteq> None \<and> \<not> dir_skipped (fst x) \<and> r
           \<and> Inr p \<in> set (tree_events en r w (cur @ [fst x]) (snd x) (local_specs w cur gi sp)))"
      unfolding tree_events.simps [of _ _ _ _ nd] Let_def Some Inr option.case sum.case set_append Un_iff set_concat set_rev set_map
      by (intro disj_cong refl iffI; elim UN_E imageE bexE; force split: if_splits)
    also have "\<dots> \<longleftrightarrow> ?rhs"
      using Some Inr by (fastforce simp: picks_def file_events_iff)
    finally show ?thesis .
  qed
qed

lemma tree_events_picks:
  "Inr p \<in> set (tree_events en r w cur nd sp) \<Longrightarrow> \<exists>f. visits en r w (cur, nd, sp) f \<and> picks en w f p"
proof (induction "size nd" arbitrary: cur nd sp rule: less_induct)
  case less
  show ?case
  proof (cases "picks en w (cur, nd, sp) p")
    case True
    then show ?thesis using visits.start by blast
  next
    case False
    then obtain es gi name d where d: "entries_of nd = Some es" "load_gitignore en nd = Inr gi" "(name, d) \<in> set es"
        "entries_of d \<noteq> None" "\<not> dir_skipped name" "r"
        "Inr p \<in> set (tree_events en r w (cur @ [name]) d (local_specs w cur gi sp))"
      using less.prems unfolding tree_events_iff [of p _ _ _ _ nd] by blast
    have "size d < size nd" using size_entry [OF d(3)] d(1) by (cases nd) (auto simp: entries_of_def)
    then obtain f where "visits en r w (cur @ [name], d, local_specs w cur gi sp) f" "picks en w f p"
      using less.hyps [OF _ d(7)] by blast
    then show ?thesis using visits_front [OF _ d(1-6)] by blast
  qed
qed

lemma visits_events:
  "visits en r w f0 f \<Longrightarrow> (case f of (c, d, sp) \<Rightarrow> Inr p \<in> set (tree_events en r w c d sp)) \<Longrightarrow>
   (case f0 of (c, d, sp) \<Rightarrow> Inr p \<in> set (tree_events en r w c d sp))"
proof (induction rule: visits.induct)
  case (enter cur nd sp es gi name d)
  have "Inr p \<in> set (tree_events en r w cur nd sp)"
    unfolding tree_events_iff [of p _ _ _ _ nd] using enter.hyps(2-7) enter.prems by auto
  then show ?case using enter.IH by simp
qed simp

lemma tree_events_visits:
  "Inr p \<in> set (tree_events en r w cur nd sp) \<longleftrightarrow> (\<exists>f. visits en r w (cur, nd, sp) f \<and> picks en w f p)"
proof
  assume "\<exists>f. visits en r w (cur, nd, sp) f \<and> picks en w f p"
  then obtain c d s where "visits en r w (cur, nd, sp) (c, d, s)" "picks en w (c, d, s) p" by auto
  then show "Inr p \<in> set (tree_events en r w cur nd sp)"
    using visits_events [of en r w "(cur, nd, sp)" "(c, d, s)" p] by (simp add: tree_events_iff [of p _ _ _ _ d])
qed (rule tree_events_picks)

lemma walk_dir_out:
  assumes "walk_dir en r cap base nd = Inr out"
  obtains gi where "load_gitignore en nd = Inr gi"
    "map Inr out = take (nat cap) (tree_events en r base base nd (root_specs base gi))"
  using assms by (auto simp: walk_loop_events walk_dir_def root_specs_def split: sum.splits dest!: first_events_take)

lemma walk_dir_length: "walk_dir en r cap base nd = Inr out \<Longrightarrow> int (length out) \<le> max 0 cap"
proof -
  assume "walk_dir en r cap base nd = Inr out"
  then obtain evs where "map Inr out = take (nat cap) (evs :: (exc + path) list)" by (rule walk_dir_out)
  then have "length out = min (length evs) (nat cap)" by (metis length_map length_take)
  then show ?thesis by auto
qed

text \<open>
  A walk finds the files it should. It returns at most \<open>max_files\<close> files, each listed in a
  directory it may enter (no component skipped, only the start directory when it is not
  recursive) and excluded by no rule of the directories above it; if it ends below the cap, it
  returns all of them.
\<close>

lemma walk_finds:
  assumes "walk_dir en recursive max_files base nd = Inr out" "load_gitignore en nd = Inr gi"
  defines "wanted \<equiv> {p. \<exists>f. visits en recursive base (base, nd, root_specs base gi) f \<and> picks en base f p}"
  shows "int (length out) \<le> max 0 max_files \<and> set out \<subseteq> wanted
    \<and> (int (length out) < max_files \<longrightarrow> set out = wanted)"
proof -
  obtain evs where evs: "evs = tree_events en recursive base base nd (root_specs base gi)" "map Inr out = take (nat max_files) evs"
    using walk_dir_out [OF assms(1)] assms(2) by auto
  have mem: "p \<in> set out \<longleftrightarrow> Inr p \<in> set (take (nat max_files) evs)" for p
    unfolding evs(2) [symmetric] by auto
  have wanted: "wanted = {p. Inr p \<in> set evs}" by (simp add: wanted_def evs(1) tree_events_visits)
  have sub: "set out \<subseteq> wanted"
  proof
    fix p assume "p \<in> set out"
    then have "Inr p \<in> set evs" using mem by (metis in_set_takeD)
    then show "p \<in> wanted" by (simp add: wanted)
  qed
  have "set out = wanted" if "int (length out) < max_files"
  proof -
    have "length out = min (length evs) (nat max_files)" using evs(2) by (metis length_map length_take)
    then have "take (nat max_files) evs = evs" using that by simp
    then show ?thesis by (simp add: set_eq_iff mem wanted)
  qed
  then show ?thesis using walk_dir_length [OF assms(1)] sub by blast
qed

definition demo_walk :: "walk_env" where
  "demo_walk = \<lparr>wk_limits = limits_default\<lparr>max_files_hot := 1\<rparr>, wk_compile = (\<lambda>ls. Inr (\<lambda>s. s \<in> set ls)),
     wk_node = (\<lambda>p. if p = [''/'', ''r'', ''a.py''] \<or> p = [''/'', ''r'', ''b.py''] then Some (NFile (Some 3)) else None),
     wk_resolve = Some\<rparr>"

definition demo_tree :: "node" where
  "demo_tree = NDir (Inr (Some [''x.py''])) (Some [(''x.py'', NFile (Some 1)), (''y.py'', NFile (Some 1)),
     (''.git'', NDir (Inr None) (Some [(''config'', NFile (Some 1))])),
     (''src'', NDir (Inr None) (Some [(''x.py'', NFile (Some 1)), (''e.py'', NFile (Some 0))]))])"

lemma demo_walk_run: "walk_dir demo_walk True 5 [''r''] demo_tree = Inr [[''r'', ''y.py''], [''r'', ''src'', ''x.py'']]"
  by code_simp

lemma walk_finds_witness:
  "set [[''r'', ''y.py''], [''r'', ''src'', ''x.py'']]
   = {p. \<exists>f. visits demo_walk True [''r''] ([''r''], demo_tree, root_specs [''r''] (Some (\<lambda>s. s \<in> set [''x.py'']))) f
        \<and> picks demo_walk [''r''] f p}"
proof -
  have "load_gitignore demo_walk demo_tree = Inr (Some (\<lambda>s. s \<in> set [''x.py'']))"
    by (simp add: load_gitignore_def demo_walk_def demo_tree_def)
  from walk_finds [OF demo_walk_run this] show ?thesis by simp
qed

section \<open>The Hot scope\<close>

lemma add_path_fold:
  "distinct out \<Longrightarrow> distinct (foldl add_path out ps) \<and> length (foldl add_path out ps) \<le> length out + length ps"
proof (induction ps arbitrary: out)
  case (Cons p ps)
  have "distinct (add_path out p)" "length (add_path out p) \<le> Suc (length out)"
    using Cons.prems by (auto simp: add_path_def)
  then show ?case using Cons.IH [of "add_path out p"] by simp
qed simp

definition hot_ok :: "int \<Rightarrow> path list \<Rightarrow> bool" where
  "hot_ok n out \<longleftrightarrow> distinct out \<and> int (length out) \<le> n"

lemma add_walk_ok:
  assumes "add_walk en r base out = Inr out'" "hot_ok n out" "max_files_hot (wk_limits en) \<le> n"
  shows "hot_ok n out'"
proof -
  obtain ps where ps: "walk_dir en r (max_files_hot (wk_limits en) - int (length out)) base (node_at en base) = Inr ps"
      "out' = foldl add_path out ps"
    using assms(1) unfolding add_walk_def by (cases "walk_dir en r (max_files_hot (wk_limits en) - int (length out)) base (node_at en base)") auto
  have "int (length ps) \<le> max 0 (max_files_hot (wk_limits en) - int (length out))" by (rule walk_dir_length [OF ps(1)])
  then show ?thesis using add_path_fold [of out ps] assms(2,3) unfolding ps(2) hot_ok_def by auto
qed

lemma hot_ok_mono: "hot_ok n out \<Longrightarrow> n \<le> m \<Longrightarrow> hot_ok m out"
  by (simp add: hot_ok_def)

lemma add_mentioned_ok:
  assumes "add_mentioned en base mp out = Inr out'" "hot_ok n out" "max_files_hot (wk_limits en) \<le> n"
  shows "hot_ok (n + 1) out'"
proof -
  have added: "hot_ok (n + 1) (add_path out rp)" for rp using assms(2) by (auto simp: hot_ok_def add_path_def)
  have walk: "add_walk en False rp out = Inr out' \<Longrightarrow> hot_ok (n + 1) out'" for rp
    using add_walk_ok [OF _ assms(2,3)] hot_ok_mono by fastforce
  have same: "hot_ok (n + 1) out" using assms(2) by (simp add: hot_ok_def)
  show ?thesis using assms(1) added walk same
    by (auto simp: add_mentioned_def split: option.splits node.splits if_splits)
qed

lemma add_siblings_ok:
  "add_siblings en mp out = Inr out' \<Longrightarrow> hot_ok n out \<Longrightarrow> max_files_hot (wk_limits en) \<le> n \<Longrightarrow> hot_ok n out'"
  using add_walk_ok by (auto simp: add_siblings_def split: option.splits node.splits)

lemma each_mentioned_ok:
  "for_each (add_mentioned en base) mps out = Inr out' \<Longrightarrow> hot_ok n out \<Longrightarrow> max_files_hot (wk_limits en) \<le> n \<Longrightarrow>
   hot_ok (n + int (length mps)) out'"
proof (induction mps arbitrary: out n)
  case (Cons mp mps)
  obtain o1 where o1: "add_mentioned en base mp out = Inr o1" "for_each (add_mentioned en base) mps o1 = Inr out'"
    using Cons.prems(1) by (auto split: sum.splits)
  have "hot_ok (n + 1) o1" by (rule add_mentioned_ok [OF o1(1) Cons.prems(2,3)])
  from Cons.IH [OF o1(2) this] Cons.prems(3) show ?case by (simp add: algebra_simps)
qed simp

lemma each_siblings_ok:
  "for_each (add_siblings en) mps out = Inr out' \<Longrightarrow> hot_ok n out \<Longrightarrow> max_files_hot (wk_limits en) \<le> n \<Longrightarrow> hot_ok n out'"
  by (induction mps arbitrary: out) (auto split: sum.splits dest: add_siblings_ok)

text \<open>
  The Hot scope lists no file twice and holds at most \<open>max_files_hot\<close> files plus one for each
  mentioned path. The cap alone does not hold, since a mentioned file is added without looking at
  it: the witness lists two files under a cap of one.
\<close>

lemma hot_scope_bound:
  assumes "walk_hot_scope en base mentioned = Inr out"
  shows "distinct out \<and> int (length out) \<le> max 0 (max_files_hot (wk_limits en)) + int (length mentioned)"
proof -
  let ?n = "max 0 (max_files_hot (wk_limits en)) + int (length mentioned)"
  have n: "max_files_hot (wk_limits en) \<le> ?n" by simp
  obtain o1 o2 o3 where o: "for_each (add_mentioned en base) mentioned [] = Inr o1" "for_each (add_siblings en) mentioned o1 = Inr o2"
    "(case node_at en (base @ [''src'']) of NBroken \<Rightarrow> Inl OSError | NDir _ _ \<Rightarrow> add_walk en True (base @ [''src'']) o2 | _ \<Rightarrow> Inr o2) = Inr o3"
    "(if length o3 < 50 then add_walk en False base o3 else Inr o3) = Inr out"
    using assms unfolding walk_hot_scope_def by (auto split: sum.splits)
  have "hot_ok ?n o1"
    using each_mentioned_ok [OF o(1), of "max 0 (max_files_hot (wk_limits en))"] by (simp add: hot_ok_def)
  then have "hot_ok ?n o2" by (rule each_siblings_ok [OF o(2) _ n])
  then have "hot_ok ?n o3" using o(3) add_walk_ok [OF _ _ n] by (auto split: node.splits)
  then have "hot_ok ?n out" using o(4) add_walk_ok [OF _ _ n] by (auto split: if_splits)
  then show ?thesis by (simp add: hot_ok_def)
qed

lemma hot_scope_bound_witness:
  "walk_hot_scope demo_walk [''/'', ''r''] [[''/'', ''r'', ''a.py''], [''/'', ''r'', ''b.py'']]
     = Inr [[''/'', ''r'', ''a.py''], [''/'', ''r'', ''b.py'']]
   \<and> max_files_hot (wk_limits demo_walk) = 1 \<and> distinct [[''/'', ''r'', ''a.py''], [''/'', ''r'', ''b.py'']]"
proof -
  have run: "walk_hot_scope demo_walk [''/'', ''r''] [[''/'', ''r'', ''a.py''], [''/'', ''r'', ''b.py'']]
     = Inr [[''/'', ''r'', ''a.py''], [''/'', ''r'', ''b.py'']]" by code_simp
  have "max_files_hot (wk_limits demo_walk) = 1" by (simp add: demo_walk_def)
  then show ?thesis using run hot_scope_bound [OF run] by blast
qed

end
