(* ===== verification/Svc_Evict.thy ===== *)
theory Svc_Evict
  imports LC_Rank
begin

text \<open>
  The per-session eviction store (\<open>longctx_svc/eviction_store.py\<close>), its memory half: the
  session indexes, \<open>write\<close>, the lazily rebuilt BM25 index, \<open>retrieve\<close>, \<open>clear\<close> and
  \<open>stats\<close>. The disk half is in \<open>Svc_Hibernate\<close>.

  What the code calls outside the repository is the record \<open>rescue_env\<close>: the sentence encoder,
  \<open>rank_bm25.BM25Plus\<close>, the cross-encoder, numpy's index sorts, sha256. A BM25 object is
  represented by the token lists it was built from.
\<close>

record evicted_chunk =
  ec_text :: string
  ec_token_range :: "int \<times> int"
  ec_layer :: int
  ec_score :: real
  ec_embedding :: "vec option"

record session_index =
  si_chunks :: "evicted_chunk list"
  si_last_access :: time
  si_bm25_dirty :: bool
  si_bm25 :: "string list list option"
  si_bm25_tokens :: "string list list"

record rescue_env =
  en_encode :: "string list \<Rightarrow> vec list"
  en_injected_fp :: string
  en_has_bm25 :: bool
  en_bm25_scores :: "string list list \<Rightarrow> string list \<Rightarrow> real list"
  en_load_reranker :: bool
  en_predict :: "(string \<times> string) list \<Rightarrow> real list option"
  en_argsort :: "real list \<Rightarrow> nat list"
  en_argsort_x :: "xreal list \<Rightarrow> nat list"
  en_argpartition :: "xreal list \<Rightarrow> nat \<Rightarrow> nat list"
  en_sha12 :: "string \<Rightarrow> string"
  en_alpha :: real

definition env_ok :: "rescue_env \<Rightarrow> bool" where
  \<comment> \<open>what the code relies on: one vector per text, one score per document or pair, numpy's sorts sort\<close>
  "env_ok en \<longleftrightarrow> (\<forall>ts. length (en_encode en ts) = length ts)
     \<and> (\<forall>corpus q. length (en_bm25_scores en corpus q) = length corpus)
     \<and> (\<forall>ps rs. en_predict en ps = Some rs \<longrightarrow> length rs = length ps)
     \<and> argsort_ok (en_argsort en) \<and> argsort_ok (en_argsort_x en) \<and> argpartition_ok (en_argpartition en)"

definition bm25_tokenize :: "string \<Rightarrow> string list" where
  "bm25_tokenize text = runs_of is_alnum_ascii (py_lower text)"

definition env_float :: "(string \<Rightarrow> real option) \<Rightarrow> string option \<Rightarrow> real \<Rightarrow> real" where
  \<comment> \<open>\<open>parse\<close> is Python's \<open>float(raw)\<close>, with \<open>None\<close> for the \<open>ValueError\<close>\<close>
  "env_float parse raw dflt =
     (case raw of None \<Rightarrow> dflt
      | Some s \<Rightarrow> if s = [] then dflt else (case parse s of None \<Rightarrow> dflt | Some x \<Rightarrow> x))"

definition empty_index :: "time \<Rightarrow> session_index" where
  "empty_index now = \<lparr>si_chunks = [], si_last_access = now, si_bm25_dirty = True, si_bm25 = None, si_bm25_tokens = []\<rparr>"

section \<open>Cold storage and the store\<close>

record snapshot_meta =
  sm_schema_version :: int
  sm_fingerprint :: string
  sm_hibernated_at :: time
  sm_last_access :: time
  sm_n_chunks :: nat
  sm_session_id :: string

text \<open>A snapshot directory: either file may be missing, and the metadata may be unreadable.\<close>

datatype meta_file = NoMeta | BadMeta | Meta snapshot_meta

record snapshot_dir =
  sd_chunks :: "evicted_chunk list option"
  sd_meta :: meta_file

record store =
  st_sessions :: "(string, session_index) dict"
  st_has_embedder :: bool
  st_fingerprint :: "string option"
  st_has_reranker :: bool
  st_reranker_loaded :: bool
  st_disk :: "(string, snapshot_dir) dict"

definition rerank_min_chunks :: nat where
  "rerank_min_chunks = 100"

definition default_model :: string where
  "default_model = ''sentence-transformers/all-MiniLM-L6-v2''"

definition ensure_embedder :: "rescue_env \<Rightarrow> store \<Rightarrow> store" where
  "ensure_embedder en st =
     (if st_has_embedder st then
        (if st_fingerprint st = None then st\<lparr>st_fingerprint := Some (en_injected_fp en)\<rparr> else st)
      else st\<lparr>st_has_embedder := True, st_fingerprint := Some default_model\<rparr>)"

definition ensure_reranker :: "rescue_env \<Rightarrow> store \<Rightarrow> bool \<times> store" where
  \<comment> \<open>whether there is a reranker, and the store with the outcome of the one load attempt\<close>
  "ensure_reranker en st =
     (if st_has_reranker st then (True, st)
      else if st_reranker_loaded st then (False, st)
      else (en_load_reranker en, st\<lparr>st_has_reranker := en_load_reranker en, st_reranker_loaded := True\<rparr>))"

fun assign_vecs :: "evicted_chunk list \<Rightarrow> vec list \<Rightarrow> evicted_chunk list" where
  \<comment> \<open>\<open>for c, v in zip(to_embed, vecs)\<close> over the chunks that have no embedding yet\<close>
  "assign_vecs [] vs = []"
| "assign_vecs (c # cs) vs =
     (case ec_embedding c of
        Some _ \<Rightarrow> c # assign_vecs cs vs
      | None \<Rightarrow> (case vs of [] \<Rightarrow> c # assign_vecs cs []
                 | v # vs' \<Rightarrow> c\<lparr>ec_embedding := Some (normalize_eps v)\<rparr> # assign_vecs cs vs'))"

definition es_write :: "rescue_env \<Rightarrow> time \<Rightarrow> string \<Rightarrow> evicted_chunk list \<Rightarrow> store \<Rightarrow> nat \<times> store" where
  "es_write en now sid chunks st =
     (if chunks = [] then (0, st)
      else
        let st = ensure_embedder en st;
            to_embed = filter (\<lambda>c. ec_embedding c = None) chunks;
            chunks = (if to_embed = [] then chunks
                      else assign_vecs chunks (en_encode en (map ec_text to_embed)));
            idx = (case dict_get (st_sessions st) sid of Some idx \<Rightarrow> idx | None \<Rightarrow> empty_index now);
            idx = idx\<lparr>si_chunks := si_chunks idx @ chunks, si_last_access := now, si_bm25_dirty := True\<rparr>
        in (length (si_chunks idx), st\<lparr>st_sessions := dict_set sid idx (st_sessions st)\<rparr>))"

definition rebuild_bm25 :: "rescue_env \<Rightarrow> session_index \<Rightarrow> session_index" where
  "rebuild_bm25 en idx =
     (if \<not> en_has_bm25 en then idx\<lparr>si_bm25 := None, si_bm25_tokens := [], si_bm25_dirty := False\<rparr>
      else
        let tokens_per_chunk = map (\<lambda>c. bm25_tokenize (ec_text c)) (si_chunks idx) in
        if tokens_per_chunk = [] \<or> (\<forall>t \<in> set tokens_per_chunk. t = [])
        then idx\<lparr>si_bm25 := None, si_bm25_tokens := tokens_per_chunk, si_bm25_dirty := False\<rparr>
        else idx\<lparr>si_bm25 := Some tokens_per_chunk, si_bm25_tokens := tokens_per_chunk, si_bm25_dirty := False\<rparr>)"

section \<open>Retrieve\<close>

definition list_max :: "real list \<Rightarrow> real" where
  "list_max xs = fold max (tl xs) (hd xs)"

definition list_min :: "real list \<Rightarrow> real" where
  "list_min xs = fold min (tl xs) (hd xs)"

definition fuse :: "rescue_env \<Rightarrow> real \<Rightarrow> string list list option \<Rightarrow> string \<Rightarrow> real list \<Rightarrow> real list" where
  \<comment> \<open>cosine fused with the min-max normalised BM25 scores, or cosine alone\<close>
  "fuse en alpha bm25 query cos_sims =
     (case bm25 of
        None \<Rightarrow> cos_sims
      | Some corpus \<Rightarrow>
          if \<not> alpha < 1 then cos_sims
          else
            let q_tokens = bm25_tokenize query in
            if q_tokens = [] then cos_sims
            else
              let scores = en_bm25_scores en corpus q_tokens;
                  bmax = list_max scores;
                  bmin = list_min scores;
                  spread = bmax - bmin
              in if 1 / 10 ^ 9 < spread
                 then map2 (\<lambda>c b. alpha * c + (1 - alpha) * ((b - bmin) / spread)) cos_sims scores
                 else cos_sims)"

definition masked :: "bool list \<Rightarrow> real list \<Rightarrow> xreal list" where
  \<comment> \<open>the negated score array, \<open>-np.where(keep, fused, -inf)\<close>\<close>
  "masked keep fused = map2 (\<lambda>k f. if k then Fin (- f) else PInf) keep fused"

definition clamp01 :: "real \<Rightarrow> real" where
  "clamp01 a = max 0 (min 1 a)"

record ranked =
  rk_fused :: "real list"
  rk_keep :: "bool list"
  rk_pool :: "nat list"
  rk_rerank :: bool

definition rank_chunks ::
  "rescue_env \<Rightarrow> real \<Rightarrow> string list list option \<Rightarrow> string \<Rightarrow> real list \<Rightarrow> int \<Rightarrow> real \<Rightarrow> bool \<Rightarrow> int \<Rightarrow> ranked" where
  \<comment> \<open>floor, pool size, partition and sort: the indices of the pool, best first\<close>
  "rank_chunks en alpha bm25 query cos_sims top_k score_floor use_rerank prefilter =
     (let fused = fuse en alpha bm25 query cos_sims;
          keep = map (\<lambda>f. score_floor \<le> f) fused;
          n_keep = int (length (filter id keep));
          n_chunks = length cos_sims;
          do_rerank = (use_rerank \<and> rerank_min_chunks \<le> n_chunks \<and> top_k < n_keep);
          pool_size = (if do_rerank then min (max prefilter top_k) n_keep else min top_k n_keep);
          pool = (if n_keep = 0 \<or> pool_size \<le> 0 then []
                  else select_top (en_argpartition en) (en_argsort_x en) (masked keep fused) (nat pool_size))
      in \<lparr>rk_fused = fused, rk_keep = keep, rk_pool = pool, rk_rerank = do_rerank \<and> pool \<noteq> []\<rparr>)"

definition rerank_pool :: "rescue_env \<Rightarrow> string \<Rightarrow> evicted_chunk list \<Rightarrow> evicted_chunk list" where
  \<comment> \<open>a failing \<open>predict\<close> keeps the hybrid order\<close>
  "rerank_pool en query pool =
     (case en_predict en (map (\<lambda>c. (query, take 2000 (ec_text c))) pool) of
        None \<Rightarrow> pool
      | Some rr \<Rightarrow> map ((!) pool) (en_argsort en (map uminus rr)))"

definition es_search ::
  "rescue_env \<Rightarrow> real \<Rightarrow> session_index \<Rightarrow> string \<Rightarrow> int \<Rightarrow> real \<Rightarrow> bool \<Rightarrow> int \<Rightarrow> store
     \<Rightarrow> (exc + evicted_chunk list) \<times> store" where
  \<comment> \<open>the part of \<open>retrieve\<close> after the lock, over the snapshot \<open>idx\<close>\<close>
  "es_search en alpha idx query top_k score_floor use_rerank prefilter st0 =
     (let st = ensure_embedder en st0; chunks = si_chunks idx in
      case en_encode en [query] of
        [] \<Rightarrow> (Inl IndexError, st)
      | q # _ \<Rightarrow>
          if \<exists>c \<in> set chunks. ec_embedding c = None then (Inl ValueError, st)
          else
            let q_vec = normalize_eps q;
                cos_sims = map (\<lambda>c. dot (the (ec_embedding c)) q_vec) chunks;
                r = rank_chunks en alpha (si_bm25 idx) query cos_sims top_k score_floor use_rerank prefilter;
                pool = map ((!) chunks) (rk_pool r)
            in if rk_rerank r
               then (Inr (py_take top_k (if fst (ensure_reranker en st) then rerank_pool en query pool else pool)),
                     snd (ensure_reranker en st))
               else (Inr (py_take top_k pool), st))"

definition es_retrieve ::
  "rescue_env \<Rightarrow> time \<Rightarrow> string \<Rightarrow> string \<Rightarrow> int \<Rightarrow> real \<Rightarrow> real option \<Rightarrow> bool \<Rightarrow> int \<Rightarrow> store
     \<Rightarrow> (exc + evicted_chunk list) \<times> store" where
  "es_retrieve en now sid query top_k score_floor hybrid_alpha use_rerank prefilter st =
     (let alpha = clamp01 (case hybrid_alpha of None \<Rightarrow> en_alpha en | Some a \<Rightarrow> a) in
      case dict_get (st_sessions st) sid of
        None \<Rightarrow> (Inr [], st)
      | Some idx \<Rightarrow>
          if si_chunks idx = [] then (Inr [], st)
          else
            let idx = idx\<lparr>si_last_access := now\<rparr>;
                idx = (if alpha < 1 \<and> si_bm25_dirty idx then rebuild_bm25 en idx else idx)
            in es_search en alpha idx query top_k score_floor use_rerank prefilter
                 (st\<lparr>st_sessions := dict_set sid idx (st_sessions st)\<rparr>))"

definition es_clear :: "string \<Rightarrow> store \<Rightarrow> nat \<times> store" where
  "es_clear sid st =
     ((case dict_get (st_sessions st) sid of None \<Rightarrow> 0 | Some idx \<Rightarrow> length (si_chunks idx)),
      st\<lparr>st_sessions := dict_pop sid (st_sessions st)\<rparr>)"

record store_stats =
  ss_sessions :: nat
  ss_total_chunks :: nat
  ss_per_session :: "(string, nat) dict"

definition es_stats :: "store \<Rightarrow> store_stats" where
  "es_stats st = \<lparr>ss_sessions = length (st_sessions st),
     ss_total_chunks = sum_list (map (\<lambda>(sid, idx). length (si_chunks idx)) (st_sessions st)),
     ss_per_session = map (\<lambda>(sid, idx). (sid, length (si_chunks idx))) (st_sessions st)\<rparr>"

section \<open>Writing\<close>

lemma assign_vecs_text [simp]: "map ec_text (assign_vecs cs vs) = map ec_text cs"
  by (induction cs vs rule: assign_vecs.induct) (auto split: option.split list.split)

lemma length_assign_vecs [simp]: "length (assign_vecs cs vs) = length cs"
  by (induction cs vs rule: assign_vecs.induct) (auto split: option.split list.split)

lemma assign_vecs_embedded:
  "length vs = length (filter (\<lambda>c. ec_embedding c = None) cs) \<Longrightarrow> c \<in> set (assign_vecs cs vs) \<Longrightarrow> ec_embedding c \<noteq> None"
  by (induction cs vs rule: assign_vecs.induct) (auto split: option.splits list.splits)

definition embedded :: "rescue_env \<Rightarrow> evicted_chunk list \<Rightarrow> evicted_chunk list" where
  \<comment> \<open>what \<open>write\<close> appends for the chunks it is given\<close>
  "embedded en chunks =
     (if filter (\<lambda>c. ec_embedding c = None) chunks = [] then chunks
      else assign_vecs chunks (en_encode en (map ec_text (filter (\<lambda>c. ec_embedding c = None) chunks))))"

lemma embedded_simps [simp]:
  "map ec_text (embedded en cs) = map ec_text cs" "length (embedded en cs) = length cs"
  by (simp_all add: embedded_def)

lemma embedded_all: "env_ok en \<Longrightarrow> c \<in> set (embedded en cs) \<Longrightarrow> ec_embedding c \<noteq> None"
  by (auto simp: embedded_def filter_empty_conv env_ok_def split: if_splits dest: assign_vecs_embedded [rotated])

definition session_of :: "time \<Rightarrow> string \<Rightarrow> store \<Rightarrow> session_index" where
  "session_of now sid st = (case map_of (st_sessions st) sid of Some idx \<Rightarrow> idx | None \<Rightarrow> empty_index now)"

lemma ensure_embedder_frame [simp]:
  "st_sessions (ensure_embedder en st) = st_sessions st" "st_disk (ensure_embedder en st) = st_disk st"
  "st_has_reranker (ensure_embedder en st) = st_has_reranker st"
  "st_reranker_loaded (ensure_embedder en st) = st_reranker_loaded st"
  by (simp_all add: ensure_embedder_def)

lemma ensure_reranker_frame [simp]:
  "st_sessions (snd (ensure_reranker en st)) = st_sessions st" "st_disk (snd (ensure_reranker en st)) = st_disk st"
  by (simp_all add: ensure_reranker_def)

lemma es_write_sessions:
  "cs \<noteq> [] \<Longrightarrow> st_sessions (snd (es_write en now sid cs st)) =
     dict_set sid ((session_of now sid st)\<lparr>si_chunks := si_chunks (session_of now sid st) @ embedded en cs,
       si_last_access := now, si_bm25_dirty := True\<rparr>) (st_sessions st)"
  by (simp add: es_write_def Let_def embedded_def session_of_def)

lemma es_write_count:
  "cs \<noteq> [] \<Longrightarrow> fst (es_write en now sid cs st) = length (si_chunks (session_of now sid st)) + length cs"
  by (simp add: es_write_def Let_def session_of_def)

lemma es_write_frame [simp]:
  "st_disk (snd (es_write en now sid cs st)) = st_disk st"
  "st_has_reranker (snd (es_write en now sid cs st)) = st_has_reranker st"
  "st_reranker_loaded (snd (es_write en now sid cs st)) = st_reranker_loaded st"
  by (simp_all add: es_write_def Let_def)

section \<open>The store invariant\<close>

text \<open>
  Every stored chunk is embedded, and an index that is not marked dirty has the BM25 state a
  rebuild from its current chunks would give.
\<close>

definition index_inv :: "rescue_env \<Rightarrow> session_index \<Rightarrow> bool" where
  "index_inv en idx \<longleftrightarrow> (\<forall>c \<in> set (si_chunks idx). ec_embedding c \<noteq> None)
     \<and> (\<not> si_bm25_dirty idx \<longrightarrow> rebuild_bm25 en idx = idx)"

definition store_inv :: "rescue_env \<Rightarrow> store \<Rightarrow> bool" where
  "store_inv en st \<longleftrightarrow> dict_wf (st_sessions st)
     \<and> (\<forall>sid idx. map_of (st_sessions st) sid = Some idx \<longrightarrow> index_inv en idx)"

lemma rebuild_frame [simp]:
  "si_chunks (rebuild_bm25 en idx) = si_chunks idx" "si_last_access (rebuild_bm25 en idx) = si_last_access idx"
  "\<not> si_bm25_dirty (rebuild_bm25 en idx)"
  by (simp_all add: rebuild_bm25_def Let_def)

lemma rebuild_idem [simp]: "rebuild_bm25 en (rebuild_bm25 en idx) = rebuild_bm25 en idx"
  by (simp add: rebuild_bm25_def Let_def)

lemma rebuild_touch: "rebuild_bm25 en (idx\<lparr>si_last_access := now\<rparr>) = (rebuild_bm25 en idx)\<lparr>si_last_access := now\<rparr>"
  by (simp add: rebuild_bm25_def Let_def)

lemma index_inv_rebuild: "index_inv en idx \<Longrightarrow> index_inv en (rebuild_bm25 en idx)"
  by (simp add: index_inv_def)

lemma index_inv_touch: "index_inv en idx \<Longrightarrow> index_inv en (idx\<lparr>si_last_access := now\<rparr>)"
  by (simp add: index_inv_def rebuild_touch)

lemma store_inv_set:
  "store_inv en st \<Longrightarrow> index_inv en idx \<Longrightarrow> st_sessions st' = dict_set sid idx (st_sessions st) \<Longrightarrow> store_inv en st'"
  by (auto simp: store_inv_def distinct_update dict_simps split: if_splits)

lemma store_inv_same: "store_inv en st \<Longrightarrow> st_sessions st' = st_sessions st \<Longrightarrow> store_inv en st'"
  by (simp add: store_inv_def)

lemma store_inv_pop: "store_inv en st \<Longrightarrow> st_sessions st' = dict_pop sid (st_sessions st) \<Longrightarrow> store_inv en st'"
  by (auto simp: store_inv_def distinct_delete dict_get_pop split: if_splits)

lemma es_write_inv [inv_intros]:
  assumes "env_ok en" "store_inv en st"
  shows "store_inv en (snd (es_write en now sid cs st))"
proof (cases "cs = []")
  case False
  show ?thesis
  proof (rule store_inv_set [OF assms(2) _ es_write_sessions [OF False]])
    show "index_inv en ((session_of now sid st)\<lparr>si_chunks := si_chunks (session_of now sid st) @ embedded en cs,
       si_last_access := now, si_bm25_dirty := True\<rparr>)"
      using assms embedded_all [OF assms(1)]
      by (auto simp: index_inv_def store_inv_def session_of_def empty_index_def split: option.splits)
  qed
qed (use assms in \<open>simp add: es_write_def\<close>)

lemma es_clear_inv [inv_intros]: "store_inv en st \<Longrightarrow> store_inv en (snd (es_clear sid st))"
  by (rule store_inv_pop) (simp_all add: es_clear_def)

section \<open>What retrieve ranks by\<close>

definition alpha_of :: "rescue_env \<Rightarrow> real option \<Rightarrow> real" where
  "alpha_of en a = clamp01 (case a of None \<Rightarrow> en_alpha en | Some a \<Rightarrow> a)"

definition refreshed :: "rescue_env \<Rightarrow> time \<Rightarrow> real \<Rightarrow> session_index \<Rightarrow> session_index" where
  "refreshed en now alpha idx =
     (let idx = idx\<lparr>si_last_access := now\<rparr> in if alpha < 1 \<and> si_bm25_dirty idx then rebuild_bm25 en idx else idx)"

definition cosines :: "rescue_env \<Rightarrow> string \<Rightarrow> evicted_chunk list \<Rightarrow> real list" where
  "cosines en query cs = map (\<lambda>c. dot (the (ec_embedding c)) (normalize_eps (hd (en_encode en [query])))) cs"

definition final_scores :: "rescue_env \<Rightarrow> real \<Rightarrow> string \<Rightarrow> session_index \<Rightarrow> real list" where
  \<comment> \<open>the fused score of each chunk; the BM25 side is that of a fresh rebuild\<close>
  "final_scores en alpha query idx =
     fuse en alpha (si_bm25 (rebuild_bm25 en idx)) query (cosines en query (si_chunks idx))"

lemma refreshed_frame [simp]:
  "si_chunks (refreshed en now alpha idx) = si_chunks idx" "si_last_access (refreshed en now alpha idx) = now"
  by (simp_all add: refreshed_def Let_def)

lemma refreshed_inv: "index_inv en idx \<Longrightarrow> index_inv en (refreshed en now alpha idx)"
  by (simp add: refreshed_def Let_def index_inv_rebuild index_inv_touch)

lemma fuse_alpha1: "\<not> alpha < 1 \<Longrightarrow> fuse en alpha bm25 q cs = cs"
  by (simp add: fuse_def split: option.split)

lemma fuse_refreshed:
  assumes "index_inv en idx"
  shows "fuse en alpha (si_bm25 (refreshed en now alpha idx)) query cs = fuse en alpha (si_bm25 (rebuild_bm25 en idx)) query cs"
proof (cases "alpha < 1")
  case True
  then show ?thesis using assms
    by (cases "si_bm25_dirty idx") (auto simp: refreshed_def Let_def rebuild_touch index_inv_def)
qed (simp add: fuse_alpha1)

lemma rebuild_bm25_corpus:
  "si_bm25 (rebuild_bm25 en idx) = Some corpus \<Longrightarrow> length corpus = length (si_chunks idx)"
  by (auto simp: rebuild_bm25_def Let_def split: if_splits)

lemma length_final_scores:
  assumes "env_ok en"
  shows "length (final_scores en alpha query idx) = length (si_chunks idx)"
  using assms rebuild_bm25_corpus [of en idx]
  by (auto simp: final_scores_def fuse_def Let_def env_ok_def cosines_def split: option.split)

lemma es_retrieve_eq:
  fixes hybrid_alpha :: "real option" and now :: time and query :: string and top_k prefilter :: int
    and score_floor :: real and use_rerank :: bool
  assumes en: "env_ok en" and inv: "store_inv en st"
    and idx: "map_of (st_sessions st) sid = Some idx" "si_chunks idx \<noteq> []"
  defines "alpha \<equiv> alpha_of en hybrid_alpha"
  defines "st' \<equiv> ensure_embedder en (st\<lparr>st_sessions := dict_set sid (refreshed en now alpha idx) (st_sessions st)\<rparr>)"
  defines "r \<equiv> rank_chunks en alpha (si_bm25 (refreshed en now alpha idx)) query (cosines en query (si_chunks idx))
                 top_k score_floor use_rerank prefilter"
  defines "pool \<equiv> map ((!) (si_chunks idx)) (rk_pool r)"
  shows "es_retrieve en now sid query top_k score_floor hybrid_alpha use_rerank prefilter st =
     (if rk_rerank r
      then (Inr (py_take top_k (if fst (ensure_reranker en st') then rerank_pool en query pool else pool)),
            snd (ensure_reranker en st'))
      else (Inr (py_take top_k pool), st'))"
proof -
  obtain q where q: "en_encode en [query] = [q]"
    using en by (metis env_ok_def length_0_conv length_Suc_conv)
  have emb: "\<not> (\<exists>c \<in> set (si_chunks idx). ec_embedding c = None)"
    using inv idx by (auto simp: store_inv_def index_inv_def)
  show ?thesis
    using idx emb
    by (auto simp: es_retrieve_def es_search_def Let_def q alpha_def alpha_of_def st'_def r_def pool_def
        refreshed_def cosines_def)
qed

lemma es_retrieve_cold:
  assumes "case map_of (st_sessions st) sid of None \<Rightarrow> True | Some idx \<Rightarrow> si_chunks idx = []"
  shows "es_retrieve en now sid query top_k score_floor hybrid_alpha use_rerank prefilter st = (Inr [], st)"
  using assms by (auto simp: es_retrieve_def split: option.splits)

lemma masked_nth:
  "i < length fused \<Longrightarrow> masked (map (\<lambda>f. fl \<le> f) fused) fused ! i = (if fl \<le> fused ! i then Fin (- (fused ! i)) else PInf)"
  by (simp add: masked_def)

lemma length_masked [simp]: "length (masked (map P fused) fused) = length fused"
  by (simp add: masked_def)

lemma masked_finite_card:
  "card {j. j < length (masked (map (\<lambda>f. fl \<le> f) fused) fused) \<and> masked (map (\<lambda>f. fl \<le> f) fused) fused ! j \<noteq> PInf}
     = length (filter id (map (\<lambda>f. fl \<le> f) fused))"
proof -
  have "{j. j < length fused \<and> masked (map (\<lambda>f. fl \<le> f) fused) fused ! j \<noteq> PInf} = {j. j < length fused \<and> fl \<le> fused ! j}"
    by (auto simp: masked_nth split: if_splits)
  then show ?thesis by (simp add: length_filter_conv_card cong: conj_cong)
qed

definition kept :: "real \<Rightarrow> real list \<Rightarrow> nat set" where
  "kept fl fused = {i. i < length fused \<and> fl \<le> fused ! i}"

lemma kept_count: "card (kept fl fused) = length (filter id (map (\<lambda>f. fl \<le> f) fused))"
  by (simp add: kept_def length_filter_conv_card cong: conj_cong)

text \<open>The pool: the best scores at or above the floor, best first, and none better left out.\<close>

definition best_first :: "real list \<Rightarrow> nat set \<Rightarrow> nat list \<Rightarrow> bool" where
  "best_first fused cand pool \<longleftrightarrow> distinct pool \<and> set pool \<subseteq> cand
     \<and> sorted_wrt (\<lambda>i j. fused ! j \<le> fused ! i) pool
     \<and> (\<forall>i \<in> set pool. \<forall>j \<in> cand - set pool. fused ! j \<le> fused ! i)"

lemma best_first_take: "best_first fused cand pool \<Longrightarrow> best_first fused cand (take k pool)"
proof -
  assume a: "best_first fused cand pool"
  have "fused ! j \<le> fused ! i" if i: "i \<in> set (take k pool)" and j: "j \<in> cand - set (take k pool)" for i j
  proof (cases "j \<in> set pool")
    case True
    then have "j \<in> set (drop k pool)" using j by (metis DiffD2 Un_iff append_take_drop_id set_append)
    moreover have "sorted_wrt (\<lambda>i j. fused ! j \<le> fused ! i) (take k pool @ drop k pool)"
      using a by (simp add: best_first_def)
    ultimately show ?thesis using i by (simp only: sorted_wrt_append)
  next
    case False
    then show ?thesis using a i j by (auto simp: best_first_def dest: in_set_takeD)
  qed
  then show ?thesis using a
    by (auto simp: best_first_def sorted_wrt_take dest: in_set_takeD)
qed

lemma select_masked_best:
  assumes en: "env_ok en" and n: "0 < n" "n \<le> card (kept fl fused)"
  defines "m \<equiv> masked (map (\<lambda>f. fl \<le> f) fused) fused"
  defines "pool \<equiv> select_top (en_argpartition en) (en_argsort_x en) m n"
  shows "best_first fused (kept fl fused) pool \<and> length pool = n"
proof -
  have part: "argpartition_ok (en_argpartition en)" and srt: "argsort_ok (en_argsort_x en)"
    using en by (simp_all add: env_ok_def)
  have "card (kept fl fused) \<le> card {0..<length fused}" by (intro card_mono) (auto simp: kept_def)
  then have len: "n \<le> length m" using n by (simp add: m_def)
  note props = select_top_props [OF part srt n(1) len, folded pool_def]
  have fin: "m ! i \<noteq> PInf" if "i \<in> set pool" for i
    using select_top_finite [OF part srt n(1) _ that [unfolded pool_def]] n(2)
    unfolding m_def masked_finite_card kept_count by blast
  have sub: "set pool \<subseteq> kept fl fused"
  proof
    fix i assume i: "i \<in> set pool"
    then have "i < length fused" using props(3) by (auto simp: m_def)
    with fin [OF i] show "i \<in> kept fl fused" by (auto simp: kept_def m_def masked_nth split: if_splits)
  qed
  have val: "m ! i = Fin (- (fused ! i))" if "i \<in> kept fl fused" for i
    using that by (auto simp: kept_def m_def masked_nth)
  have "sorted_wrt (\<lambda>i j. m ! i \<le> m ! j) pool"
    using select_top_sorted [OF srt, of m "en_argpartition en" n] by (simp add: pool_def sorted_map)
  then have "sorted_wrt (\<lambda>i j. fused ! j \<le> fused ! i) pool"
    by (rule sorted_wrt_mono_rel [rotated]) (metis less_eq_xreal.simps(1) neg_le_iff_le sub subsetD val)
  moreover have "fused ! j \<le> fused ! i" if "i \<in> set pool" "j \<in> kept fl fused - set pool" for i j
  proof -
    have "j \<in> {0..<length m} - set pool" using that(2) by (auto simp: kept_def m_def)
    then have "m ! i \<le> m ! j" using props(4) that(1) by blast
    moreover have "i \<in> kept fl fused" "j \<in> kept fl fused" using that sub by auto
    ultimately show ?thesis by (simp add: val)
  qed
  ultimately show ?thesis using props(1,2) sub by (simp add: best_first_def)
qed

lemma rank_chunks_best:
  fixes prefilter :: int and use_rerank :: bool and fl :: real and top_k :: int
  assumes en: "env_ok en" and len: "length (fuse en alpha bm25 query cs) = length cs" and k: "1 \<le> top_k"
  defines "fused \<equiv> fuse en alpha bm25 query cs"
  defines "r \<equiv> rank_chunks en alpha bm25 query cs top_k fl use_rerank prefilter"
  shows "best_first fused (kept fl fused) (rk_pool r)"
    and "nat top_k \<le> length (rk_pool r) \<or> length (rk_pool r) = card (kept fl fused)"
    and "\<not> rk_rerank r \<Longrightarrow> length (rk_pool r) = min (nat top_k) (card (kept fl fused))"
proof -
  let ?nk = "int (card (kept fl fused))"
  let ?re = "use_rerank \<and> rerank_min_chunks \<le> length cs \<and> top_k < ?nk"
  let ?ps = "if ?re then min (max prefilter top_k) ?nk else min top_k ?nk"
  have r: "rk_pool r = (if ?nk = 0 \<or> ?ps \<le> 0 then []
      else select_top (en_argpartition en) (en_argsort_x en) (masked (map (\<lambda>f. fl \<le> f) fused) fused) (nat ?ps))"
    "rk_rerank r = (?re \<and> rk_pool r \<noteq> [])"
    by (simp_all add: r_def rank_chunks_def Let_def fused_def kept_count)
  have bf: "best_first fused (kept fl fused) (rk_pool r) \<and> length (rk_pool r) = nat ?ps"
  proof (cases "?nk = 0")
    case True
    then show ?thesis using k by (auto simp: r best_first_def)
  next
    case False
    then have "0 < ?ps" "?ps \<le> ?nk" using k by auto
    then show ?thesis
      using select_masked_best [OF en, of "nat ?ps" fl fused] False by (auto simp: r(1))
  qed
  then show "best_first fused (kept fl fused) (rk_pool r)" by blast
  show "nat top_k \<le> length (rk_pool r) \<or> length (rk_pool r) = card (kept fl fused)"
    using bf by auto
  show "length (rk_pool r) = min (nat top_k) (card (kept fl fused))" if "\<not> rk_rerank r"
    using that bf k by (auto simp: r(2) min_def split: if_splits)
qed

text \<open>The cross-encoder only permutes the pool.\<close>

lemma rerank_pool_perm:
  assumes en: "env_ok en"
  shows "\<exists>perm. mset perm = mset [0..<length pool] \<and> rerank_pool en query pool = map ((!) pool) perm"
proof (cases "en_predict en (map (\<lambda>c. (query, take 2000 (ec_text c))) pool)")
  case None
  have "map ((!) pool) [0..<length pool] = pool" by (rule map_nth)
  then show ?thesis using None by (intro exI [of _ "[0..<length pool]"]) (simp add: rerank_pool_def)
next
  case (Some rr)
  then have "length rr = length pool" using en unfolding env_ok_def by (metis length_map)
  then have "mset (en_argsort en (map uminus rr)) = mset [0..<length pool]"
    using en by (simp add: env_ok_def argsort_ok_def)
  then show ?thesis using Some by (auto simp: rerank_pool_def)
qed

text \<open>Picks are distinct chunks at or above the floor, as many as asked for when there are enough.\<close>

lemma picks_of_pool:
  assumes pool: "distinct pool" "set pool \<subseteq> cand" "nat top_k \<le> length pool \<or> length pool = card cand"
    and k: "1 \<le> top_k" and fin: "finite cand" and perm: "mset perm = mset [0..<length pool]"
  shows "\<exists>picks. py_take top_k (map ((!) (map ((!) xs) pool)) perm) = map ((!) xs) picks
     \<and> distinct picks \<and> set picks \<subseteq> cand \<and> length picks = min (nat top_k) (card cand)"
proof -
  let ?picks = "take (nat top_k) (map ((!) pool) perm)"
  have "set perm = {0..<length pool}" using perm by (metis set_mset_mset set_upt)
  then have "map ((!) (map ((!) xs) pool)) perm = map ((!) xs) (map ((!) pool) perm)" by simp
  then have eq: "py_take top_k (map ((!) (map ((!) xs) pool)) perm) = map ((!) xs) ?picks"
    using k by (simp only: py_take_def take_map) simp
  have "mset (map ((!) pool) perm) = mset (map ((!) pool) [0..<length pool])"
    using perm by (metis mset_map)
  then have ms: "mset (map ((!) pool) perm) = mset pool" by (simp only: map_nth)
  have len: "length (map ((!) pool) perm) = length pool" using ms by (metis size_mset)
  have "length pool \<le> card cand" using pool(1,2) fin by (metis card_mono distinct_card)
  then have "length ?picks = min (nat top_k) (card cand)" using pool(3) len by auto
  moreover have "distinct ?picks" using ms pool(1) by (metis distinct_take mset_eq_imp_distinct_iff)
  moreover have "set ?picks \<subseteq> cand" using ms pool(2) set_take_subset by (metis order_trans set_mset_mset)
  ultimately show ?thesis using eq by blast
qed

lemma finite_kept [simp]: "finite (kept fl fused)"
  by (simp add: kept_def)

text \<open>
  C16: retrieve returns the best chunks. For a session with chunks and \<open>top_k >= 1\<close>, in any
  store that satisfies the invariant, retrieve returns (never raises) pairwise distinct stored
  chunks, all with a fused score at or above the floor, exactly \<open>top_k\<close> of them or all there
  are; without reranking they come in descending score order and no left-out chunk at or above
  the floor scores higher. The scores are those of a BM25 index rebuilt from the current chunks.
\<close>

theorem retrieve_best:
  fixes hybrid_alpha :: "real option" and query :: string
  assumes en: "env_ok en" and inv: "store_inv en st"
    and idx: "map_of (st_sessions st) sid = Some idx" "si_chunks idx \<noteq> []" and k: "1 \<le> top_k"
  defines "scores \<equiv> final_scores en (alpha_of en hybrid_alpha) query idx"
  shows "\<exists>picks. fst (es_retrieve en now sid query top_k fl hybrid_alpha use_rerank prefilter st)
        = Inr (map ((!) (si_chunks idx)) picks)
     \<and> distinct picks \<and> set picks \<subseteq> kept fl scores \<and> length picks = min (nat top_k) (card (kept fl scores))
     \<and> (\<not> use_rerank \<longrightarrow> best_first scores (kept fl scores) picks)"
proof -
  let ?a = "alpha_of en hybrid_alpha" and ?cs = "cosines en query (si_chunks idx)"
  let ?b = "si_bm25 (refreshed en now ?a idx)"
  let ?r = "rank_chunks en ?a ?b query ?cs top_k fl use_rerank prefilter"
  let ?pool = "map ((!) (si_chunks idx)) (rk_pool ?r)"
  have ii: "index_inv en idx" using inv idx by (auto simp: store_inv_def)
  have fused: "fuse en ?a ?b query ?cs = scores"
    by (simp add: scores_def final_scores_def fuse_refreshed [OF ii])
  have "length scores = length ?cs" by (simp add: scores_def length_final_scores [OF en] cosines_def)
  note best = rank_chunks_best [OF en _ k, of ?a ?b query ?cs fl use_rerank prefilter, unfolded fused, OF this]
  have pool: "distinct (rk_pool ?r)" "set (rk_pool ?r) \<subseteq> kept fl scores"
    using best(1) by (simp_all add: best_first_def)
  note picks = picks_of_pool [OF pool best(2) k finite_kept, of _ "si_chunks idx"]
  note eq = es_retrieve_eq [OF en inv idx, where now = now and hybrid_alpha = hybrid_alpha and query = query
      and top_k = top_k and score_floor = fl and use_rerank = use_rerank and prefilter = prefilter]
  have idp: "map ((!) ?pool) [0..<length ?pool] = ?pool" by (rule map_nth)
  show ?thesis
  proof (cases "rk_rerank ?r")
    case True
    then have ur: use_rerank by (simp add: rank_chunks_def Let_def)
    obtain av where res: "fst (es_retrieve en now sid query top_k fl hybrid_alpha use_rerank prefilter st) =
        Inr (py_take top_k (if av then rerank_pool en query ?pool else ?pool))"
      using True by (simp add: eq)
    obtain perm where perm: "mset perm = mset [0..<length ?pool]" "rerank_pool en query ?pool = map ((!) ?pool) perm"
      using rerank_pool_perm [OF en] by blast
    show ?thesis
    proof (cases av)
      case True
      then show ?thesis using picks [of perm] perm res ur by simp
    next
      case False
      then show ?thesis using picks [of "[0..<length (rk_pool ?r)]"] res ur idp by simp
    qed
  next
    case False
    have res: "fst (es_retrieve en now sid query top_k fl hybrid_alpha use_rerank prefilter st) = Inr ?pool"
      using False best(3) k by (simp add: eq py_take_def)
    have "best_first scores (kept fl scores) (rk_pool ?r)" by (rule best(1))
    then show ?thesis using res best(3) [OF False] by (auto simp: best_first_def)
  qed
qed

section \<open>Operations as values, and what they leave alone\<close>

datatype store_op =
    OpWrite time string "evicted_chunk list"
  | OpRetrieve time string string int real "real option" bool int
  | OpClear string

fun op_session :: "store_op \<Rightarrow> string" where
  "op_session (OpWrite now sid cs) = sid"
| "op_session (OpRetrieve now sid q k fl a rr pf) = sid"
| "op_session (OpClear sid) = sid"

fun run_op :: "rescue_env \<Rightarrow> store_op \<Rightarrow> store \<Rightarrow> store" where
  "run_op en (OpWrite now sid cs) st = snd (es_write en now sid cs st)"
| "run_op en (OpRetrieve now sid q k fl a rr pf) st = snd (es_retrieve en now sid q k fl a rr pf st)"
| "run_op en (OpClear sid) st = snd (es_clear sid st)"

definition reranker_available :: "rescue_env \<Rightarrow> store \<Rightarrow> bool" where
  "reranker_available en st \<longleftrightarrow> st_has_reranker st \<or> \<not> st_reranker_loaded st \<and> en_load_reranker en"

lemma fst_ensure_reranker: "fst (ensure_reranker en st) = reranker_available en st"
  by (simp add: reranker_available_def ensure_reranker_def)

lemma reranker_available_simps [simp]:
  "reranker_available en (snd (ensure_reranker en st)) = reranker_available en st"
  "reranker_available en (ensure_embedder en st) = reranker_available en st"
  "reranker_available en (st\<lparr>st_sessions := x\<rparr>) = reranker_available en st"
  by (simp_all add: reranker_available_def ensure_reranker_def)

lemma es_search_frame [simp]:
  "st_sessions (snd (es_search en alpha idx q k fl rr pf st)) = st_sessions st"
  "st_disk (snd (es_search en alpha idx q k fl rr pf st)) = st_disk st"
  "reranker_available en (snd (es_search en alpha idx q k fl rr pf st)) = reranker_available en st"
  by (simp_all add: es_search_def Let_def split: list.split)

lemma es_search_depends:
  "reranker_available en st = reranker_available en st' \<Longrightarrow>
   fst (es_search en alpha idx q k fl rr pf st) = fst (es_search en alpha idx q k fl rr pf st')"
  by (cases "en_encode en [q]") (auto simp: es_search_def Let_def fst_ensure_reranker simp del: not_None_eq)

text \<open>A retrieve reads its own session's index and the reranker's availability, nothing else.\<close>

lemma es_retrieve_depends:
  assumes "map_of (st_sessions st) sid = map_of (st_sessions st') sid"
    and "reranker_available en st = reranker_available en st'"
  shows "fst (es_retrieve en now sid q k fl a rr pf st) = fst (es_retrieve en now sid q k fl a rr pf st')"
proof (cases "map_of (st_sessions st') sid")
  case (Some idx)
  have "fst (es_search en al ix q k fl rr pf (st\<lparr>st_sessions := x\<rparr>)) = fst (es_search en al ix q k fl rr pf (st'\<lparr>st_sessions := y\<rparr>))"
    for al ix x y by (rule es_search_depends) (simp add: assms(2))
  then show ?thesis using assms(1) Some by (simp only: es_retrieve_def Let_def) simp
qed (use assms(1) in \<open>simp add: es_retrieve_def Let_def\<close>)

lemma es_retrieve_sessions:
  "st_sessions (snd (es_retrieve en now sid q k fl a rr pf st)) =
     (case map_of (st_sessions st) sid of
        None \<Rightarrow> st_sessions st
      | Some idx \<Rightarrow> if si_chunks idx = [] then st_sessions st
          else dict_set sid (refreshed en now (alpha_of en a) idx) (st_sessions st))"
  by (simp add: es_retrieve_def Let_def refreshed_def alpha_of_def split: option.split)

lemma es_retrieve_frame [simp]:
  "st_disk (snd (es_retrieve en now sid q k fl a rr pf st)) = st_disk st"
  "reranker_available en (snd (es_retrieve en now sid q k fl a rr pf st)) = reranker_available en st"
  by (simp_all add: es_retrieve_def Let_def split: option.split)

lemma es_retrieve_inv [inv_intros]:
  assumes "store_inv en st"
  shows "store_inv en (snd (es_retrieve en now sid q k fl a rr pf st))"
proof (cases "map_of (st_sessions st) sid")
  case None
  then show ?thesis using assms by (simp add: store_inv_def es_retrieve_sessions)
next
  case (Some idx)
  then have "index_inv en (refreshed en now (alpha_of en a) idx)"
    using assms refreshed_inv by (auto simp: store_inv_def)
  then show ?thesis
    using Some store_inv_set [OF assms, of _ "snd (es_retrieve en now sid q k fl a rr pf st)" sid]
      store_inv_same [OF assms, of "snd (es_retrieve en now sid q k fl a rr pf st)"]
    by (cases "si_chunks idx = []") (simp_all add: es_retrieve_sessions)
qed

lemma run_op_inv [inv_intros]: "env_ok en \<Longrightarrow> store_inv en st \<Longrightarrow> store_inv en (run_op en op st)"
  by (cases op) (auto intro: inv_intros)

lemma run_op_other:
  assumes "op_session op \<noteq> sid"
  shows "map_of (st_sessions (run_op en op st)) sid = map_of (st_sessions st) sid
    \<and> reranker_available en (run_op en op st) = reranker_available en st"
proof (cases op)
  case (OpWrite now s cs)
  then show ?thesis using assms
    by (cases "cs = []") (simp_all add: es_write_def Let_def dict_simps)
next
  case (OpRetrieve now s q k fl a rr pf)
  then show ?thesis using assms by (auto simp: es_retrieve_sessions dict_simps split: option.split)
next
  case (OpClear s)
  then show ?thesis using assms by (simp add: es_clear_def dict_simps)
qed

lemma run_ops_other:
  "\<forall>op \<in> set ops. op_session op \<noteq> sid \<Longrightarrow>
   map_of (st_sessions (fold (run_op en) ops st)) sid = map_of (st_sessions st) sid
   \<and> reranker_available en (fold (run_op en) ops st) = reranker_available en st"
  by (induction ops arbitrary: st) (use run_op_other in \<open>force+\<close>)

section \<open>Results of a history\<close>

text \<open>The abstract store: what was written to each session since it was last cleared.\<close>

type_synonym write_log = "string \<Rightarrow> string list"

fun log_op :: "store_op \<Rightarrow> write_log \<Rightarrow> write_log" where
  "log_op (OpWrite now sid cs) l = l(sid := l sid @ map ec_text cs)"
| "log_op (OpRetrieve now sid q k fl a rr pf) l = l"
| "log_op (OpClear sid) l = l(sid := [])"

definition texts_of :: "store \<Rightarrow> write_log" where
  "texts_of st sid = (case map_of (st_sessions st) sid of None \<Rightarrow> [] | Some idx \<Rightarrow> map ec_text (si_chunks idx))"

lemma texts_of_run_op: "texts_of (run_op en op st) = log_op op (texts_of st)"
proof (cases op)
  case (OpWrite now sid cs)
  have "map ec_text (si_chunks (session_of now sid st)) = texts_of st sid"
    by (simp add: texts_of_def session_of_def empty_index_def split: option.split)
  then show ?thesis using OpWrite
    by (cases "cs = []") (auto simp: texts_of_def fun_eq_iff es_write_sessions dict_simps, simp_all add: es_write_def)
next
  case (OpRetrieve now sid q k fl a rr pf)
  then show ?thesis by (auto simp: texts_of_def fun_eq_iff es_retrieve_sessions dict_simps split: option.split)
next
  case (OpClear sid)
  then show ?thesis by (auto simp: texts_of_def fun_eq_iff es_clear_def dict_simps)
qed

definition store_new :: "store" where
  "store_new = \<lparr>st_sessions = [], st_has_embedder = False, st_fingerprint = None, st_has_reranker = False,
     st_reranker_loaded = False, st_disk = []\<rparr>"

lemma store_new_inv [inv_intros]: "store_inv en store_new"
  by (simp add: store_inv_def store_new_def)

interpretation es: machine "run_op en" "\<lambda>st. env_ok en \<longrightarrow> store_inv en st"
  by unfold_locales (simp add: run_op_inv)

interpretation es_log: refining_machine "run_op en" "\<lambda>st. True" texts_of log_op
  by unfold_locales (simp_all add: texts_of_run_op)

lemma run_ops_inv: "env_ok en \<Longrightarrow> store_inv en st \<Longrightarrow> store_inv en (fold (run_op en) ops st)"
  using es.run_inv by blast

lemma rank_chunks_pool:
  assumes en: "env_ok en" and len: "length (fuse en alpha bm25 query cs) = length cs"
  shows "set (rk_pool (rank_chunks en alpha bm25 query cs top_k fl rr pf)) \<subseteq> {0..<length cs}"
proof -
  let ?f = "fuse en alpha bm25 query cs" and ?p = "rk_pool (rank_chunks en alpha bm25 query cs top_k fl rr pf)"
  let ?nk = "int (card (kept fl (fuse en alpha bm25 query cs)))"
  let ?ps = "if rr \<and> rerank_min_chunks \<le> length cs \<and> top_k < ?nk then min (max pf top_k) ?nk else min top_k ?nk"
  have r: "?p = (if ?nk = 0 \<or> ?ps \<le> 0 then []
      else select_top (en_argpartition en) (en_argsort_x en) (masked (map (\<lambda>f. fl \<le> f) ?f) ?f) (nat ?ps))"
    by (simp add: rank_chunks_def Let_def kept_count)
  show ?thesis
  proof (cases "?nk = 0 \<or> ?ps \<le> 0")
    case False
    moreover have "?ps \<le> ?nk" by simp
    ultimately have "0 < nat ?ps" "nat ?ps \<le> card (kept fl ?f)" by linarith+
    from select_masked_best [OF en this] have "set ?p \<subseteq> kept fl ?f"
      using False by (simp only: r if_False best_first_def)
    then show ?thesis using len by (auto simp: kept_def)
  qed (simp add: r)
qed

lemma es_retrieve_returns:
  assumes en: "env_ok en" and inv: "store_inv en st"
  shows "\<exists>out. fst (es_retrieve en now sid q k fl a rr pf st) = Inr out
    \<and> set (map ec_text out) \<subseteq> set (texts_of st sid)"
proof (cases "case map_of (st_sessions st) sid of None \<Rightarrow> True | Some idx \<Rightarrow> si_chunks idx = []")
  case True
  then show ?thesis by (simp add: es_retrieve_cold)
next
  case False
  then obtain idx where idx: "map_of (st_sessions st) sid = Some idx" "si_chunks idx \<noteq> []"
    by (auto split: option.splits)
  let ?cs = "cosines en q (si_chunks idx)" and ?al = "alpha_of en a"
  let ?b = "si_bm25 (refreshed en now ?al idx)"
  let ?pool = "map ((!) (si_chunks idx)) (rk_pool (rank_chunks en ?al ?b q ?cs k fl rr pf))"
  have ii: "index_inv en idx" using inv idx by (auto simp: store_inv_def)
  have "fuse en ?al ?b q ?cs = final_scores en ?al q idx"
    by (simp add: final_scores_def fuse_refreshed [OF ii])
  then have "length (fuse en ?al ?b q ?cs) = length ?cs"
    by (simp add: length_final_scores [OF en] cosines_def)
  from rank_chunks_pool [OF en this]
  have pool: "set ?pool \<subseteq> set (si_chunks idx)" by (fastforce simp: cosines_def)
  obtain perm where perm: "mset perm = mset [0..<length ?pool]" "rerank_pool en q ?pool = map ((!) ?pool) perm"
    using rerank_pool_perm [OF en] by blast
  then have "set perm = {0..<length ?pool}" by (metis set_mset_mset set_upt)
  then have "set (rerank_pool en q ?pool) \<subseteq> set ?pool" by (simp only: perm(2)) auto
  then have rp: "set (rerank_pool en q ?pool) \<subseteq> set (si_chunks idx)" using pool by (rule order_trans)
  have sub: "set (py_take k (if b then rerank_pool en q ?pool else ?pool)) \<subseteq> set (si_chunks idx)" for b
    by (rule order_trans [OF set_py_take]) (simp only: pool rp split: if_split, simp)
  note eq = es_retrieve_eq [OF en inv idx, where now = now and hybrid_alpha = a
      and query = q and top_k = k and score_floor = fl and use_rerank = rr and prefilter = pf]
  obtain b where "fst (es_retrieve en now sid q k fl a rr pf st) = Inr (py_take k (if b then rerank_pool en q ?pool else ?pool))"
  proof (cases "rk_rerank (rank_chunks en ?al ?b q ?cs k fl rr pf)")
    case True
    show thesis by (rule that) (simp only: eq True if_True fst_conv)
  next
    case False
    show thesis by (rule that [of False]) (simp only: eq False if_False fst_conv)
  qed
  then show ?thesis using idx sub [of b] by (auto simp: texts_of_def)
qed

section \<open>The store's contract\<close>

definition demo_env :: "rescue_env" where
  "demo_env = \<lparr>en_encode = map (\<lambda>t. [1]), en_injected_fp = ''unknown'', en_has_bm25 = True,
     en_bm25_scores = (\<lambda>corpus q. map (\<lambda>d. if hd q \<in> set d then 1 else 0) corpus),
     en_load_reranker = False, en_predict = (\<lambda>ps. None),
     en_argsort = stable_argsort, en_argsort_x = stable_argsort, en_argpartition = (\<lambda>xs k. stable_argsort xs),
     en_sha12 = take 12, en_alpha = 1 / 2\<rparr>"

lemma demo_env_ok: "env_ok demo_env"
  by (simp add: env_ok_def demo_env_def stable_argsort_ok stable_argpartition_ok)

definition demo_chunk :: "string \<Rightarrow> evicted_chunk" where
  "demo_chunk t = \<lparr>ec_text = t, ec_token_range = (0, 8), ec_layer = 3, ec_score = 1, ec_embedding = None\<rparr>"

definition demo_ops :: "store_op list" where
  "demo_ops = [OpWrite 1 ''a'' [demo_chunk ''alpha beta'', demo_chunk ''gamma''],
     OpWrite 2 ''b'' [demo_chunk ''delta''], OpRetrieve 3 ''b'' ''delta'' 5 0 None True 30]"

definition demo_index :: "session_index" where
  "demo_index = \<lparr>si_chunks = [(demo_chunk ''gamma'')\<lparr>ec_embedding := Some [1]\<rparr>], si_last_access = 0, si_bm25_dirty = True,
     si_bm25 = None, si_bm25_tokens = []\<rparr>"

lemma demo_store_inv: "store_inv demo_env (store_new\<lparr>st_sessions := [(''a'', demo_index)]\<rparr>)"
  by (simp add: store_inv_def index_inv_def demo_index_def)

theorem retrieve_best_witness:
  "\<exists>picks. fst (es_retrieve demo_env 4 ''a'' ''gamma'' 3 0 None True 30 (store_new\<lparr>st_sessions := [(''a'', demo_index)]\<rparr>))
      = Inr (map ((!) (si_chunks demo_index)) picks) \<and> distinct picks"
  using retrieve_best [OF demo_env_ok demo_store_inv, of "''a''" demo_index 3 4 "''gamma''" 0 None True 30]
  by (auto simp: demo_index_def)

text \<open>
  Sessions are isolated. Whatever writes, retrieves and clears run on other sessions, a
  retrieve for this session returns what it would have returned before them.
\<close>

lemma session_isolated:
  assumes "\<forall>op \<in> set ops. op_session op \<noteq> sid"
  shows "fst (es_retrieve en now sid q k fl a rr pf (fold (run_op en) ops st)) = fst (es_retrieve en now sid q k fl a rr pf st)"
  using run_ops_other [OF assms] by (intro es_retrieve_depends) auto

lemma session_isolated_witness:
  "fst (es_retrieve demo_env 9 ''c'' ''gamma'' 3 0 None True 30 (fold (run_op demo_env) demo_ops store_new))
     = fst (es_retrieve demo_env 9 ''c'' ''gamma'' 3 0 None True 30 store_new)"
  by (rule session_isolated) (simp add: demo_ops_def)

text \<open>
  C19: the store implements an append-only log per session. Under the abstraction that reads off
  each session's chunk texts, a write appends its texts in order, a clear empties its session,
  and a retrieve changes nothing, for every sequence of operations.
\<close>

theorem store_refines_log: "texts_of (fold (run_op en) ops st) = fold log_op ops (texts_of st)"
  by (simp add: es_log.run_view)

text \<open>
  No history makes retrieve raise. Started empty and run through any sequence of
  operations, the store keeps its invariant (every chunk embedded, a clean BM25 index equals a
  rebuild), and retrieve, for any parameters, returns chunks written to that very session since
  it was last cleared.
\<close>

lemma history_retrieve_safe:
  assumes "env_ok en"
  shows "store_inv en (fold (run_op en) ops store_new)
    \<and> (\<exists>out. fst (es_retrieve en now sid q k fl a rr pf (fold (run_op en) ops store_new)) = Inr out
        \<and> set (map ec_text out) \<subseteq> set (fold log_op ops (\<lambda>s. []) sid))"
proof -
  have inv: "store_inv en (fold (run_op en) ops store_new)"
    by (rule run_ops_inv [OF assms store_new_inv])
  have "texts_of (fold (run_op en) ops store_new) = fold log_op ops (texts_of store_new)"
    by (simp add: es_log.run_view)
  moreover have "texts_of store_new = (\<lambda>s. [])" by (simp add: texts_of_def store_new_def fun_eq_iff)
  ultimately show ?thesis using inv es_retrieve_returns [OF assms inv] by metis
qed

lemma history_retrieve_safe_witness:
  "\<exists>out. fst (es_retrieve demo_env 9 ''a'' ''gamma'' 3 0 None True 30 (fold (run_op demo_env) demo_ops store_new)) = Inr out
     \<and> set (map ec_text out) \<subseteq> {''alpha beta'', ''gamma''}"
  using history_retrieve_safe [OF demo_env_ok, of demo_ops 9 "''a''" "''gamma''" 3 0 None True 30]
  by (auto simp: demo_ops_def demo_chunk_def)

end
