(* ===== verification/Rag_Symbols.thy ===== *)
theory Rag_Symbols
  imports Svc_Builder LC_Regex
begin

text \<open>
  Symbol-aware augmentation (\<open>longctx/rag/symbol_augment.py\<close>): the identifiers a query mentions,
  the search for their definitions, the signals that a query is about a code defect, and the
  file-type prior. Running \<open>rg\<close> is a parameter: what it prints for a pattern, or nothing when it
  cannot run or finds nothing. Sets are lists without repetition.
\<close>

section \<open>Identifiers\<close>

definition upper :: "char \<Rightarrow> bool" where "upper c \<longleftrightarrow> is_upper_ascii c"
definition lower :: "char \<Rightarrow> bool" where "lower c \<longleftrightarrow> is_lower_ascii c"
definition ident_start :: "char \<Rightarrow> bool" where "ident_start c \<longleftrightarrow> upper c \<or> lower c \<or> c = CHR ''_''"
definition backtick :: "char" where "backtick = CHR 0x60"

definition camelcase_rx :: rx where
  "camelcase_rx = rseq [RBound, RGroup 1 (rseq [RChar upper, rplus (RChar lower), rplus (RSeq (RChar upper) (rplus (RChar lower)))]), RBound]"

definition backtick_rx :: rx where
  "backtick_rx = rseq [rstr [backtick], RGroup 1 (rseq [RChar ident_start, RStar (RChar (\<lambda>c. is_word c \<or> c = CHR ''.''))]), rstr [backtick]]"

definition class_def_rx :: rx where
  "class_def_rx = rseq [RBound, rstr ''class'', rplus (RChar is_space), RGroup 1 (RSeq (RChar upper) (rplus (RChar is_word)))]"

definition func_def_rx :: rx where
  "func_def_rx = rseq [RBound, rstr ''def'', rplus (RChar is_space), RGroup 1 (rplus (RChar is_word))]"

definition snake_rx :: rx where
  "snake_rx = rseq [RBound, RGroup 1 (rseq [rplus (RChar lower), rstr ''_'', rplus (RChar lower),
     rplus (RSeq (rstr ''_'') (rplus (RChar lower)))]), RBound]"

definition qualified_rx :: rx where
  "qualified_rx = rseq [RBound, RGroup 1 (RSeq (RChar ident_start) (RStar (RChar is_word))), rstr ''.'',
     RGroup 2 (RSeq (RChar ident_start) (RStar (RChar is_word))), RBound]"

definition sym_stopwords :: "string list" where
  "sym_stopwords = [''this'', ''that'', ''those'', ''these'', ''self'', ''None'', ''True'', ''False'',
     ''from'', ''import'', ''class'', ''def'', ''return'', ''test'', ''tests'', ''code'',
     ''file'', ''model'', ''models'', ''field'', ''value'', ''type'', ''types'', ''user'',
     ''users'', ''case'', ''cases'', ''data'', ''name'', ''names'', ''time'', ''add'',
     ''set'', ''get'', ''use'', ''using'', ''need'', ''make'']"

definition found_symbols :: "string \<Rightarrow> string list" where
  \<comment> \<open>every pattern's matches, qualified names in parts\<close>
  "found_symbols s =
     find_all1 camelcase_rx s @ find_all1 backtick_rx s @ find_all1 class_def_rx s @ find_all1 func_def_rx s
     @ find_all1 snake_rx s
     @ concat (map (\<lambda>q. filter (\<lambda>x. 4 \<le> length x) [group_text 1 q, group_text 2 q]) (find_iter qualified_rx s))"

definition undotted :: "string \<Rightarrow> string list" where
  "undotted x = (if CHR ''.'' \<in> set x then filter (\<lambda>y. 4 \<le> length y) (split_on (CHR ''.'') x) else [x])"

definition extract_symbols :: "string \<Rightarrow> string list" where
  "extract_symbols s = dedupe {}
     (filter (\<lambda>x. 4 \<le> length x \<and> py_lower x \<notin> set sym_stopwords) (concat (map undotted (found_symbols s))))"

section \<open>Definition sites\<close>

definition re_special :: "char \<Rightarrow> bool" where
  "re_special c \<longleftrightarrow> c \<in> set ''()[]{}?*+-|^$.&~# '' \<or> cp c \<in> {9, 10, 11, 12, 13, 92}"

definition re_escape :: "string \<Rightarrow> string" where
  "re_escape s = concat (map (\<lambda>c. if re_special c then [CHR 0x5C, c] else [c]) s)"

definition def_pattern :: "string \<Rightarrow> string \<Rightarrow> string" where
  "def_pattern kw symb = CHR ''^'' # CHR 0x5C # ''s*'' @ kw @ CHR 0x5C # ''s+'' @ re_escape symb @ [CHR 0x5C, CHR ''b'']"

definition grep_hits :: "(string \<Rightarrow> string option) \<Rightarrow> int \<Rightarrow> string \<Rightarrow> string list" where
  \<comment> \<open>the lines taken from the runs for one symbol; \<open>rg\<close> is \<open>None\<close> when it fails or exits non-zero\<close>
  "grep_hits rg max_per_sym symb = concat (map (\<lambda>kw. case rg (def_pattern kw symb) of
       None \<Rightarrow> []
     | Some stdout \<Rightarrow> filter (\<lambda>l. l \<noteq> []) (py_take max_per_sym (split_on (CHR 0x0A) (py_strip stdout))))
     [''class'', ''def''])"

definition symbol_grep_repo :: "(string \<Rightarrow> string option) \<Rightarrow> bool \<Rightarrow> int \<Rightarrow> string list \<Rightarrow> string list" where
  "symbol_grep_repo rg root_exists max_per_sym symbols =
     (if symbols = [] \<or> \<not> root_exists then [] else dedupe {} (concat (map (grep_hits rg max_per_sym) symbols)))"

section \<open>Query features and the file-type prior\<close>

definition traceback_rx :: rx where
  "traceback_rx = rseq [rstr (''File '' @ [CHR 0x22]), rplus (RChar (\<lambda>c. c \<noteq> CHR 0x22)), rstr [CHR 0x22]]"

definition symbol_def_rx :: rx where
  "symbol_def_rx = rseq [RBound, ralts [rstr ''class'', rstr ''def''], rplus (RChar is_space), rplus (RChar is_word)]"

definition error_type_rx :: rx where
  "error_type_rx = rseq [RBound, rplus (RChar is_word), ralts [rstr ''Error'', rstr ''Exception'', rstr ''Warning''], RBound]"

record query_feats =
  n_tracebacks :: nat
  n_symbol_defs :: nat
  n_error_types :: nat

definition query_features :: "string \<Rightarrow> query_feats" where
  "query_features s = \<lparr>n_tracebacks = length (find_iter traceback_rx s), n_symbol_defs = length (find_iter symbol_def_rx s),
     n_error_types = length (find_iter error_type_rx s)\<rparr>"

definition has_code_signal :: "query_feats \<Rightarrow> bool" where
  "has_code_signal qf \<longleftrightarrow> 0 < n_tracebacks qf \<or> 0 < n_symbol_defs qf \<or> 0 < n_error_types qf"

definition doc_exts :: "string list" where
  "doc_exts = [''.rst'', ''.txt'', ''.md'', ''.cff'', ''.yaml'', ''.yml'']"

definition file_type_weight :: "string \<Rightarrow> query_feats \<Rightarrow> real" where
  "file_type_weight file_path qf =
     (if \<not> has_code_signal qf then 1
      else let p = py_lower file_path in
        if suffix ''.py'' p then 3 / 2
        else if list_ex (\<lambda>e. suffix e p) doc_exts then 3 / 5
        else if sublist ''/test'' p \<or> sublist ''/tests/'' p then 9 / 10
        else 1)"

section \<open>Facts\<close>

lemma split_on_nonempty: "split_on c s \<noteq> []"
  by (induction s) (auto split: list.split)

lemma split_on_sublist:
  "(\<forall>y \<in> set (split_on c s). sublist y s) \<and> prefix (hd (split_on c s)) s"
proof (induction s)
  case (Cons x s)
  show ?case
  proof (cases "x = c")
    case True
    then show ?thesis using Cons by (auto simp: sublist_Cons_right)
  next
    case False
    obtain z zs where z: "split_on c s = z # zs" using split_on_nonempty by (metis neq_Nil_conv)
    have "prefix (x # z) (x # s)" using Cons z by simp
    then show ?thesis using Cons z False by (auto simp: sublist_Cons_right dest: prefix_imp_sublist)
  qed
qed simp

lemma undotted_sublist: "y \<in> set (undotted x) \<Longrightarrow> sublist y x"
  using split_on_sublist [of "CHR ''.''" x] by (auto simp: undotted_def split: if_splits)

lemma found_sublist: "x \<in> set (found_symbols s) \<Longrightarrow> sublist x s"
  by (auto simp: found_symbols_def find_all1_def find_iter_group split: if_splits)

text \<open>
  The symbols come from the query. Every extracted symbol is a piece of the query of at least
  four characters that is no stopword in lower case, and none is extracted twice.
\<close>

lemma symbols_in_query:
  assumes "x \<in> set (extract_symbols query)"
  shows "sublist x query \<and> 4 \<le> length x \<and> py_lower x \<notin> set sym_stopwords \<and> distinct (extract_symbols query)"
proof -
  obtain y where y: "y \<in> set (found_symbols query)" "x \<in> set (undotted y)"
    using assms by (auto simp: extract_symbols_def set_dedupe)
  have "sublist x query" using undotted_sublist [OF y(2)] found_sublist [OF y(1)] by (rule sublist_order.order.trans)
  then show ?thesis using assms by (simp add: extract_symbols_def set_dedupe distinct_dedupe)
qed

lemma symbols_in_query_witness:
  "sublist ''FilePathField'' ''why does FilePathField fail''"
proof -
  have "''FilePathField'' \<in> set (extract_symbols ''why does FilePathField fail'')" by code_simp
  from symbols_in_query [OF this] show ?thesis by blast
qed

text \<open>
  What the extraction misses and lets through: a snake-case name needs three parts, so
  \<open>resolve_redirects\<close>, named in the module's own validation notes, is not found as a bare word;
  and the stopwords \<open>None\<close>, \<open>True\<close>, \<open>False\<close> are compared in lower case, which they never equal.
\<close>

lemma two_part_snake_missed: "extract_symbols ''why does resolve_redirects fail'' = []"
  by code_simp

lemma capital_stopwords_kept: "extract_symbols (''returns '' @ [backtick] @ ''None'' @ [backtick]) = [''None'']"
  by code_simp

text \<open>The files found do not depend on the order in which the symbols are searched.\<close>

lemma grep_order_free:
  "set a = set b \<Longrightarrow> set (symbol_grep_repo rg ok m a) = set (symbol_grep_repo rg ok m b)"
  by (auto simp: symbol_grep_repo_def set_dedupe)

end
