(* ===== verification/Svc_Pipeline.thy ===== *)
theory Svc_Pipeline
  imports Svc_Evict Rag_Symbols
begin

text \<open>
  The retrieve pipeline over a scope index (\<open>longctx_svc/retrieve/pipeline.py\<close>): paraphrases,
  max-cosine over them, the optional BM25 fusion by reciprocal ranks, the symbol augmentation,
  the rerank gate, and the merge over several scopes.

  Outside the repository are the record \<open>pipe_env\<close>: encoder, BM25Okapi, cross-encoder, numpy's
  index sort, \<open>rg\<close> and \<open>Path.resolve\<close>. An index object is known by its \<open>id()\<close>, a number the
  caller passes; a BM25 object by the token lists it was built from. \<open>BM25Okapi(corpus)\<close> divides by
  zero for a corpus without a word and is not guarded, so whether it returns is a parameter and a
  retrieve can raise. A matrix has one row per chunk, which the builder guarantees. Where numpy
  divides by zero it yields infinity; \<open>rrf_score\<close> has 0 there, which takes a negative \<open>rrf_k\<close>.
\<close>

record pipe_env =
  pe_cfg :: service_config
  pe_encode :: "string list \<Rightarrow> vec list"
  pe_bm25_builds :: "string list list \<Rightarrow> bool"
  pe_bm25_scores :: "string list list \<Rightarrow> string list \<Rightarrow> real list"
  pe_argsort :: "real list \<Rightarrow> nat list"
  pe_load_reranker :: bool
  pe_predict :: "(string \<times> string) list \<Rightarrow> real list option"
  pe_rg :: "path \<Rightarrow> string \<Rightarrow> string option"
  pe_exists :: "path \<Rightarrow> bool"
  pe_resolve :: "string \<Rightarrow> string"

record pipeline =
  pl_has_reranker :: bool
  pl_reranker_loaded :: bool
  pl_use_multi_query :: bool
  pl_n_paraphrases :: int
  pl_use_coarse_filter :: bool
  pl_bm25_cache :: "(nat, string list list option \<times> nat) dict"

record retrieve_result =
  rr_chunks :: "chunk list"
  rr_scores :: "real list"
  rr_query :: string
  rr_paraphrases :: "string list"
  rr_used_rerank :: bool
  rr_used_coarse_filter :: bool
  rr_used_symbol_augment :: bool

definition pipeline_new :: "service_config \<Rightarrow> bool \<Rightarrow> bool option \<Rightarrow> int \<Rightarrow> bool option \<Rightarrow> pipeline" where
  "pipeline_new cfg has_reranker use_multi_query n use_coarse =
     \<lparr>pl_has_reranker = has_reranker, pl_reranker_loaded = has_reranker,
      pl_use_multi_query = (case use_multi_query of None \<Rightarrow> cf_use_multi_query cfg | Some b \<Rightarrow> b),
      pl_n_paraphrases = n,
      pl_use_coarse_filter = (case use_coarse of None \<Rightarrow> cf_use_coarse_filter cfg | Some b \<Rightarrow> b),
      pl_bm25_cache = []\<rparr>"

definition ensure_pipe_reranker :: "pipe_env \<Rightarrow> pipeline \<Rightarrow> bool \<times> pipeline" where
  "ensure_pipe_reranker en pl =
     (if pl_has_reranker pl then (True, pl)
      else if pl_reranker_loaded pl then (False, pl)
      else if cf_reranker_model (pe_cfg en) = [] then (False, pl\<lparr>pl_reranker_loaded := True\<rparr>)
      else (pe_load_reranker en, pl\<lparr>pl_has_reranker := pe_load_reranker en, pl_reranker_loaded := True\<rparr>))"

section \<open>Tokens, paraphrases, ranks\<close>

definition bm25_words :: "string \<Rightarrow> string list" where
  "bm25_words s = runs_of is_word (py_lower s)"

definition paraphrase :: "int \<Rightarrow> string \<Rightarrow> string list" where
  "paraphrase n query =
     (let q = py_strip query in
      if q = [] then [q]
      else py_take (n + 1) (dedupe {} [q, ''about '' @ q, q @ '' explanation'', ''how does '' @ q @ '' work'', ''definition of '' @ q]))"

definition rrf_score :: "int \<Rightarrow> int \<Rightarrow> real" where
  "rrf_score rank k = 1 / real_of_int (k + rank)"

definition ranks_of :: "nat list \<Rightarrow> nat \<Rightarrow> int list" where
  \<comment> \<open>\<open>rank[order] = arange(1, n + 1)\<close>\<close>
  "ranks_of order n = map (\<lambda>i. 1 + int (length (takeWhile ((\<noteq>) i) order))) [0..<n]"

definition index_corpus :: "scope_index \<Rightarrow> string list list" where
  "index_corpus ix = map (\<lambda>c. bm25_words (ck_text c)) (sx_chunks ix)"

definition bm25_cached :: "nat \<Rightarrow> scope_index \<Rightarrow> pipeline \<Rightarrow> string list list option option" where
  \<comment> \<open>the cached object, when it saw as many chunks\<close>
  "bm25_cached key ix pl =
     (case dict_get (pl_bm25_cache pl) key of
        Some (bm25, n_seen) \<Rightarrow> if n_seen = length (sx_chunks ix) then Some bm25 else None
      | None \<Rightarrow> None)"

definition get_or_build_bm25 :: "pipe_env \<Rightarrow> nat \<Rightarrow> scope_index \<Rightarrow> pipeline \<Rightarrow> (exc + string list list option) \<times> pipeline" where
  "get_or_build_bm25 en key ix pl =
     (case bm25_cached key ix pl of
        Some bm25 \<Rightarrow> (Inr bm25, pl)
      | None \<Rightarrow>
          if index_corpus ix \<noteq> [] \<and> \<not> pe_bm25_builds en (index_corpus ix) then (Inl ZeroDivisionError, pl)
          else let b = (if index_corpus ix = [] then None else Some (index_corpus ix))
               in (Inr b, pl\<lparr>pl_bm25_cache := dict_set key (b, length (sx_chunks ix)) (pl_bm25_cache pl)\<rparr>))"

definition max_cosines :: "vec list \<Rightarrow> vec list \<Rightarrow> real list" where
  "max_cosines rows q_embs = map (\<lambda>row. list_max (map (\<lambda>q. dot row q) q_embs)) rows"

definition descending :: "pipe_env \<Rightarrow> real list \<Rightarrow> nat list" where
  \<comment> \<open>\<open>np.argsort(-scores)\<close>\<close>
  "descending en scores = pe_argsort en (map uminus scores)"

definition best_bm25_ranks :: "pipe_env \<Rightarrow> string list list \<Rightarrow> string list \<Rightarrow> nat \<Rightarrow> int list" where
  "best_bm25_ranks en corpus paraphrases n =
     fold (\<lambda>p best. let qt = bm25_words p in
             if qt = [] then best
             else map2 min best (ranks_of (descending en (pe_bm25_scores en corpus qt)) n))
       paraphrases (replicate n (int n + 1))"

definition fused_scores :: "pipe_env \<Rightarrow> string list list \<Rightarrow> string list \<Rightarrow> real list \<Rightarrow> real list" where
  "fused_scores en corpus paraphrases max_sims =
     (let n = length max_sims; k = rrf_k (cf_limits (pe_cfg en)) in
      map2 (\<lambda>a b. rrf_score a k + rrf_score b k) (ranks_of (descending en max_sims) n) (best_bm25_ranks en corpus paraphrases n))"

section \<open>Retrieve\<close>

definition sized_prefilter :: "limits \<Rightarrow> int \<Rightarrow> nat \<Rightarrow> int" where
  \<comment> \<open>100 is the default, and stands for a choice by scope size\<close>
  "sized_prefilter lm prefilter n_chunks =
     (if prefilter = 100 then (if 10000 \<le> n_chunks then rerank_prefilter_large lm else rerank_prefilter_small lm) else prefilter)"

definition coarse_candidates ::
  "pipe_env \<Rightarrow> nat \<Rightarrow> scope_index \<Rightarrow> string list \<Rightarrow> real list \<Rightarrow> int \<Rightarrow> bool \<Rightarrow> pipeline \<Rightarrow> (exc + nat list \<times> bool) \<times> pipeline" where
  \<comment> \<open>the candidates in order, and whether BM25 was fused in\<close>
  "coarse_candidates en key ix paraphrases max_sims cos_top_n do_coarse_filter pl =
     (if \<not> do_coarse_filter then (Inr (py_take cos_top_n (descending en max_sims), False), pl)
      else case get_or_build_bm25 en key ix pl of
          (Inl x, pl) \<Rightarrow> (Inl x, pl)
        | (Inr None, pl) \<Rightarrow> (Inr (py_take cos_top_n (descending en max_sims), False), pl)
        | (Inr (Some corpus), pl) \<Rightarrow> (Inr (py_take cos_top_n (descending en (fused_scores en corpus paraphrases max_sims)), True), pl))"

definition symbol_augment :: "pipe_env \<Rightarrow> path option \<Rightarrow> bool option \<Rightarrow> string \<Rightarrow> chunk list \<Rightarrow> nat list \<Rightarrow> nat list \<times> bool" where
  "symbol_augment en scope_root use_symbol_augment query chunks cos_top =
     (case scope_root of
        None \<Rightarrow> (cos_top, False)
      | Some base \<Rightarrow>
          if \<not> (case use_symbol_augment of Some b \<Rightarrow> b | None \<Rightarrow> cf_use_symbol_augment (pe_cfg en)) then (cos_top, False)
          else
            let symbols = extract_symbols query;
                sym_paths = symbol_grep_repo (pe_rg en base) (pe_exists en base) 5 symbols;
                sym_path_set = set (map (pe_resolve en) sym_paths);
                sym_chunk_idx = filter (\<lambda>i. pe_resolve en (ck_file (chunks ! i)) \<in> sym_path_set) [0..<length chunks];
                (cos_top, used) = (if symbols \<noteq> [] \<and> sym_paths \<noteq> []
                  then (cos_top @ dedupe (set cos_top) sym_chunk_idx, True) else (cos_top, False));
                qf = query_features query
            in (sort_desc (\<lambda>i. file_type_weight (ck_file (chunks ! i)) qf) cos_top, used))"

definition rerank_candidates :: "pipe_env \<Rightarrow> bool \<Rightarrow> string \<Rightarrow> chunk list \<Rightarrow> nat list \<Rightarrow> pipeline \<Rightarrow> nat list \<times> bool \<times> pipeline" where
  "rerank_candidates en do_rerank query chunks cos_top pl =
     (if \<not> do_rerank then (cos_top, False, pl)
      else let (av, pl) = ensure_pipe_reranker en pl in
        if \<not> av then (cos_top, False, pl)
        else case pe_predict en (map (\<lambda>i. (query, take 2000 (ck_text (chunks ! i)))) cos_top) of
          None \<Rightarrow> (cos_top, False, pl)
        | Some scores \<Rightarrow> (map ((!) cos_top) (descending en scores), True, pl))"

record retrieve_args =
  ra_top_k :: int
  ra_prefilter :: int
  ra_use_rerank :: bool
  ra_use_coarse_filter :: "bool option"
  ra_scope_root :: "path option"
  ra_use_symbol_augment :: "bool option"

definition no_chunks :: "string \<Rightarrow> retrieve_result" where
  "no_chunks query = \<lparr>rr_chunks = [], rr_scores = [], rr_query = query, rr_paraphrases = [query], rr_used_rerank = False,
     rr_used_coarse_filter = False, rr_used_symbol_augment = False\<rparr>"

definition pipe_retrieve ::
  "pipe_env \<Rightarrow> time \<Rightarrow> string \<Rightarrow> nat \<Rightarrow> scope_index \<Rightarrow> retrieve_args \<Rightarrow> pipeline \<Rightarrow> (exc + retrieve_result) \<times> scope_index \<times> pipeline" where
  "pipe_retrieve en now query key ix ar pl =
     (case sx_embeddings ix of
        None \<Rightarrow> (Inr (no_chunks query), ix, pl)
      | Some rows \<Rightarrow>
          if sx_chunks ix = [] then (Inr (no_chunks query), ix, pl)
          else
            let lm = cf_limits (pe_cfg en);
                chunks = sx_chunks ix;
                n_chunks = length chunks;
                paraphrases = (if pl_use_multi_query pl \<and> multiquery_min_chunks lm \<le> int n_chunks
                  then paraphrase (pl_n_paraphrases pl) query else [query]);
                max_sims = max_cosines rows (pe_encode en paraphrases);
                cos_top_n = min (sized_prefilter lm (ra_prefilter ar) n_chunks) (int n_chunks);
                do_coarse_filter = ((case ra_use_coarse_filter ar of Some b \<Rightarrow> b | None \<Rightarrow> pl_use_coarse_filter pl)
                  \<and> coarse_filter_min_chunks lm \<le> int n_chunks)
            in case coarse_candidates en key ix paraphrases max_sims cos_top_n do_coarse_filter pl of
                (Inl x, pl) \<Rightarrow> (Inl x, ix, pl)
              | (Inr (cos_top, used_coarse), pl) \<Rightarrow>
            let (cos_top, used_symbol) = symbol_augment en (ra_scope_root ar) (ra_use_symbol_augment ar) query chunks cos_top;
                do_rerank = (ra_use_rerank ar \<and> rerank_min_chunks_cfg lm \<le> int n_chunks);
                (cos_top, used_rerank, pl) = rerank_candidates en do_rerank query chunks cos_top pl;
                picks = py_take (ra_top_k ar) cos_top
            in (Inr \<lparr>rr_chunks = map ((!) chunks) picks, rr_scores = map ((!) max_sims) picks, rr_query = query,
                 rr_paraphrases = paraphrases, rr_used_rerank = used_rerank, rr_used_coarse_filter = used_coarse,
                 rr_used_symbol_augment = used_symbol\<rparr>, touch_index now ix, pl))"

fun retrieve_each ::
  "pipe_env \<Rightarrow> time \<Rightarrow> string \<Rightarrow> retrieve_args \<Rightarrow> (nat \<times> scope_index) list \<Rightarrow> pipeline \<Rightarrow> (retrieve_result list \<times> exc option) \<times> pipeline" where
  \<comment> \<open>the answers up to the first index that raises\<close>
  "retrieve_each en now query ar [] pl = (([], None), pl)"
| "retrieve_each en now query ar ((key, ix) # ixs) pl =
     (case pipe_retrieve en now query key ix ar pl of
        (Inl x, _, pl) \<Rightarrow> (([], Some x), pl)
      | (Inr r, _, pl) \<Rightarrow> (case retrieve_each en now query ar ixs pl of ((rs, e), pl) \<Rightarrow> ((r # rs, e), pl)))"

definition merged_pairs :: "retrieve_result list \<Rightarrow> (real \<times> chunk) list" where
  "merged_pairs rs = sort_desc fst (concat (map (\<lambda>r. zip (rr_scores r) (rr_chunks r)) rs))"

definition retrieve_multi ::
  "pipe_env \<Rightarrow> time \<Rightarrow> string \<Rightarrow> (nat \<times> scope_index) list \<Rightarrow> int \<Rightarrow> int \<Rightarrow> bool \<Rightarrow> pipeline \<Rightarrow> (exc \<times> nat + retrieve_result) \<times> pipeline" where
  \<comment> \<open>an exception comes with the number of indexes searched before it\<close>
  "retrieve_multi en now query indexes top_k prefilter use_rerank pl =
     (if indexes = [] then (Inr (no_chunks query), pl)
      else
        let ar = \<lparr>ra_top_k = top_k, ra_prefilter = prefilter, ra_use_rerank = use_rerank, ra_use_coarse_filter = None,
                  ra_scope_root = None, ra_use_symbol_augment = None\<rparr>
        in case retrieve_each en now query ar indexes pl of
             ((per_scope, Some x), pl) \<Rightarrow> (Inl (x, length per_scope), pl)
           | ((per_scope, None), pl) \<Rightarrow>
               let picks = py_take top_k (merged_pairs per_scope)
               in (Inr \<lparr>rr_chunks = map snd picks, rr_scores = map fst picks, rr_query = query,
                    rr_paraphrases = rr_paraphrases (hd per_scope), rr_used_rerank = list_ex rr_used_rerank per_scope,
                    rr_used_coarse_filter = list_ex rr_used_coarse_filter per_scope, rr_used_symbol_augment = False\<rparr>, pl))"

section \<open>The candidates are chunks\<close>





lemma length_ranks_of [simp]: "length (ranks_of order n) = n"
  by (simp add: ranks_of_def)

lemma length_best_bm25 [simp]: "length (best_bm25_ranks en corpus ps n) = n"
proof -
  have "length (fold (\<lambda>p best. let qt = bm25_words p in
             if qt = [] then best else map2 min best (ranks_of (descending en (pe_bm25_scores en corpus qt)) n)) ps b) = n"
    if "length b = n" for b :: "int list"
    using that by (induction ps arbitrary: b) (simp_all add: Let_def)
  then show ?thesis by (simp add: best_bm25_ranks_def)
qed

lemma length_fused_scores [simp]: "length (fused_scores en corpus ps sims) = length sims"
  by (simp add: fused_scores_def Let_def)




definition symbol_chunks :: "pipe_env \<Rightarrow> path option \<Rightarrow> bool option \<Rightarrow> string \<Rightarrow> chunk list \<Rightarrow> nat set" where
  \<comment> \<open>the chunks of the files that define a symbol of the query\<close>
  "symbol_chunks en scope_root use query chunks =
     (case scope_root of
        None \<Rightarrow> {}
      | Some base \<Rightarrow>
          if (case use of Some b \<Rightarrow> b | None \<Rightarrow> cf_use_symbol_augment (pe_cfg en)) \<and> extract_symbols query \<noteq> []
          then {i. i < length chunks \<and> pe_resolve en (ck_file (chunks ! i))
                  \<in> pe_resolve en ` set (symbol_grep_repo (pe_rg en base) (pe_exists en base) 5 (extract_symbols query))}
          else {})"




section \<open>What retrieve returns\<close>


definition query_texts :: "pipe_env \<Rightarrow> pipeline \<Rightarrow> scope_index \<Rightarrow> string \<Rightarrow> string list" where
  "query_texts en pl ix query =
     (if pl_use_multi_query pl \<and> multiquery_min_chunks (cf_limits (pe_cfg en)) \<le> int (length (sx_chunks ix))
      then paraphrase (pl_n_paraphrases pl) query else [query])"

definition uses_coarse :: "pipe_env \<Rightarrow> pipeline \<Rightarrow> scope_index \<Rightarrow> retrieve_args \<Rightarrow> bool" where
  "uses_coarse en pl ix ar \<longleftrightarrow> (case ra_use_coarse_filter ar of Some b \<Rightarrow> b | None \<Rightarrow> pl_use_coarse_filter pl)
     \<and> coarse_filter_min_chunks (cf_limits (pe_cfg en)) \<le> int (length (sx_chunks ix))"

definition retrieve_raises :: "pipe_env \<Rightarrow> nat \<Rightarrow> pipeline \<Rightarrow> scope_index \<Rightarrow> retrieve_args \<Rightarrow> bool" where
  \<comment> \<open>BM25 is used, has to be built, and no chunk has a word\<close>
  "retrieve_raises en key pl ix ar \<longleftrightarrow> uses_coarse en pl ix ar \<and> bm25_cached key ix pl = None \<and> sx_chunks ix \<noteq> []
     \<and> \<not> pe_bm25_builds en (index_corpus ix)"



lemma coarse_raises:
  "(\<exists>x. fst (coarse_candidates en key ix ps sims n (uses_coarse en pl ix ar) pl) = Inl x) \<longleftrightarrow> retrieve_raises en key pl ix ar"
  "fst (coarse_candidates en key ix ps sims n dc pl) = Inl x \<Longrightarrow> x = ZeroDivisionError"
  by (auto simp: coarse_candidates_def get_or_build_bm25_def retrieve_raises_def index_corpus_def Let_def
      split: option.splits if_splits)

lemma pipe_retrieve_parts:
  fixes en :: pipe_env and pl :: pipeline and query :: string and ar :: retrieve_args and key :: nat and now :: time
  assumes "sx_embeddings ix = Some rows" "sx_chunks ix \<noteq> []"
  defines "sims \<equiv> max_cosines rows (pe_encode en (query_texts en pl ix query))"
    and "n \<equiv> min (sized_prefilter (cf_limits (pe_cfg en)) (ra_prefilter ar) (length (sx_chunks ix))) (int (length (sx_chunks ix)))"
  defines "cand \<equiv> fst (coarse_candidates en key ix (query_texts en pl ix query) sims n (uses_coarse en pl ix ar) pl)"
  obtains pl' do_rerank where "\<not> ra_use_rerank ar \<Longrightarrow> \<not> do_rerank"
    "case cand of
       Inl x \<Rightarrow> fst (pipe_retrieve en now query key ix ar pl) = Inl x
     | Inr (pool, used) \<Rightarrow> \<exists>r. fst (pipe_retrieve en now query key ix ar pl) = Inr r
         \<and> (let aug = fst (symbol_augment en (ra_scope_root ar) (ra_use_symbol_augment ar) query (sx_chunks ix) pool);
                rer = fst (rerank_candidates en do_rerank query (sx_chunks ix) aug pl');
                picks = py_take (ra_top_k ar) rer
            in rr_chunks r = map ((!) (sx_chunks ix)) picks \<and> rr_scores r = map ((!) sims) picks)"
proof -
  define run where "run = coarse_candidates en key ix (query_texts en pl ix query) sims n (uses_coarse en pl ix ar) pl"
  define dr where "dr \<longleftrightarrow> ra_use_rerank ar \<and> rerank_min_chunks_cfg (cf_limits (pe_cfg en)) \<le> int (length (sx_chunks ix))"
  have go: "pipe_retrieve en now query key ix ar pl = (case run of
      (Inl x, pl1) \<Rightarrow> (Inl x, ix, pl1)
    | (Inr (cos_top, used_coarse), pl1) \<Rightarrow>
        let (cos_top, used_symbol) = symbol_augment en (ra_scope_root ar) (ra_use_symbol_augment ar) query (sx_chunks ix) cos_top;
            (cos_top, used_rerank, pl2) = rerank_candidates en dr query (sx_chunks ix) cos_top pl1;
            picks = py_take (ra_top_k ar) cos_top
        in (Inr \<lparr>rr_chunks = map ((!) (sx_chunks ix)) picks, rr_scores = map ((!) sims) picks, rr_query = query,
               rr_paraphrases = query_texts en pl ix query, rr_used_rerank = used_rerank, rr_used_coarse_filter = used_coarse,
               rr_used_symbol_augment = used_symbol\<rparr>, touch_index now ix, pl2))"
    unfolding pipe_retrieve_def assms(1) option.case Let_def if_not_P [OF assms(2)] run_def sims_def n_def query_texts_def uses_coarse_def dr_def ..
  show thesis
  proof (rule that [of dr "snd run"])
    show "case cand of
       Inl x \<Rightarrow> fst (pipe_retrieve en now query key ix ar pl) = Inl x
     | Inr (pool, used) \<Rightarrow> \<exists>r. fst (pipe_retrieve en now query key ix ar pl) = Inr r
         \<and> (let aug = fst (symbol_augment en (ra_scope_root ar) (ra_use_symbol_augment ar) query (sx_chunks ix) pool);
                rer = fst (rerank_candidates en dr query (sx_chunks ix) aug (snd run));
                picks = py_take (ra_top_k ar) rer
            in rr_chunks r = map ((!) (sx_chunks ix)) picks \<and> rr_scores r = map ((!) sims) picks)"
      unfolding go cand_def run_def [symmetric] by (cases run) (auto simp: Let_def case_prod_beta split: sum.split)
  qed (simp add: dr_def)
qed




lemma finite_symbol_chunks [simp]: "finite (symbol_chunks en base use query chunks)"
  by (simp add: symbol_chunks_def split: option.split)


section \<open>Several scopes\<close>

text \<open>
  Merging several scopes keeps the best cosines. When no scope raises, the merged answer is the first \<open>top_k\<close> of all
  per-scope answers in descending order of score; no pair left out scores higher than one
  returned. The scores are cosines even where a scope was reranked, so the order of its
  cross-encoder is lost in the merge.
\<close>

lemma retrieve_multi_merges:
  fixes en :: pipe_env and pl :: pipeline and query :: string and prefilter :: int and use_rerank :: bool and now :: time
  assumes "indexes \<noteq> []" "0 \<le> top_k"
  defines "ar \<equiv> \<lparr>ra_top_k = top_k, ra_prefilter = prefilter, ra_use_rerank = use_rerank, ra_use_coarse_filter = None,
      ra_scope_root = None, ra_use_symbol_augment = None\<rparr>"
  assumes run: "fst (retrieve_multi en now query indexes top_k prefilter use_rerank pl) = Inr r"
  defines "pairs \<equiv> concat (map (\<lambda>r. zip (rr_scores r) (rr_chunks r)) (fst (fst (retrieve_each en now query ar indexes pl))))"
  shows "\<exists>rest. mset (zip (rr_scores r) (rr_chunks r)) + mset rest = mset pairs
    \<and> sorted_wrt (\<ge>) (rr_scores r) \<and> length (rr_chunks r) = min (nat top_k) (length pairs)
    \<and> (\<forall>s \<in> set (rr_scores r). \<forall>(s', c') \<in> set rest. s' \<le> s)"
proof (intro exI conjI)
  let ?m = "sort_desc fst pairs"
  have r: "rr_scores r = map fst (take (nat top_k) ?m)" "rr_chunks r = map snd (take (nat top_k) ?m)"
    using assms(1,2) run unfolding retrieve_multi_def ar_def [symmetric]
    by (auto simp: Let_def merged_pairs_def pairs_def py_take_def split: prod.splits option.splits)
  have z: "zip (rr_scores r) (rr_chunks r) = take (nat top_k) ?m" by (simp add: r zip_map_fst_snd)
  show "mset (zip (rr_scores r) (rr_chunks r)) + mset (drop (nat top_k) ?m) = mset pairs"
    unfolding z by (metis append_take_drop_id mset_append mset_sort_desc)
  have s: "sorted_wrt (\<lambda>a b. fst b \<le> fst a) ?m" by (rule sorted_sort_desc)
  then show "sorted_wrt (\<ge>) (rr_scores r)" unfolding r by (simp add: sorted_wrt_map sorted_wrt_take)
  show "length (rr_chunks r) = min (nat top_k) (length pairs)" by (simp add: r min.commute)
  show "\<forall>s \<in> set (rr_scores r). \<forall>(s', c') \<in> set (drop (nat top_k) ?m). s' \<le> s"
    using sorted_desc_take_drop [OF s] unfolding r by fastforce
qed

section \<open>The BM25 cache\<close>

text \<open>
  The cached BM25 object is reused while the number of chunks stays the same, so an update that
  replaces chunks one for one is searched with the old texts.
\<close>

lemma bm25_cache_stale:
  assumes "dict_get (pl_bm25_cache pl) key = None" "sx_chunks ix \<noteq> []" "length (sx_chunks ix') = length (sx_chunks ix)"
    "pe_bm25_builds en (index_corpus ix)"
  shows "fst (get_or_build_bm25 en key ix' (snd (get_or_build_bm25 en key ix pl))) = Inr (Some (index_corpus ix))"
  using assms by (simp add: get_or_build_bm25_def bm25_cached_def index_corpus_def Let_def dict_simps)

text \<open>A scope whose chunks hold no word cannot be searched by BM25: the retrieve raises.\<close>

lemma wordless_scope_raises:
  assumes "sx_embeddings ix = Some rows" "sx_chunks ix \<noteq> []" "dict_get (pl_bm25_cache pl) key = None" "uses_coarse en pl ix ar"
    "\<not> pe_bm25_builds en (index_corpus ix)"
  shows "fst (pipe_retrieve en now query key ix ar pl) = Inl ZeroDivisionError"
proof -
  have "retrieve_raises en key pl ix ar" using assms by (simp add: retrieve_raises_def bm25_cached_def)
  then have c: "fst (coarse_candidates en key ix ps sims n (uses_coarse en pl ix ar) pl) = Inl ZeroDivisionError" for ps sims n
    using coarse_raises by metis
  show ?thesis by (rule pipe_retrieve_parts [OF assms(1,2), where ar = ar and en = en and key = key and pl = pl and query = query and now = now]) (simp add: c)
qed

section \<open>An example\<close>

definition demo_pipe :: "pipe_env" where
  "demo_pipe = \<lparr>pe_cfg = demo_cfg, pe_encode = map (\<lambda>t. [1]), pe_bm25_builds = list_ex (\<lambda>d. d \<noteq> []), pe_bm25_scores = (\<lambda>c q. map (\<lambda>d. 0) c),
     pe_argsort = stable_argsort, pe_load_reranker = False, pe_predict = (\<lambda>ps. None), pe_rg = (\<lambda>p s. None),
     pe_exists = (\<lambda>p. True), pe_resolve = (\<lambda>s. s)\<rparr>"

definition demo_pipe_index :: "scope_index" where
  "demo_pipe_index = \<lparr>sx_root = [''/'', ''p''], sx_hash = ''h'', sx_chunks =
      [\<lparr>ck_text = ''a'', ck_file = ''a.py'', ck_start = 1, ck_end = 1, ck_type = ''code''\<rparr>,
       \<lparr>ck_text = ''b'', ck_file = ''b.py'', ck_start = 1, ck_end = 1, ck_type = ''code''\<rparr>],
     sx_embeddings = Some [[1], [2]], sx_file_count = 2, sx_built_at = 0, sx_last_query_at = 0, sx_embedder_name = ''m''\<rparr>"





lemma retrieve_multi_merges_witness:
  "\<exists>r. fst (retrieve_multi demo_pipe 1 ''q'' [(7, demo_pipe_index)] 2 100 False (pipeline_new demo_cfg False None 3 (Some False))) = Inr r
     \<and> sorted_wrt (\<ge>) (rr_scores r)"
proof -
  let ?pl = "pipeline_new demo_cfg False None 3 (Some False)"
  have "\<exists>r. fst (retrieve_multi demo_pipe 1 ''q'' [(7, demo_pipe_index)] 2 100 False ?pl) = Inr r"
    by (auto simp: retrieve_multi_def pipe_retrieve_def coarse_candidates_def pipeline_new_def demo_pipe_index_def Let_def split: prod.split)
  then obtain r where "fst (retrieve_multi demo_pipe 1 ''q'' [(7, demo_pipe_index)] 2 100 False ?pl) = Inr r" by blast
  then show ?thesis using retrieve_multi_merges [where indexes = "[(7, demo_pipe_index)]" and top_k = 2 and prefilter = 100 and use_rerank = False
      and en = demo_pipe and now = 1 and query = "''q''" and pl = ?pl] by force
qed

end
