(* ===== verification/Svc_Cache.thy ===== *)
theory Svc_Cache
  imports Svc_Builder
begin

text \<open>
  The per-scope disk cache (\<open>longctx_svc/cache/disk.py\<close>): an index is written as three files, each
  replaced atomically, in the order embeddings, chunks, metadata; loading checks that they are
  there, parse and agree. A JSON object is its field list; a line of \<open>chunks.jsonl\<close> is blank,
  unparsable, or an object. Fields the code reads as strings are strings here.
\<close>

datatype jval = JS string | JI int | JR real

type_synonym jobj = "(string, jval) dict"

datatype jline = BlankLine | BadLine | ObjLine jobj

text \<open>A file that is missing is \<open>None\<close>, one that does not parse is \<open>Some None\<close>.\<close>

record cache_dir =
  cd_embeddings :: "vec list option option"
  cd_chunks :: "jline list option"
  cd_metadata :: "jobj option option"
  cd_size :: nat

type_synonym cache_root = "(string, cache_dir) dict"

definition cache_layout_version :: int where
  "cache_layout_version = 1"

definition empty_cache_dir :: "cache_dir" where
  "empty_cache_dir = \<lparr>cd_embeddings = None, cd_chunks = None, cd_metadata = None, cd_size = 0\<rparr>"

definition chunk_obj :: "chunk \<Rightarrow> jobj" where
  "chunk_obj c = [(''text'', JS (ck_text c)), (''file_path'', JS (ck_file c)), (''start_line'', JI (ck_start c)),
     (''end_line'', JI (ck_end c)), (''file_type'', JS (ck_type c))]"

definition meta_obj :: "scope_index \<Rightarrow> vec list \<Rightarrow> string \<Rightarrow> time \<Rightarrow> jobj" where
  "meta_obj ix embs sentinel now =
     [(''version'', JI cache_layout_version), (''scope_root'', JS (path_str (sx_root ix))), (''scope_hash'', JS (sx_hash ix)),
      (''sentinel'', JS sentinel), (''file_count'', JI (int (sx_file_count ix))), (''chunk_count'', JI (int (chunk_count ix))),
      (''embedder_name'', JS (sx_embedder_name ix)), (''built_at'', JR (sx_built_at ix)), (''saved_at'', JR now),
      (''embedding_dim'', JI (case embs of [] \<Rightarrow> 0 | r # _ \<Rightarrow> int (length r))), (''embedding_dtype'', JS ''float32'')]"

definition save_steps :: "scope_index \<Rightarrow> vec list \<Rightarrow> string \<Rightarrow> time \<Rightarrow> (cache_dir \<Rightarrow> cache_dir) list" where
  \<comment> \<open>the directory, then the three atomic replacements\<close>
  "save_steps ix embs sentinel now =
     [id, cd_embeddings_update (\<lambda>_. Some (Some embs)),
      cd_chunks_update (\<lambda>_. Some (map (\<lambda>c. ObjLine (chunk_obj c)) (sx_chunks ix))),
      cd_metadata_update (\<lambda>_. Some (Some (meta_obj ix embs sentinel now)))]"

definition save_index_upto :: "nat \<Rightarrow> scope_index \<Rightarrow> string \<Rightarrow> time \<Rightarrow> cache_root \<Rightarrow> cache_root" where
  \<comment> \<open>a save that stops after its first \<open>k\<close> steps; a complete one has four\<close>
  "save_index_upto k ix sentinel now croot =
     (case sx_embeddings ix of
        None \<Rightarrow> croot
      | Some embs \<Rightarrow>
          if sx_chunks ix = [] \<or> k = 0 then croot
          else
            let d = (case dict_get croot (sx_hash ix) of None \<Rightarrow> empty_cache_dir | Some d \<Rightarrow> d)
            in dict_set (sx_hash ix) (fold (\<lambda>f. f) (take k (save_steps ix embs sentinel now)) d) croot)"

definition save_index :: "scope_index \<Rightarrow> string \<Rightarrow> time \<Rightarrow> cache_root \<Rightarrow> cache_root" where
  "save_index = save_index_upto 4"

definition jget_str :: "jobj \<Rightarrow> string \<Rightarrow> string \<Rightarrow> string" where
  "jget_str d k dflt = (case dict_get d k of Some (JS s) \<Rightarrow> s | _ \<Rightarrow> dflt)"

definition jget_real :: "jobj \<Rightarrow> string \<Rightarrow> real \<Rightarrow> real" where
  "jget_real d k dflt = (case dict_get d k of Some (JR r) \<Rightarrow> r | Some (JI i) \<Rightarrow> real_of_int i | _ \<Rightarrow> dflt)"

definition jget_int :: "jobj \<Rightarrow> string \<Rightarrow> int \<Rightarrow> int" where
  "jget_int d k dflt = (case dict_get d k of Some (JI i) \<Rightarrow> i | Some (JR r) \<Rightarrow> (if 0 \<le> r then \<lfloor>r\<rfloor> else \<lceil>r\<rceil>) | _ \<Rightarrow> dflt)"

definition parse_chunk :: "jobj \<Rightarrow> exc + chunk" where
  "parse_chunk d =
     (if dict_get d ''text'' = None \<or> dict_get d ''file_path'' = None \<or> dict_get d ''start_line'' = None \<or> dict_get d ''end_line'' = None
      then Inl KeyError
      else Inr \<lparr>ck_text = jget_str d ''text'' [], ck_file = jget_str d ''file_path'' [], ck_start = jget_int d ''start_line'' 0,
                ck_end = jget_int d ''end_line'' 0, ck_type = jget_str d ''file_type'' ''other''\<rparr>)"

fun parse_lines :: "jline list \<Rightarrow> exc + chunk list" where
  "parse_lines [] = Inr []"
| "parse_lines (BlankLine # ls) = parse_lines ls"
| "parse_lines (BadLine # ls) = Inl JSONDecodeError"
| "parse_lines (ObjLine d # ls) =
     (case parse_chunk d of Inl e \<Rightarrow> Inl e
      | Inr c \<Rightarrow> (case parse_lines ls of Inl e \<Rightarrow> Inl e | Inr cs \<Rightarrow> Inr (c # cs)))"

definition load_index :: "string \<Rightarrow> cache_root \<Rightarrow> exc + (scope_index \<times> jobj) option" where
  "load_index scope_hash croot =
     (case dict_get croot scope_hash of None \<Rightarrow> Inr None
      | Some d \<Rightarrow>
          (case (cd_metadata d, cd_embeddings d, cd_chunks d) of
             (Some meta, Some npy, Some lines) \<Rightarrow>
               (case meta of None \<Rightarrow> Inr None
                | Some meta \<Rightarrow>
                    if dict_get meta ''version'' \<noteq> Some (JI cache_layout_version) then Inr None
                    else (case npy of None \<Rightarrow> Inr None
                      | Some embs \<Rightarrow>
                          (case parse_lines lines of Inl e \<Rightarrow> Inr None
                           | Inr chunks \<Rightarrow>
                               if length embs \<noteq> length chunks then Inr None
                               else if dict_get meta ''scope_root'' = None then Inl KeyError
                               else Inr (Some
                                 (\<lparr>sx_root = path_of (jget_str meta ''scope_root'' []), sx_hash = scope_hash, sx_chunks = chunks,
                                   sx_embeddings = Some embs, sx_file_count = nat (jget_int meta ''file_count'' 0),
                                   sx_built_at = jget_real meta ''built_at'' 0, sx_last_query_at = 0,
                                   sx_embedder_name = jget_str meta ''embedder_name'' []\<rparr>, meta)))))
           | _ \<Rightarrow> Inr None))"

record cached_entry =
  ce_hash :: string
  ce_root :: string
  ce_sentinel :: string
  ce_saved_at :: time
  ce_size :: nat
  ce_chunk_count :: int

fun list_cached :: "cache_root \<Rightarrow> cached_entry list" where
  "list_cached [] = []"
| "list_cached ((name, d) # croot) =
     (case cd_metadata d of
        Some (Some meta) \<Rightarrow>
          \<lparr>ce_hash = name, ce_root = jget_str meta ''scope_root'' [], ce_sentinel = jget_str meta ''sentinel'' [],
           ce_saved_at = jget_real meta ''saved_at'' 0, ce_size = cd_size d, ce_chunk_count = jget_int meta ''chunk_count'' 0\<rparr>
          # list_cached croot
      | _ \<Rightarrow> list_cached croot)"

definition clean_older_than :: "(string \<Rightarrow> bool) \<Rightarrow> time \<Rightarrow> int \<Rightarrow> cache_root \<Rightarrow> nat \<times> cache_root" where
  \<comment> \<open>\<open>rm_ok\<close> says whose \<open>rmtree\<close> does not raise\<close>
  "clean_older_than rm_ok now days croot =
     (let cutoff = now - real_of_int days * 86400
      in fold (\<lambda>e (removed, croot). if ce_saved_at e < cutoff \<and> rm_ok (ce_hash e)
                then (removed + 1, dict_pop (ce_hash e) croot) else (removed, croot)) (list_cached croot) (0, croot))"

definition clean_all :: "cache_root \<Rightarrow> nat \<times> cache_root" where
  "clean_all croot = (length croot, [])"

definition cache_root_size_bytes :: "cache_root \<Rightarrow> nat" where
  "cache_root_size_bytes croot = sum_list (map (\<lambda>(n, d). cd_size d) croot)"

section \<open>Paths survive being printed and parsed\<close>

lemma split_on_no: "c \<notin> set x \<Longrightarrow> split_on c x = [x]"
  by (induction x) auto

lemma split_on_append: "c \<notin> set x \<Longrightarrow> split_on c (x @ c # s) = x # split_on c s"
  by (induction x) auto

lemma split_on_join: "xs \<noteq> [] \<Longrightarrow> \<forall>x \<in> set xs. c \<notin> set x \<Longrightarrow> split_on c (py_join [c] xs) = xs"
proof (induction xs rule: list_nonempty_induct)
  case (single x)
  then show ?case by (simp add: split_on_no)
next
  case (cons x xs)
  then show ?case by (cases xs) (simp_all add: split_on_append)
qed

definition plain_path :: "path \<Rightarrow> bool" where
  \<comment> \<open>well-formed, with no \<open>.\<close> component (the parser removes those)\<close>
  "plain_path p \<longleftrightarrow> wf_path p \<and> ''.'' \<notin> set p"

lemma path_of_path_str:
  assumes "plain_path p"
  shows "path_of (path_str p) = p"
proof (cases "path_abs p")
  case True
  then obtain xs where p: "p = ''/'' # xs" by (cases p) (auto simp: path_abs_def)
  have xs: "\<forall>x \<in> set xs. x \<noteq> [] \<and> CHR ''/'' \<notin> set x \<and> x \<noteq> ''.''"
    using assms True by (auto simp: plain_path_def wf_path_def p)
  have "filter (\<lambda>x. x \<noteq> [] \<and> x \<noteq> ''.'') (split_on (CHR ''/'') (py_join ''/'' xs)) = xs"
    using xs split_on_join [of xs "CHR ''/''"] by (cases "xs = []") (auto simp: filter_id_conv)
  then show ?thesis by (simp add: path_of_def path_str_def p path_abs_def)
next
  case False
  have xs: "\<forall>x \<in> set p. x \<noteq> [] \<and> CHR ''/'' \<notin> set x \<and> x \<noteq> ''.''"
    using assms False by (auto simp: plain_path_def wf_path_def)
  show ?thesis
  proof (cases p)
    case (Cons x ys)
    have "hd (py_join ''/'' p) \<noteq> CHR ''/''" using xs Cons by (cases x; cases ys) auto
    then show ?thesis using xs Cons False split_on_join [of p "CHR ''/''"]
      by (auto simp: path_of_def path_str_def filter_id_conv)
  qed (simp add: path_of_def path_str_def path_abs_def)
qed

section \<open>Saving and loading\<close>

lemma parse_chunk_obj: "parse_chunk (chunk_obj c) = Inr c"
  by (simp add: parse_chunk_def chunk_obj_def jget_str_def jget_int_def)

lemma parse_lines_objs: "parse_lines (map (\<lambda>c. ObjLine (chunk_obj c)) cs) = Inr cs"
  by (induction cs) (simp_all add: parse_chunk_obj)

lemma save_index_get:
  assumes "sx_embeddings ix = Some embs" "sx_chunks ix \<noteq> []"
  shows "\<exists>d. dict_get (save_index ix sentinel now croot) (sx_hash ix) = Some d
    \<and> cd_embeddings d = Some (Some embs) \<and> cd_chunks d = Some (map (\<lambda>c. ObjLine (chunk_obj c)) (sx_chunks ix))
    \<and> cd_metadata d = Some (Some (meta_obj ix embs sentinel now))"
  using assms by (simp add: save_index_def save_index_upto_def save_steps_def Let_def dict_simps)

text \<open>
  C20: a saved index loads back, except for its last query time. An index with embeddings, one row
  per chunk, at least one chunk and a plain root path (normalised, without \<open>.\<close> components) is
  returned by the load after its save, whatever the cache held before: root, hash, chunks, rows,
  file count, build time and embedder are the same, and the last query time, which the files do not
  hold, is 0.
\<close>

theorem cache_roundtrip:
  assumes "sx_embeddings ix = Some embs" "length embs = length (sx_chunks ix)" "sx_chunks ix \<noteq> []" "plain_path (sx_root ix)"
  shows "load_index (sx_hash ix) (save_index ix sentinel now croot)
    = Inr (Some (ix\<lparr>sx_last_query_at := 0\<rparr>, meta_obj ix embs sentinel now))"
proof -
  obtain d where d: "dict_get (save_index ix sentinel now croot) (sx_hash ix) = Some d" "cd_embeddings d = Some (Some embs)"
    "cd_chunks d = Some (map (\<lambda>c. ObjLine (chunk_obj c)) (sx_chunks ix))" "cd_metadata d = Some (Some (meta_obj ix embs sentinel now))"
    using save_index_get [OF assms(1,3)] by blast
  show ?thesis
    using assms by (simp add: load_index_def d parse_lines_objs meta_obj_def jget_str_def jget_int_def jget_real_def path_of_path_str)
qed

definition demo_index_built :: "scope_index" where
  "demo_index_built = \<lparr>sx_root = [''/'', ''p''], sx_hash = ''h1'',
     sx_chunks = [\<lparr>ck_text = ''x'', ck_file = ''/p/a'', ck_start = 1, ck_end = 1, ck_type = ''other''\<rparr>],
     sx_embeddings = Some [[1]], sx_file_count = 1, sx_built_at = 5, sx_last_query_at = 9, sx_embedder_name = ''m''\<rparr>"

lemma demo_plain: "plain_path [''/'', ''p'']"
  by code_simp

lemma cache_loads_demo:
  "\<exists>m. load_index ''h1'' (save_index demo_index_built ''.git'' 6 []) = Inr (Some (demo_index_built\<lparr>sx_last_query_at := 0\<rparr>, m))"
proof -
  have "path_of (path_str [''/'', ''p'']) = [''/'', ''p'']" by code_simp
  then show ?thesis
    by (simp add: demo_index_built_def save_index_def save_index_upto_def save_steps_def Let_def load_index_def
        parse_chunk_obj meta_obj_def jget_str_def jget_int_def jget_real_def)
qed

theorem cache_roundtrip_witness:
  "\<exists>m. load_index ''h1'' (save_index demo_index_built ''.git'' 6 []) = Inr (Some (demo_index_built\<lparr>sx_last_query_at := 0\<rparr>, m))"
proof -
  have "sx_embeddings demo_index_built = Some [[1]]" "length [[1::real]] = length (sx_chunks demo_index_built)"
    "sx_chunks demo_index_built \<noteq> []" "plain_path (sx_root demo_index_built)"
    using demo_plain by (simp_all add: demo_index_built_def)
  from cache_roundtrip [OF this, of "''.git''" 6 "[]"] show ?thesis by (simp add: demo_index_built_def)
qed

text \<open>
  An interrupted first save is never loaded. If the cache holds nothing for the scope and the
  save stops before its last step, loading the scope finds nothing (and does not raise); the
  other scopes' entries are untouched at every step.
\<close>

lemma interrupted_save_invisible:
  assumes "dict_get croot (sx_hash ix) = None" "k < 4"
  shows "load_index (sx_hash ix) (save_index_upto k ix sentinel now croot) = Inr None
    \<and> (\<forall>h. h \<noteq> sx_hash ix \<longrightarrow> load_index h (save_index_upto k ix sentinel now croot) = load_index h croot)"
proof -
  have "k = 0 \<or> k = 1 \<or> k = 2 \<or> k = 3" using assms(2) by auto
  then have "case dict_get (save_index_upto k ix sentinel now croot) (sx_hash ix) of None \<Rightarrow> True | Some d \<Rightarrow> cd_metadata d = None"
    using assms(1)
    by (auto simp: save_index_upto_def save_steps_def Let_def dict_simps empty_cache_dir_def numeral_2_eq_2 numeral_3_eq_3 split: option.split)
  then have "load_index (sx_hash ix) (save_index_upto k ix sentinel now croot) = Inr None"
    by (auto simp: load_index_def split: option.splits)
  then show ?thesis
    by (simp add: load_index_def save_index_upto_def Let_def dict_simps split: option.split)
qed

lemma interrupted_save_invisible_witness:
  "load_index ''h1'' (save_index_upto 3 demo_index_built ''.git'' 6 []) = Inr None"
  using interrupted_save_invisible [of "[]" demo_index_built 3 "''.git''" 6] by (simp add: demo_index_built_def)

section \<open>Cleaning\<close>

lemma list_cached_hashes: "e \<in> set (list_cached croot) \<Longrightarrow> ce_hash e \<in> set (dict_keys croot)"
  by (induction croot rule: list_cached.induct) (auto split: option.splits)

definition saved_at :: "cache_dir \<Rightarrow> time option" where
  "saved_at d = (case cd_metadata d of Some (Some meta) \<Rightarrow> Some (jget_real meta ''saved_at'' 0) | _ \<Rightarrow> None)"

lemma list_cached_mem:
  assumes "dict_wf croot"
  shows "(\<exists>e \<in> set (list_cached croot). ce_hash e = h \<and> P (ce_saved_at e)) \<longleftrightarrow>
     (\<exists>d t. dict_get croot h = Some d \<and> saved_at d = Some t \<and> P t)"
  using assms
proof (induction croot rule: list_cached.induct)
  case (2 name d croot)
  have "dict_get croot name = None" using 2(4) by (simp add: map_of_eq_None_iff)
  then have none: "\<not> (\<exists>e \<in> set (list_cached croot). ce_hash e = name \<and> P (ce_saved_at e))"
    using list_cached_hashes [of _ croot] 2(4) by auto
  show ?case
    using 2 none by (cases "name = h"; cases "cd_metadata d"; cases "the (cd_metadata d)") (auto simp: saved_at_def)
qed simp

lemma clean_fold:
  "fold (\<lambda>e (removed, croot). if ce_saved_at e < c \<and> rm_ok (ce_hash e) then (removed + 1, dict_pop (ce_hash e) croot) else (removed, croot))
     es (k, croot) =
   (k + length (filter (\<lambda>e. ce_saved_at e < c \<and> rm_ok (ce_hash e)) es),
    fold dict_pop (map ce_hash (filter (\<lambda>e. ce_saved_at e < c \<and> rm_ok (ce_hash e)) es)) croot)"
  by (induction es arbitrary: k croot) auto

text \<open>
  Cleaning drops exactly the old entries. A scope survives with its files unchanged iff its
  metadata is missing or unreadable, or it was saved within the given days, or its removal
  fails.
\<close>

lemma clean_older_than_exact:
  assumes "dict_wf croot"
  shows "dict_get (snd (clean_older_than rm_ok now days croot)) h =
    (case dict_get croot h of None \<Rightarrow> None
     | Some d \<Rightarrow> (case saved_at d of None \<Rightarrow> Some d
         | Some t \<Rightarrow> if t < now - real_of_int days * 86400 \<and> rm_ok h then None else Some d))"
proof -
  let ?c = "now - real_of_int days * 86400"
  have "h \<in> set (map ce_hash (filter (\<lambda>e. ce_saved_at e < ?c \<and> rm_ok (ce_hash e)) (list_cached croot)))
      \<longleftrightarrow> (\<exists>d t. dict_get croot h = Some d \<and> saved_at d = Some t \<and> t < ?c \<and> rm_ok h)"
    using list_cached_mem [OF assms, of h "\<lambda>t. t < ?c \<and> rm_ok h"] by auto
  then show ?thesis
    by (auto simp: clean_older_than_def Let_def clean_fold od.get_pops split: option.split)
qed

lemma clean_older_than_exact_witness:
  "dict_get (snd (clean_older_than (\<lambda>h. True) 900000 7 [(''h1'', empty_cache_dir\<lparr>cd_metadata := Some (Some [(''saved_at'', JR 3)])\<rparr>)])) ''h1'' = None"
  using clean_older_than_exact [of "[(''h1'', empty_cache_dir\<lparr>cd_metadata := Some (Some [(''saved_at'', JR 3)])\<rparr>)]" "\<lambda>h. True" 900000 7 "''h1''"]
  by (simp add: saved_at_def jget_real_def)

end
