(* ===== verification/Svc_Session.thy ===== *)
theory Svc_Session
  imports LC_Str
begin

text \<open>
  Session identification and the session table (\<open>longctx_svc/session/manager.py\<close>). The
  table is a dictionary from session ids to entries; the operations run under the manager's
  lock, so each is one step, and each that reads the clock takes the reading as \<open>now\<close>.
\<close>

record session_entry =
  se_session_id :: string
  se_scope_hash :: "string option"
  se_last_seen_at :: time
  se_detected_via :: string
  se_confidence_window :: "real list"
  se_confidence_window_size :: nat
  se_consecutive_low :: nat
  se_scope_hashes :: "string set"

definition record_confidence :: "real \<Rightarrow> session_entry \<Rightarrow> session_entry" where
  "record_confidence score e =
     (let w = se_confidence_window e @ [score]
      in e\<lparr>se_confidence_window := (if se_confidence_window_size e < length w then tl w else w)\<rparr>)"

text \<open>A JSON scalar of the request's metadata; \<open>truthy\<close> and \<open>str\<close> are Python's.\<close>

datatype meta_value = MNone | MBool bool | MInt int | MStr string

fun truthy :: "meta_value \<Rightarrow> bool" where
  "truthy MNone = False"
| "truthy (MBool b) = b"
| "truthy (MInt i) = (i \<noteq> 0)"
| "truthy (MStr s) = (s \<noteq> [])"

fun meta_str :: "meta_value \<Rightarrow> string" where
  "meta_str MNone = ''None''"
| "meta_str (MBool b) = (if b then ''True'' else ''False'')"
| "meta_str (MInt i) = int_str i"
| "meta_str (MStr s) = s"

definition lower_keys :: "(string, string) dict \<Rightarrow> (string, string) dict" where
  "lower_keys hs = fold (\<lambda>(k, v) h. dict_set (py_lower k) v h) hs []"

definition get_truthy :: "(string, string) dict \<Rightarrow> string \<Rightarrow> string option" where
  "get_truthy h k = (case dict_get h k of None \<Rightarrow> None | Some v \<Rightarrow> if v = [] then None else Some v)"

definition extract_session_id ::
  "(string, string) dict option \<Rightarrow> (string, meta_value) dict option \<Rightarrow> string option \<times> string" where
  "extract_session_id headers body_metadata =
     (let h = (case headers of None \<Rightarrow> [] | Some hs \<Rightarrow> lower_keys hs) in
      case get_truthy h ''x-session-affinity'' of
        Some v \<Rightarrow> (Some v, ''header:x-session-affinity'')
      | None \<Rightarrow>
          (case get_truthy h ''x-session-id'' of
             Some v \<Rightarrow> (Some v, ''header:x-session-id'')
           | None \<Rightarrow>
               (case body_metadata of
                  None \<Rightarrow> (None, ''ephemeral'')
                | Some m \<Rightarrow>
                    (case dict_get m ''session_id'' of
                       None \<Rightarrow> (None, ''ephemeral'')
                     | Some sid \<Rightarrow>
                         if truthy sid then (Some (meta_str sid), ''body:metadata.session_id'')
                         else (None, ''ephemeral'')))))"

type_synonym sessions = "(string, session_entry) dict"

definition sm_get :: "time \<Rightarrow> string \<Rightarrow> sessions \<Rightarrow> session_entry option \<times> sessions" where
  "sm_get now sid m =
     (case dict_get m sid of
        None \<Rightarrow> (None, m)
      | Some e \<Rightarrow> let e = e\<lparr>se_last_seen_at := now\<rparr> in (Some e, dict_set sid e m))"

definition sm_bind :: "time \<Rightarrow> string \<Rightarrow> string \<Rightarrow> string \<Rightarrow> sessions \<Rightarrow> session_entry \<times> sessions" where
  "sm_bind now sid scope_hash detected_via m =
     (let e = (case dict_get m sid of
          None \<Rightarrow> \<lparr>se_session_id = sid, se_scope_hash = Some scope_hash, se_last_seen_at = now,
            se_detected_via = detected_via, se_confidence_window = [], se_confidence_window_size = 4,
            se_consecutive_low = 0, se_scope_hashes = {scope_hash}\<rparr>
        | Some e \<Rightarrow> e\<lparr>se_scope_hash := Some scope_hash, se_scope_hashes := insert scope_hash (se_scope_hashes e),
            se_last_seen_at := now, se_detected_via := detected_via\<rparr>)
      in (e, dict_set sid e m))"

definition sm_evict_idle :: "time \<Rightarrow> real \<Rightarrow> sessions \<Rightarrow> nat \<times> sessions" where
  "sm_evict_idle now session_idle_timeout_seconds m =
     (let cutoff = now - session_idle_timeout_seconds;
          stale = map fst (filter (\<lambda>x. se_last_seen_at (snd x) < cutoff) m)
      in (length stale, fold dict_pop stale m))"

definition sm_len :: "sessions \<Rightarrow> nat" where
  "sm_len m = length m"

section \<open>The confidence window\<close>

definition window_ok :: "session_entry \<Rightarrow> bool" where
  "window_ok e \<longleftrightarrow> length (se_confidence_window e) \<le> se_confidence_window_size e"

lemma record_confidence_window:
  assumes "se_confidence_window e = last_n (se_confidence_window_size e) hist"
    and "0 < se_confidence_window_size e"
  shows "se_confidence_window (record_confidence s e) = last_n (se_confidence_window_size e) (hist @ [s])"
proof -
  obtain n where n: "se_confidence_window_size e = Suc n" using assms(2) gr0_implies_Suc by blast
  show ?thesis
  proof (cases "length hist \<le> n")
    case True
    then show ?thesis using assms(1) n by (simp add: record_confidence_def last_n_def)
  next
    case False
    then have len: "length (last_n (Suc n) hist) = Suc n" by (simp add: length_last_n)
    have "tl (last_n (Suc n) hist) = last_n n hist" using False by (simp add: tl_last_n)
    then show ?thesis
      using assms(1) n len by (cases "last_n (Suc n) hist") (simp_all add: record_confidence_def last_n_snoc)
  qed
qed

lemma record_confidence_frame [simp]:
  "se_session_id (record_confidence s e) = se_session_id e"
  "se_scope_hash (record_confidence s e) = se_scope_hash e"
  "se_consecutive_low (record_confidence s e) = se_consecutive_low e"
  "se_confidence_window_size (record_confidence s e) = se_confidence_window_size e"
  by (simp_all add: record_confidence_def Let_def)

lemma record_confidence_run:
  assumes "0 < se_confidence_window_size e" "se_confidence_window e = []"
  shows "se_confidence_window (fold record_confidence scores e) = last_n (se_confidence_window_size e) scores
    \<and> se_confidence_window_size (fold record_confidence scores e) = se_confidence_window_size e"
  using assms
  by (induction scores rule: rev_induct) (simp add: last_n_def, simp add: record_confidence_window)

section \<open>The table\<close>

lemma sm_get_wf [inv_intros]: "dict_wf m \<Longrightarrow> dict_wf (snd (sm_get now sid m))"
  by (auto simp: sm_get_def Let_def distinct_update split: option.split)

lemma sm_bind_wf [inv_intros]: "dict_wf m \<Longrightarrow> dict_wf (snd (sm_bind now sid h via m))"
  by (simp add: sm_bind_def Let_def distinct_update)

lemma sm_evict_wf [inv_intros]: "dict_wf m \<Longrightarrow> dict_wf (snd (sm_evict_idle now timeout m))"
  by (simp add: sm_evict_idle_def Let_def od.wf_pops)

lemma sm_bind_get:
  "map_of (snd (sm_bind now sid h via m)) sid' = (if sid' = sid then Some (fst (sm_bind now sid h via m)) else map_of m sid')"
  by (simp add: sm_bind_def Let_def dict_simps)

lemma sm_bind_entry:
  "se_scope_hash (fst (sm_bind now sid h via m)) = Some h"
  "se_scope_hashes (fst (sm_bind now sid h via m)) =
     insert h (case map_of m sid of None \<Rightarrow> {} | Some e \<Rightarrow> se_scope_hashes e)"
  "se_last_seen_at (fst (sm_bind now sid h via m)) = now"
  by (simp_all add: sm_bind_def Let_def split: option.split)

lemma sm_evict_get:
  "dict_wf m \<Longrightarrow> map_of (snd (sm_evict_idle now timeout m)) sid =
     (case map_of m sid of None \<Rightarrow> None | Some e \<Rightarrow> if se_last_seen_at e < now - timeout then None else Some e)"
  using od.get_sweep [of m "\<lambda>e. se_last_seen_at e < now - timeout" sid]
  by (simp add: sm_evict_idle_def Let_def)

text \<open>A bind request: the clock reading, the session, the scope hash and the source.\<close>

type_synonym bind_req = "time \<times> string \<times> string \<times> string"

definition bind_all :: "bind_req list \<Rightarrow> sessions \<Rightarrow> sessions" where
  "bind_all reqs m = fold (\<lambda>(now, sid, h, via) m. snd (sm_bind now sid h via m)) reqs m"

lemma bind_all_snoc: "bind_all (reqs @ [(now, sid, h, via)]) m = snd (sm_bind now sid h via (bind_all reqs m))"
  by (simp add: bind_all_def)

definition binds_of :: "string \<Rightarrow> bind_req list \<Rightarrow> string list" where
  "binds_of sid reqs = map (\<lambda>(now, s, h, via). h) (filter (\<lambda>(now, s, h, via). s = sid) reqs)"

lemma binds_of_snoc:
  "binds_of sid (reqs @ [(now, s, h, via)]) = (if s = sid then binds_of sid reqs @ [h] else binds_of sid reqs)"
  by (simp add: binds_of_def)

lemma bind_all_entry:
  "case map_of (bind_all reqs []) sid of
     None \<Rightarrow> binds_of sid reqs = []
   | Some e \<Rightarrow> binds_of sid reqs \<noteq> [] \<and> se_scope_hash e = Some (last (binds_of sid reqs))
       \<and> se_scope_hashes e = set (binds_of sid reqs)"
proof (induction reqs rule: rev_induct)
  case Nil
  then show ?case by (simp add: bind_all_def binds_of_def)
next
  case (snoc r reqs)
  obtain now s h via where r: "r = (now, s, h, via)" by (cases r) auto
  show ?case
    using snoc.IH
    by (auto simp: r bind_all_snoc binds_of_snoc sm_bind_get sm_bind_entry split: option.splits)
qed

section \<open>Session identification\<close>

lemma lower_keys_get_recase:
  assumes "\<And>k. py_lower (f k) = py_lower k"
  shows "lower_keys (map (\<lambda>(k, v). (f k, v)) hs) = lower_keys hs"
proof -
  have "fold (\<lambda>(k, v) h. dict_set (py_lower k) v h) (map (\<lambda>(k, v). (f k, v)) hs) h =
      fold (\<lambda>(k, v) h. dict_set (py_lower k) v h) hs h" for h
    by (induction hs arbitrary: h) (auto simp: assms)
  then show ?thesis by (simp add: lower_keys_def)
qed

section \<open>Properties\<close>

text \<open>
  The confidence window is the sliding window the promotion check reads: after any number of
  recorded scores it holds exactly the most recent ones, oldest first, never more than its size.
\<close>

lemma confidence_window_recent:
  assumes "0 < se_confidence_window_size e" "se_confidence_window e = []"
  shows "se_confidence_window (fold record_confidence scores e) = last_n (se_confidence_window_size e) scores"
  using record_confidence_run [OF assms] by blast

lemma confidence_window_recent_witness:
  "se_confidence_window (fold record_confidence [1, 2, 3, 4, 5, 6] (fst (sm_bind 0 ''s'' ''h'' ''v'' []))) = [3, 4, 5, 6]"
  using confidence_window_recent [of "fst (sm_bind 0 ''s'' ''h'' ''v'' [])" "[1, 2, 3, 4, 5, 6]"]
  by (simp add: sm_bind_def last_n_def Let_def)

text \<open>
  Sessions accumulate scopes. After any sequence of binds an entry exists exactly for the
  sessions that were bound, its primary scope is the one bound last for that session, and its
  membership set is every scope bound for it; binds of other sessions do not show.
\<close>

lemma session_accumulates_scopes:
  "case map_of (bind_all reqs []) sid of
     None \<Rightarrow> binds_of sid reqs = []
   | Some e \<Rightarrow> binds_of sid reqs \<noteq> [] \<and> se_scope_hash e = Some (last (binds_of sid reqs))
       \<and> se_scope_hashes e = set (binds_of sid reqs)"
  by (rule bind_all_entry)

text \<open>
  The idle sweep drops exactly the sessions last seen before the cutoff and returns how many:
  every other entry is unchanged, and a second sweep at the same time drops none.
\<close>

lemma session_evict_exact:
  assumes "dict_wf m"
  shows "map_of (snd (sm_evict_idle now timeout m)) sid =
      (case map_of m sid of None \<Rightarrow> None
       | Some e \<Rightarrow> if se_last_seen_at e < now - timeout then None else Some e)
    \<and> fst (sm_evict_idle now timeout m) = card {sid. \<exists>e. map_of m sid = Some e \<and> se_last_seen_at e < now - timeout}
    \<and> fst (sm_evict_idle now timeout (snd (sm_evict_idle now timeout m))) = 0"
proof (intro conjI)
  let ?stale = "map fst (filter (\<lambda>x. se_last_seen_at (snd x) < now - timeout) m)"
  show "map_of (snd (sm_evict_idle now timeout m)) sid =
      (case map_of m sid of None \<Rightarrow> None
       | Some e \<Rightarrow> if se_last_seen_at e < now - timeout then None else Some e)"
    by (rule sm_evict_get [OF assms])
  have "distinct ?stale" using assms by (induction m) auto
  then have "length ?stale = card (set ?stale)" by (rule distinct_card [symmetric])
  moreover have "set ?stale = {sid. \<exists>e. map_of m sid = Some e \<and> se_last_seen_at e < now - timeout}"
    using od.stale_iff [OF assms, of _ "\<lambda>e. se_last_seen_at e < now - timeout"] by blast
  ultimately show "fst (sm_evict_idle now timeout m) =
      card {sid. \<exists>e. map_of m sid = Some e \<and> se_last_seen_at e < now - timeout}"
    by (simp add: sm_evict_idle_def Let_def)
  show "fst (sm_evict_idle now timeout (snd (sm_evict_idle now timeout m))) = 0"
    using od.sweep_again [OF assms, of "\<lambda>e. se_last_seen_at e < now - timeout"]
    by (simp add: sm_evict_idle_def Let_def)
qed

definition two_sessions :: sessions where
  "two_sessions = bind_all [(0, ''a'', ''h'', ''v''), (90, ''b'', ''h'', ''v'')] []"

lemma session_evict_exact_witness:
  "map_of (snd (sm_evict_idle 100 20 two_sessions)) ''a'' = None
   \<and> map_of (snd (sm_evict_idle 100 20 two_sessions)) ''b'' \<noteq> None"
proof -
  have wf: "dict_wf two_sessions" by (simp add: two_sessions_def bind_all_def sm_bind_def Let_def)
  show ?thesis
    using session_evict_exact [OF wf, of 100 20 "''a''"] session_evict_exact [OF wf, of 100 20 "''b''"]
    by (simp add: two_sessions_def bind_all_def sm_bind_def Let_def)
qed

text \<open>
  Session identification ignores the letter case of header names: any recasing of the names
  gives the same session and the same source.
\<close>

lemma session_id_case_insensitive:
  assumes "\<And>k. py_lower (f k) = py_lower k"
  shows "extract_session_id (Some (map (\<lambda>(k, v). (f k, v)) hs)) body = extract_session_id (Some hs) body"
  by (simp add: extract_session_id_def lower_keys_get_recase [OF assms])

lemma session_id_case_insensitive_witness:
  "extract_session_id (Some (map (\<lambda>(k, v). (py_lower k, v)) [(''X-Session-ID'', ''s1'')])) None
     = (Some ''s1'', ''header:x-session-id'')"
proof -
  have "extract_session_id (Some [(''X-Session-ID'', ''s1'')]) None = (Some ''s1'', ''header:x-session-id'')"
    by code_simp
  then show ?thesis
    using session_id_case_insensitive [of py_lower "[(''X-Session-ID'', ''s1'')]" None] by simp
qed

end
