(* ===== verification/Svc_Cluster.thy ===== *)
theory Svc_Cluster
  imports LC_Path
begin

text \<open>
  Path-cluster scope detection (\<open>longctx_svc/scope/cluster.py\<close>): the best ancestor
  directory of the paths a session has mentioned. The dictionary from ancestors to the
  files below them is built as the code builds it; the main lemma says what it holds, and
  the choice of the best ancestor is then characterised without reference to the order in
  which the paths came.
\<close>

record cluster_result =
  cr_ancestor :: path
  cr_unique_files :: int
  cr_total_paths :: int

definition add_file :: "path \<Rightarrow> path \<Rightarrow> (path, path set) dict \<Rightarrow> (path, path set) dict" where
  \<comment> \<open>\<open>by_ancestor[parent].add(p)\<close> on a \<open>defaultdict(set)\<close>\<close>
  "add_file p a d = dict_set a (insert p (case dict_get d a of None \<Rightarrow> {} | Some fs \<Rightarrow> fs)) d"

definition by_ancestor :: "path list \<Rightarrow> (path, path set) dict" where
  "by_ancestor unique = fold (\<lambda>p d. fold (add_file p) (path_parents p) d) unique []"

definition cluster_key :: "path \<times> path set \<Rightarrow> nat \<times> nat \<times> string" where
  "cluster_key x = (card (snd x), length (fst x), path_str (fst x))"

definition cluster_paths :: "path list \<Rightarrow> int \<Rightarrow> int \<Rightarrow> exc + cluster_result option" where
  "cluster_paths paths min_files min_depth =
     (if min_files < 1 then Inl ValueError
      else if min_depth < 1 then Inl ValueError
      else
        let unique = dedupe {} paths in
        if int (length unique) < min_files then Inr None
        else
          let qualifying = filter (\<lambda>(anc, files). min_files \<le> int (card files) \<and> min_depth \<le> int (length anc))
                (by_ancestor unique)
          in case sort_desc cluster_key qualifying of
               [] \<Rightarrow> Inr None
             | (best_anc, best_files) # _ \<Rightarrow>
                 Inr (Some \<lparr>cr_ancestor = best_anc, cr_unique_files = int (card best_files),
                   cr_total_paths = int (length unique)\<rparr>))"

definition all_clusters :: "path list \<Rightarrow> int \<Rightarrow> exc + cluster_result list" where
  "all_clusters paths min_files =
     (if min_files < 1 then Inl ValueError
      else
        let unique = dedupe {} paths in
        if int (length unique) < min_files then Inr []
        else
          let qualifying = map (\<lambda>(anc, files). \<lparr>cr_ancestor = anc, cr_unique_files = int (card files),
                  cr_total_paths = int (length unique)\<rparr>)
                (filter (\<lambda>(anc, files). min_files \<le> int (card files)) (by_ancestor unique))
          in Inr (sort_desc (\<lambda>c. (cr_unique_files c, length (cr_ancestor c), path_str (cr_ancestor c))) qualifying))"

section \<open>What the ancestor dictionary holds\<close>

definition files_under :: "path set \<Rightarrow> path \<Rightarrow> path set" where
  "files_under ps a = {p \<in> ps. a \<in> set (path_parents p)}"

lemma finite_files_under [simp]: "finite ps \<Longrightarrow> finite (files_under ps a)"
  by (simp add: files_under_def)

lemma files_under_insert:
  "files_under (insert p ps) a =
     (if a \<in> set (path_parents p) then insert p (files_under ps a) else files_under ps a)"
  by (auto simp: files_under_def)

lemma add_files_get:
  "map_of (fold (add_file p) as d) a =
     (if a \<in> set as then Some (insert p (case map_of d a of None \<Rightarrow> {} | Some fs \<Rightarrow> fs)) else map_of d a)"
  by (induction as arbitrary: d) (auto simp: add_file_def dict_simps split: option.splits)

lemma add_files_wf: "dict_wf d \<Longrightarrow> dict_wf (fold (add_file p) as d)"
  by (induction as arbitrary: d) (simp_all add: add_file_def distinct_update)

lemma by_ancestor_snoc:
  "by_ancestor (ps @ [p]) = fold (add_file p) (path_parents p) (by_ancestor ps)"
  by (simp add: by_ancestor_def)

lemma by_ancestor_get:
  "map_of (by_ancestor ps) a = (if files_under (set ps) a = {} then None else Some (files_under (set ps) a))"
proof (induction ps rule: rev_induct)
  case Nil
  then show ?case by (simp add: by_ancestor_def files_under_def)
next
  case (snoc p ps)
  then show ?case
    by (auto simp: by_ancestor_snoc add_files_get files_under_insert)
qed

lemma by_ancestor_wf: "dict_wf (by_ancestor ps)"
  by (induction ps rule: rev_induct) (auto simp: by_ancestor_snoc add_files_wf, simp add: by_ancestor_def)

lemma by_ancestor_items:
  "(a, fs) \<in> set (by_ancestor ps) \<longleftrightarrow> fs = files_under (set ps) a \<and> fs \<noteq> {}"
  by (auto simp: dict_item_get [OF by_ancestor_wf] by_ancestor_get split: if_splits)

section \<open>Which ancestor wins\<close>

definition qualifies :: "path set \<Rightarrow> int \<Rightarrow> int \<Rightarrow> path \<Rightarrow> bool" where
  "qualifies ps min_files min_depth a \<longleftrightarrow>
     min_files \<le> int (card (files_under ps a)) \<and> min_depth \<le> int (length a)"

definition beats :: "path set \<Rightarrow> path \<Rightarrow> path \<Rightarrow> bool" where
  \<comment> \<open>more files, then deeper, then later in string order\<close>
  "beats ps a b \<longleftrightarrow> (card (files_under ps b), length b, path_str b) \<le> (card (files_under ps a), length a, path_str a)"

lemma files_under_card: "card (files_under ps a) \<le> card ps" if "finite ps"
  using that by (auto intro: card_mono simp: files_under_def)

lemma qualifying_items:
  assumes "1 \<le> min_files"
  shows "(a, fs) \<in> set (filter (\<lambda>(anc, files). min_files \<le> int (card files) \<and> min_depth \<le> int (length anc))
            (by_ancestor us)) \<longleftrightarrow> fs = files_under (set us) a \<and> qualifies (set us) min_files min_depth a"
  using assms by (auto simp: by_ancestor_items qualifies_def)

lemma cluster_paths_None:
  assumes "1 \<le> min_files" "1 \<le> min_depth"
  shows "cluster_paths ps min_files min_depth = Inr None \<longleftrightarrow> (\<forall>a. \<not> qualifies (set ps) min_files min_depth a)"
proof -
  let ?us = "dedupe {} ps"
  let ?q = "filter (\<lambda>(anc, files). min_files \<le> int (card files) \<and> min_depth \<le> int (length anc)) (by_ancestor ?us)"
  have us: "set ?us = set ps" by (simp add: set_dedupe)
  have short: "\<not> qualifies (set ps) min_files min_depth a" if "int (length ?us) < min_files" for a
    using that files_under_card [of "set ps" a] by (auto simp: qualifies_def length_dedupe)
  have q: "?q = [] \<longleftrightarrow> (\<forall>a. \<not> qualifies (set ps) min_files min_depth a)"
  proof
    assume "?q = []"
    then have "(a, files_under (set ps) a) \<notin> set ?q" for a by (metis empty_iff list.set(1))
    then show "\<forall>a. \<not> qualifies (set ps) min_files min_depth a"
      using qualifying_items [OF assms(1), of _ _ min_depth ?us, unfolded us] by blast
  next
    assume none: "\<forall>a. \<not> qualifies (set ps) min_files min_depth a"
    have no: "(a, fs) \<notin> set ?q" for a fs
      using none qualifying_items [OF assms(1), of a fs min_depth ?us, unfolded us] by blast
    show "?q = []" by (rule pair_list_empty) (rule no)
  qed
  show ?thesis
  proof (cases "int (length ?us) < min_files")
    case True
    then show ?thesis using assms short by (simp add: cluster_paths_def)
  next
    case False
    then have "cluster_paths ps min_files min_depth = Inr None \<longleftrightarrow> sort_desc cluster_key ?q = []"
      using assms by (simp add: cluster_paths_def Let_def del: sort_desc_Nil split: list.split prod.split)
    then show ?thesis using q by simp
  qed
qed

lemma cluster_paths_Some:
  assumes "1 \<le> min_files" "1 \<le> min_depth"
    and "cluster_paths ps min_files min_depth = Inr (Some r)"
  shows "qualifies (set ps) min_files min_depth (cr_ancestor r)"
    and "cr_unique_files r = int (card (files_under (set ps) (cr_ancestor r)))"
    and "cr_total_paths r = int (card (set ps))"
    and "qualifies (set ps) min_files min_depth b \<Longrightarrow> beats (set ps) (cr_ancestor r) b"
proof -
  let ?us = "dedupe {} ps"
  let ?q = "filter (\<lambda>(anc, files). min_files \<le> int (card files) \<and> min_depth \<le> int (length anc)) (by_ancestor ?us)"
  have us: "set ?us = set ps" by (simp add: set_dedupe)
  note items = qualifying_items [OF assms(1), of _ _ min_depth ?us, unfolded us]
  obtain anc files rest where srt: "sort_desc cluster_key ?q = (anc, files) # rest"
    and r: "r = \<lparr>cr_ancestor = anc, cr_unique_files = int (card files), cr_total_paths = int (length ?us)\<rparr>"
    using assms by (auto simp: cluster_paths_def Let_def split: if_splits list.splits)
  have "(anc, files) \<in> set ?q"
    using srt by (metis list.set_intros(1) set_sort_desc)
  then have best: "files = files_under (set ps) anc" "qualifies (set ps) min_files min_depth anc"
    using items by blast+
  show "qualifies (set ps) min_files min_depth (cr_ancestor r)"
    and "cr_unique_files r = int (card (files_under (set ps) (cr_ancestor r)))"
    and "cr_total_paths r = int (card (set ps))"
    using best by (simp_all add: r length_dedupe)
  assume "qualifies (set ps) min_files min_depth b"
  then have "(b, files_under (set ps) b) \<in> set ?q" using items by blast
  from hd_sort_desc_max [OF this, of cluster_key] show "beats (set ps) (cr_ancestor r) b"
    by (simp add: srt cluster_key_def beats_def r best)
qed

lemma cluster_paths_total: "1 \<le> min_files \<Longrightarrow> 1 \<le> min_depth \<Longrightarrow> \<exists>r. cluster_paths ps min_files min_depth = Inr r"
  by (auto simp: cluster_paths_def Let_def split: list.split)

lemma beats_antisym:
  assumes "wf_path a" "wf_path b" "beats ps a b" "beats ps b a"
  shows "a = b"
  using assms path_str_inj [of a b] by (auto simp: beats_def)

lemma qualifies_wf:
  assumes "\<forall>p \<in> ps. wf_path p" "qualifies ps min_files min_depth a" "1 \<le> min_files"
  shows "wf_path a"
proof -
  have "files_under ps a \<noteq> {}" using assms(2,3) by (auto simp: qualifies_def)
  then obtain p where "p \<in> ps" "a \<in> set (path_parents p)" by (auto simp: files_under_def)
  then show ?thesis using assms(1) by (auto simp: path_parents_def intro: wf_path_take)
qed

text \<open>The choice depends on which paths were mentioned, not on their order or repetition.\<close>

lemma cluster_paths_set:
  assumes "set xs = set ys" and wf: "\<forall>p \<in> set xs. wf_path p"
  shows "cluster_paths xs min_files min_depth = cluster_paths ys min_files min_depth"
proof (cases "1 \<le> min_files \<and> 1 \<le> min_depth")
  case True
  then obtain r s where r: "cluster_paths xs min_files min_depth = Inr r"
    and s: "cluster_paths ys min_files min_depth = Inr s"
    using cluster_paths_total by meson
  have none: "r = None \<longleftrightarrow> s = None"
    using cluster_paths_None [of min_files min_depth xs] cluster_paths_None [of min_files min_depth ys]
      True r s assms(1) by auto
  show ?thesis
  proof (cases r)
    case None
    then show ?thesis using none r s by simp
  next
    case (Some r')
    then obtain s' where s': "s = Some s'" using none by auto
    note R = cluster_paths_Some [OF _ _ r [unfolded Some]] and S = cluster_paths_Some [OF _ _ s [unfolded s']]
    have qr: "qualifies (set xs) min_files min_depth (cr_ancestor r')"
      and qs: "qualifies (set xs) min_files min_depth (cr_ancestor s')"
      using R(1) S(1) True assms(1) by auto
    have "cr_ancestor r' = cr_ancestor s'"
    proof (rule beats_antisym)
      show "wf_path (cr_ancestor r')" "wf_path (cr_ancestor s')"
        using qualifies_wf [OF wf] qr qs True by auto
      show "beats (set xs) (cr_ancestor r') (cr_ancestor s')" using R(4) qs True by simp
      show "beats (set xs) (cr_ancestor s') (cr_ancestor r')" using S(4) qr True assms(1) by simp
    qed
    then have "r' = s'" using R(2,3) S(2,3) True assms(1) by (cases r'; cases s') simp
    then show ?thesis using Some s' r s by simp
  qed
next
  case False
  then show ?thesis by (auto simp: cluster_paths_def)
qed

lemma all_clusters_spec:
  assumes "1 \<le> min_files" and "all_clusters ps min_files = Inr rs"
  shows "r \<in> set rs \<longleftrightarrow> qualifies (set ps) min_files 0 (cr_ancestor r)
      \<and> r = \<lparr>cr_ancestor = cr_ancestor r, cr_unique_files = int (card (files_under (set ps) (cr_ancestor r))),
           cr_total_paths = int (card (set ps))\<rparr>"
proof -
  let ?us = "dedupe {} ps"
  have us: "set ?us = set ps" by (simp add: set_dedupe)
  have short: "\<not> qualifies (set ps) min_files 0 a" if "int (length ?us) < min_files" for a
    using that files_under_card [of "set ps" a] by (auto simp: qualifies_def length_dedupe)
  show ?thesis
  proof (cases "int (length ?us) < min_files")
    case True
    then show ?thesis using assms short by (auto simp: all_clusters_def)
  next
    case False
    have items: "(a, fs) \<in> set (by_ancestor ?us) \<and> min_files \<le> int (card fs)
        \<longleftrightarrow> fs = files_under (set ps) a \<and> qualifies (set ps) min_files 0 a" for a fs
      using assms(1) by (auto simp: by_ancestor_items us qualifies_def)
    have "r \<in> set rs \<longleftrightarrow> (\<exists>a fs. (a, fs) \<in> set (by_ancestor ?us) \<and> min_files \<le> int (card fs)
        \<and> r = \<lparr>cr_ancestor = a, cr_unique_files = int (card fs), cr_total_paths = int (length ?us)\<rparr>)"
      using assms False by (auto simp: all_clusters_def Let_def image_iff)
    then show ?thesis
      unfolding items [THEN conj_cong, simplified] using items
      by (metis (no_types, lifting) cluster_result.select_convs(1) length_dedupe)
  qed
qed

section \<open>The contract\<close>

text \<open>
  Cluster detection picks the best ancestor directory. With thresholds of at least one it
  finds nothing iff no directory has enough of the distinct mentioned files below it at enough
  depth; otherwise its result is such a directory, with the exact counts of files below it and
  of distinct paths, and no qualifying directory has more files, or as many and more depth.
\<close>

lemma cluster_best:
  assumes "1 \<le> min_files" "1 \<le> min_depth"
  shows "(cluster_paths ps min_files min_depth = Inr None \<longleftrightarrow> (\<forall>a. \<not> qualifies (set ps) min_files min_depth a))
    \<and> (\<forall>r. cluster_paths ps min_files min_depth = Inr (Some r) \<longrightarrow>
         qualifies (set ps) min_files min_depth (cr_ancestor r)
       \<and> cr_unique_files r = int (card (files_under (set ps) (cr_ancestor r)))
       \<and> cr_total_paths r = int (card (set ps))
       \<and> (\<forall>b. qualifies (set ps) min_files min_depth b \<longrightarrow> beats (set ps) (cr_ancestor r) b))"
  using cluster_paths_None [OF assms] cluster_paths_Some [OF assms] by blast

definition demo_paths :: "path list" where
  "demo_paths = [[''p'', ''a'', ''x''], [''p'', ''a'', ''y''], [''p'', ''b'', ''z''], [''p'', ''a'', ''x'']]"

lemma cluster_best_witness:
  "cluster_paths demo_paths 2 1 = Inr (Some \<lparr>cr_ancestor = [''p''], cr_unique_files = 3, cr_total_paths = 3\<rparr>)
   \<and> qualifies (set demo_paths) 2 1 [''p''] \<and> beats (set demo_paths) [''p''] [''p'']"
proof -
  have "cluster_paths demo_paths 2 1 = Inr (Some \<lparr>cr_ancestor = [''p''], cr_unique_files = 3, cr_total_paths = 3\<rparr>)"
    by code_simp
  then show ?thesis using cluster_best [of 2 1 demo_paths] by simp
qed

text \<open>
  Cluster detection depends only on the set of mentioned paths. Two sessions that mention the
  same well-formed paths, in any order and with any repetitions, get the same answer.
\<close>

lemma cluster_order_free:
  assumes "set xs = set ys" "\<forall>p \<in> set xs. wf_path p"
  shows "cluster_paths xs min_files min_depth = cluster_paths ys min_files min_depth"
  by (rule cluster_paths_set [OF assms])

lemma cluster_order_free_witness:
  "cluster_paths (rev demo_paths) 2 1 = cluster_paths demo_paths 2 1"
proof (rule cluster_order_free)
  show "\<forall>p \<in> set (rev demo_paths). wf_path p" by code_simp
qed simp

end
