(* ===== verification/Svc_Tracker.thy ===== *)
theory Svc_Tracker
  imports Svc_Cluster
begin

text \<open>
  The per-session phase machine (\<open>longctx_svc/scope/tracker.py\<close>): watch, speculative,
  active, demoted. \<open>observe\<close> is one turn: it records the paths, recomputes the topc
  cluster, advances the phases and demotes idle candidates, and returns the tick with the
  list of transitions beside the new tracker. The lock makes each \<open>observe\<close> atomic, so a
  run of a session is a sequence of turns. One wall-clock reading \<open>now\<close> stands for the
  readings one call makes. The session's set of paths is a duplicate-free list in the order
  of first mention; \<open>cluster_paths_set\<close> of \<open>Svc_Cluster\<close> says the order is immaterial.
\<close>

datatype phase = WATCH | SPECULATIVE | ACTIVE | DEMOTED

record candidate =
  c_ancestor :: path
  c_phase :: phase
  c_unique_files :: int
  c_first_seen_turn :: int
  c_last_seen_turn :: int
  c_promoted_at :: "time option"
  c_demoted_at :: "time option"

definition is_alive :: "candidate \<Rightarrow> bool" where
  "is_alive c \<longleftrightarrow> c_phase c = SPECULATIVE \<or> c_phase c = ACTIVE"

type_synonym transition = "path \<times> phase \<times> phase"

record tick_result =
  tk_active :: "candidate option"
  tk_speculative :: "candidate list"
  tk_transitions :: "transition list"
  tk_turn :: int

definition has_active :: "tick_result \<Rightarrow> bool" where
  "has_active t \<longleftrightarrow> tk_active t \<noteq> None"

type_synonym candidates = "(path, candidate) dict"

record tracker =
  t_spec_min :: int
  t_active_min :: int
  t_active_min_turns :: int
  t_demote_after :: int
  t_drift_gap :: int
  t_turn :: int
  t_candidates :: candidates
  t_paths_seen :: "path list"

definition tracker_new :: "int \<Rightarrow> int \<Rightarrow> int \<Rightarrow> int \<Rightarrow> int \<Rightarrow> exc + tracker" where
  "tracker_new speculate_min_files active_min_files active_min_turns demote_after_idle_turns drift_required_gap =
     (if speculate_min_files < 1 then Inl ValueError
      else if active_min_files < speculate_min_files then Inl ValueError
      else if demote_after_idle_turns < 1 then Inl ValueError
      else Inr \<lparr>t_spec_min = speculate_min_files, t_active_min = active_min_files,
        t_active_min_turns = active_min_turns, t_demote_after = demote_after_idle_turns,
        t_drift_gap = drift_required_gap, t_turn = 0, t_candidates = [], t_paths_seen = []\<rparr>)"

definition find_active :: "candidates \<Rightarrow> candidate option" where
  \<comment> \<open>\<open>active\<close> and \<open>_active_locked\<close>: the first ACTIVE value in dictionary order\<close>
  "find_active cs = find (\<lambda>c. c_phase c = ACTIVE) (map snd cs)"

definition speculative :: "candidates \<Rightarrow> candidate list" where
  "speculative cs = filter (\<lambda>c. c_phase c = SPECULATIVE) (map snd cs)"

definition put_cand :: "candidate \<Rightarrow> candidates \<Rightarrow> candidates" where
  \<comment> \<open>the candidates are shared objects: a write to one is a write to its dictionary value\<close>
  "put_cand c cs = dict_set (c_ancestor c) c cs"

section \<open>One turn\<close>

definition refresh_candidate :: "int \<Rightarrow> cluster_result \<Rightarrow> candidates \<Rightarrow> candidate" where
  \<comment> \<open>look the top cluster up or create it, refresh its evidence, revive it from DEMOTED\<close>
  "refresh_candidate turn topc cs =
     (let cand = (case dict_get cs (cr_ancestor topc) of
                    Some c \<Rightarrow> c
                  | None \<Rightarrow> \<lparr>c_ancestor = cr_ancestor topc, c_phase = WATCH,
                      c_unique_files = cr_unique_files topc, c_first_seen_turn = turn,
                      c_last_seen_turn = turn, c_promoted_at = None, c_demoted_at = None\<rparr>);
          cand = cand\<lparr>c_unique_files := cr_unique_files topc, c_last_seen_turn := turn\<rparr>
      in if c_phase cand = DEMOTED then cand\<lparr>c_phase := WATCH, c_first_seen_turn := turn\<rparr> else cand)"

definition prev_phase :: "cluster_result \<Rightarrow> candidates \<Rightarrow> phase" where
  "prev_phase topc cs = (case dict_get cs (cr_ancestor topc) of Some c \<Rightarrow> c_phase c | None \<Rightarrow> WATCH)"

definition drift_check :: "tracker \<Rightarrow> time \<Rightarrow> candidate \<Rightarrow> candidates \<times> transition list \<Rightarrow> candidates \<times> transition list" where
  \<comment> \<open>the fresh challenger may push the active candidate aside\<close>
  "drift_check t now cand = (\<lambda>(cs, trs).
     case find_active cs of
       None \<Rightarrow> (cs, trs)
     | Some a \<Rightarrow>
         if c_ancestor a \<noteq> c_ancestor cand
            \<and> c_unique_files a + t_drift_gap t \<le> c_unique_files cand
            \<and> t_active_min t \<le> c_unique_files cand
         then (put_cand (a\<lparr>c_phase := DEMOTED, c_demoted_at := Some now\<rparr>) cs,
               trs @ [(c_ancestor a, c_phase a, DEMOTED)])
         else (cs, trs))"

definition to_speculative :: "tracker \<Rightarrow> phase \<Rightarrow> candidate \<Rightarrow> candidate \<times> transition list" where
  "to_speculative t prev cand =
     (if c_phase cand = WATCH \<and> t_spec_min t \<le> c_unique_files cand
      then (cand\<lparr>c_phase := SPECULATIVE\<rparr>, [(c_ancestor cand, prev, SPECULATIVE)])
      else (cand, []))"

definition to_active :: "tracker \<Rightarrow> int \<Rightarrow> time \<Rightarrow> candidates \<Rightarrow> candidate \<Rightarrow> candidate \<times> transition list" where
  "to_active t turn now cs cand =
     (if c_phase cand = SPECULATIVE then
        let sustained_turns = (turn - c_first_seen_turn cand) + 1;
            should_activate = (t_active_min t \<le> c_unique_files cand \<or> t_active_min_turns t \<le> sustained_turns);
            free = (case find_active cs of None \<Rightarrow> True | Some a \<Rightarrow> c_ancestor a = c_ancestor cand)
        in if should_activate \<and> free
           then (cand\<lparr>c_phase := ACTIVE, c_promoted_at := Some now\<rparr>, [(c_ancestor cand, c_phase cand, ACTIVE)])
           else (cand, [])
      else (cand, []))"

definition has_fresh :: "path \<Rightarrow> path list \<Rightarrow> bool" where
  "has_fresh anc touched \<longleftrightarrow> (\<exists>p \<in> set touched. anc \<in> set (path_parents p))"

definition update_phases ::
  "tracker \<Rightarrow> int \<Rightarrow> time \<Rightarrow> cluster_result option \<Rightarrow> path list \<Rightarrow> candidates \<Rightarrow> candidates \<times> transition list" where
  "update_phases t turn now topc touched cs =
     (case topc of
        None \<Rightarrow> (cs, [])
      | Some topc \<Rightarrow>
          if \<not> has_fresh (cr_ancestor topc) touched then (cs, [])
          else
            let prev = prev_phase topc cs;
                cand = refresh_candidate turn topc cs;
                (cs, trs) = drift_check t now cand (put_cand cand cs, []);
                (cand, trs1) = to_speculative t prev cand;
                cs = put_cand cand cs;
                (cand, trs2) = to_active t turn now cs cand
            in (put_cand cand cs, trs @ trs1 @ trs2))"

fun demote_idle :: "int \<Rightarrow> int \<Rightarrow> time \<Rightarrow> candidates \<Rightarrow> candidates \<times> transition list" where
  "demote_idle turn after now [] = ([], [])"
| "demote_idle turn after now ((k, c) # cs) =
     (let (cs', trs) = demote_idle turn after now cs in
      if \<not> is_alive c then ((k, c) # cs', trs)
      else if after \<le> turn - c_last_seen_turn c
      then ((k, c\<lparr>c_phase := DEMOTED, c_demoted_at := Some now\<rparr>) # cs', (c_ancestor c, c_phase c, DEMOTED) # trs)
      else ((k, c) # cs', trs))"

definition observe :: "time \<Rightarrow> path list \<Rightarrow> tracker \<Rightarrow> exc + tick_result \<times> tracker" where
  "observe now paths_this_turn t =
     (let turn = t_turn t + 1;
          seen = t_paths_seen t @ dedupe (set (t_paths_seen t)) paths_this_turn
      in case cluster_paths seen (t_spec_min t) 2 of
           Inl e \<Rightarrow> Inl e
         | Inr topc \<Rightarrow>
             let (cs, trs) = update_phases t turn now topc paths_this_turn (t_candidates t);
                 (cs, trs') = demote_idle turn (t_demote_after t) now cs
             in Inr (\<lparr>tk_active = find_active cs, tk_speculative = speculative cs,
                       tk_transitions = trs @ trs', tk_turn = turn\<rparr>,
                     t\<lparr>t_turn := turn, t_candidates := cs, t_paths_seen := seen\<rparr>))"

section \<open>The invariant\<close>

definition cand_ok :: "int \<Rightarrow> candidate \<Rightarrow> bool" where
  "cand_ok turn c \<longleftrightarrow> c_first_seen_turn c \<le> c_last_seen_turn c \<and> c_last_seen_turn c \<le> turn"

definition only_active :: "candidates \<Rightarrow> path \<Rightarrow> bool" where
  \<comment> \<open>no candidate other than \<open>a\<close> is ACTIVE\<close>
  "only_active cs a \<longleftrightarrow> (\<forall>k c. map_of cs k = Some c \<and> c_phase c = ACTIVE \<longrightarrow> k = a)"

definition cands_inv :: "int \<Rightarrow> candidates \<Rightarrow> bool" where
  "cands_inv turn cs \<longleftrightarrow> dict_wf cs
     \<and> (\<forall>k c. map_of cs k = Some c \<longrightarrow> c_ancestor c = k \<and> cand_ok turn c)
     \<and> (\<forall>k c. map_of cs k = Some c \<and> c_phase c = ACTIVE \<longrightarrow> only_active cs k)"

definition no_watch :: "candidates \<Rightarrow> bool" where
  "no_watch cs \<longleftrightarrow> (\<forall>k c. map_of cs k = Some c \<longrightarrow> c_phase c \<noteq> WATCH)"

definition tracker_inv :: "tracker \<Rightarrow> bool" where
  "tracker_inv t \<longleftrightarrow> 1 \<le> t_spec_min t \<and> t_spec_min t \<le> t_active_min t \<and> 1 \<le> t_demote_after t
     \<and> 0 \<le> t_turn t \<and> cands_inv (t_turn t) (t_candidates t) \<and> no_watch (t_candidates t)
     \<and> distinct (t_paths_seen t)"

lemma find_active_Some:
  assumes "find_active cs = Some a" "dict_wf cs"
  shows "\<exists>k. map_of cs k = Some a \<and> c_phase a = ACTIVE"
proof -
  obtain k where "(k, a) \<in> set cs" "c_phase a = ACTIVE"
    using assms(1) by (auto simp: find_active_def find_Some_iff) (metis nth_mem prod.collapse)
  then show ?thesis using assms(2) by (metis map_of_is_SomeI)
qed

lemma find_active_None: "find_active cs = None \<Longrightarrow> map_of cs k = Some c \<Longrightarrow> c_phase c \<noteq> ACTIVE"
  by (force simp: find_active_def find_None_iff dest: map_of_SomeD)

lemma find_active_iff:
  assumes "cands_inv turn cs"
  shows "find_active cs = Some a \<longleftrightarrow> map_of cs (c_ancestor a) = Some a \<and> c_phase a = ACTIVE"
proof
  assume "find_active cs = Some a"
  then show "map_of cs (c_ancestor a) = Some a \<and> c_phase a = ACTIVE"
    using find_active_Some [of cs a] assms by (auto simp: cands_inv_def)
next
  assume a: "map_of cs (c_ancestor a) = Some a \<and> c_phase a = ACTIVE"
  then obtain b where b: "find_active cs = Some b" using find_active_None [of cs] by (cases "find_active cs") auto
  then obtain k where "map_of cs k = Some b" "c_phase b = ACTIVE"
    using find_active_Some [OF b] assms by (auto simp: cands_inv_def)
  then have "k = c_ancestor a" using a assms by (auto simp: cands_inv_def only_active_def)
  then show "find_active cs = Some a" using a b \<open>map_of cs k = Some b\<close> by simp
qed

lemma put_cand_get: "map_of (put_cand c cs) k = (if k = c_ancestor c then Some c else map_of cs k)"
  by (simp add: put_cand_def update_conv')

lemma cands_inv_put [inv_intros]:
  assumes "cands_inv turn cs" and "cand_ok turn c"
    and "c_phase c = ACTIVE \<Longrightarrow> only_active cs (c_ancestor c)"
  shows "cands_inv turn (put_cand c cs)"
proof -
  have "dict_wf (put_cand c cs)" using assms(1) by (simp add: cands_inv_def put_cand_def distinct_update)
  then show ?thesis
    using assms by (auto simp: cands_inv_def put_cand_get only_active_def split: if_splits)
qed

lemma cands_inv_active:
  "cands_inv n cs \<Longrightarrow> map_of cs k = Some c \<Longrightarrow> c_phase c = ACTIVE \<Longrightarrow> only_active cs k"
  by (auto simp: cands_inv_def)

lemma cands_inv_later: "cands_inv turn cs \<Longrightarrow> turn \<le> turn' \<Longrightarrow> cands_inv turn' cs"
  by (force simp: cands_inv_def cand_ok_def)

section \<open>The idle check\<close>

definition demote_one :: "int \<Rightarrow> int \<Rightarrow> time \<Rightarrow> candidate \<Rightarrow> candidate" where
  "demote_one turn after now c =
     (if is_alive c \<and> after \<le> turn - c_last_seen_turn c
      then c\<lparr>c_phase := DEMOTED, c_demoted_at := Some now\<rparr> else c)"

lemma demote_idle_map: "fst (demote_idle turn after now cs) = map (\<lambda>(k, c). (k, demote_one turn after now c)) cs"
  by (induction turn after now cs rule: demote_idle.induct)
    (auto simp: demote_one_def Let_def split: prod.split)

lemma demote_idle_get:
  "map_of (fst (demote_idle turn after now cs)) k = map_option (demote_one turn after now) (map_of cs k)"
  by (simp add: demote_idle_map map_of_map)

lemma demote_idle_transitions:
  "snd (demote_idle turn after now cs) =
     map (\<lambda>c. (c_ancestor c, c_phase c, DEMOTED))
       (filter (\<lambda>c. is_alive c \<and> after \<le> turn - c_last_seen_turn c) (map snd cs))"
  by (induction turn after now cs rule: demote_idle.induct) (auto simp: Let_def split: prod.split)

lemma demote_one_simps [simp]:
  "c_ancestor (demote_one turn after now c) = c_ancestor c"
  "c_last_seen_turn (demote_one turn after now c) = c_last_seen_turn c"
  "c_first_seen_turn (demote_one turn after now c) = c_first_seen_turn c"
  "c_unique_files (demote_one turn after now c) = c_unique_files c"
  by (simp_all add: demote_one_def)

lemma demote_one_phase:
  "c_phase (demote_one turn after now c) =
     (if is_alive c \<and> after \<le> turn - c_last_seen_turn c then DEMOTED else c_phase c)"
  by (simp add: demote_one_def)

lemma demote_one_alive:
  "is_alive (demote_one turn after now c) \<longleftrightarrow> is_alive c \<and> turn - c_last_seen_turn c < after"
  by (auto simp: is_alive_def demote_one_phase)

lemma cands_inv_demote [inv_intros]:
  assumes "cands_inv turn cs"
  shows "cands_inv turn (fst (demote_idle turn after now cs))"
proof -
  have "map fst (fst (demote_idle turn after now cs)) = map fst cs"
    by (simp add: demote_idle_map comp_def split_beta')
  then show ?thesis
    using assms by (auto simp: cands_inv_def demote_idle_get only_active_def cand_ok_def demote_one_phase
        split: if_splits)
qed

lemma no_watch_demote: "no_watch cs \<Longrightarrow> no_watch (fst (demote_idle turn after now cs))"
  by (auto simp: no_watch_def demote_idle_get demote_one_phase split: if_splits)

section \<open>The phase ladder\<close>

lemma refresh_simps [simp]:
  "c_unique_files (refresh_candidate turn topc cs) = cr_unique_files topc"
  "c_last_seen_turn (refresh_candidate turn topc cs) = turn"
  by (auto simp: refresh_candidate_def Let_def)

lemma refresh_ancestor: "cands_inv n cs \<Longrightarrow> c_ancestor (refresh_candidate turn topc cs) = cr_ancestor topc"
  by (auto simp: refresh_candidate_def Let_def cands_inv_def split: option.splits)

lemma refresh_phase:
  "c_phase (refresh_candidate turn topc cs) =
     (if prev_phase topc cs = DEMOTED then WATCH else prev_phase topc cs)"
  by (auto simp: refresh_candidate_def Let_def prev_phase_def split: option.splits)

lemma refresh_ok: "cands_inv n cs \<Longrightarrow> n \<le> turn \<Longrightarrow> cand_ok turn (refresh_candidate turn topc cs)"
  by (force simp: refresh_candidate_def Let_def cands_inv_def cand_ok_def split: option.splits)

lemma refresh_active:
  assumes "cands_inv n cs" "c_phase (refresh_candidate turn topc cs) = ACTIVE"
  shows "only_active cs (cr_ancestor topc)"
  using assms by (auto simp: refresh_phase prev_phase_def cands_inv_def split: if_splits option.splits)

text \<open>What the drift check does to the dictionary, and when it fires.\<close>

definition drifts :: "tracker \<Rightarrow> candidate \<Rightarrow> candidates \<Rightarrow> bool" where
  "drifts t cand cs \<longleftrightarrow> (\<exists>a. find_active cs = Some a \<and> c_ancestor a \<noteq> c_ancestor cand
     \<and> c_unique_files a + t_drift_gap t \<le> c_unique_files cand \<and> t_active_min t \<le> c_unique_files cand)"

lemma drift_check_kept: "\<not> drifts t cand cs \<Longrightarrow> drift_check t now cand (cs, trs) = (cs, trs)"
  by (auto simp: drift_check_def drifts_def split: option.splits)

lemma drift_check_moved:
  assumes "cands_inv turn cs" "drifts t cand cs"
  shows "\<exists>a. find_active cs = Some a \<and> c_ancestor a \<noteq> c_ancestor cand \<and> c_phase a = ACTIVE
    \<and> map_of cs (c_ancestor a) = Some a
    \<and> drift_check t now cand (cs, trs) =
         (put_cand (a\<lparr>c_phase := DEMOTED, c_demoted_at := Some now\<rparr>) cs, trs @ [(c_ancestor a, ACTIVE, DEMOTED)])"
proof -
  obtain a where a: "find_active cs = Some a" "c_ancestor a \<noteq> c_ancestor cand"
    "c_unique_files a + t_drift_gap t \<le> c_unique_files cand" "t_active_min t \<le> c_unique_files cand"
    using assms(2) by (auto simp: drifts_def)
  moreover have "map_of cs (c_ancestor a) = Some a \<and> c_phase a = ACTIVE"
    using a(1) find_active_iff [OF assms(1)] by blast
  ultimately show ?thesis by (simp add: drift_check_def)
qed

lemma drift_check_inv:
  assumes "cands_inv turn cs"
  shows "cands_inv turn (fst (drift_check t now cand (cs, trs)))"
proof (cases "drifts t cand cs")
  case False
  then show ?thesis using assms by (simp add: drift_check_kept)
next
  case True
  then obtain a where a: "map_of cs (c_ancestor a) = Some a"
    "fst (drift_check t now cand (cs, trs)) = put_cand (a\<lparr>c_phase := DEMOTED, c_demoted_at := Some now\<rparr>) cs"
    using drift_check_moved [OF assms True, of now trs] by auto
  then have "cand_ok turn a" using assms by (auto simp: cands_inv_def)
  then show ?thesis unfolding a(2) by (intro cands_inv_put assms) (simp_all add: cand_ok_def)
qed

lemma drift_check_get_other:
  assumes "cands_inv turn cs" "\<not> (\<exists>a. find_active cs = Some a \<and> c_ancestor a = k)"
  shows "map_of (fst (drift_check t now cand (cs, trs))) k = map_of cs k"
proof (cases "drifts t cand cs")
  case True
  then show ?thesis using drift_check_moved [OF assms(1) True, of now trs] assms(2) by (auto simp: put_cand_get)
qed (simp add: drift_check_kept)

lemma drift_check_get_cand:
  assumes "cands_inv turn cs"
  shows "map_of (fst (drift_check t now cand (cs, trs))) (c_ancestor cand) = map_of cs (c_ancestor cand)"
proof (cases "drifts t cand cs")
  case True
  then show ?thesis using drift_check_moved [OF assms True, of now trs] by (auto simp: put_cand_get)
qed (simp add: drift_check_kept)

lemma to_speculative_simps [simp]:
  "c_ancestor (fst (to_speculative t prev c)) = c_ancestor c"
  "c_unique_files (fst (to_speculative t prev c)) = c_unique_files c"
  "c_first_seen_turn (fst (to_speculative t prev c)) = c_first_seen_turn c"
  "c_last_seen_turn (fst (to_speculative t prev c)) = c_last_seen_turn c"
  by (simp_all add: to_speculative_def)

lemma to_active_simps [simp]:
  "c_ancestor (fst (to_active t turn now cs c)) = c_ancestor c"
  "c_unique_files (fst (to_active t turn now cs c)) = c_unique_files c"
  "c_first_seen_turn (fst (to_active t turn now cs c)) = c_first_seen_turn c"
  "c_last_seen_turn (fst (to_active t turn now cs c)) = c_last_seen_turn c"
  by (simp_all add: to_active_def Let_def)

lemma to_speculative_phase:
  "c_phase (fst (to_speculative t prev c)) =
     (if c_phase c = WATCH \<and> t_spec_min t \<le> c_unique_files c then SPECULATIVE else c_phase c)"
  by (simp add: to_speculative_def)

lemma to_active_phase:
  "c_phase (fst (to_active t turn now cs c)) =
     (if c_phase c = SPECULATIVE
         \<and> (t_active_min t \<le> c_unique_files c \<or> t_active_min_turns t \<le> turn - c_first_seen_turn c + 1)
         \<and> (\<forall>a. find_active cs = Some a \<longrightarrow> c_ancestor a = c_ancestor c)
      then ACTIVE else c_phase c)"
  by (auto simp: to_active_def Let_def split: option.splits)

lemma only_active_put:
  "c_phase c \<noteq> ACTIVE \<Longrightarrow> only_active cs k \<Longrightarrow> only_active (put_cand c cs) k"
  by (auto simp: only_active_def put_cand_get split: if_splits)

lemma cand_ok_cong:
  "c_first_seen_turn c' = c_first_seen_turn c \<Longrightarrow> c_last_seen_turn c' = c_last_seen_turn c \<Longrightarrow>
   cand_ok turn c' = cand_ok turn c"
  by (simp add: cand_ok_def)

lemma update_phases_fresh:
  "has_fresh (cr_ancestor topc) touched \<Longrightarrow>
   update_phases t turn now (Some topc) touched cs =
     (let cand0 = refresh_candidate turn topc cs;
          dc = drift_check t now cand0 (put_cand cand0 cs, []);
          sp = to_speculative t (prev_phase topc cs) cand0;
          cs3 = put_cand (fst sp) (fst dc);
          ac = to_active t turn now cs3 (fst sp)
      in (put_cand (fst ac) cs3, snd dc @ snd sp @ snd ac))"
  by (simp add: update_phases_def Let_def split: prod.split)

lemma find_active_other:
  assumes "cands_inv turn cs" "\<forall>a. find_active cs = Some a \<longrightarrow> c_ancestor a = k"
  shows "only_active cs k"
proof -
  have "k' = k" if "map_of cs k' = Some c" "c_phase c = ACTIVE" for k' c
  proof -
    have "c_ancestor c = k'" using that assms(1) by (auto simp: cands_inv_def)
    then have "find_active cs = Some c" using that find_active_iff [OF assms(1)] by simp
    then show ?thesis using assms(2) \<open>c_ancestor c = k'\<close> by auto
  qed
  then show ?thesis by (auto simp: only_active_def)
qed

lemma update_phases_inv:
  assumes inv: "cands_inv n cs" and "n \<le> turn"
  shows "cands_inv turn (fst (update_phases t turn now topo touched cs))"
proof (cases "\<exists>topc. topo = Some topc \<and> has_fresh (cr_ancestor topc) touched")
  case False
  then show ?thesis using cands_inv_later [OF inv] assms(2)
    by (auto simp: update_phases_def split: option.splits)
next
  case True
  then obtain topc where topc: "topo = Some topc" "has_fresh (cr_ancestor topc) touched" by blast
  let ?c0 = "refresh_candidate turn topc cs"
  let ?cs1 = "put_cand ?c0 cs"
  let ?cs2 = "fst (drift_check t now ?c0 (?cs1, []))"
  let ?c3 = "fst (to_speculative t (prev_phase topc cs) ?c0)"
  let ?cs3 = "put_cand ?c3 ?cs2"
  let ?c4 = "fst (to_active t turn now ?cs3 ?c3)"
  note inv' = cands_inv_later [OF inv assms(2)]
  have ok0: "cand_ok turn ?c0" using refresh_ok [OF inv assms(2)] .
  have i1: "cands_inv turn ?cs1"
    by (rule cands_inv_put [OF inv' ok0]) (use refresh_active [OF inv] refresh_ancestor [OF inv] in simp)
  have i2: "cands_inv turn ?cs2" by (rule drift_check_inv [OF i1])
  have c0: "map_of ?cs2 (c_ancestor ?c0) = Some ?c0"
    by (simp add: drift_check_get_cand [OF i1] put_cand_get)
  have i3: "cands_inv turn ?cs3"
  proof (rule cands_inv_put [OF i2])
    show "cand_ok turn ?c3" using ok0 by (simp add: cand_ok_def)
    assume "c_phase ?c3 = ACTIVE"
    then have "c_phase ?c0 = ACTIVE" by (simp add: to_speculative_phase split: if_splits)
    with cands_inv_active [OF i2 c0] show "only_active ?cs2 (c_ancestor ?c3)"
      by (simp only: to_speculative_simps)
  qed
  have "cands_inv turn (put_cand ?c4 ?cs3)"
  proof (rule cands_inv_put [OF i3])
    show "cand_ok turn ?c4" using ok0 by (simp add: cand_ok_def)
    assume a: "c_phase ?c4 = ACTIVE"
    show "only_active ?cs3 (c_ancestor ?c4)"
    proof (cases "c_phase ?c3 = ACTIVE")
      case True
      have "map_of ?cs3 (c_ancestor ?c3) = Some ?c3" by (simp only: put_cand_get simp_thms if_True)
      from cands_inv_active [OF i3 this True] show ?thesis by (simp only: to_active_simps)
    next
      case False
      then have "\<forall>a. find_active ?cs3 = Some a \<longrightarrow> c_ancestor a = c_ancestor ?c3"
        using a unfolding to_active_phase by presburger
      from find_active_other [OF i3 this] show ?thesis by (simp only: to_active_simps)
    qed
  qed
  then show ?thesis by (simp add: topc update_phases_fresh Let_def)
qed

lemma refresh_ancestor_put:
  assumes "cands_inv n cs" "n \<le> turn"
  shows "cands_inv turn (put_cand (refresh_candidate turn topc cs) cs)"
  by (rule cands_inv_put [OF cands_inv_later [OF assms] refresh_ok [OF assms]])
    (use refresh_active [OF assms(1)] refresh_ancestor [OF assms(1)] in simp)

lemma drift_keeps_only:
  assumes "cands_inv turn cs" "drifts t cand cs \<or> only_active cs k"
  shows "only_active (fst (drift_check t now cand (cs, trs))) k"
proof (cases "drifts t cand cs")
  case True
  then obtain a where a: "map_of cs (c_ancestor a) = Some a" "c_phase a = ACTIVE"
    "fst (drift_check t now cand (cs, trs)) = put_cand (a\<lparr>c_phase := DEMOTED, c_demoted_at := Some now\<rparr>) cs"
    using drift_check_moved [OF assms(1) True, of now trs] by auto
  have "only_active cs (c_ancestor a)" by (rule cands_inv_active [OF assms(1) a(1,2)])
  then show ?thesis unfolding a(3) by (auto simp: only_active_def put_cand_get)
next
  case False
  then show ?thesis using assms(2) by (simp add: drift_check_kept)
qed

definition climb :: "tracker \<Rightarrow> int \<Rightarrow> time \<Rightarrow> phase \<Rightarrow> candidate \<Rightarrow> candidates \<Rightarrow> candidate" where
  \<comment> \<open>where the promotion ladder leaves the candidate, over the dictionary the drift check left\<close>
  "climb t turn now prev c cs =
     (let c3 = fst (to_speculative t prev c) in fst (to_active t turn now (put_cand c3 cs) c3))"

lemma climb_simps [simp]:
  "c_ancestor (climb t turn now prev c cs) = c_ancestor c"
  "c_unique_files (climb t turn now prev c cs) = c_unique_files c"
  "c_last_seen_turn (climb t turn now prev c cs) = c_last_seen_turn c"
  by (simp_all add: climb_def Let_def)

lemma climb_alive:
  assumes "c_phase c \<noteq> DEMOTED" "t_spec_min t \<le> c_unique_files c"
  shows "is_alive (climb t turn now prev c cs)"
  using assms by (cases "c_phase c") (simp_all add: climb_def Let_def is_alive_def to_active_phase to_speculative_phase)

lemma climb_active:
  assumes c: "c_phase c \<noteq> DEMOTED" "t_spec_min t \<le> c_unique_files c" "t_active_min t \<le> c_unique_files c"
    and cs: "dict_wf cs" "only_active cs (c_ancestor c)"
  shows "c_phase (climb t turn now prev c cs) = ACTIVE"
proof -
  let ?c3 = "fst (to_speculative t prev c)"
  have ph: "c_phase ?c3 \<in> {SPECULATIVE, ACTIVE}"
    using c by (cases "c_phase c") (simp_all add: to_speculative_phase)
  have "c_ancestor a = c_ancestor c" if a: "find_active (put_cand ?c3 cs) = Some a" for a
  proof -
    have "dict_wf (put_cand ?c3 cs)" using cs(1) by (simp add: put_cand_def distinct_update)
    from find_active_Some [OF a this] obtain k
      where k: "map_of (put_cand ?c3 cs) k = Some a" "c_phase a = ACTIVE" by blast
    show ?thesis
    proof (cases "k = c_ancestor c")
      case True
      then have "?c3 = a" using k(1) by (simp add: put_cand_get)
      then show ?thesis using to_speculative_simps(1) [of t prev c] by simp
    next
      case False
      then have "map_of cs k = Some a" using k(1) by (simp add: put_cand_get)
      then show ?thesis using cs(2) k(2) False by (auto simp: only_active_def)
    qed
  qed
  then have all: "\<forall>a. find_active (put_cand ?c3 cs) = Some a \<longrightarrow> c_ancestor a = c_ancestor ?c3"
    unfolding to_speculative_simps by blast
  have "t_active_min t \<le> c_unique_files ?c3" using c(3) by simp
  with ph all show ?thesis unfolding climb_def Let_def to_active_phase by (metis insertE singletonD)
qed

lemma update_phases_climb:
  assumes "has_fresh (cr_ancestor topc) touched"
  shows "fst (update_phases t turn now (Some topc) touched cs) =
     (let c0 = refresh_candidate turn topc cs;
          prev = prev_phase topc cs;
          cs2 = fst (drift_check t now c0 (put_cand c0 cs, []))
      in put_cand (climb t turn now prev c0 cs2) (put_cand (fst (to_speculative t prev c0)) cs2))"
  by (simp add: update_phases_fresh [OF assms] Let_def climb_def)

text \<open>What one phase update leaves under each ancestor.\<close>

lemma update_phases_get:
  fixes t :: tracker and now :: time
  assumes inv: "cands_inv n cs" "n \<le> turn" and fresh: "has_fresh (cr_ancestor topc) touched"
  defines "c0 \<equiv> refresh_candidate turn topc cs"
  defines "cs2 \<equiv> fst (drift_check t now c0 (put_cand c0 cs, []))"
  shows "map_of (fst (update_phases t turn now (Some topc) touched cs)) k =
     (if k = cr_ancestor topc then Some (climb t turn now (prev_phase topc cs) c0 cs2) else map_of cs2 k)"
  using refresh_ancestor [OF inv(1), of turn topc]
  by (simp add: update_phases_climb [OF fresh] Let_def put_cand_get c0_def cs2_def)

lemma climbed_active:
  fixes t :: tracker and now :: time and topc :: cluster_result
  assumes inv: "cands_inv n cs" "n \<le> turn"
  defines "c0 \<equiv> refresh_candidate turn topc cs"
  defines "cs1 \<equiv> put_cand c0 cs"
  defines "cs2 \<equiv> fst (drift_check t now c0 (cs1, []))"
  assumes min: "t_spec_min t \<le> cr_unique_files topc" "t_active_min t \<le> cr_unique_files topc"
    and free: "drifts t c0 cs1 \<or> only_active cs (cr_ancestor topc)"
  shows "c_phase (climb t turn now prev c0 cs2) = ACTIVE"
proof (rule climb_active)
  have anc: "c_ancestor c0 = cr_ancestor topc" using refresh_ancestor [OF inv(1)] by (simp add: c0_def)
  have i1: "cands_inv turn cs1" unfolding cs1_def c0_def by (rule refresh_ancestor_put [OF inv])
  show "c_phase c0 \<noteq> DEMOTED" by (simp add: c0_def refresh_phase)
  show "t_spec_min t \<le> c_unique_files c0" "t_active_min t \<le> c_unique_files c0"
    using min by (simp_all add: c0_def)
  show "dict_wf cs2" using drift_check_inv [OF i1] by (simp add: cs2_def cands_inv_def)
  have "only_active cs (cr_ancestor topc) \<Longrightarrow> only_active cs1 (cr_ancestor topc)"
    by (auto simp: only_active_def cs1_def put_cand_get anc)
  with drift_keeps_only [OF i1, of t c0 "cr_ancestor topc" now "[]"] free
  show "only_active cs2 (c_ancestor c0)" by (auto simp: cs2_def anc)
qed

section \<open>A whole turn\<close>

definition seen_after :: "tracker \<Rightarrow> path list \<Rightarrow> path list" where
  "seen_after t ps = t_paths_seen t @ dedupe (set (t_paths_seen t)) ps"

lemma seen_after_distinct: "distinct (t_paths_seen t) \<Longrightarrow> distinct (seen_after t ps)"
  by (auto simp: seen_after_def distinct_dedupe set_dedupe)

lemma set_seen_after: "set (seen_after t ps) = set (t_paths_seen t) \<union> set ps"
  by (auto simp: seen_after_def set_dedupe)

definition top_cluster :: "tracker \<Rightarrow> path list \<Rightarrow> cluster_result option" where
  "top_cluster t ps = (case cluster_paths (seen_after t ps) (t_spec_min t) 2 of Inr c \<Rightarrow> c | Inl _ \<Rightarrow> None)"

definition cands_after :: "time \<Rightarrow> path list \<Rightarrow> tracker \<Rightarrow> candidates" where
  "cands_after now ps t = fst (demote_idle (t_turn t + 1) (t_demote_after t) now
     (fst (update_phases t (t_turn t + 1) now (top_cluster t ps) ps (t_candidates t))))"

lemma observe_eq:
  assumes "tracker_inv t"
  shows "\<exists>trs. observe now ps t = Inr (\<lparr>tk_active = find_active (cands_after now ps t),
      tk_speculative = speculative (cands_after now ps t),
      tk_transitions = snd (update_phases t (t_turn t + 1) now (top_cluster t ps) ps (t_candidates t)) @ trs,
      tk_turn = t_turn t + 1\<rparr>,
      t\<lparr>t_turn := t_turn t + 1, t_candidates := cands_after now ps t, t_paths_seen := seen_after t ps\<rparr>)"
proof -
  obtain c where c: "cluster_paths (seen_after t ps) (t_spec_min t) 2 = Inr c"
    using cluster_paths_total [of "t_spec_min t" 2] assms by (auto simp: tracker_inv_def)
  show ?thesis
    by (cases "update_phases t (t_turn t + 1) now c ps (t_candidates t)")
      (use c in \<open>simp add: observe_def cands_after_def top_cluster_def Let_def
         flip: seen_after_def split: prod.split\<close>)
qed

lemma top_cluster_min:
  assumes "tracker_inv t" "top_cluster t ps = Some c"
  shows "t_spec_min t \<le> cr_unique_files c"
proof -
  obtain c' where "cluster_paths (seen_after t ps) (t_spec_min t) 2 = Inr c'"
    using cluster_paths_total [of "t_spec_min t" 2] assms(1) by (auto simp: tracker_inv_def)
  then have "cluster_paths (seen_after t ps) (t_spec_min t) 2 = Inr (Some c)"
    using assms(2) by (simp add: top_cluster_def)
  from cluster_paths_Some(1,2) [OF _ _ this] assms(1) show ?thesis
    by (simp add: qualifies_def tracker_inv_def)
qed

lemma update_phases_no_watch:
  assumes inv: "cands_inv n cs" "n \<le> turn" and "no_watch cs"
    and min: "\<And>c. topo = Some c \<Longrightarrow> t_spec_min t \<le> cr_unique_files c"
  shows "no_watch (fst (update_phases t turn now topo touched cs))"
proof (cases "\<exists>c. topo = Some c \<and> has_fresh (cr_ancestor c) touched")
  case False
  then show ?thesis using assms(3) by (auto simp: update_phases_def split: option.splits)
next
  case True
  then obtain c where c: "topo = Some c" "has_fresh (cr_ancestor c) touched" by blast
  let ?c0 = "refresh_candidate turn c cs"
  let ?dc = "drift_check t now ?c0 (put_cand ?c0 cs, [])"
  have i1: "cands_inv turn (put_cand ?c0 cs)" by (rule refresh_ancestor_put [OF inv])
  have other: "c_phase x \<noteq> WATCH" if "map_of (fst ?dc) k = Some x" "k \<noteq> cr_ancestor c" for k x
  proof (cases "drifts t ?c0 (put_cand ?c0 cs)")
    case True
    then show ?thesis using drift_check_moved [OF i1 True, of now "[]"] that assms(3) refresh_ancestor [OF inv(1)]
      by (auto simp: put_cand_get no_watch_def split: if_splits)
  next
    case False
    then show ?thesis using that assms(3) refresh_ancestor [OF inv(1)]
      by (auto simp: drift_check_kept put_cand_get no_watch_def)
  qed
  have "is_alive (climb t turn now (prev_phase c cs) ?c0 (fst ?dc))"
    by (rule climb_alive) (use min c in \<open>simp_all add: refresh_phase\<close>)
  then show ?thesis using other
    by (auto simp: no_watch_def c(1) update_phases_get [OF inv c(2)] is_alive_def)
qed

lemma cands_after_inv:
  assumes "tracker_inv t"
  shows "cands_inv (t_turn t + 1) (cands_after now ps t)" and "no_watch (cands_after now ps t)"
proof -
  have i: "cands_inv (t_turn t) (t_candidates t)" and w: "no_watch (t_candidates t)"
    using assms by (simp_all add: tracker_inv_def)
  show "cands_inv (t_turn t + 1) (cands_after now ps t)"
    unfolding cands_after_def by (intro cands_inv_demote update_phases_inv [OF i]) simp
  show "no_watch (cands_after now ps t)"
    unfolding cands_after_def
    by (intro no_watch_demote update_phases_no_watch [OF i _ w]) (simp_all add: top_cluster_min [OF assms])
qed

lemma observe_inv:
  assumes "tracker_inv t"
  shows "\<exists>tick t'. observe now ps t = Inr (tick, t') \<and> tracker_inv t' \<and> t_turn t' = t_turn t + 1
    \<and> t_demote_after t' = t_demote_after t \<and> t_candidates t' = cands_after now ps t
    \<and> tk_active tick = find_active (t_candidates t')"
  using observe_eq [OF assms, of now ps] cands_after_inv [OF assms, of now ps] assms
  by (auto simp: tracker_inv_def seen_after_distinct)

text \<open>A session: the turns in order, from the constructor's tracker.\<close>

fun run_turns :: "(time \<times> path list) list \<Rightarrow> tracker \<Rightarrow> exc + tracker" where
  "run_turns [] t = Inr t"
| "run_turns ((now, ps) # turns) t =
     (case observe now ps t of Inl e \<Rightarrow> Inl e | Inr (tick, t') \<Rightarrow> run_turns turns t')"

lemma run_turns_inv:
  "tracker_inv t \<Longrightarrow> \<exists>t'. run_turns turns t = Inr t' \<and> tracker_inv t' \<and> t_turn t' = t_turn t + int (length turns)"
proof (induction turns arbitrary: t)
  case (Cons x turns)
  obtain now ps where x: "x = (now, ps)" by force
  obtain tick t' where o: "observe now ps t = Inr (tick, t')" "tracker_inv t'" "t_turn t' = t_turn t + 1"
    using observe_inv [OF Cons.prems] by blast
  show ?case using Cons.IH [OF o(2)] o x by auto
qed simp

lemma run_turns_settings:
  "tracker_inv t \<Longrightarrow> run_turns turns t = Inr t' \<Longrightarrow> t_demote_after t' = t_demote_after t"
proof (induction turns arbitrary: t)
  case (Cons x turns)
  obtain now ps where x: "x = (now, ps)" by force
  obtain tick t1 where o: "observe now ps t = Inr (tick, t1)" "tracker_inv t1" "t_demote_after t1 = t_demote_after t"
    using observe_inv [OF Cons.prems(1)] by blast
  show ?case using Cons.IH [OF o(2)] Cons.prems(2) o x by simp
qed simp

lemma tracker_new_inv: "tracker_new a b c d e = Inr t \<Longrightarrow> tracker_inv t"
  by (auto simp: tracker_new_def tracker_inv_def cands_inv_def no_watch_def split: if_splits)

lemma top_cluster_eq:
  "cluster_paths (seen_after t ps) (t_spec_min t) 2 = Inr (Some c) \<Longrightarrow> top_cluster t ps = Some c"
  by (simp add: top_cluster_def)

lemma cands_after_fresh:
  fixes now :: time
  assumes inv: "tracker_inv t" and top: "top_cluster t ps = Some c" and fresh: "has_fresh (cr_ancestor c) ps"
  defines "c0 \<equiv> refresh_candidate (t_turn t + 1) c (t_candidates t)"
  defines "cs2 \<equiv> fst (drift_check t now c0 (put_cand c0 (t_candidates t), []))"
  shows "map_of (cands_after now ps t) k =
    (if k = cr_ancestor c then Some (climb t (t_turn t + 1) now (prev_phase c (t_candidates t)) c0 cs2)
     else map_option (demote_one (t_turn t + 1) (t_demote_after t) now) (map_of cs2 k))"
proof -
  have i: "cands_inv (t_turn t) (t_candidates t)" and after: "1 \<le> t_demote_after t"
    using inv by (simp_all add: tracker_inv_def)
  show ?thesis
    using after
    by (simp add: cands_after_def top demote_idle_get update_phases_get [OF i _ fresh] c0_def cs2_def
        demote_one_def)
qed

lemma cands_after_silent:
  "\<forall>c. top_cluster t ps = Some c \<longrightarrow> \<not> has_fresh (cr_ancestor c) ps \<Longrightarrow>
   map_of (cands_after now ps t) k =
     map_option (demote_one (t_turn t + 1) (t_demote_after t) now) (map_of (t_candidates t) k)"
  by (cases "top_cluster t ps") (simp_all add: cands_after_def demote_idle_get update_phases_def)

text \<open>A run of silent turns: what is still alive was seen recently, and not since the start.\<close>

lemma silent_turns:
  assumes "tracker_inv t" "nows \<noteq> []" "run_turns (map (\<lambda>now. (now, [])) nows) t = Inr t'"
    and "\<And>k x. map_of (t_candidates t) k = Some x \<Longrightarrow> is_alive x \<Longrightarrow> c_last_seen_turn x \<le> n"
    and "map_of (t_candidates t') k = Some x" "is_alive x"
  shows "t_turn t' - c_last_seen_turn x < t_demote_after t' \<and> c_last_seen_turn x \<le> n"
  using assms
proof (induction nows arbitrary: t)
  case (Cons now nows)
  obtain tick t1 where o: "observe now [] t = Inr (tick, t1)" "tracker_inv t1" "t_turn t1 = t_turn t + 1"
    "t_demote_after t1 = t_demote_after t" "t_candidates t1 = cands_after now [] t"
    using observe_inv [OF Cons.prems(1)] by blast
  have run: "run_turns (map (\<lambda>now. (now, [])) nows) t1 = Inr t'" using Cons.prems(3) o(1) by simp
  have c1: "map_of (t_candidates t1) l = map_option (demote_one (t_turn t + 1) (t_demote_after t) now) (map_of (t_candidates t) l)"
    for l using cands_after_silent [of t "[]" now l] o(5) by (simp add: has_fresh_def)
  have alive1: "c_last_seen_turn y \<le> n \<and> t_turn t1 - c_last_seen_turn y < t_demote_after t1"
    if "map_of (t_candidates t1) l = Some y" "is_alive y" for l y
    using that Cons.prems(4) o(3,4) unfolding c1 by (auto simp: demote_one_alive)
  show ?case
  proof (cases "nows = []")
    case True
    then show ?thesis using run alive1 Cons.prems(5,6) by auto
  next
    case False
    then show ?thesis using Cons.IH [OF o(2) _ run] alive1 Cons.prems(5,6) by auto
  qed
qed simp

section \<open>Properties\<close>

text \<open>
  C17: Every session is safe. From a tracker the constructor accepts, any sequence of turns runs
  without raising and keeps the tracker's invariant: settings in range, no path seen twice, every
  candidate under its own directory with turn numbers in order and none in the future. The turn
  counter counts the turns, at most one candidate is ACTIVE, and no candidate is ever left in WATCH
  between turns (the phase exists only inside a call).
\<close>

theorem tracker_session_safe:
  assumes "tracker_new spec act turns_needed after gap = Inr t0"
  shows "\<exists>t. run_turns turns t0 = Inr t \<and> tracker_inv t \<and> t_turn t = int (length turns)
    \<and> (\<forall>k x l y. map_of (t_candidates t) k = Some x \<and> c_phase x = ACTIVE
          \<and> map_of (t_candidates t) l = Some y \<and> c_phase y = ACTIVE \<longrightarrow> k = l)
    \<and> (\<forall>k x. map_of (t_candidates t) k = Some x \<longrightarrow> c_phase x \<noteq> WATCH)"
proof -
  have "t_turn t0 = 0" using assms by (auto simp: tracker_new_def split: if_splits)
  then show ?thesis
    using run_turns_inv [OF tracker_new_inv [OF assms], of turns]
    by (fastforce simp: tracker_inv_def cands_inv_def only_active_def no_watch_def)
qed

text \<open>The witness runs the default thresholds over one turn that mentions three files.\<close>

theorem tracker_session_safe_witness:
  "\<exists>t0 t. tracker_new 3 5 2 5 2 = Inr t0
    \<and> run_turns [(0, [[''/'', ''w'', ''a''], [''/'', ''w'', ''b''], [''/'', ''w'', ''c'']])] t0 = Inr t
    \<and> t_turn t = 1"
proof -
  obtain t0 where t0: "tracker_new 3 5 2 5 2 = Inr t0" by (simp add: tracker_new_def)
  show ?thesis
    using tracker_session_safe [OF t0, of "[(0, [[''/'', ''w'', ''a''], [''/'', ''w'', ''b''], [''/'', ''w'', ''c'']])]"] t0
    by (auto simp del: run_turns.simps)
qed

text \<open>
  Drift. When the top cluster has fresh evidence this turn, meets the activation minimum and
  exceeds the current active scope by the required gap, one turn demotes the old scope, makes the
  challenger the active one, and reports both in the transitions.
\<close>

lemma drift_takeover:
  assumes inv: "tracker_inv t"
    and top: "cluster_paths (seen_after t ps) (t_spec_min t) 2 = Inr (Some c)"
    and fresh: "has_fresh (cr_ancestor c) ps"
    and a: "find_active (t_candidates t) = Some a" "c_ancestor a \<noteq> cr_ancestor c"
    and gap: "c_unique_files a + t_drift_gap t \<le> cr_unique_files c" "t_active_min t \<le> cr_unique_files c"
  shows "\<exists>tick t' x y. observe now ps t = Inr (tick, t')
    \<and> tk_active tick = Some x \<and> c_ancestor x = cr_ancestor c
    \<and> map_of (t_candidates t') (c_ancestor a) = Some y \<and> c_phase y = DEMOTED
    \<and> (c_ancestor a, ACTIVE, DEMOTED) \<in> set (tk_transitions tick)"
proof -
  let ?cs = "t_candidates t" and ?turn = "t_turn t + 1"
  let ?c0 = "refresh_candidate ?turn c ?cs"
  let ?cs1 = "put_cand ?c0 ?cs"
  have i: "cands_inv (t_turn t) ?cs" using inv by (simp add: tracker_inv_def)
  have i1: "cands_inv ?turn ?cs1" by (rule refresh_ancestor_put [OF i]) simp
  have anc: "c_ancestor ?c0 = cr_ancestor c" by (rule refresh_ancestor [OF i])
  have top': "top_cluster t ps = Some c" by (rule top_cluster_eq [OF top])
  have old: "map_of ?cs (c_ancestor a) = Some a" "c_phase a = ACTIVE" using a(1) find_active_iff [OF i] by auto
  have act: "find_active ?cs1 = Some a" using old a(2) find_active_iff [OF i1] by (simp add: put_cand_get anc)
  have d: "drifts t ?c0 ?cs1" using act a(2) gap anc by (simp add: drifts_def)
  obtain trs where dc: "drift_check t now ?c0 (?cs1, []) =
      (put_cand (a\<lparr>c_phase := DEMOTED, c_demoted_at := Some now\<rparr>) ?cs1, [(c_ancestor a, ACTIVE, DEMOTED)])"
    using drift_check_moved [OF i1 d, of now "[]"] act by auto
  note after = cands_after_fresh [OF inv top' fresh, of now, unfolded dc]
  obtain tick t' where o: "observe now ps t = Inr (tick, t')" "tracker_inv t'"
    "t_candidates t' = cands_after now ps t" "tk_active tick = find_active (t_candidates t')"
    using observe_inv [OF inv] by blast
  have trans: "(c_ancestor a, ACTIVE, DEMOTED) \<in> set (tk_transitions tick)"
    using observe_eq [OF inv, of now ps] o(1) by (auto simp: top' update_phases_fresh [OF fresh] Let_def dc)
  have "c_phase (climb t ?turn now (prev_phase c ?cs) ?c0 (fst (drift_check t now ?c0 (?cs1, [])))) = ACTIVE"
    using top_cluster_min [OF inv top'] gap d by (intro climbed_active [OF i]) auto
  then obtain x where x: "map_of (t_candidates t') (cr_ancestor c) = Some x" "c_phase x = ACTIVE" "c_ancestor x = cr_ancestor c"
    using after [of "cr_ancestor c"] o(3) anc by (auto simp: dc)
  then have "tk_active tick = Some x" using o(2,4) find_active_iff by (metis tracker_inv_def)
  moreover obtain y where "map_of (t_candidates t') (c_ancestor a) = Some y" "c_phase y = DEMOTED"
    using after [of "c_ancestor a"] o(3) a(2) by (auto simp: put_cand_get demote_one_phase)
  ultimately show ?thesis using o(1) x(3) trans by blast
qed

text \<open>The witness: an active scope of one file, and two files of another directory in one turn.\<close>

definition drift_demo :: tracker where
  "drift_demo = \<lparr>t_spec_min = 1, t_active_min = 1, t_active_min_turns = 1, t_demote_after = 3, t_drift_gap = 1,
     t_turn = 1, t_candidates = [([''/'', ''a''], \<lparr>c_ancestor = [''/'', ''a''], c_phase = ACTIVE, c_unique_files = 1,
       c_first_seen_turn = 1, c_last_seen_turn = 1, c_promoted_at = Some 0, c_demoted_at = None\<rparr>)],
     t_paths_seen = [[''/'', ''a'', ''x'']]\<rparr>"

lemma drift_takeover_witness:
  "\<exists>tick t' x y. observe 1 [[''/'', ''b'', ''p''], [''/'', ''b'', ''q'']] drift_demo = Inr (tick, t')
    \<and> tk_active tick = Some x \<and> c_ancestor x = [''/'', ''b'']
    \<and> map_of (t_candidates t') [''/'', ''a''] = Some y \<and> c_phase y = DEMOTED"
proof -
  let ?ps = "[[''/'', ''b'', ''p''], [''/'', ''b'', ''q'']]"
  let ?a = "snd (hd (t_candidates drift_demo))"
  let ?c = "\<lparr>cr_ancestor = [''/'', ''b''], cr_unique_files = 2, cr_total_paths = 3\<rparr>"
  have inv: "tracker_inv drift_demo"
    by (auto simp: tracker_inv_def drift_demo_def cands_inv_def only_active_def cand_ok_def no_watch_def)
  have top: "cluster_paths (seen_after drift_demo ?ps) (t_spec_min drift_demo) 2 = Inr (Some ?c)" by code_simp
  have fresh: "has_fresh (cr_ancestor ?c) ?ps" by code_simp
  show ?thesis
    using drift_takeover [OF inv top fresh, of ?a 1]
    by (auto simp: drift_demo_def find_active_def)
qed

text \<open>
  A scope that goes silent is let go. After at least \<open>demote_after_idle_turns\<close> turns
  that mention no path, no candidate is SPECULATIVE or ACTIVE any more, whatever the tracker held.
\<close>

lemma silence_demotes:
  assumes "tracker_inv t" "t_demote_after t \<le> int (length nows)"
  shows "\<exists>t'. run_turns (map (\<lambda>now. (now, [])) nows) t = Inr t' \<and> find_active (t_candidates t') = None
    \<and> (\<forall>k x. map_of (t_candidates t') k = Some x \<longrightarrow> \<not> is_alive x)"
proof -
  obtain t' where t': "run_turns (map (\<lambda>now. (now, [])) nows) t = Inr t'" "tracker_inv t'"
    "t_turn t' = t_turn t + int (length nows)"
    using run_turns_inv [OF assms(1)] by force
  have after: "t_demote_after t' = t_demote_after t" using run_turns_settings [OF assms(1) t'(1)] by simp
  have ne: "nows \<noteq> []" using assms by (auto simp: tracker_inv_def)
  have old: "c_last_seen_turn x \<le> t_turn t" if "map_of (t_candidates t) k = Some x" for k x
    using that assms(1) by (auto simp: tracker_inv_def cands_inv_def cand_ok_def)
  have dead: "\<not> is_alive x" if "map_of (t_candidates t') k = Some x" for k x
    using silent_turns [OF assms(1) ne t'(1) old that] assms(2) t'(3) after by fastforce
  have "find_active (t_candidates t') = None"
    using dead find_active_Some [of "t_candidates t'"] t'(2)
    by (cases "find_active (t_candidates t')") (fastforce simp: is_alive_def tracker_inv_def cands_inv_def)+
  then show ?thesis using t'(1) dead by blast
qed

lemma silence_demotes_witness:
  "\<exists>t'. run_turns [(2, []), (3, []), (4, [])] drift_demo = Inr t' \<and> find_active (t_candidates t') = None"
proof -
  have inv: "tracker_inv drift_demo"
    by (auto simp: tracker_inv_def drift_demo_def cands_inv_def only_active_def cand_ok_def no_watch_def)
  show ?thesis using silence_demotes [OF inv, of "[2, 3, 4]"] by (simp add: drift_demo_def) blast
qed

text \<open>
  Evidence protects. A top cluster with a fresh mention is SPECULATIVE or ACTIVE after the turn,
  with its file count and last-seen turn brought up to date: the idle check that runs last never
  undoes this turn's promotion.
\<close>

lemma fresh_evidence_kept:
  assumes inv: "tracker_inv t"
    and top: "cluster_paths (seen_after t ps) (t_spec_min t) 2 = Inr (Some c)"
    and fresh: "has_fresh (cr_ancestor c) ps"
  shows "\<exists>tick t' x. observe now ps t = Inr (tick, t') \<and> map_of (t_candidates t') (cr_ancestor c) = Some x
    \<and> is_alive x \<and> c_unique_files x = cr_unique_files c \<and> c_last_seen_turn x = t_turn t'"
proof -
  have top': "top_cluster t ps = Some c" by (rule top_cluster_eq [OF top])
  obtain tick t' where o: "observe now ps t = Inr (tick, t')" "t_turn t' = t_turn t + 1"
    "t_candidates t' = cands_after now ps t" using observe_inv [OF inv] by blast
  show ?thesis
    using o cands_after_fresh [OF inv top' fresh, of now "cr_ancestor c"] top_cluster_min [OF inv top']
    by (auto intro!: climb_alive simp: refresh_phase split: if_splits)
qed

lemma fresh_evidence_kept_witness:
  "\<exists>tick t' x. observe 5 [[''/'', ''b'', ''p''], [''/'', ''b'', ''q'']] drift_demo = Inr (tick, t')
    \<and> map_of (t_candidates t') [''/'', ''b''] = Some x \<and> is_alive x"
proof -
  let ?ps = "[[''/'', ''b'', ''p''], [''/'', ''b'', ''q'']]"
  let ?c = "\<lparr>cr_ancestor = [''/'', ''b''], cr_unique_files = 2, cr_total_paths = 3\<rparr>"
  have inv: "tracker_inv drift_demo"
    by (auto simp: tracker_inv_def drift_demo_def cands_inv_def only_active_def cand_ok_def no_watch_def)
  have top: "cluster_paths (seen_after drift_demo ?ps) (t_spec_min drift_demo) 2 = Inr (Some ?c)" by code_simp
  have fresh: "has_fresh (cr_ancestor ?c) ?ps" by code_simp
  show ?thesis using fresh_evidence_kept [OF inv top fresh, of 5] by auto
qed

end
