(* ===== verification/Svc_State.thy ===== *)
theory Svc_State
  imports Svc_Cache Svc_Session Svc_Tracker
begin

text \<open>
  The service state (\<open>longctx_svc/state.py\<close>): the scope registry with its LRU cap on loaded
  indexes, idle eviction, the two promotion triggers with their background rebuild, the file
  watchers, and the per-session trackers.

  Scope entries are objects the code shares and mutates; here they are the values of the
  registry, and an operation writes its changes back. A watcher is a number; \<open>sv_live\<close> holds
  those started and not yet stopped. The rebuild thread is a step of its own
  (\<open>promote_worker\<close>), so any operation may run between its start and its end.
\<close>

datatype scope_status = Pending | Indexing | Ready | Empty | Failed | Evicted | Promoting

datatype scope_mode = Hot | Package

record scope_entry =
  en_root :: path
  en_hash :: string
  en_sentinel :: string
  en_index :: "scope_index option"
  en_status :: scope_status
  en_error :: "string option"
  en_created_at :: time
  en_last_query_at :: time
  en_from_disk :: bool
  en_watcher :: "nat option"
  en_mode :: scope_mode
  en_indexed_files :: "string list"

type_synonym scopes = "(string, scope_entry) dict"

record svc_state =
  sv_scopes :: scopes
  sv_sessions :: sessions
  sv_trackers :: "(string, tracker) dict"
  sv_cache :: cache_root
  sv_live :: "nat list"
  sv_next_watcher :: nat

definition state_new :: "svc_state" where
  "state_new = \<lparr>sv_scopes = [], sv_sessions = [], sv_trackers = [], sv_cache = [], sv_live = [], sv_next_watcher = 0\<rparr>"

section \<open>Trackers\<close>

definition default_tracker :: "tracker" where
  \<comment> \<open>\<open>ScopeClusterTracker()\<close>: the constructor with its defaults\<close>
  "default_tracker = (case tracker_new 3 5 2 5 2 of Inr t \<Rightarrow> t
     | Inl e \<Rightarrow> \<lparr>t_spec_min = 3, t_active_min = 5, t_active_min_turns = 2, t_demote_after = 5, t_drift_gap = 2,
                t_turn = 0, t_candidates = [], t_paths_seen = []\<rparr>)"

definition cluster_tracker_for :: "string \<Rightarrow> svc_state \<Rightarrow> tracker \<times> svc_state" where
  "cluster_tracker_for sid st =
     (case dict_get (sv_trackers st) sid of
        Some t \<Rightarrow> (t, st)
      | None \<Rightarrow> (default_tracker, st\<lparr>sv_trackers := dict_set sid default_tracker (sv_trackers st)\<rparr>))"

definition evict_session_tracker :: "string \<Rightarrow> svc_state \<Rightarrow> svc_state" where
  "evict_session_tracker sid st = st\<lparr>sv_trackers := dict_pop sid (sv_trackers st)\<rparr>"

section \<open>The registry\<close>

definition index_loaded :: "scope_entry \<Rightarrow> bool" where
  \<comment> \<open>\<open>index is not None and index.embeddings is not None\<close>\<close>
  "index_loaded e = (case en_index e of None \<Rightarrow> False | Some ix \<Rightarrow> sx_embeddings ix \<noteq> None)"

definition get_scope :: "string \<Rightarrow> svc_state \<Rightarrow> scope_entry option \<times> svc_state" where
  "get_scope h st =
     (case dict_get (sv_scopes st) h of
        None \<Rightarrow> (None, st)
      | Some e \<Rightarrow> (Some e, st\<lparr>sv_scopes := dict_move_to_end h (sv_scopes st)\<rparr>))"

definition unload :: "scope_entry \<Rightarrow> scope_entry" where
  "unload e = e\<lparr>en_index := None, en_status := Evicted, en_watcher := None\<rparr>"

definition stop_watcher :: "scope_entry \<Rightarrow> nat list \<Rightarrow> nat list" where
  "stop_watcher e live = (case en_watcher e of None \<Rightarrow> live | Some w \<Rightarrow> removeAll w live)"

fun unload_left :: "int \<Rightarrow> scopes \<Rightarrow> nat list \<Rightarrow> scopes \<times> nat list" where
  \<comment> \<open>unload the first \<open>excess\<close> loaded entries in LRU order\<close>
  "unload_left excess [] live = ([], live)"
| "unload_left excess ((h, e) # es) live =
     (if excess \<le> 0 then ((h, e) # es, live)
      else if index_loaded e
      then let (es', live') = unload_left (excess - 1) es (stop_watcher e live) in ((h, unload e) # es', live')
      else let (es', live') = unload_left excess es live in ((h, e) # es', live'))"

definition loaded_scope_count :: "svc_state \<Rightarrow> nat" where
  "loaded_scope_count st = length (filter (\<lambda>x. index_loaded (snd x)) (sv_scopes st))"

definition evict_to_cap :: "int \<Rightarrow> svc_state \<Rightarrow> svc_state" where
  "evict_to_cap cap st =
     (let n_loaded = int (loaded_scope_count st) in
      if n_loaded \<le> cap then st
      else let (es, live) = unload_left (n_loaded - cap) (sv_scopes st) (sv_live st)
           in st\<lparr>sv_scopes := es, sv_live := live\<rparr>)"

definition register_scope :: "int \<Rightarrow> time \<Rightarrow> path \<Rightarrow> string \<Rightarrow> string \<Rightarrow> svc_state \<Rightarrow> (exc + scope_entry) \<times> svc_state" where
  "register_scope cap now scope_root scope_hash sentinel st =
     (case dict_get (sv_scopes st) scope_hash of
        Some e \<Rightarrow> (Inr e, st\<lparr>sv_scopes := dict_move_to_end scope_hash (sv_scopes st)\<rparr>)
      | None \<Rightarrow>
          let e = \<lparr>en_root = scope_root, en_hash = scope_hash, en_sentinel = sentinel, en_index = None,
                   en_status = Pending, en_error = None, en_created_at = now, en_last_query_at = now,
                   en_from_disk = False, en_watcher = None, en_mode = Hot, en_indexed_files = []\<rparr>
          in case load_index scope_hash (sv_cache st) of
               Inl x \<Rightarrow> (Inl x, st)
             | Inr loaded \<Rightarrow>
                 let e = (case loaded of None \<Rightarrow> e
                          | Some (ix, _) \<Rightarrow> e\<lparr>en_index := Some ix, en_status := Ready, en_from_disk := True\<rparr>);
                     st = evict_to_cap cap (st\<lparr>sv_scopes := dict_set scope_hash e (sv_scopes st)\<rparr>)
                 in (Inr (case dict_get (sv_scopes st) scope_hash of Some e \<Rightarrow> e | None \<Rightarrow> e), st))"

definition idle_index :: "time \<Rightarrow> real \<Rightarrow> scope_entry \<Rightarrow> bool" where
  "idle_index now idle e \<longleftrightarrow> index_loaded e \<and> \<not> now - en_last_query_at e \<le> idle"

fun unload_idle :: "time \<Rightarrow> real \<Rightarrow> scopes \<Rightarrow> nat list \<Rightarrow> nat \<times> scopes \<times> nat list" where
  "unload_idle now idle [] live = (0, [], live)"
| "unload_idle now idle ((h, e) # es) live =
     (if idle_index now idle e
      then let (n, es', live') = unload_idle now idle es (stop_watcher e live) in (n + 1, (h, unload e) # es', live')
      else let (n, es', live') = unload_idle now idle es live in (n, (h, e) # es', live'))"

definition evict_idle_indexes :: "time \<Rightarrow> real \<Rightarrow> svc_state \<Rightarrow> nat \<times> svc_state" where
  "evict_idle_indexes now idle st =
     (let (n, es, live) = unload_idle now idle (sv_scopes st) (sv_live st)
      in (n, st\<lparr>sv_scopes := es, sv_live := live\<rparr>))"

definition all_scopes :: "svc_state \<Rightarrow> scope_entry list" where
  "all_scopes st = map snd (sv_scopes st)"

definition get_scopes :: "string list \<Rightarrow> svc_state \<Rightarrow> scope_entry list" where
  "get_scopes hs st = concat (map (\<lambda>h. case dict_get (sv_scopes st) h of
     None \<Rightarrow> [] | Some e \<Rightarrow> if index_loaded e then [e] else []) hs)"

definition total_memory_bytes :: "svc_state \<Rightarrow> nat" where
  "total_memory_bytes st = sum_list (map (\<lambda>x. case en_index (snd x) of None \<Rightarrow> 0 | Some ix \<Rightarrow> memory_bytes ix) (sv_scopes st))"

section \<open>Promotion to Package scope\<close>

definition begin_package_rebuild :: "string \<Rightarrow> string \<Rightarrow> svc_state \<Rightarrow> bool \<times> svc_state" where
  \<comment> \<open>on True the rebuild thread has been started\<close>
  "begin_package_rebuild h reason st =
     (case get_scope h st of
        (None, st) \<Rightarrow> (False, st)
      | (Some e, st) \<Rightarrow>
          if en_mode e = Package then (False, st)
          else if en_status e \<in> {Indexing, Promoting} then (False, st)
          else (True, st\<lparr>sv_scopes := dict_set h (e\<lparr>en_status := Promoting,
                  en_error := Some (''promotion reason: '' @ reason)\<rparr>) (sv_scopes st)\<rparr>))"

definition promote_worker ::
  "(path \<Rightarrow> exc + path list) \<Rightarrow> index_env \<Rightarrow> time \<Rightarrow> string \<Rightarrow> parser_cache \<Rightarrow> svc_state \<Rightarrow> svc_state" where
  \<comment> \<open>the rebuild thread; \<open>walk\<close> is \<open>walk_package_scope\<close>\<close>
  "promote_worker walk en now h cache st =
     (case dict_get (sv_scopes st) h of
        None \<Rightarrow> st
      | Some e \<Rightarrow>
          (case walk (en_root e) of
             Inl x \<Rightarrow> st\<lparr>sv_scopes := dict_set h (e\<lparr>en_status := Failed, en_error := Some ''promotion failed''\<rparr>) (sv_scopes st)\<rparr>
           | Inr found \<Rightarrow>
               let files = py_take (max_files_package (cf_limits (ix_cfg en))) found;
                   ix = fst (build_index en now (en_root e) files (en_hash e) cache);
                   status = (if sx_embeddings ix \<noteq> None then Ready else Empty);
                   e = e\<lparr>en_index := Some ix, en_indexed_files := map path_str files, en_mode := Package,
                         en_status := status, en_error := None\<rparr>
               in st\<lparr>sv_scopes := dict_set h e (sv_scopes st),
                     sv_cache := (if status = Ready then save_index ix (en_sentinel e) now (sv_cache st) else sv_cache st)\<rparr>))"

definition maybe_promote_on_confidence :: "limits \<Rightarrow> time \<Rightarrow> string \<Rightarrow> string \<Rightarrow> real \<Rightarrow> svc_state \<Rightarrow> bool \<times> svc_state" where
  "maybe_promote_on_confidence lm now h sid top_score st =
     (if sid = [] then (False, st)
      else case sm_get now sid (sv_sessions st) of
        (None, ss) \<Rightarrow> (False, st\<lparr>sv_sessions := ss\<rparr>)
      | (Some s, ss) \<Rightarrow>
          let s = record_confidence top_score s;
              low = (if top_score < confidence_threshold lm then se_consecutive_low s + 1 else 0)
          in if int low < confidence_consecutive_low lm
             then (False, st\<lparr>sv_sessions := dict_set sid (s\<lparr>se_consecutive_low := low\<rparr>) ss\<rparr>)
             else
               let st = st\<lparr>sv_sessions := dict_set sid (s\<lparr>se_consecutive_low := 0\<rparr>) ss\<rparr> in
               case get_scope h st of
                 (None, st) \<Rightarrow> (False, st)
               | (Some e, st) \<Rightarrow>
                   if en_mode e = Package \<or> en_index e = None then (False, st)
                   else if en_status e \<in> {Indexing, Promoting, Failed, Evicted} then (False, st)
                   else begin_package_rebuild h ''low-confidence'' st)"

definition maybe_promote :: "string \<Rightarrow> string list \<Rightarrow> svc_state \<Rightarrow> bool \<times> svc_state" where
  "maybe_promote h mentioned st =
     (case get_scope h st of
        (None, st) \<Rightarrow> (False, st)
      | (Some e, st) \<Rightarrow>
          if en_mode e = Package then (False, st)
          else if en_status e \<in> {Indexing, Promoting, Failed, Evicted} then (False, st)
          else if en_index e = None then (False, st)
          else if en_indexed_files e = [] then (False, st)
          else if filter (\<lambda>m. m \<noteq> [] \<and> m \<notin> set (en_indexed_files e)) mentioned = [] then (False, st)
          else begin_package_rebuild h ''out-of-hot-path'' st)"

section \<open>Watchers\<close>

definition attach_watcher :: "string \<Rightarrow> svc_state \<Rightarrow> svc_state" where
  \<comment> \<open>one step here; the code holds no lock between the check that there is no watcher and the
    assignment, so two threads attaching to one scope at once are not covered\<close>
  "attach_watcher h st =
     (case get_scope h st of
        (None, st) \<Rightarrow> st
      | (Some e, st) \<Rightarrow>
          if en_watcher e \<noteq> None then st
          else st\<lparr>sv_scopes := dict_set h (e\<lparr>en_watcher := Some (sv_next_watcher st)\<rparr>) (sv_scopes st),
                  sv_live := sv_next_watcher st # sv_live st, sv_next_watcher := sv_next_watcher st + 1\<rparr>)"

definition on_change :: "index_env \<Rightarrow> time \<Rightarrow> string \<Rightarrow> path list \<Rightarrow> parser_cache \<Rightarrow> svc_state \<Rightarrow> svc_state" where
  \<comment> \<open>what a watcher calls with the files touched since its last flush\<close>
  "on_change en now h touched cache st =
     (case get_scope h st of
        (None, st) \<Rightarrow> st
      | (Some e, st) \<Rightarrow>
          (case en_index e of
             None \<Rightarrow> st
           | Some ix \<Rightarrow>
               (case fst (update_files en now ix touched cache) of
                  Inl x \<Rightarrow> st\<lparr>sv_scopes := dict_set h (e\<lparr>en_error := Some ''watcher update failed''\<rparr>) (sv_scopes st)\<rparr>
                | Inr ix \<Rightarrow> st\<lparr>sv_scopes := dict_set h (e\<lparr>en_index := Some ix\<rparr>) (sv_scopes st),
                               sv_cache := save_index ix (en_sentinel e) now (sv_cache st)\<rparr>)))"

definition detach_watcher :: "string \<Rightarrow> svc_state \<Rightarrow> svc_state" where
  "detach_watcher h st =
     (case get_scope h st of
        (None, st) \<Rightarrow> st
      | (Some e, st) \<Rightarrow>
          if en_watcher e = None then st
          else st\<lparr>sv_scopes := dict_set h (e\<lparr>en_watcher := None\<rparr>) (sv_scopes st), sv_live := stop_watcher e (sv_live st)\<rparr>)"

definition reset_state :: "svc_state \<Rightarrow> svc_state" where
  "reset_state st = st\<lparr>sv_scopes := map (\<lambda>(h, e). (h, e\<lparr>en_watcher := None\<rparr>)) (sv_scopes st),
     sv_live := fold stop_watcher (all_scopes st) (sv_live st)\<rparr>"

section \<open>The LRU cap\<close>

lemma dict_set_new: "k \<notin> set (dict_keys d) \<Longrightarrow> dict_set k v d = d @ [(k, v)]"
  by (induction d) auto

lemma index_loaded_unload [simp]: "\<not> index_loaded (unload e)"
  by (simp add: index_loaded_def unload_def)

lemma en_watcher_unload [simp]: "en_watcher (unload e) = None"
  by (simp add: unload_def)

lemma unload_left_keys: "dict_keys (fst (unload_left n es live)) = dict_keys es"
  by (induction n es live rule: unload_left.induct) (auto split: prod.splits)

lemma unload_left_loaded:
  "map fst (filter (\<lambda>x. index_loaded (snd x)) (fst (unload_left n es live)))
     = drop (nat n) (map fst (filter (\<lambda>x. index_loaded (snd x)) es))"
proof (induction n es live rule: unload_left.induct)
  case (2 n h e es live)
  show ?case
  proof (cases "n \<le> 0")
    case False
    then have "nat n = Suc (nat (n - 1))" by simp
    then show ?thesis using 2 False by (auto split: prod.split)
  qed simp
qed simp

definition loaded_order :: "svc_state \<Rightarrow> string list" where
  \<comment> \<open>the loaded scopes, least recently used first\<close>
  "loaded_order st = map fst (filter (\<lambda>x. index_loaded (snd x)) (sv_scopes st))"

lemma evict_to_cap_order:
  assumes "0 \<le> cap"
  shows "loaded_order (evict_to_cap cap st) = last_n (nat cap) (loaded_order st)"
    and "dict_keys (sv_scopes (evict_to_cap cap st)) = dict_keys (sv_scopes st)"
proof -
  have len: "length (loaded_order st) = loaded_scope_count st" by (simp add: loaded_order_def loaded_scope_count_def)
  have "nat (int (loaded_scope_count st) - cap) = length (loaded_order st) - nat cap" using assms len by simp
  then show "loaded_order (evict_to_cap cap st) = last_n (nat cap) (loaded_order st)"
    using assms len unload_left_loaded [of "int (loaded_scope_count st) - cap" "sv_scopes st" "sv_live st"]
    by (auto simp: evict_to_cap_def Let_def loaded_order_def last_n_def split: prod.split)
  show "dict_keys (sv_scopes (evict_to_cap cap st)) = dict_keys (sv_scopes st)"
    using unload_left_keys [of "int (loaded_scope_count st) - cap" "sv_scopes st" "sv_live st"]
    by (auto simp: evict_to_cap_def Let_def split: prod.split)
qed

lemma load_index_embedded: "load_index h c = Inr (Some (ix, m)) \<Longrightarrow> sx_embeddings ix \<noteq> None"
  by (auto simp: load_index_def split: option.splits sum.splits if_splits)

text \<open>
  Registering a scope keeps the cap and evicts in LRU order. Registering a new scope keeps
  every entry and puts the new one last; afterwards the loaded indexes are exactly the last
  \<open>cap\<close> of those loaded before followed by the new one (if the cache had it), in the same order,
  so there are at most \<open>cap\<close>.
\<close>

lemma register_lru_cap:
  fixes now :: time and scope_root :: path and sentinel :: string
  assumes "0 \<le> cap" "scope_hash \<notin> set (dict_keys (sv_scopes st))" "load_index scope_hash (sv_cache st) = Inr loaded"
  defines "st' \<equiv> snd (register_scope cap now scope_root scope_hash sentinel st)"
  shows "dict_keys (sv_scopes st') = dict_keys (sv_scopes st) @ [scope_hash]
    \<and> loaded_order st' = last_n (nat cap) (loaded_order st @ (if loaded = None then [] else [scope_hash]))
    \<and> int (loaded_scope_count st') \<le> cap"
proof -
  define e where "e = (case loaded of None \<Rightarrow> \<lparr>en_root = scope_root, en_hash = scope_hash, en_sentinel = sentinel, en_index = None,
      en_status = Pending, en_error = None, en_created_at = now, en_last_query_at = now,
      en_from_disk = False, en_watcher = None, en_mode = Hot, en_indexed_files = []\<rparr>
    | Some (ix, _) \<Rightarrow> \<lparr>en_root = scope_root, en_hash = scope_hash, en_sentinel = sentinel, en_index = Some ix,
      en_status = Ready, en_error = None, en_created_at = now, en_last_query_at = now,
      en_from_disk = True, en_watcher = None, en_mode = Hot, en_indexed_files = []\<rparr>)"
  define st1 where "st1 = st\<lparr>sv_scopes := dict_set scope_hash e (sv_scopes st)\<rparr>"
  have new: "dict_get (sv_scopes st) scope_hash = None" using assms(2) by (simp add: map_of_eq_None_iff)
  have st': "st' = evict_to_cap cap st1"
    using new assms(3) by (cases loaded) (auto simp: st'_def register_scope_def Let_def st1_def e_def)
  have "index_loaded e \<longleftrightarrow> loaded \<noteq> None"
    using assms(3) load_index_embedded by (cases loaded) (auto simp: e_def index_loaded_def)
  then have order: "loaded_order st1 = loaded_order st @ (if loaded = None then [] else [scope_hash])"
    by (simp add: loaded_order_def st1_def dict_set_new [OF assms(2)])
  have "dict_keys (sv_scopes st1) = dict_keys (sv_scopes st) @ [scope_hash]"
    by (simp add: st1_def dict_set_new [OF assms(2)])
  moreover have "loaded_scope_count st' = length (loaded_order st')" by (simp add: loaded_order_def loaded_scope_count_def)
  ultimately show ?thesis
    using evict_to_cap_order [OF assms(1), of st1] assms(1) unfolding st' order by (simp add: length_last_n)
qed

lemma register_lru_cap_witness:
  "loaded_order (snd (register_scope 1 7 [''/'', ''p''] ''h1'' ''.git'' (state_new\<lparr>sv_cache := save_index demo_index_built ''.git'' 6 []\<rparr>)))
     = [''h1'']"
proof -
  obtain m where "load_index ''h1'' (save_index demo_index_built ''.git'' 6 []) = Inr (Some (demo_index_built\<lparr>sx_last_query_at := 0\<rparr>, m))"
    using cache_loads_demo by blast
  then have l: "load_index ''h1'' (sv_cache (state_new\<lparr>sv_cache := save_index demo_index_built ''.git'' 6 []\<rparr>))
      = Inr (Some (demo_index_built\<lparr>sx_last_query_at := 0\<rparr>, m))" by simp
  show ?thesis
    using register_lru_cap [of 1, OF _ _ l, of 7 "[''/'', ''p'']" "''.git''"] by (simp add: state_new_def loaded_order_def last_n_def)
qed

section \<open>No watcher leaks\<close>

definition owns :: "scopes \<Rightarrow> string \<Rightarrow> nat \<Rightarrow> bool" where
  "owns es h w \<longleftrightarrow> map_option en_watcher (map_of es h) = Some (Some w)"

definition watch_inv :: "svc_state \<Rightarrow> bool" where
  \<comment> \<open>the running watchers are those of the entries, one entry each\<close>
  "watch_inv st \<longleftrightarrow>
     (\<forall>w. w \<in> set (sv_live st) \<longleftrightarrow> (\<exists>h. owns (sv_scopes st) h w))
   \<and> (\<forall>h h' w. owns (sv_scopes st) h w \<longrightarrow> owns (sv_scopes st) h' w \<longrightarrow> h = h')
   \<and> (\<forall>w \<in> set (sv_live st). w < sv_next_watcher st)
   \<and> dict_wf (sv_scopes st)"

lemma watch_inv_wf: "watch_inv st \<Longrightarrow> dict_wf (sv_scopes st)"
  unfolding watch_inv_def by blast

lemma watch_inv_cong:
  assumes "watch_inv st" "\<And>h. map_option en_watcher (map_of es h) = map_option en_watcher (map_of (sv_scopes st) h)"
    and "dict_wf es" "sv_scopes st' = es" "set (sv_live st') = set (sv_live st)" "sv_next_watcher st' = sv_next_watcher st"
  shows "watch_inv st'"
proof -
  have "owns es = owns (sv_scopes st)" by (simp add: owns_def fun_eq_iff assms(2))
  then show ?thesis using assms(1,3) unfolding watch_inv_def assms(4-6) by simp
qed

lemma watch_inv_set:
  assumes "watch_inv st" "map_of (sv_scopes st) h = Some e" "en_watcher e' = en_watcher e"
    and "sv_scopes st' = dict_set h e' (sv_scopes st)" "sv_live st' = sv_live st" "sv_next_watcher st' = sv_next_watcher st"
  shows "watch_inv st'"
proof (rule watch_inv_cong [OF assms(1) _ _ assms(4)])
  show "map_option en_watcher (map_of (dict_set h e' (sv_scopes st)) h') = map_option en_watcher (map_of (sv_scopes st) h')" for h'
    using assms(2,3) by (simp add: dict_simps)
  show "dict_wf (dict_set h e' (sv_scopes st))" using watch_inv_wf [OF assms(1)] by (rule distinct_update)
qed (simp_all add: assms(5,6))

lemma get_scope_inv:
  assumes "watch_inv st" "get_scope h st = (r, st')"
  shows "watch_inv st'" "map_of (sv_scopes st') = map_of (sv_scopes st)" "r = map_of (sv_scopes st) h"
    "sv_live st' = sv_live st" "sv_next_watcher st' = sv_next_watcher st" "sv_cache st' = sv_cache st" "sv_sessions st' = sv_sessions st"
proof -
  show m: "map_of (sv_scopes st') = map_of (sv_scopes st)" "r = map_of (sv_scopes st) h"
    "sv_live st' = sv_live st" "sv_next_watcher st' = sv_next_watcher st" "sv_cache st' = sv_cache st" "sv_sessions st' = sv_sessions st"
    using assms(2) by (auto simp: get_scope_def dict_simps fun_eq_iff split: option.splits)
  have "dict_wf (sv_scopes st')"
    using assms by (auto simp: get_scope_def watch_inv_def dict_move_wf split: option.splits)
  then show "watch_inv st'" using watch_inv_cong [OF assms(1), of "sv_scopes st'" st'] m by simp
qed

text \<open>Unloading some of the entries, and stopping exactly their watchers.\<close>

definition unload_some :: "string set \<Rightarrow> scopes \<Rightarrow> scopes" where
  "unload_some hs es = map (\<lambda>(h, e). (h, if h \<in> hs then unload e else e)) es"

definition stop_some :: "string set \<Rightarrow> scopes \<Rightarrow> nat set" where
  "stop_some hs es = {w. \<exists>h e. (h, e) \<in> set es \<and> h \<in> hs \<and> en_watcher e = Some w}"

lemma set_stop_watcher: "set (stop_watcher e live) = set live - {w. en_watcher e = Some w}"
  by (auto simp: stop_watcher_def split: option.splits)

lemma unload_some_cong: "hs \<inter> fst ` set es = hs' \<inter> fst ` set es \<Longrightarrow> unload_some hs es = unload_some hs' es"
  by (force simp: unload_some_def)

lemma unload_step:
  assumes "distinct (map fst ((h, e) # es))" "es' = unload_some hs es" "set live' = set live - stop_some hs es" "hs \<subseteq> fst ` set es"
  shows "(h, e) # es' = unload_some hs ((h, e) # es) \<and> set live' = set live - stop_some hs ((h, e) # es)"
    and "set live = set live0 - {w. en_watcher e = Some w} \<Longrightarrow>
         (h, unload e) # es' = unload_some (insert h hs) ((h, e) # es) \<and> set live' = set live0 - stop_some (insert h hs) ((h, e) # es)"
proof -
  have h: "h \<notin> hs" "h \<notin> fst ` set es" using assms(1,4) by auto
  show "(h, e) # es' = unload_some hs ((h, e) # es) \<and> set live' = set live - stop_some hs ((h, e) # es)"
    using h assms(2,3) by (auto simp: unload_some_def stop_some_def)
  have eq: "unload_some (insert h hs) es = unload_some hs es" using h by (intro unload_some_cong) auto
  have "stop_some (insert h hs) ((h, e) # es) = {w. en_watcher e = Some w} \<union> stop_some hs es"
    using h by (force simp: stop_some_def image_iff)
  then show "(h, unload e) # es' = unload_some (insert h hs) ((h, e) # es) \<and> set live' = set live0 - stop_some (insert h hs) ((h, e) # es)"
    if "set live = set live0 - {w. en_watcher e = Some w}"
    using eq that assms(2,3) by (auto simp: unload_some_def)
qed

lemma unload_left_some:
  "dict_wf es \<Longrightarrow> \<exists>hs \<subseteq> fst ` set es. fst (unload_left n es live) = unload_some hs es
     \<and> set (snd (unload_left n es live)) = set live - stop_some hs es"
proof (induction n es live rule: unload_left.induct)
  case (1 n live)
  then show ?case by (simp add: unload_some_def stop_some_def)
next
  case (2 n h e es live)
  consider "n \<le> 0" | "\<not> n \<le> 0" "index_loaded e" | "\<not> n \<le> 0" "\<not> index_loaded e" by blast
  then show ?case
  proof cases
    case 1
    then show ?thesis by (intro exI [of _ "{}"]) (auto simp: unload_some_def stop_some_def)
  next
    case 2
    then obtain hs where hs: "hs \<subseteq> fst ` set es" "fst (unload_left (n - 1) es (stop_watcher e live)) = unload_some hs es"
      "set (snd (unload_left (n - 1) es (stop_watcher e live))) = set (stop_watcher e live) - stop_some hs es"
      using "2.IH"(1) "2.prems" by auto
    from unload_step(2) [OF "2.prems" hs(2,3,1), of live] have
      "(h, unload e) # unload_some hs es = unload_some (insert h hs) ((h, e) # es)
        \<and> set (snd (unload_left (n - 1) es (stop_watcher e live))) = set live - stop_some (insert h hs) ((h, e) # es)"
      using hs by (simp add: set_stop_watcher)
    then show ?thesis using 2 hs by (intro exI [of _ "insert h hs"]) (auto split: prod.split)
  next
    case 3
    then obtain hs where hs: "hs \<subseteq> fst ` set es" "fst (unload_left n es live) = unload_some hs es"
      "set (snd (unload_left n es live)) = set live - stop_some hs es"
      using "2.IH"(2) "2.prems" by auto
    from unload_step(1) [OF "2.prems" hs(2,3,1)] show ?thesis
      using 3 hs by (intro exI [of _ hs]) (auto split: prod.split)
  qed
qed

lemma unload_idle_some:
  "dict_wf es \<Longrightarrow> \<exists>hs \<subseteq> fst ` set es. fst (snd (unload_idle now idle es live)) = unload_some hs es
     \<and> set (snd (snd (unload_idle now idle es live))) = set live - stop_some hs es"
proof (induction now idle es live rule: unload_idle.induct)
  case (1 now idle live)
  then show ?case by (simp add: unload_some_def stop_some_def)
next
  case (2 now idle h e es live)
  show ?case
  proof (cases "idle_index now idle e")
    case True
    then obtain hs where hs: "hs \<subseteq> fst ` set es" "fst (snd (unload_idle now idle es (stop_watcher e live))) = unload_some hs es"
      "set (snd (snd (unload_idle now idle es (stop_watcher e live)))) = set (stop_watcher e live) - stop_some hs es"
      using "2.IH"(1) "2.prems" by auto
    from unload_step(2) [OF "2.prems" hs(2,3,1), of live] have
      "(h, unload e) # unload_some hs es = unload_some (insert h hs) ((h, e) # es)
        \<and> set (snd (snd (unload_idle now idle es (stop_watcher e live)))) = set live - stop_some (insert h hs) ((h, e) # es)"
      using hs by (simp add: set_stop_watcher)
    then show ?thesis using True hs by (intro exI [of _ "insert h hs"]) (auto split: prod.split)
  next
    case False
    then obtain hs where hs: "hs \<subseteq> fst ` set es" "fst (snd (unload_idle now idle es live)) = unload_some hs es"
      "set (snd (snd (unload_idle now idle es live))) = set live - stop_some hs es"
      using "2.IH"(2) "2.prems" by auto
    from unload_step(1) [OF "2.prems" hs(2,3,1)] show ?thesis
      using False hs by (intro exI [of _ hs]) (auto split: prod.split)
  qed
qed

lemma map_of_unload_some:
  "map_of (unload_some hs es) h = map_option (\<lambda>e. if h \<in> hs then unload e else e) (map_of es h)"
  by (induction es) (auto simp: unload_some_def)

lemma unload_some_inv:
  assumes inv: "watch_inv st" and st': "sv_scopes st' = unload_some hs (sv_scopes st)"
    "set (sv_live st') = set (sv_live st) - stop_some hs (sv_scopes st)" "sv_next_watcher st' = sv_next_watcher st"
  shows "watch_inv st'"
proof -
  have wf: "dict_wf (sv_scopes st)" using inv by (simp add: watch_inv_def)
  have keys: "dict_keys (unload_some hs (sv_scopes st)) = dict_keys (sv_scopes st)"
    by (simp add: unload_some_def comp_def case_prod_beta)
  have stopped: "w \<in> stop_some hs (sv_scopes st) \<longleftrightarrow> (\<exists>h \<in> hs. owns (sv_scopes st) h w)" for w
    by (auto simp: stop_some_def dict_item_get [OF wf] owns_def)
  have new: "owns (unload_some hs (sv_scopes st)) h w \<longleftrightarrow> h \<notin> hs \<and> owns (sv_scopes st) h w" for h w
    by (cases "map_of (sv_scopes st) h"; cases "h \<in> hs") (auto simp: owns_def map_of_unload_some)
  have live: "w \<in> set (sv_live st) \<longleftrightarrow> (\<exists>h. owns (sv_scopes st) h w)" for w
    using inv unfolding watch_inv_def by blast
  have inj: "owns (sv_scopes st) h w \<Longrightarrow> owns (sv_scopes st) h' w \<Longrightarrow> h = h'" for h h' w
    using inv unfolding watch_inv_def by blast
  have "w \<in> set (sv_live st') \<longleftrightarrow> (\<exists>h. owns (sv_scopes st') h w)" for w
    unfolding st'(1,2) new Diff_iff live stopped using inj by blast
  moreover have "\<forall>w \<in> set (sv_live st'). w < sv_next_watcher st'"
    unfolding st'(2,3) using inv unfolding watch_inv_def by blast
  moreover have "owns (sv_scopes st') h w \<Longrightarrow> owns (sv_scopes st') h' w \<Longrightarrow> h = h'" for h h' w
    unfolding st'(1) new using inj by blast
  moreover have "dict_wf (sv_scopes st')" unfolding st'(1) keys by (rule wf)
  ultimately show ?thesis unfolding watch_inv_def by blast
qed

lemma evict_to_cap_inv:
  assumes "watch_inv st"
  shows "watch_inv (evict_to_cap cap st)"
proof -
  obtain hs where hs: "fst (unload_left (int (loaded_scope_count st) - cap) (sv_scopes st) (sv_live st)) = unload_some hs (sv_scopes st)"
    "set (snd (unload_left (int (loaded_scope_count st) - cap) (sv_scopes st) (sv_live st))) = set (sv_live st) - stop_some hs (sv_scopes st)"
    using unload_left_some assms unfolding watch_inv_def by meson
  show ?thesis
  proof (cases "int (loaded_scope_count st) \<le> cap")
    case False
    have "evict_to_cap cap st = st\<lparr>sv_scopes := unload_some hs (sv_scopes st),
        sv_live := snd (unload_left (int (loaded_scope_count st) - cap) (sv_scopes st) (sv_live st))\<rparr>"
      using False hs(1) by (simp add: evict_to_cap_def Let_def case_prod_beta)
    then show ?thesis using unload_some_inv [OF assms, of "evict_to_cap cap st" hs] hs(2) by simp
  qed (use assms in \<open>simp add: evict_to_cap_def\<close>)
qed

lemma evict_idle_inv:
  assumes "watch_inv st"
  shows "watch_inv (snd (evict_idle_indexes now idle st))"
proof -
  obtain hs where hs: "fst (snd (unload_idle now idle (sv_scopes st) (sv_live st))) = unload_some hs (sv_scopes st)"
    "set (snd (snd (unload_idle now idle (sv_scopes st) (sv_live st)))) = set (sv_live st) - stop_some hs (sv_scopes st)"
    using unload_idle_some assms unfolding watch_inv_def by meson
  have "snd (evict_idle_indexes now idle st) = st\<lparr>sv_scopes := unload_some hs (sv_scopes st),
      sv_live := snd (snd (unload_idle now idle (sv_scopes st) (sv_live st)))\<rparr>"
    using hs(1) by (simp add: evict_idle_indexes_def Let_def case_prod_beta)
  then show ?thesis using unload_some_inv [OF assms, of "snd (evict_idle_indexes now idle st)" hs] hs(2) by simp
qed

lemma register_inv:
  assumes "watch_inv st"
  shows "watch_inv (snd (register_scope cap now r h s st))"
proof (cases "dict_get (sv_scopes st) h")
  case (Some e)
  then have "get_scope h st = (Some e, snd (register_scope cap now r h s st))"
    by (simp add: get_scope_def register_scope_def)
  from get_scope_inv(1) [OF assms this] show ?thesis .
next
  case None
  have "watch_inv (evict_to_cap cap (st\<lparr>sv_scopes := dict_set h e (sv_scopes st)\<rparr>))" if "en_watcher e = None" for e
  proof (rule evict_to_cap_inv)
    let ?st = "st\<lparr>sv_scopes := dict_set h e (sv_scopes st)\<rparr>"
    have o: "owns (sv_scopes ?st) = owns (sv_scopes st)" using that None by (auto simp: owns_def fun_eq_iff dict_simps)
    have "dict_wf (sv_scopes ?st)" using watch_inv_wf [OF assms] by (simp add: distinct_update)
    then show "watch_inv ?st" using assms unfolding watch_inv_def o by simp
  qed
  then show ?thesis using assms None by (auto simp: register_scope_def Let_def split: sum.split option.split)
qed

lemma attach_inv:
  assumes "watch_inv st"
  shows "watch_inv (attach_watcher h st)"
proof (cases "get_scope h st")
  case (Pair r st1)
  note g = get_scope_inv [OF assms Pair]
  show ?thesis
  proof (cases "r \<noteq> None \<and> en_watcher (the r) = None")
    case True
    then obtain e where e: "r = Some e" "en_watcher e = None" by auto
    let ?w = "sv_next_watcher st1"
    have a: "attach_watcher h st = st1\<lparr>sv_scopes := dict_set h (e\<lparr>en_watcher := Some ?w\<rparr>) (sv_scopes st1),
        sv_live := ?w # sv_live st1, sv_next_watcher := ?w + 1\<rparr>"
      using e by (simp add: attach_watcher_def Pair)
    have o: "owns (dict_set h (e\<lparr>en_watcher := Some ?w\<rparr>) (sv_scopes st1)) k w \<longleftrightarrow> (if k = h then w = ?w else owns (sv_scopes st1) k w)" for k w
      by (auto simp: owns_def dict_simps)
    have he: "map_of (sv_scopes st1) h = Some e" using g(2,3) e(1) by simp
    have none: "\<not> owns (sv_scopes st1) h w" for w using he e by (simp add: owns_def)
    have inv: "w \<in> set (sv_live st1) \<longleftrightarrow> (\<exists>k. owns (sv_scopes st1) k w)" "w \<in> set (sv_live st1) \<Longrightarrow> w < ?w"
      "owns (sv_scopes st1) k w \<Longrightarrow> owns (sv_scopes st1) k' w \<Longrightarrow> k = k'" for k k' w
      using g(1) unfolding watch_inv_def by blast+
    have fresh: "\<not> owns (sv_scopes st1) k ?w" for k using inv(1,2) by blast
    have "dict_wf (dict_set h (e\<lparr>en_watcher := Some ?w\<rparr>) (sv_scopes st1))" using watch_inv_wf [OF g(1)] by (rule distinct_update)
    moreover have "w \<in> set (?w # sv_live st1) \<longleftrightarrow> (\<exists>k. if k = h then w = ?w else owns (sv_scopes st1) k w)" for w
      using inv(1) [of w] none by (cases "w = ?w") (auto, metis)
    moreover have "\<forall>w \<in> set (?w # sv_live st1). w < ?w + 1" by (auto dest: inv(2))
    moreover have "(if k = h then w = ?w else owns (sv_scopes st1) k w) \<Longrightarrow> (if k' = h then w = ?w else owns (sv_scopes st1) k' w) \<Longrightarrow> k = k'" for k k' w
      using inv(3) [of k w k'] fresh by (auto split: if_splits)
    moreover have "sv_scopes (attach_watcher h st) = dict_set h (e\<lparr>en_watcher := Some ?w\<rparr>) (sv_scopes st1)"
      "sv_live (attach_watcher h st) = ?w # sv_live st1" "sv_next_watcher (attach_watcher h st) = ?w + 1"
      by (simp_all add: a)
    ultimately show ?thesis unfolding watch_inv_def by (simp only: o) blast
  qed (use g(1) in \<open>auto simp: attach_watcher_def Pair split: option.split\<close>)
qed

lemma detach_inv:
  assumes "watch_inv st"
  shows "watch_inv (detach_watcher h st)"
proof (cases "get_scope h st")
  case (Pair r st1)
  note g = get_scope_inv [OF assms Pair]
  show ?thesis
  proof (cases "r \<noteq> None \<and> en_watcher (the r) \<noteq> None")
    case True
    then obtain e w where e: "r = Some e" "en_watcher e = Some w" by auto
    have d: "detach_watcher h st = st1\<lparr>sv_scopes := dict_set h (e\<lparr>en_watcher := None\<rparr>) (sv_scopes st1),
        sv_live := removeAll w (sv_live st1)\<rparr>"
      using e by (simp add: detach_watcher_def Pair stop_watcher_def)
    have o: "owns (dict_set h (e\<lparr>en_watcher := None\<rparr>) (sv_scopes st1)) k v \<longleftrightarrow> k \<noteq> h \<and> owns (sv_scopes st1) k v" for k v
      by (auto simp: owns_def dict_simps)
    have he: "map_of (sv_scopes st1) h = Some e" using g(2,3) e(1) by simp
    have hw: "owns (sv_scopes st1) h v \<longleftrightarrow> v = w" for v using he e by (auto simp: owns_def)
    have inv: "v \<in> set (sv_live st1) \<longleftrightarrow> (\<exists>k. owns (sv_scopes st1) k v)" "v \<in> set (sv_live st1) \<Longrightarrow> v < sv_next_watcher st1"
      "owns (sv_scopes st1) k v \<Longrightarrow> owns (sv_scopes st1) k' v \<Longrightarrow> k = k'" for k k' v
      using g(1) unfolding watch_inv_def by blast+
    have "dict_wf (dict_set h (e\<lparr>en_watcher := None\<rparr>) (sv_scopes st1))" using watch_inv_wf [OF g(1)] by (rule distinct_update)
    moreover have "v \<in> set (removeAll w (sv_live st1)) \<longleftrightarrow> (\<exists>k. k \<noteq> h \<and> owns (sv_scopes st1) k v)" for v
      using inv(1) [of v] inv(3) hw by simp metis
    moreover have "\<forall>v \<in> set (removeAll w (sv_live st1)). v < sv_next_watcher st1" using inv(2) by auto
    moreover have "k \<noteq> h \<and> owns (sv_scopes st1) k v \<Longrightarrow> k' \<noteq> h \<and> owns (sv_scopes st1) k' v \<Longrightarrow> k = k'" for k k' v
      using inv(3) by blast
    moreover have "sv_scopes (detach_watcher h st) = dict_set h (e\<lparr>en_watcher := None\<rparr>) (sv_scopes st1)"
      "sv_live (detach_watcher h st) = removeAll w (sv_live st1)" "sv_next_watcher (detach_watcher h st) = sv_next_watcher st1"
      by (simp_all add: d)
    ultimately show ?thesis unfolding watch_inv_def by (simp only: o) blast
  qed (use g(1) in \<open>auto simp: detach_watcher_def Pair split: option.split\<close>)
qed

lemma set_entry_inv:
  assumes "watch_inv st" "map_of (sv_scopes st) h = Some e" "en_watcher e' = en_watcher e"
  shows "watch_inv (st\<lparr>sv_scopes := dict_set h e' (sv_scopes st)\<rparr>)"
    and "watch_inv (st\<lparr>sv_scopes := dict_set h e' (sv_scopes st), sv_cache := c\<rparr>)"
  by (rule watch_inv_set [OF assms], simp_all)+

lemma on_change_inv:
  assumes "watch_inv st"
  shows "watch_inv (on_change en now h touched cache st)"
proof (cases "get_scope h st")
  case (Pair r st1)
  note g = get_scope_inv [OF assms Pair]
  show ?thesis
    using g(1,2,3) set_entry_inv [OF g(1), of h]
    by (auto simp: on_change_def Pair split: option.split sum.split)
qed

lemma begin_rebuild_inv: "watch_inv st \<Longrightarrow> watch_inv (snd (begin_package_rebuild h why st))"
proof -
  assume inv: "watch_inv st"
  obtain r st1 where Pair: "get_scope h st = (r, st1)" by fastforce
  note g = get_scope_inv [OF inv Pair]
  show ?thesis
    using g(1,2,3) set_entry_inv(1) [OF g(1), of h]
    by (auto simp: begin_package_rebuild_def Pair split: option.split)
qed

lemma maybe_promote_inv: "watch_inv st \<Longrightarrow> watch_inv (snd (maybe_promote h ms st))"
proof -
  assume inv: "watch_inv st"
  obtain r st1 where Pair: "get_scope h st = (r, st1)" by fastforce
  note g = get_scope_inv [OF inv Pair]
  show ?thesis using g(1) begin_rebuild_inv [OF g(1)] by (simp add: maybe_promote_def Pair split: option.split)
qed

lemma sessions_inv: "watch_inv st \<Longrightarrow> watch_inv (st\<lparr>sv_sessions := ss\<rparr>)"
  unfolding watch_inv_def by simp

lemma confidence_inv:
  assumes inv: "watch_inv st"
  shows "watch_inv (snd (maybe_promote_on_confidence lm now h sid sc st))"
proof -
  have "watch_inv (snd (case get_scope h s of (None, t) \<Rightarrow> (False, t)
      | (Some e, t) \<Rightarrow> if en_mode e = Package \<or> en_index e = None then (False, t)
          else if en_status e \<in> {Indexing, Promoting, Failed, Evicted} then (False, t)
          else begin_package_rebuild h ''low-confidence'' t))" if s: "watch_inv s" for s
  proof -
    obtain r t where Pair: "get_scope h s = (r, t)" by fastforce
    note g = get_scope_inv [OF s Pair]
    show ?thesis using g(1) begin_rebuild_inv [OF g(1)] by (simp add: Pair split: option.split)
  qed
  then show ?thesis using inv sessions_inv [OF inv]
    by (simp add: maybe_promote_on_confidence_def Let_def split: option.split prod.split)
qed

lemma worker_inv: "watch_inv st \<Longrightarrow> watch_inv (promote_worker walk en now h cache st)"
proof -
  assume inv: "watch_inv st"
  show ?thesis
    using inv set_entry_inv [OF inv, of h]
    by (auto simp: promote_worker_def Let_def split: option.split sum.split)
qed

text \<open>The operations that run against the shared state, in any order.\<close>

datatype svc_op =
    SvGet string
  | SvRegister int time path string string
  | SvIdle time real
  | SvAttach string
  | SvDetach string
  | SvPromote string "string list"
  | SvConfidence limits time string string real
  | SvWorker "path \<Rightarrow> exc + path list" index_env time string parser_cache
  | SvChange index_env time string "path list" parser_cache

fun run_svc :: "svc_op \<Rightarrow> svc_state \<Rightarrow> svc_state" where
  "run_svc (SvGet h) st = snd (get_scope h st)"
| "run_svc (SvRegister cap now r h s) st = snd (register_scope cap now r h s st)"
| "run_svc (SvIdle now idle) st = snd (evict_idle_indexes now idle st)"
| "run_svc (SvAttach h) st = attach_watcher h st"
| "run_svc (SvDetach h) st = detach_watcher h st"
| "run_svc (SvPromote h ms) st = snd (maybe_promote h ms st)"
| "run_svc (SvConfidence lm now h sid sc) st = snd (maybe_promote_on_confidence lm now h sid sc st)"
| "run_svc (SvWorker walk en now h cache) st = promote_worker walk en now h cache st"
| "run_svc (SvChange en now h touched cache) st = on_change en now h touched cache st"

lemma get_scope_snd_inv: "watch_inv st \<Longrightarrow> watch_inv (snd (get_scope h st))"
  by (metis get_scope_inv(1) prod.collapse)

lemma run_svc_inv: "watch_inv st \<Longrightarrow> watch_inv (run_svc op st)"
  by (cases op)
    (simp_all add: register_inv evict_idle_inv attach_inv detach_inv maybe_promote_inv confidence_inv worker_inv
      on_change_inv get_scope_snd_inv)

interpretation svc: machine run_svc watch_inv
  by unfold_locales (rule run_svc_inv)

lemma state_new_inv: "watch_inv state_new"
  by (simp add: watch_inv_def state_new_def owns_def)

text \<open>
  No file watcher leaks. After any sequence of registry operations, watcher callbacks and
  rebuilds, the running watchers are exactly those attached to an entry, and no watcher serves
  two entries: whatever unloads an index has stopped its watcher.
\<close>

lemma no_watcher_leak:
  "w \<in> set (sv_live (fold run_svc ops state_new)) \<longleftrightarrow> (\<exists>!h. owns (sv_scopes (fold run_svc ops state_new)) h w)"
  using svc.run_inv [OF state_new_inv] unfolding watch_inv_def by blast

section \<open>Promotion\<close>

lemma begin_rebuild_True:
  "fst (begin_package_rebuild h why st) \<Longrightarrow>
   \<exists>e. map_of (sv_scopes (snd (begin_package_rebuild h why st))) h = Some e \<and> en_status e = Promoting \<and> en_mode e = Hot"
  by (auto simp: begin_package_rebuild_def get_scope_def dict_simps split: option.splits if_splits) (metis scope_mode.exhaust)+

lemma maybe_promote_True: "fst (maybe_promote h ms st) \<Longrightarrow> \<exists>s. maybe_promote h ms st = begin_package_rebuild h ''out-of-hot-path'' s"
  by (auto simp: maybe_promote_def split: option.splits prod.splits if_splits)

text \<open>
  At most one rebuild of a scope is in flight. Once a trigger has started a rebuild, the entry
  is Hot and promoting, and until the worker finishes both triggers refuse; once the worker has
  built the Package index they refuse for good.
\<close>

lemma promotion_single_flight:
  assumes "fst (maybe_promote h ms st)"
  defines "st1 \<equiv> snd (maybe_promote h ms st)"
  shows "\<not> fst (maybe_promote h ms' st1) \<and> \<not> fst (maybe_promote_on_confidence lm now h sid sc st1)
    \<and> (\<forall>walk en t cache e. map_of (sv_scopes (promote_worker walk en t h cache st1)) h = Some e \<longrightarrow> en_mode e = Package
         \<longrightarrow> \<not> fst (maybe_promote h ms' (promote_worker walk en t h cache st1)))"
proof -
  obtain s where "maybe_promote h ms st = begin_package_rebuild h ''out-of-hot-path'' s"
    using maybe_promote_True [OF assms(1)] by blast
  then obtain e where e: "map_of (sv_scopes st1) h = Some e" "en_status e = Promoting" "en_mode e = Hot"
    using begin_rebuild_True [of h "''out-of-hot-path''" s] assms(1) by (auto simp: st1_def)
  have "\<not> fst (maybe_promote h ms' st1)" using e by (simp add: maybe_promote_def get_scope_def)
  moreover have "\<not> fst (maybe_promote_on_confidence lm now h sid sc st1)"
    using e by (simp add: maybe_promote_on_confidence_def get_scope_def Let_def split: option.split prod.split)
  moreover have "\<not> fst (maybe_promote h ms' t)" if "map_of (sv_scopes t) h = Some d" "en_mode d = Package" for t d
    using that by (simp add: maybe_promote_def get_scope_def)
  ultimately show ?thesis by blast
qed

definition demo_entry :: "scope_entry" where
  "demo_entry = \<lparr>en_root = [''/'', ''p''], en_hash = ''h1'', en_sentinel = ''.git'', en_index = Some demo_index_built,
     en_status = Ready, en_error = None, en_created_at = 0, en_last_query_at = 0, en_from_disk = False, en_watcher = None,
     en_mode = Hot, en_indexed_files = [''/p/a'']\<rparr>"

lemma promotion_single_flight_witness:
  "fst (maybe_promote ''h1'' [''/p/z''] (state_new\<lparr>sv_scopes := [(''h1'', demo_entry)]\<rparr>))
   \<and> \<not> fst (maybe_promote ''h1'' [''/p/y''] (snd (maybe_promote ''h1'' [''/p/z''] (state_new\<lparr>sv_scopes := [(''h1'', demo_entry)]\<rparr>))))"
proof -
  have t: "fst (maybe_promote ''h1'' [''/p/z''] (state_new\<lparr>sv_scopes := [(''h1'', demo_entry)]\<rparr>))"
    by (simp add: maybe_promote_def get_scope_def dict_move_to_end_def demo_entry_def begin_package_rebuild_def state_new_def)
  from promotion_single_flight [OF t, of "[''/p/y'']"] t show ?thesis by simp
qed

text \<open>
  Low confidence promotes after exactly the configured streak. For a known session, the
  streak counts the consecutive scores below the threshold, a score at or above it resets the
  streak, and the trigger fires only when the streak reaches the configured length on a Hot scope
  that has an index and is in a status that allows it; the streak then restarts from zero.
\<close>

lemma confidence_streak:
  fixes lm :: limits and sc :: real and now :: time and h :: string
  assumes "sid \<noteq> []" "map_of (sv_sessions st) sid = Some s"
  defines "low \<equiv> if sc < confidence_threshold lm then se_consecutive_low s + 1 else 0"
  defines "r \<equiv> maybe_promote_on_confidence lm now h sid sc st"
  shows "(fst r \<longleftrightarrow> confidence_consecutive_low lm \<le> int low
        \<and> (\<exists>e. map_of (sv_scopes st) h = Some e \<and> en_mode e = Hot \<and> en_index e \<noteq> None
             \<and> en_status e \<notin> {Indexing, Promoting, Failed, Evicted}))
    \<and> (\<exists>s'. map_of (sv_sessions (snd r)) sid = Some s' \<and>
         se_consecutive_low s' = (if int low < confidence_consecutive_low lm then low else 0))"
proof -
  have mode: "en_mode e \<noteq> Package \<longleftrightarrow> en_mode e = Hot" for e :: scope_entry by (cases "en_mode e") auto
  have sess: "sv_sessions (snd (begin_package_rebuild h why t)) = sv_sessions t" for why t
    by (auto simp: begin_package_rebuild_def get_scope_def split: option.split)
  have begins: "fst (begin_package_rebuild h why t) \<longleftrightarrow>
      (\<exists>e. map_of (sv_scopes t) h = Some e \<and> en_mode e = Hot \<and> en_status e \<notin> {Indexing, Promoting})" for why t
    by (auto simp: begin_package_rebuild_def get_scope_def dict_simps mode split: option.split)
  show ?thesis
  proof (cases "int low < confidence_consecutive_low lm")
    case True
    then show ?thesis using assms(1,2)
      by (cases "sc < confidence_threshold lm") (simp_all add: r_def maybe_promote_on_confidence_def sm_get_def Let_def low_def record_confidence_def dict_simps)
  next
    case False
    show ?thesis using assms(1,2) False
      by (cases "map_of (sv_scopes st) h"; cases "sc < confidence_threshold lm") (auto simp: r_def maybe_promote_on_confidence_def sm_get_def Let_def low_def record_confidence_def dict_simps
          get_scope_def sess begins mode split: option.splits)
  qed
qed

lemma confidence_streak_witness:
  "\<exists>s'. map_of (sv_sessions (snd (maybe_promote_on_confidence limits_default 5 ''h1'' ''s'' (1 / 10)
       (state_new\<lparr>sv_sessions := bind_all [(1, ''s'', ''h1'', ''x'')] []\<rparr>)))) ''s'' = Some s' \<and> se_consecutive_low s' = 1"
proof -
  have "\<exists>s. map_of (bind_all [(1, ''s'', ''h1'', ''x'')] []) ''s'' = Some s \<and> se_consecutive_low s = 0"
    by (simp add: bind_all_def sm_bind_def Let_def)
  then obtain s where s: "map_of (sv_sessions (state_new\<lparr>sv_sessions := bind_all [(1, ''s'', ''h1'', ''x'')] []\<rparr>)) ''s'' = Some s"
    "se_consecutive_low s = 0" by auto
  from confidence_streak [OF _ s(1), where sc = "1 / 10" and lm = limits_default and now = 5 and h = "''h1''"] s(2) show ?thesis
    by (simp add: limits_default_def)
qed

end
