(* ===== verification/Svc_App.thy ===== *)
theory Svc_App
  imports Svc_Detect Svc_Walk Svc_Pipeline Svc_State
begin

text \<open>
  The retrieval endpoint (\<open>longctx_svc/app.py\<close>): building the index of a scope, \<open>/retrieve\<close> with
  its session, cluster, multi-scope and promotion steps, and the workspace query. Each handler is
  one function on the state of the service; a background build is recorded in \<open>as_jobs\<close> and run
  by a step of its own, so it may come at any later moment.

  Every exception that leaves a handler is a status 500, raised on purpose or not; \<open>NoReply\<close>
  would be a detection that does not come back, which \<open>Svc_Detect\<close> excludes. The confidence
  header is left out.
\<close>

record app_env =
  ae_detect :: detect_env
  ae_walk :: walk_env
  ae_index :: index_env
  ae_pipe :: pipe_env
  ae_id :: "scope_index \<Rightarrow> nat"
  ae_set_order :: "string set \<Rightarrow> string list"   \<comment> \<open>the order in which Python lists a set\<close>

record app_state =
  as_svc :: svc_state
  as_pipe :: pipeline
  as_parsers :: parser_cache
  as_jobs :: "detected_scope list"

abbreviation app_limits :: "app_env \<Rightarrow> limits" where
  "app_limits en \<equiv> cf_limits (ix_cfg (ae_index en))"

section \<open>The index of a scope\<close>

definition scope_files :: "app_env \<Rightarrow> detected_scope \<Rightarrow> exc + path list \<times> scope_mode" where
  "scope_files en sc =
     (case walk_hot_scope (ae_walk en) (ds_root sc) (ds_mentioned sc) of
        Inl x \<Rightarrow> Inl x
      | Inr files \<Rightarrow>
          if length files < 50
          then (case walk_package_scope (ae_walk en) (ds_root sc) of Inl x \<Rightarrow> Inl x | Inr fs \<Rightarrow> Inr (take 50000 fs, Package))
          else Inr (files, Hot))"

definition set_entry :: "string \<Rightarrow> scope_entry \<Rightarrow> app_state \<Rightarrow> app_state" where
  "set_entry h e st = st\<lparr>as_svc := (as_svc st)\<lparr>sv_scopes := dict_set h e (sv_scopes (as_svc st))\<rparr>\<rparr>"

definition build_scope_index :: "app_env \<Rightarrow> time \<Rightarrow> detected_scope \<Rightarrow> app_state \<Rightarrow> exc option \<times> app_state" where
  \<comment> \<open>on the registered entry of the scope; entries are unloaded, never removed\<close>
  "build_scope_index en now sc st =
     (let h = ds_hash sc in
      case dict_get (sv_scopes (as_svc st)) h of
        None \<Rightarrow> (None, st)
      | Some e \<Rightarrow>
          if index_loaded e then (None, st)
          else case scope_files en sc of
            Inl x \<Rightarrow> (Some x, set_entry h (e\<lparr>en_status := Failed, en_error := Some ''index build failed''\<rparr>) st)
          | Inr (files, mode) \<Rightarrow>
              let (ix, parsers) = build_index (ae_index en) now (ds_root sc) files h (as_parsers st);
                  status = (if sx_embeddings ix \<noteq> None then Ready else Empty);
                  st = set_entry h (e\<lparr>en_index := Some ix, en_indexed_files := map path_str files, en_mode := mode, en_status := status\<rparr>)
                    (st\<lparr>as_parsers := parsers\<rparr>);
                  svc = as_svc st
              in if status = Ready
                 then (None, st\<lparr>as_svc := attach_watcher h (svc\<lparr>sv_cache := save_index ix (ds_sentinel sc) now (sv_cache svc)\<rparr>)\<rparr>)
                 else (None, st))"

definition ensure_scope :: "app_env \<Rightarrow> time \<Rightarrow> detected_scope \<Rightarrow> bool \<Rightarrow> app_state \<Rightarrow> exc option \<times> app_state" where
  "ensure_scope en now sc async_kickoff st =
     (case register_scope (max_indexes_in_memory (app_limits en)) now (ds_root sc) (ds_hash sc) (ds_sentinel sc) (as_svc st) of
        (Inl x, svc) \<Rightarrow> (Some x, st\<lparr>as_svc := svc\<rparr>)
      | (Inr e, svc) \<Rightarrow>
          let st = st\<lparr>as_svc := svc\<rparr> in
          if index_loaded e then (None, st)
          else if async_kickoff then
            if en_status e = Indexing then (None, st)
            else (None, (set_entry (ds_hash sc) (e\<lparr>en_status := Indexing\<rparr>) st)\<lparr>as_jobs := as_jobs st @ [sc]\<rparr>)
          else build_scope_index en now sc st)"

definition run_job :: "app_env \<Rightarrow> time \<Rightarrow> app_state \<Rightarrow> app_state" where
  \<comment> \<open>the build thread started first gets to run\<close>
  "run_job en now st = (case as_jobs st of [] \<Rightarrow> st | sc # jobs \<Rightarrow> snd (build_scope_index en now sc (st\<lparr>as_jobs := jobs\<rparr>)))"

section \<open>Requests and responses\<close>

record retrieve_request =
  rq_session_id :: "string option"
  rq_prefill :: string
  rq_query :: string
  rq_top_k :: int
  rq_explicit_scope :: "string option"
  rq_default_scope :: "string option"

record response =
  rs_chunks :: "(chunk \<times> real) list"
  rs_scope_path :: "string option"
  rs_scope_hash :: "string option"
  rs_status :: string
  rs_sentinel :: "string option"
  rs_session :: "string option"
  rs_used_rerank :: bool
  rs_paraphrases :: nat
  rs_headers :: "(string, string) dict"

datatype http = HttpOk response | HttpError nat | NoReply

definition status_str :: "scope_status \<Rightarrow> string" where
  "status_str s = (case s of Pending \<Rightarrow> ''pending'' | Indexing \<Rightarrow> ''indexing'' | Ready \<Rightarrow> ''ready'' | Empty \<Rightarrow> ''empty''
     | Failed \<Rightarrow> ''error'' | Evicted \<Rightarrow> ''evicted'' | Promoting \<Rightarrow> ''promoting'')"

definition reply_headers :: "string option \<Rightarrow> string \<Rightarrow> nat \<Rightarrow> string \<Rightarrow> (string, string) dict" where
  "reply_headers sid scope n status =
     [(''x-longctx-session'', case sid of None \<Rightarrow> ''ephemeral'' | Some s \<Rightarrow> if s = [] then ''ephemeral'' else s),
      (''x-longctx-scope'', scope), (''x-longctx-chunks-used'', nat_str n), (''x-longctx-scope-status'', status)]"

definition empty_reply :: "string option \<Rightarrow> string option \<Rightarrow> string option \<Rightarrow> string \<Rightarrow> string option \<Rightarrow> response" where
  "empty_reply sid scope_path scope_hash status sentinel =
     \<lparr>rs_chunks = [], rs_scope_path = scope_path, rs_scope_hash = scope_hash, rs_status = status, rs_sentinel = sentinel,
      rs_session = sid, rs_used_rerank = False, rs_paraphrases = 0,
      rs_headers = reply_headers sid (case scope_path of None \<Rightarrow> [] | Some p \<Rightarrow> p) 0 status\<rparr>"

definition result_reply :: "string option \<Rightarrow> string \<Rightarrow> string option \<Rightarrow> string \<Rightarrow> string \<Rightarrow> retrieve_result \<Rightarrow> response" where
  "result_reply sid scope_path scope_hash status sentinel r =
     \<lparr>rs_chunks = zip (rr_chunks r) (rr_scores r), rs_scope_path = Some scope_path, rs_scope_hash = scope_hash, rs_status = status,
      rs_sentinel = Some sentinel, rs_session = sid, rs_used_rerank = rr_used_rerank r, rs_paraphrases = length (rr_paraphrases r),
      rs_headers = reply_headers sid scope_path (length (rr_chunks r)) status\<rparr>"

definition truthy_str :: "string option \<Rightarrow> bool" where
  "truthy_str s \<longleftrightarrow> s \<noteq> None \<and> s \<noteq> Some []"

section \<open>The path cluster fallback\<close>

definition min_cluster_scope_depth :: nat where
  "min_cluster_scope_depth = 3"

definition cluster_scope :: "app_env \<Rightarrow> path \<Rightarrow> path list \<Rightarrow> (exc + detected_scope) option" where
  \<comment> \<open>the sentinel root above the cluster ancestor if it is deep enough, else the ancestor itself\<close>
  "cluster_scope en anc paths =
     (case find_sentinel_root (ae_detect en) [] anc of
        None \<Rightarrow> None
      | Some (Inl x) \<Rightarrow> Some (Inl x)
      | Some (Inr hit) \<Rightarrow>
          let (base, name) = (case hit of
                Some (r, s) \<Rightarrow> if min_cluster_scope_depth \<le> length r then (r, s) else (anc, ''cluster'')
              | None \<Rightarrow> (anc, ''cluster''))
          in Some (Inr (scope_at (ae_detect en) (canonicalize_scope (ae_detect en) base) name paths)))"

fun warm_candidates :: "app_env \<Rightarrow> time \<Rightarrow> path list \<Rightarrow> path list \<Rightarrow> app_state \<Rightarrow> app_state" where
  \<comment> \<open>start background builds; an exception ends the loop quietly\<close>
  "warm_candidates en now paths [] st = st"
| "warm_candidates en now paths (anc # ancs) st =
     (if length anc < min_cluster_scope_depth then warm_candidates en now paths ancs st
      else case ensure_scope en now (scope_at (ae_detect en) (canonicalize_scope (ae_detect en) anc) ''cluster-speculative'' paths) True st of
        (Some x, st) \<Rightarrow> st
      | (None, st) \<Rightarrow> warm_candidates en now paths ancs st)"

definition cluster_step ::
  "app_env \<Rightarrow> time \<Rightarrow> string \<Rightarrow> path list \<Rightarrow> detected_scope option \<Rightarrow> app_state \<Rightarrow> (exc + detected_scope option) option \<times> app_state" where
  "cluster_step en now sid paths scope st =
     (let (tr, svc) = cluster_tracker_for sid (as_svc st) in
      case observe now paths tr of
        Inl x \<Rightarrow> (Some (Inl x), st\<lparr>as_svc := svc\<rparr>)
      | Inr (tick, tr) \<Rightarrow>
          let st = st\<lparr>as_svc := svc\<lparr>sv_trackers := dict_set sid tr (sv_trackers svc)\<rparr>\<rparr> in
          if scope \<noteq> None then (Some (Inr scope), st)
          else case tk_active tick of
            Some a \<Rightarrow>
              if min_cluster_scope_depth \<le> length (c_ancestor a)
              then (map_option (map_sum id Some) (cluster_scope en (c_ancestor a) paths), st)
              else (Some (Inr None), warm_candidates en now paths (map c_ancestor (take 2 (tk_speculative tick))) st)
          | None \<Rightarrow> (Some (Inr None), warm_candidates en now paths (map c_ancestor (take 2 (tk_speculative tick))) st))"

section \<open>\<open>/retrieve\<close>\<close>

definition bind_session :: "time \<Rightarrow> string \<Rightarrow> string \<Rightarrow> string \<Rightarrow> app_state \<Rightarrow> app_state" where
  "bind_session now sid h via st =
     st\<lparr>as_svc := (as_svc st)\<lparr>sv_sessions := snd (sm_bind now sid h via (sv_sessions (as_svc st)))\<rparr>\<rparr>"

fun bind_others :: "app_env \<Rightarrow> time \<Rightarrow> string \<Rightarrow> string \<Rightarrow> detected_scope list \<Rightarrow> app_state \<Rightarrow> app_state" where
  \<comment> \<open>bind and build the other scopes of the prompt; a build that fails is passed over\<close>
  "bind_others en now sid primary [] st = st"
| "bind_others en now sid primary (sc # scs) st =
     (if ds_hash sc = primary then bind_others en now sid primary scs st
      else bind_others en now sid primary scs
             (snd (ensure_scope en now sc False (bind_session now sid (ds_hash sc) ''multi-mention'' st))))"

definition query_scope :: "app_env \<Rightarrow> time \<Rightarrow> retrieve_request \<Rightarrow> string option \<Rightarrow> detected_scope \<Rightarrow> scope_entry \<Rightarrow> scope_index \<Rightarrow> app_state \<Rightarrow> http \<times> app_state" where
  \<comment> \<open>the scope is loaded: retrieve, then the two promotion triggers; a retrieve that raises answers 500\<close>
  "query_scope en now rq sid sc e ix st =
     (let h = ds_hash sc;
          ar = \<lparr>ra_top_k = rq_top_k rq, ra_prefilter = 100, ra_use_rerank = True, ra_use_coarse_filter = None,
                ra_scope_root = Some (ds_root sc), ra_use_symbol_augment = None\<rparr>
      in case pipe_retrieve (ae_pipe en) now (rq_query rq) (ae_id en ix) ix ar (as_pipe st) of
           (Inl x, _, pl) \<Rightarrow> (HttpError 500, st\<lparr>as_pipe := pl\<rparr>)
         | (Inr r, ix', pl) \<Rightarrow>
             let st = (set_entry h (e\<lparr>en_index := Some ix', en_last_query_at := now\<rparr>) st)\<lparr>as_pipe := pl\<rparr>;
                 svc = snd (maybe_promote h (map path_str (ds_mentioned sc)) (as_svc st));
                 top_score = (case rr_scores r of [] \<Rightarrow> 0 | s # _ \<Rightarrow> s);
                 svc = (case sid of
                          Some s \<Rightarrow> if s = [] then svc else snd (maybe_promote_on_confidence (app_limits en) now h s top_score svc)
                        | None \<Rightarrow> svc);
                 status = (case dict_get (sv_scopes svc) h of None \<Rightarrow> en_status e | Some e \<Rightarrow> en_status e)
             in (HttpOk (result_reply sid (path_str (ds_root sc)) (Some h) (status_str status) (ds_sentinel sc) r), st\<lparr>as_svc := svc\<rparr>))"

definition serve_scope :: "app_env \<Rightarrow> time \<Rightarrow> retrieve_request \<Rightarrow> string option \<Rightarrow> string \<Rightarrow> bool \<Rightarrow> detected_scope \<Rightarrow> app_state \<Rightarrow> http \<times> app_state" where
  \<comment> \<open>a scope was found: bind, build or start building, answer\<close>
  "serve_scope en now rq sid via async_kickoff sc st =
     (let st = (case sid of None \<Rightarrow> st | Some s \<Rightarrow> bind_session now s (ds_hash sc) via st) in
      case ensure_scope en now sc async_kickoff st of
        (Some x, st) \<Rightarrow> (HttpError 500, st)
      | (None, st) \<Rightarrow>
          (case get_scope (ds_hash sc) (as_svc st) of
             (None, svc) \<Rightarrow> (HttpError 500, st\<lparr>as_svc := svc\<rparr>)
           | (Some e, svc) \<Rightarrow>
               let st = st\<lparr>as_svc := svc\<rparr> in
               (case en_index e of
                  Some ix \<Rightarrow>
                    if sx_embeddings ix = None
                    then (HttpOk (empty_reply sid (Some (path_str (ds_root sc))) (Some (ds_hash sc)) (status_str (en_status e)) (Some (ds_sentinel sc))), st)
                    else query_scope en now rq sid sc e ix st
                | None \<Rightarrow>
                    (HttpOk (empty_reply sid (Some (path_str (ds_root sc))) (Some (ds_hash sc)) (status_str (en_status e)) (Some (ds_sentinel sc))), st))))"

definition touch_scope :: "time \<Rightarrow> string \<Rightarrow> scopes \<Rightarrow> scopes" where
  \<comment> \<open>the entry object of a searched scope and its index note the time\<close>
  "touch_scope now h es =
     (case dict_get es h of
        None \<Rightarrow> es
      | Some e \<Rightarrow>
          if index_loaded e
          then dict_set h (e\<lparr>en_index := map_option (touch_index now) (en_index e), en_last_query_at := now\<rparr>) es
          else es)"

definition touch_searched :: "time \<Rightarrow> string \<Rightarrow> scopes \<Rightarrow> scopes" where
  \<comment> \<open>the index of a scope searched before another one raised notes the time\<close>
  "touch_searched now h es =
     (case dict_get es h of
        None \<Rightarrow> es
      | Some e \<Rightarrow> dict_set h (e\<lparr>en_index := map_option (touch_index now) (en_index e)\<rparr>) es)"

definition loaded_scopes :: "string list \<Rightarrow> scopes \<Rightarrow> string list" where
  "loaded_scopes hs es = filter (\<lambda>h. case dict_get es h of None \<Rightarrow> False | Some e \<Rightarrow> index_loaded e) hs"

definition workspace_scopes :: "app_env \<Rightarrow> time \<Rightarrow> string option \<Rightarrow> svc_state \<Rightarrow> string list \<times> svc_state" where
  \<comment> \<open>the scopes the session was bound to; looking the session up notes the time\<close>
  "workspace_scopes en now sid svc =
     (case sid of
        None \<Rightarrow> ([], svc)
      | Some s \<Rightarrow> if s = [] then ([], svc)
          else case sm_get now s (sv_sessions svc) of
            (None, ss) \<Rightarrow> ([], svc\<lparr>sv_sessions := ss\<rparr>)
          | (Some se, ss) \<Rightarrow> (ae_set_order en (se_scope_hashes se), svc\<lparr>sv_sessions := ss\<rparr>))"

definition retrieve_workspace :: "app_env \<Rightarrow> time \<Rightarrow> retrieve_request \<Rightarrow> string option \<Rightarrow> app_state \<Rightarrow> http \<times> app_state" where
  \<comment> \<open>search every loaded scope the session was bound to\<close>
  "retrieve_workspace en now rq sid st =
     (let (scope_hashes, svc) = workspace_scopes en now sid (as_svc st);
          entries = get_scopes scope_hashes svc
      in if entries = [] then (HttpOk (empty_reply sid (Some ''ws:'') None ''no-scope'' (Some ''workspace'')), st\<lparr>as_svc := svc\<rparr>)
         else
           let indexes = map (\<lambda>e. (ae_id en (the (en_index e)), the (en_index e))) entries
           in case retrieve_multi (ae_pipe en) now (rq_query rq) indexes (rq_top_k rq) 100 True (as_pipe st) of
                (Inl (x, n), pl) \<Rightarrow>
                  let searched = take n (loaded_scopes scope_hashes (sv_scopes svc));
                      svc = svc\<lparr>sv_scopes := fold (touch_searched now) searched (sv_scopes svc)\<rparr>
                  in (HttpError 500, st\<lparr>as_svc := svc, as_pipe := pl\<rparr>)
              | (Inr r, pl) \<Rightarrow>
                  let svc = svc\<lparr>sv_scopes := fold (touch_scope now) scope_hashes (sv_scopes svc)\<rparr>
                  in (HttpOk (result_reply sid ''ws:'' None ''ready'' ''workspace'' r), st\<lparr>as_svc := svc, as_pipe := pl\<rparr>))"

definition request_session :: "retrieve_request \<Rightarrow> (string, string) dict \<Rightarrow> string option \<times> string" where
  "request_session rq headers =
     (case rq_session_id rq of
        Some s \<Rightarrow> (Some s, if s = [] then [] else ''explicit-body'')
      | None \<Rightarrow> extract_session_id (Some headers) None)"

definition wants_async :: "(string, string) dict \<Rightarrow> bool" where
  \<comment> \<open>header names are in lower case already\<close>
  "wants_async headers \<longleftrightarrow> (case dict_get headers ''x-longctx-async'' of
     None \<Rightarrow> False | Some v \<Rightarrow> py_lower v \<in> {''1'', ''true'', ''yes''})"

definition bind_mentions :: "app_env \<Rightarrow> time \<Rightarrow> retrieve_request \<Rightarrow> string option \<Rightarrow> path option \<Rightarrow> detected_scope option \<Rightarrow> app_state
     \<Rightarrow> (exc + unit) option \<times> app_state" where
  \<comment> \<open>bind every other scope the prompt mentions, then the primary one again\<close>
  "bind_mentions en now rq sid explicit_root scope st =
     (case (sid, scope) of
        (Some s, Some sc) \<Rightarrow>
          if s = [] \<or> explicit_root \<noteq> None then (Some (Inr ()), st)
          else (case detect_scopes (ae_detect en) (rq_prefill rq) [] (map_option path_of (rq_default_scope rq)) of
              None \<Rightarrow> (None, st)
            | Some (Inl x) \<Rightarrow> (Some (Inl x), st)
            | Some (Inr scs) \<Rightarrow>
                (Some (Inr ()), bind_session now s (ds_hash sc) ''header:x-session-affinity''
                   (bind_others en now s (ds_hash sc) scs st)))
      | _ \<Rightarrow> (Some (Inr ()), st))"

definition answer_scope :: "app_env \<Rightarrow> time \<Rightarrow> retrieve_request \<Rightarrow> (string, string) dict \<Rightarrow> string option \<Rightarrow> string \<Rightarrow> path option
     \<Rightarrow> (exc + detected_scope option) option \<Rightarrow> app_state \<Rightarrow> http \<times> app_state" where
  \<comment> \<open>from the scope that was settled on: bind what the prompt mentions, then answer\<close>
  "answer_scope en now rq headers sid via explicit_root res st =
     (case res of
        None \<Rightarrow> (NoReply, st)
      | Some (Inl x) \<Rightarrow> (HttpError 500, st)
      | Some (Inr scope) \<Rightarrow>
          (case bind_mentions en now rq sid explicit_root scope st of
             (None, st) \<Rightarrow> (NoReply, st)
           | (Some (Inl x), st) \<Rightarrow> (HttpError 500, st)
           | (Some (Inr u), st) \<Rightarrow>
               (case scope of
                  None \<Rightarrow> (HttpOk (empty_reply sid None None ''no-scope'' None), st)
                | Some sc \<Rightarrow> serve_scope en now rq sid via (wants_async headers) sc st)))"

definition handle_retrieve :: "app_env \<Rightarrow> time \<Rightarrow> retrieve_request \<Rightarrow> (string, string) dict \<Rightarrow> app_state \<Rightarrow> http \<times> app_state" where
  "handle_retrieve en now rq headers st =
     (let (sid, via) = request_session rq headers in
      if rq_explicit_scope rq = Some ''ws:'' then retrieve_workspace en now rq sid st
      else
        let explicit_root = (if truthy_str (rq_explicit_scope rq) then map_option path_of (rq_explicit_scope rq) else None);
            default_scope = map_option path_of (rq_default_scope rq)
        in case detect_scope (ae_detect en) (rq_prefill rq) explicit_root [] default_scope of
             None \<Rightarrow> (NoReply, st)
           | Some (Inl x) \<Rightarrow> (HttpError 500, st)
           | Some (Inr scope) \<Rightarrow>
               (case sid of
                  Some s \<Rightarrow>
                    if explicit_root = None
                    then case cluster_step en now s (extract_paths_from_prefill (ae_detect en) (rq_prefill rq) default_scope) scope st of
                           (res, st) \<Rightarrow> answer_scope en now rq headers sid via explicit_root res st
                    else answer_scope en now rq headers sid via explicit_root (Some (Inr scope)) st
                | None \<Rightarrow> answer_scope en now rq headers sid via explicit_root (Some (Inr scope)) st))"

section \<open>What an answer holds\<close>

lemma pipe_retrieve_length:
  fixes en :: pipe_env and now :: time and query :: string and key :: nat and ix :: scope_index and pl :: pipeline
  assumes "0 \<le> ra_top_k ar" "fst (pipe_retrieve en now query key ix ar pl) = Inr r"
  shows "int (length (rr_chunks r)) \<le> ra_top_k ar \<and> length (rr_scores r) = length (rr_chunks r)"
proof (cases "sx_embeddings ix = None \<or> sx_chunks ix = []")
  case True
  then show ?thesis using assms by (auto simp: pipe_retrieve_def no_chunks_def split: option.splits)
next
  case False
  then obtain rows where rows: "sx_embeddings ix = Some rows" "sx_chunks ix \<noteq> []" by (cases "sx_embeddings ix") auto
  obtain picks sims where "rr_chunks r = map ((!) (sx_chunks ix)) (py_take (ra_top_k ar) picks)"
      "rr_scores r = map ((!) sims) (py_take (ra_top_k ar) picks)"
    by (rule pipe_retrieve_parts [OF rows, where ar = ar and en = en and key = key and pl = pl and query = query and now = now])
      (use assms(2) in \<open>auto simp: Let_def split: sum.splits\<close>)
  then show ?thesis using length_py_take [OF assms(1), of picks] by simp
qed

definition answers_within :: "int \<Rightarrow> http \<Rightarrow> bool" where
  "answers_within k r \<longleftrightarrow> (case r of HttpOk rs \<Rightarrow> int (length (rs_chunks rs)) \<le> k | _ \<Rightarrow> True)"

lemma empty_reply_within: "0 \<le> k \<Longrightarrow> answers_within k (HttpOk (empty_reply sid p h s snt))"
  by (simp add: answers_within_def empty_reply_def)

lemma result_reply_within: "int (length (rr_chunks r)) \<le> k \<Longrightarrow> answers_within k (HttpOk (result_reply sid p h s snt r))"
  by (simp add: answers_within_def result_reply_def)

lemma error_within: "answers_within k (HttpError n)" "answers_within k NoReply"
  by (simp_all add: answers_within_def)

lemma query_scope_within: "0 \<le> rq_top_k rq \<Longrightarrow> answers_within (rq_top_k rq) (fst (query_scope en now rq sid sc e ix st))"
proof -
  assume k: "0 \<le> rq_top_k rq"
  define ar where "ar = \<lparr>ra_top_k = rq_top_k rq, ra_prefilter = 100, ra_use_rerank = True, ra_use_coarse_filter = None,
      ra_scope_root = Some (ds_root sc), ra_use_symbol_augment = None\<rparr>"
  obtain res ix' pl where run: "pipe_retrieve (ae_pipe en) now (rq_query rq) (ae_id en ix) ix ar (as_pipe st) = (res, ix', pl)"
    by (cases "pipe_retrieve (ae_pipe en) now (rq_query rq) (ae_id en ix) ix ar (as_pipe st)") auto
  show ?thesis
  proof (cases res)
    case (Inl x)
    then show ?thesis using run by (simp add: query_scope_def ar_def [symmetric] Let_def error_within)
  next
    case (Inr r)
    have "int (length (rr_chunks r)) \<le> rq_top_k rq"
      using pipe_retrieve_length [of ar "ae_pipe en" now "rq_query rq" "ae_id en ix" ix "as_pipe st" r] run Inr k by (simp add: ar_def)
    then show ?thesis using run Inr by (simp add: query_scope_def ar_def [symmetric] Let_def result_reply_within)
  qed
qed

lemma serve_scope_within: "0 \<le> rq_top_k rq \<Longrightarrow> answers_within (rq_top_k rq) (fst (serve_scope en now rq sid via as sc st))"
  by (auto simp: serve_scope_def Let_def query_scope_within empty_reply_within split: prod.split option.split)
    (simp_all add: answers_within_def)

lemma retrieve_multi_within: "0 \<le> k \<Longrightarrow> retrieve_multi en now q ixs k pf rr pl = (Inr r, pl') \<Longrightarrow> int (length (rr_chunks r)) \<le> k"
  by (auto simp: retrieve_multi_def no_chunks_def Let_def length_py_take split: prod.splits option.splits if_splits)

lemma workspace_within: "0 \<le> rq_top_k rq \<Longrightarrow> answers_within (rq_top_k rq) (fst (retrieve_workspace en now rq sid st))"
  by (auto simp: retrieve_workspace_def Let_def empty_reply_within error_within split: prod.split sum.split
      intro!: result_reply_within elim: retrieve_multi_within)

lemma answer_scope_within:
  assumes "0 \<le> rq_top_k rq"
  shows "answers_within (rq_top_k rq) (fst (answer_scope en now rq headers sid via er res st))"
proof -
  have bound: "answers_within (rq_top_k rq) (fst (case bm of
      (None, st) \<Rightarrow> (NoReply, st) | (Some (Inl x), st) \<Rightarrow> (HttpError 500, st)
    | (Some (Inr u), st) \<Rightarrow> (case scope of None \<Rightarrow> (HttpOk (empty_reply sid None None ''no-scope'' None), st)
        | Some sc \<Rightarrow> serve_scope en now rq sid via (wants_async headers) sc st)))" for bm :: "(exc + unit) option \<times> app_state" and scope
    using assms by (cases bm) (auto simp: error_within serve_scope_within empty_reply_within split: option.split sum.split)
  show ?thesis unfolding answer_scope_def using bound error_within by (cases res; simp split: sum.split)
qed

text \<open>
  C30: an answer holds at most \<open>top_k\<close> chunks. Whatever the request, its headers and the state of
  the service, \<open>/retrieve\<close> and its workspace form return no more chunks than were asked for.
\<close>

theorem retrieve_within_top_k:
  assumes "0 \<le> rq_top_k rq"
  shows "case fst (handle_retrieve en now rq headers st) of HttpOk rs \<Rightarrow> int (length (rs_chunks rs)) \<le> rq_top_k rq | _ \<Rightarrow> True"
proof -
  obtain sid via where s: "request_session rq headers = (sid, via)" by fastforce
  have "answers_within (rq_top_k rq) (fst (handle_retrieve en now rq headers st))"
    unfolding handle_retrieve_def s Let_def prod.case
    by (simp add: assms workspace_within error_within answer_scope_within case_prod_beta split: option.split sum.split)
  then show ?thesis by (simp add: answers_within_def)
qed

section \<open>No path, no effect\<close>

text \<open>
  Without a path there is no retrieval. A request with no session, no explicit scope and no
  path in its prompt is answered with no chunk and the status \<open>no-scope\<close>, and changes nothing.
\<close>

lemma no_path_no_effect:
  assumes "fst (request_session rq headers) = None" "\<not> truthy_str (rq_explicit_scope rq)"
    and "extract_paths_from_prefill (ae_detect en) (rq_prefill rq) (map_option path_of (rq_default_scope rq)) = []"
  shows "handle_retrieve en now rq headers st = (HttpOk (empty_reply None None None ''no-scope'' None), st)"
proof -
  obtain via where s: "request_session rq headers = (None, via)" using assms(1) by (metis prod.collapse)
  have "rq_explicit_scope rq \<noteq> Some ''ws:''" using assms(2) by (auto simp: truthy_str_def)
  moreover have "detect_scope (ae_detect en) (rq_prefill rq) None [] (map_option path_of (rq_default_scope rq)) = Some (Inr None)"
    using assms(3) by (simp add: detect_scope_def)
  ultimately show ?thesis using assms(2) by (simp add: handle_retrieve_def s answer_scope_def bind_mentions_def)
qed

section \<open>The watchers of the service\<close>

abbreviation app_inv :: "app_state \<Rightarrow> bool" where
  "app_inv st \<equiv> watch_inv (as_svc st)"

lemma set_entry_app:
  "app_inv st \<Longrightarrow> dict_get (sv_scopes (as_svc st)) h = Some e \<Longrightarrow> en_watcher e' = en_watcher e \<Longrightarrow> app_inv (set_entry h e' st)"
  using set_entry_inv(1) by (simp add: set_entry_def)

lemma cache_inv: "watch_inv st \<Longrightarrow> watch_inv (st\<lparr>sv_cache := c\<rparr>)"
  unfolding watch_inv_def by simp

lemma trackers_inv: "watch_inv st \<Longrightarrow> watch_inv (st\<lparr>sv_trackers := ts\<rparr>)"
  unfolding watch_inv_def by simp

lemma build_app: "app_inv st \<Longrightarrow> app_inv (snd (build_scope_index en now sc st))"
proof -
  assume inv: "app_inv st"
  show ?thesis
  proof (cases "dict_get (sv_scopes (as_svc st)) (ds_hash sc)")
    case None
    then show ?thesis using inv by (simp add: build_scope_index_def)
  next
    case (Some e)
    show ?thesis
    proof (cases "index_loaded e")
      case True
      then show ?thesis using inv Some by (simp add: build_scope_index_def)
    next
      case unloaded: False
      show ?thesis
      proof (cases "scope_files en sc")
        case (Inl x)
        then show ?thesis using set_entry_app [OF inv Some] unloaded Some by (simp add: build_scope_index_def)
      next
        case (Inr fm)
        obtain files mode where fm: "fm = (files, mode)" by (cases fm)
        obtain ix ps where b: "build_index (ae_index en) now (ds_root sc) files (ds_hash sc) (as_parsers st) = (ix, ps)" by fastforce
        have e: "app_inv (set_entry (ds_hash sc) (e\<lparr>en_index := Some ix, en_indexed_files := fl, en_mode := mode, en_status := s\<rparr>) (st\<lparr>as_parsers := ps\<rparr>))" for s fl
          by (rule set_entry_app [where e = e]) (use inv Some in simp_all)
        show ?thesis using unloaded Some Inr fm b e attach_inv [OF cache_inv [OF e]]
          by (simp add: build_scope_index_def Let_def)
      qed
    qed
  qed
qed

lemma register_entry:
  assumes "register_scope cap now r h s st = (Inr e, st')"
  shows "dict_get (sv_scopes st') h = Some e"
proof (cases "dict_get (sv_scopes st) h")
  case (Some e0)
  then show ?thesis using assms by (auto simp: register_scope_def dict_simps)
next
  case None
  have keys: "dict_keys (sv_scopes (evict_to_cap cap s)) = dict_keys (sv_scopes s)" for s
    using unload_left_keys by (auto simp: evict_to_cap_def Let_def split: prod.split) (metis fst_conv)
  have kept: "dict_get (sv_scopes (evict_to_cap cap (st\<lparr>sv_scopes := dict_set h x (sv_scopes st)\<rparr>))) h = None \<Longrightarrow> False" for x
  proof -
    have "dict_get (dict_set h x (sv_scopes st)) h \<noteq> None" by (simp add: dict_simps)
    then have "h \<in> set (dict_keys (dict_set h x (sv_scopes st)))" by (simp add: map_of_eq_None_iff)
    then have "h \<in> set (dict_keys (sv_scopes (evict_to_cap cap (st\<lparr>sv_scopes := dict_set h x (sv_scopes st)\<rparr>))))"
      unfolding keys by simp
    then show "dict_get (sv_scopes (evict_to_cap cap (st\<lparr>sv_scopes := dict_set h x (sv_scopes st)\<rparr>))) h = None \<Longrightarrow> False"
      unfolding map_of_eq_None_iff set_map by simp
  qed
  show ?thesis using assms None
    by (auto simp: register_scope_def Let_def split: sum.splits option.splits dest: kept)
qed

lemma ensure_app: "app_inv st \<Longrightarrow> app_inv (snd (ensure_scope en now sc as st))"
proof -
  assume inv: "app_inv st"
  let ?reg = "register_scope (max_indexes_in_memory (app_limits en)) now (ds_root sc) (ds_hash sc) (ds_sentinel sc) (as_svc st)"
  obtain res svc where reg: "?reg = (res, svc)" by fastforce
  have svc: "watch_inv svc" using register_inv [OF inv, of "max_indexes_in_memory (app_limits en)" now "ds_root sc" "ds_hash sc" "ds_sentinel sc"] reg by simp
  show ?thesis
  proof (cases res)
    case (Inl x)
    then show ?thesis using reg svc by (simp add: ensure_scope_def)
  next
    case (Inr e)
    have get: "dict_get (sv_scopes svc) (ds_hash sc) = Some e" using register_entry reg Inr by blast
    have "app_inv (set_entry (ds_hash sc) (e\<lparr>en_status := Indexing\<rparr>) (st\<lparr>as_svc := svc\<rparr>))"
      by (rule set_entry_app [where e = e]) (use svc get in simp_all)
    then show ?thesis using reg Inr svc build_app [of "st\<lparr>as_svc := svc\<rparr>"]
      by (simp add: ensure_scope_def Let_def)
  qed
qed

lemma bind_app: "app_inv st \<Longrightarrow> app_inv (bind_session now sid h via st)"
  using sessions_inv by (simp add: bind_session_def)

lemma warm_app: "app_inv st \<Longrightarrow> app_inv (warm_candidates en now paths ancs st)"
proof (induction ancs arbitrary: st)
  case (Cons a ancs)
  show ?case
  proof (cases "ensure_scope en now (scope_at (ae_detect en) (canonicalize_scope (ae_detect en) a) ''cluster-speculative'' paths) True st")
    case (Pair r st')
    have "app_inv st'" using ensure_app [OF Cons.prems, of en now _ True] Pair by (metis snd_conv)
    then show ?thesis using Cons Pair by (simp split: option.split)
  qed
qed simp

lemma bind_others_app: "app_inv st \<Longrightarrow> app_inv (bind_others en now sid pr scs st)"
  by (induction scs arbitrary: st) (simp_all add: ensure_app bind_app)

lemma cluster_app: "app_inv st \<Longrightarrow> app_inv (snd (cluster_step en now sid paths scope st))"
proof -
  assume inv: "app_inv st"
  obtain tr svc where t: "cluster_tracker_for sid (as_svc st) = (tr, svc)" by fastforce
  have svc: "watch_inv svc" using inv t trackers_inv by (auto simp: cluster_tracker_for_def split: option.splits)
  have "app_inv (st\<lparr>as_svc := svc\<lparr>sv_trackers := ts\<rparr>\<rparr>)" for ts using trackers_inv [OF svc] by simp
  then show ?thesis using svc t warm_app
    by (simp add: cluster_step_def Let_def split: sum.split prod.split option.split)
qed

lemma mentions_app: "app_inv st \<Longrightarrow> app_inv (snd (bind_mentions en now rq sid er scope st))"
  by (simp add: bind_mentions_def bind_app bind_others_app split: option.split sum.split)

lemma query_app:
  assumes "app_inv st" "dict_get (sv_scopes (as_svc st)) (ds_hash sc) = Some e"
  shows "app_inv (snd (query_scope en now rq sid sc e ix st))"
proof -
  have "app_inv (set_entry (ds_hash sc) (e\<lparr>en_index := i, en_last_query_at := n\<rparr>) st)" for i n
    by (rule set_entry_app [OF assms]) simp
  then show ?thesis
    using assms(1) by (simp add: query_scope_def Let_def maybe_promote_inv confidence_inv split: option.split prod.split sum.split)
qed

lemma serve_app: "app_inv st \<Longrightarrow> app_inv (snd (serve_scope en now rq sid via as sc st))"
proof -
  assume inv: "app_inv st"
  define st1 where "st1 = (case sid of None \<Rightarrow> st | Some s \<Rightarrow> bind_session now s (ds_hash sc) via st)"
  have inv1: "app_inv st1" using inv bind_app by (simp add: st1_def split: option.split)
  obtain r st2 where en: "ensure_scope en now sc as st1 = (r, st2)" by fastforce
  have inv2: "app_inv st2" using ensure_app [OF inv1, of en now sc as] en by simp
  obtain g svc where g: "get_scope (ds_hash sc) (as_svc st2) = (g, svc)" by fastforce
  note gi = get_scope_inv [OF inv2 g]
  have "app_inv (snd (query_scope en now rq sid sc e ix (st2\<lparr>as_svc := svc\<rparr>)))" if "g = Some e" for e ix
    using query_app [of "st2\<lparr>as_svc := svc\<rparr>" sc e] gi that by simp
  then show ?thesis using inv2 en g gi(1)
    by (simp add: serve_scope_def Let_def flip: st1_def split: option.split)
qed

lemma answer_app: "app_inv st \<Longrightarrow> app_inv (snd (answer_scope en now rq headers sid via er res st))"
proof -
  assume inv: "app_inv st"
  have "app_inv (snd (case bm of (None, st) \<Rightarrow> (NoReply, st) | (Some (Inl x), st) \<Rightarrow> (HttpError 500, st)
      | (Some (Inr u), st) \<Rightarrow> (case scope of None \<Rightarrow> (HttpOk (empty_reply sid None None ''no-scope'' None), st)
          | Some sc \<Rightarrow> serve_scope en now rq sid via (wants_async headers) sc st)))"
    if "app_inv (snd bm)" for bm :: "(exc + unit) option \<times> app_state" and scope
    using that by (cases bm) (auto simp: serve_app split: option.split sum.split)
  then show ?thesis unfolding answer_scope_def using inv mentions_app [OF inv] by (cases res; simp split: sum.split)
qed

lemma touch_app: "watch_inv svc \<Longrightarrow> watch_inv (svc\<lparr>sv_scopes := fold (touch_scope now) hs (sv_scopes svc)\<rparr>)"
proof (induction hs arbitrary: svc)
  case (Cons h hs)
  have "watch_inv (svc\<lparr>sv_scopes := touch_scope now h (sv_scopes svc)\<rparr>)"
    using set_entry_inv(1) [OF Cons.prems, of h] Cons.prems by (simp add: touch_scope_def split: option.split)
  from Cons.IH [OF this] show ?case by simp
qed simp

lemma touch_searched_app: "watch_inv svc \<Longrightarrow> watch_inv (svc\<lparr>sv_scopes := fold (touch_searched now) hs (sv_scopes svc)\<rparr>)"
proof (induction hs arbitrary: svc)
  case (Cons h hs)
  have "watch_inv (svc\<lparr>sv_scopes := touch_searched now h (sv_scopes svc)\<rparr>)"
    using set_entry_inv(1) [OF Cons.prems, of h] Cons.prems by (simp add: touch_searched_def split: option.split)
  from Cons.IH [OF this] show ?case by simp
qed simp

lemma workspace_app: "app_inv st \<Longrightarrow> app_inv (snd (retrieve_workspace en now rq sid st))"
proof -
  assume inv: "app_inv st"
  obtain hs svc where w: "workspace_scopes en now sid (as_svc st) = (hs, svc)" by fastforce
  have "watch_inv svc" using inv w sessions_inv
    by (auto simp: workspace_scopes_def split: option.splits prod.splits if_splits)
  then show ?thesis using touch_app touch_searched_app by (simp add: retrieve_workspace_def w Let_def split: prod.split sum.split)
qed

lemma handle_app: "app_inv st \<Longrightarrow> app_inv (snd (handle_retrieve en now rq headers st))"
proof -
  assume inv: "app_inv st"
  obtain sid via where s: "request_session rq headers = (sid, via)" by fastforce
  show ?thesis
    unfolding handle_retrieve_def s Let_def prod.case
    by (simp add: inv workspace_app answer_app cluster_app case_prod_beta split: option.split sum.split)
qed

text \<open>What the service does: requests, the build threads, and the registry's own operations.\<close>

datatype app_op =
    ApRetrieve time retrieve_request "(string, string) dict"
  | ApJob time
  | ApSvc svc_op

fun run_app :: "app_env \<Rightarrow> app_op \<Rightarrow> app_state \<Rightarrow> app_state" where
  "run_app en (ApRetrieve now rq headers) st = snd (handle_retrieve en now rq headers st)"
| "run_app en (ApJob now) st = run_job en now st"
| "run_app en (ApSvc op) st = st\<lparr>as_svc := run_svc op (as_svc st)\<rparr>"

lemma run_app_inv: "app_inv st \<Longrightarrow> app_inv (run_app en op st)"
  by (cases op) (simp_all add: handle_app run_svc_inv run_job_def build_app split: list.split)

definition app_new :: "pipeline \<Rightarrow> app_state" where
  "app_new pl = \<lparr>as_svc = state_new, as_pipe = pl, as_parsers = [], as_jobs = []\<rparr>"

lemma app_new_inv: "app_inv (app_new pl)"
  by (simp add: app_new_def state_new_inv)

interpretation app: machine "run_app en" app_inv
  by unfold_locales (rule run_app_inv)

text \<open>
  C2: the service leaks no watcher. After any sequence of requests, background builds, promotions,
  evictions and file changes, in any order, the running file watchers are exactly those attached
  to a registered scope, and none serves two.
\<close>

theorem service_watchers_sound:
  "w \<in> set (sv_live (as_svc (fold (run_app en) ops (app_new pl))))
   \<longleftrightarrow> (\<exists>!h. owns (sv_scopes (as_svc (fold (run_app en) ops (app_new pl)))) h w)"
  using app.run_inv [OF app_new_inv] unfolding watch_inv_def by blast

section \<open>Two requests\<close>

definition demo_app :: "app_env" where
  "demo_app = \<lparr>ae_detect = demo_fs, ae_walk = demo_walk, ae_index = demo_ix, ae_pipe = demo_pipe, ae_id = (\<lambda>ix. 0),
     ae_set_order = (\<lambda>hs. [])\<rparr>"

definition demo_request :: "string \<Rightarrow> retrieve_request" where
  "demo_request prefill = \<lparr>rq_session_id = None, rq_prefill = prefill, rq_query = ''q'', rq_top_k = 2, rq_explicit_scope = None,
     rq_default_scope = None\<rparr>"

abbreviation demo_app_state :: "app_state" where
  "demo_app_state \<equiv> app_new (pipeline_new demo_cfg False None 3 None)"

lemma demo_request_top_k: "rq_top_k (demo_request s) = 2"
  by (simp add: demo_request_def)

theorem retrieve_within_top_k_witness:
  "case fst (handle_retrieve demo_app 1 (demo_request demo_prompt) [] demo_app_state) of
     HttpOk rs \<Rightarrow> int (length (rs_chunks rs)) \<le> 2 | _ \<Rightarrow> True"
proof -
  have "0 \<le> rq_top_k (demo_request demo_prompt)" by (simp add: demo_request_top_k)
  from retrieve_within_top_k [OF this] show ?thesis by (simp only: demo_request_top_k)
qed

lemma no_path_no_effect_witness:
  "handle_retrieve demo_app 1 (demo_request ''hello'') [] demo_app_state
   = (HttpOk (empty_reply None None None ''no-scope'' None), demo_app_state)"
proof (rule no_path_no_effect)
  show "fst (request_session (demo_request ''hello'') []) = None"
    by (simp add: request_session_def demo_request_def extract_session_id_def lower_keys_def get_truthy_def)
  show "\<not> truthy_str (rq_explicit_scope (demo_request ''hello''))" by (simp add: truthy_str_def demo_request_def)
  have "extract_paths_from_prefill demo_fs ''hello'' None = []" by code_simp
  then show "extract_paths_from_prefill (ae_detect demo_app) (rq_prefill (demo_request ''hello''))
      (map_option path_of (rq_default_scope (demo_request ''hello''))) = []"
    by (simp add: demo_app_def demo_request_def)
qed

end
