(* ===== verification/Svc_Messages.thy ===== *)
theory Svc_Messages
  imports Svc_Builder
begin

text \<open>
  Chat messages in the proxy (\<open>longctx_svc/proxy.py\<close>): reading the user's question and the
  prompt out of the messages, rendering the retrieved chunks under a character budget, and
  splicing that block into the system message.

  A content is text, a list of parts, or anything else, kept as what \<open>str\<close> makes of it.
\<close>

record content_part =
  pt_type :: "string option"
  pt_text :: "string option"

datatype content = CText string | CParts "content_part list" | COther string

record message =
  ms_role :: "string option"
  ms_content :: "content option"

definition part_text :: "content_part \<Rightarrow> string" where
  "part_text p = (case pt_text p of None \<Rightarrow> [] | Some t \<Rightarrow> t)"

definition text_parts :: "content_part list \<Rightarrow> string list" where
  "text_parts ps = map part_text (filter (\<lambda>p. pt_type p = Some ''text'') ps)"

section \<open>Reading\<close>

definition user_query_of :: "message \<Rightarrow> string option" where
  "user_query_of m =
     (if ms_role m \<noteq> Some ''user'' then None
      else case ms_content m of
        Some (CText s) \<Rightarrow> Some s
      | Some (CParts ps) \<Rightarrow> (case text_parts ps of [] \<Rightarrow> None | t # _ \<Rightarrow> Some t)
      | _ \<Rightarrow> None)"

fun first_some :: "('a \<Rightarrow> 'b option) \<Rightarrow> 'a list \<Rightarrow> 'b option" where
  "first_some f [] = None"
| "first_some f (x # xs) = (case f x of None \<Rightarrow> first_some f xs | Some y \<Rightarrow> Some y)"

definition last_user_query :: "message list \<Rightarrow> string" where
  "last_user_query ms = (case first_some user_query_of (rev ms) of None \<Rightarrow> [] | Some q \<Rightarrow> q)"

definition newline :: "char" where "newline = CHR 0x0A"

definition content_str :: "content option \<Rightarrow> string" where
  "content_str c = (case c of None \<Rightarrow> [] | Some (CText s) \<Rightarrow> s | Some (CParts ps) \<Rightarrow> py_join [newline] (text_parts ps) | Some (COther s) \<Rightarrow> s)"

definition flatten_messages_to_prefill :: "message list \<Rightarrow> string" where
  "flatten_messages_to_prefill ms = py_join [newline, newline]
     (map (\<lambda>m. ''['' @ (case ms_role m of None \<Rightarrow> ''user'' | Some r \<Rightarrow> r) @ '']'' @ [newline] @ content_str (ms_content m)) ms)"

section \<open>Splicing\<close>

definition prepend_content :: "string \<Rightarrow> content option \<Rightarrow> content" where
  "prepend_content block c =
     (case c of
        None \<Rightarrow> CText block
      | Some (CText s) \<Rightarrow> CText (block @ s)
      | Some (CParts ps) \<Rightarrow> CParts (\<lparr>pt_type = Some ''text'', pt_text = Some block\<rparr> # ps)
      | Some (COther s) \<Rightarrow> CText (block @ s))"

fun splice_system :: "string \<Rightarrow> message list \<Rightarrow> message list option" where
  \<comment> \<open>prepend to the first system message, if there is one\<close>
  "splice_system block [] = None"
| "splice_system block (m # ms) =
     (if ms_role m = Some ''system'' then Some (m\<lparr>ms_content := Some (prepend_content block (ms_content m))\<rparr> # ms)
      else map_option (Cons m) (splice_system block ms))"

definition splice_into_messages :: "message list \<Rightarrow> string \<Rightarrow> message list" where
  "splice_into_messages ms block =
     (case splice_system block ms of
        Some out \<Rightarrow> out
      | None \<Rightarrow> \<lparr>ms_role = Some ''system'', ms_content = Some (CText (py_rstrip block))\<rparr> # ms)"

section \<open>Rendering\<close>

definition chunk_header :: "chunk \<Rightarrow> string" where
  "chunk_header c = ''// '' @ ck_file c @ '':'' @ int_str (ck_start c) @ ''-'' @ int_str (ck_end c)"

definition fence :: string where "fence = [CHR 0x60, CHR 0x60, CHR 0x60]"

definition truncated_note :: string where "truncated_note = newline # ''... [truncated]''"

definition chunk_block :: "int \<Rightarrow> chunk \<Rightarrow> string" where
  \<comment> \<open>one fenced chunk, its text cut to \<open>remaining\<close>\<close>
  "chunk_block remaining c =
     (let s = py_rstrip (ck_text c);
          s = (if remaining < int (length s) then take (nat remaining) s @ truncated_note else s)
      in chunk_header c @ [newline] @ fence @ [newline] @ s @ [newline] @ fence @ [newline, newline])"

fun render_chunks :: "int \<Rightarrow> int \<Rightarrow> chunk list \<Rightarrow> string list" where
  "render_chunks budget used [] = []"
| "render_chunks budget used (c # cs) =
     (let remaining = budget - used - (int (length (chunk_header c)) + 12) in
      if remaining \<le> 200 then []
      else let block = chunk_block remaining c in block # render_chunks budget (used + int (length block)) cs)"

definition block_title :: string where "block_title = ''## Retrieved code context''"

definition format_chunks_block :: "int \<Rightarrow> chunk list \<Rightarrow> string" where
  "format_chunks_block budget cs =
     py_rstrip (block_title @ concat (render_chunks budget (int (length block_title)) cs)) @ [newline, newline]"

section \<open>The budget\<close>

lemma length_chunk_block:
  "0 \<le> remaining \<Longrightarrow> int (length (chunk_block remaining c)) \<le> int (length (chunk_header c)) + remaining + 27"
  by (auto simp: chunk_block_def Let_def fence_def truncated_note_def)

lemma render_chunks_bound:
  "used + int (length (concat (render_chunks budget used cs))) \<le> max used (budget + 15)"
proof (induction budget used cs rule: render_chunks.induct)
  case (2 budget used c cs)
  let ?rem = "budget - used - (int (length (chunk_header c)) + 12)"
  show ?case
  proof (cases "?rem \<le> 200")
    case False
    let ?b = "chunk_block ?rem c"
    have "int (length ?b) \<le> budget - used + 15" using length_chunk_block [of ?rem c] False by simp
    moreover have "used + int (length ?b) + int (length (concat (render_chunks budget (used + int (length ?b)) cs)))
        \<le> max (used + int (length ?b)) (budget + 15)"
      using 2 False by (simp add: Let_def)
    ultimately show ?thesis using False by (simp add: Let_def)
  qed (simp add: Let_def)
qed simp

lemma rstrip_ends:
  assumes "xs = ys @ [newline, newline]"
  shows "length (py_rstrip xs) + 2 \<le> length xs"
proof -
  have nl: "is_space newline" by (simp add: newline_def is_space_def cp_def)
  have "length (dropWhile is_space (rev xs)) \<le> length (rev ys)"
    unfolding assms using nl length_dropWhile_le [of is_space "rev ys"] by simp
  then show ?thesis unfolding py_rstrip_def py_rstrip_by_def using assms by simp
qed

lemma render_chunks_ends: "render_chunks budget used cs \<noteq> [] \<Longrightarrow> \<exists>ys. concat (render_chunks budget used cs) = ys @ [newline, newline]"
proof (induction budget used cs rule: render_chunks.induct)
  case (2 budget used c cs)
  let ?rem = "budget - used - (int (length (chunk_header c)) + 12)"
  have open_: "\<not> ?rem \<le> 200" using 2(2) by (auto simp: Let_def split: if_splits)
  let ?rest = "render_chunks budget (used + int (length (chunk_block ?rem c))) cs"
  have eq: "concat (render_chunks budget used (c # cs)) = chunk_block ?rem c @ concat ?rest" using open_ by (simp add: Let_def)
  show ?case
  proof (cases "?rest = []")
    case True
    then show ?thesis unfolding eq by (auto simp: chunk_block_def Let_def)
  next
    case False
    then obtain ys where "concat ?rest = ys @ [newline, newline]" using 2(1) [OF refl open_ refl] by blast
    then show ?thesis unfolding eq by (intro exI [of _ "chunk_block ?rem c @ ys"]) simp
  qed
qed simp

text \<open>
  The context block fits the budget, nearly. Whatever the chunks, the rendered block has at
  most \<open>splice_max_chars + 15\<close> characters (or the 27 of an empty one): the note on a truncated
  chunk is not counted in the space reserved for it.
\<close>

lemma context_block_bound:
  "int (length (format_chunks_block budget cs)) \<le> max 27 (budget + 15)"
proof -
  let ?bs = "render_chunks budget (int (length block_title)) cs"
  have title: "length block_title = 25" by (simp add: block_title_def)
  show ?thesis
  proof (cases "?bs = []")
    case True
    have "length (py_rstrip block_title) \<le> 25" using length_py_rstrip [of block_title] title by simp
    then show ?thesis using True by (simp add: format_chunks_block_def)
  next
    case False
    then obtain ys where "concat ?bs = ys @ [newline, newline]" using render_chunks_ends by blast
    then have "length (py_rstrip (block_title @ concat ?bs)) + 2 \<le> length (block_title @ concat ?bs)"
      by (intro rstrip_ends [of _ "block_title @ ys"]) simp
    moreover have "int (length (block_title @ concat ?bs)) \<le> max 25 (budget + 15)"
      using render_chunks_bound [of 25 budget cs] title by simp
    ultimately show ?thesis by (simp add: format_chunks_block_def)
  qed
qed

text \<open>The title runs into the header of the first chunk: the empty line after it is joined without a separator.\<close>

lemma title_glued: "take 30 (format_chunks_block 4000
     [\<lparr>ck_text = ''x = 1'', ck_file = ''a.py'', ck_start = 1, ck_end = 1, ck_type = ''code''\<rparr>]) = ''## Retrieved code context// a.''"
  by code_simp

section \<open>What the model is asked\<close>

abbreviation spoken :: "message list \<Rightarrow> message list" where
  \<comment> \<open>the messages that are not system messages\<close>
  "spoken ms \<equiv> filter (\<lambda>m. ms_role m \<noteq> Some ''system'') ms"

lemma splice_system_spoken: "splice_system block ms = Some out \<Longrightarrow> spoken out = spoken ms \<and> length out = length ms"
  by (induction block ms arbitrary: out rule: splice_system.induct) (auto split: if_splits)

lemma first_some_filter: "(\<And>x. x \<in> set xs \<Longrightarrow> \<not> P x \<Longrightarrow> f x = None) \<Longrightarrow> first_some f (filter P xs) = first_some f xs"
  by (induction xs) (auto split: option.split)

lemma last_user_query_spoken: "last_user_query (spoken ms) = last_user_query ms"
proof -
  have "first_some user_query_of (rev (spoken ms)) = first_some user_query_of (rev ms)"
    unfolding rev_filter by (rule first_some_filter) (simp add: user_query_of_def)
  then show ?thesis by (simp add: last_user_query_def)
qed

lemma splice_spoken [simp]: "spoken (splice_into_messages ms block) = spoken ms"
  using splice_system_spoken by (auto simp: splice_into_messages_def split: option.split)

text \<open>
  Splicing leaves the conversation alone: for any messages and any block, the messages other than
  system messages are the same and in the same order afterwards, so the model is asked the same
  question, and at most one message is added.
\<close>

lemma splice_query [simp]: "last_user_query (splice_into_messages ms block) = last_user_query ms"
  by (metis splice_spoken last_user_query_spoken)

lemma splice_length [simp]: "length (splice_into_messages ms block) \<le> Suc (length ms)"
  using splice_system_spoken by (fastforce simp: splice_into_messages_def split: option.split)

end
