(* ===== verification/Svc_Proxy.thy ===== *)
theory Svc_Proxy
  imports Svc_App Svc_Messages
begin

text \<open>
  The OpenAI-compatible proxy (\<open>longctx_svc/proxy.py\<close>): what is retrieved for the messages of a
  request, and the request that is forwarded upstream. Sending it and streaming the answer back
  is input and output; a handler here ends with the request it sends. Request fields the proxy
  does not read pass through and are left out; so is the debug dump.
\<close>

section \<open>Retrieval for a conversation\<close>

definition proxy_headers :: "string option \<Rightarrow> string \<Rightarrow> nat \<Rightarrow> string \<Rightarrow> (string, string) dict" where
  "proxy_headers sid scope n status =
     [(''x-longctx-session'', case sid of None \<Rightarrow> ''ephemeral'' | Some s \<Rightarrow> if s = [] then ''ephemeral'' else s),
      (''x-longctx-scope'', scope), (''x-longctx-chunks-used'', nat_str n), (''x-longctx-scope-status'', status)]"

record retrieved =
  rv_scope_path :: "string option"
  rv_chunks :: "chunk list"
  rv_headers :: "(string, string) dict"

definition nothing_retrieved :: "string option \<Rightarrow> path option \<Rightarrow> string \<Rightarrow> retrieved" where
  "nothing_retrieved sid scope status =
     \<lparr>rv_scope_path = map_option path_str scope, rv_chunks = [],
      rv_headers = proxy_headers sid (case scope of None \<Rightarrow> [] | Some p \<Rightarrow> path_str p) 0 status\<rparr>"

definition proxy_build :: "app_env \<Rightarrow> time \<Rightarrow> detected_scope \<Rightarrow> scope_entry \<Rightarrow> app_state \<Rightarrow> bool \<times> scope_entry \<times> app_state" where
  \<comment> \<open>build the index when there is none; False: the build raised\<close>
  "proxy_build en now sc e st =
     (if index_loaded e then (True, e, st)
      else case scope_files en sc of
        Inl x \<Rightarrow> let e = e\<lparr>en_status := Failed, en_error := Some ''index build failed''\<rparr> in (False, e, set_entry (ds_hash sc) e st)
      | Inr (files, _) \<Rightarrow>
          let (ix, parsers) = build_index (ae_index en) now (ds_root sc) files (ds_hash sc) (as_parsers st);
              e = e\<lparr>en_index := Some ix, en_status := (if sx_embeddings ix \<noteq> None then Ready else Empty)\<rparr>
          in (True, e, set_entry (ds_hash sc) e (st\<lparr>as_parsers := parsers\<rparr>)))"

definition retrieve_for_messages ::
  "app_env \<Rightarrow> time \<Rightarrow> message list \<Rightarrow> (string, string) dict \<Rightarrow> int \<Rightarrow> app_state \<Rightarrow> (exc + retrieved) option \<times> app_state" where
  "retrieve_for_messages en now ms headers top_k st =
     (let (sid, via) = extract_session_id (Some headers) None;
          query = last_user_query ms
      in case detect_scope (ae_detect en) (flatten_messages_to_prefill ms) None [] None of
           None \<Rightarrow> (None, st)
         | Some (Inl x) \<Rightarrow> (Some (Inl x), st)
         | Some (Inr None) \<Rightarrow> (Some (Inr (nothing_retrieved sid None ''no-scope'')), st)
         | Some (Inr (Some sc)) \<Rightarrow>
             if query = [] then (Some (Inr (nothing_retrieved sid None ''no-scope'')), st)
             else
               let st = (case sid of None \<Rightarrow> st | Some s \<Rightarrow> bind_session now s (ds_hash sc) via st)
               in case register_scope (max_indexes_in_memory (app_limits en)) now (ds_root sc) (ds_hash sc) (ds_sentinel sc) (as_svc st) of
                    (Inl x, svc) \<Rightarrow> (Some (Inl x), st\<lparr>as_svc := svc\<rparr>)
                  | (Inr e, svc) \<Rightarrow>
                      let (ok, e, st) = proxy_build en now sc e (st\<lparr>as_svc := svc\<rparr>) in
                      if \<not> ok then (Some (Inr (nothing_retrieved sid (Some (ds_root sc)) ''error'')), st)
                      else if \<not> index_loaded e
                      then (Some (Inr (nothing_retrieved sid (Some (ds_root sc)) (status_str (en_status e)))), st)
                      else
                        let ix = the (en_index e);
                            ar = \<lparr>ra_top_k = top_k, ra_prefilter = 100, ra_use_rerank = True, ra_use_coarse_filter = None,
                                  ra_scope_root = None, ra_use_symbol_augment = None\<rparr>
                        in case pipe_retrieve (ae_pipe en) now query (ae_id en ix) ix ar (as_pipe st) of
                             (Inl x, _, pl) \<Rightarrow> (Some (Inl x), st\<lparr>as_pipe := pl\<rparr>)
                           | (Inr r, ix', pl) \<Rightarrow>
                             (Some (Inr \<lparr>rv_scope_path = Some (path_str (ds_root sc)), rv_chunks = rr_chunks r,
                              rv_headers = proxy_headers sid (path_str (ds_root sc)) (length (rr_chunks r)) (status_str (en_status e))\<rparr>),
                            (set_entry (ds_hash sc) (e\<lparr>en_index := Some ix'\<rparr>) st)\<lparr>as_pipe := pl\<rparr>))"

section \<open>Forwarding\<close>

record chat_body =
  cb_messages :: "message list"
  cb_top_k :: "int option"
  cb_stream :: bool

record forwarded =
  fw_target :: string
  fw_messages :: "message list"
  fw_prompt :: string
  fw_authorization :: "string option"
  fw_stream :: bool
  fw_response_headers :: "(string, string) dict"

datatype proxied = Forward forwarded | ProxyError nat | ProxySilent

definition join_url :: "string \<Rightarrow> string \<Rightarrow> string" where
  "join_url upstream route = py_rstrip_by (\<lambda>c. c = CHR ''/'') upstream @ route"

definition upstream_of :: "environ \<Rightarrow> string option" where
  "upstream_of env = (case env ''LONGCTX_UPSTREAM'' of None \<Rightarrow> None | Some u \<Rightarrow> if u = [] then None else Some u)"

definition proxy_list_models :: "environ \<Rightarrow> (string, string) dict \<Rightarrow> proxied" where
  "proxy_list_models env headers =
     (case upstream_of env of
        None \<Rightarrow> ProxyError 503
      | Some u \<Rightarrow> Forward \<lparr>fw_target = join_url u ''/v1/models'', fw_messages = [], fw_prompt = [],
          fw_authorization = get_truthy headers ''authorization'', fw_stream = False, fw_response_headers = []\<rparr>)"

definition proxy_chat_completions ::
  "app_env \<Rightarrow> environ \<Rightarrow> time \<Rightarrow> chat_body \<Rightarrow> (string, string) dict \<Rightarrow> app_state \<Rightarrow> proxied \<times> app_state" where
  "proxy_chat_completions en env now body headers st =
     (case upstream_of env of
        None \<Rightarrow> (ProxyError 503, st)
      | Some u \<Rightarrow>
          (case retrieve_for_messages en now (cb_messages body) headers (case cb_top_k body of None \<Rightarrow> 8 | Some k \<Rightarrow> k) st of
             (None, st) \<Rightarrow> (ProxySilent, st)
           | (Some (Inl x), st) \<Rightarrow> (ProxyError 500, st)
           | (Some (Inr rv), st) \<Rightarrow>
               (Forward \<lparr>fw_target = join_url u ''/v1/chat/completions'',
                  fw_messages = (if rv_chunks rv = [] then cb_messages body
                    else splice_into_messages (cb_messages body) (format_chunks_block (splice_max_chars (app_limits en)) (rv_chunks rv))),
                  fw_prompt = [], fw_authorization = get_truthy headers ''authorization'', fw_stream = cb_stream body,
                  fw_response_headers = rv_headers rv\<rparr>, st)))"

definition proxy_completions ::
  "app_env \<Rightarrow> environ \<Rightarrow> time \<Rightarrow> string list + string \<Rightarrow> int option \<Rightarrow> (string, string) dict \<Rightarrow> app_state \<Rightarrow> proxied \<times> app_state" where
  \<comment> \<open>a list of prompts is joined into one\<close>
  "proxy_completions en env now raw_prompt top_k headers st =
     (case upstream_of env of
        None \<Rightarrow> (ProxyError 503, st)
      | Some u \<Rightarrow>
          let prompt = (case raw_prompt of Inl ps \<Rightarrow> py_join [newline] ps | Inr p \<Rightarrow> p);
              fake = [\<lparr>ms_role = Some ''user'', ms_content = Some (CText prompt)\<rparr>]
          in (case retrieve_for_messages en now fake headers (case top_k of None \<Rightarrow> 8 | Some k \<Rightarrow> k) st of
             (None, st) \<Rightarrow> (ProxySilent, st)
           | (Some (Inl x), st) \<Rightarrow> (ProxyError 500, st)
           | (Some (Inr rv), st) \<Rightarrow>
               (Forward \<lparr>fw_target = join_url u ''/v1/completions'', fw_messages = [],
                  fw_prompt = (if rv_chunks rv = [] then prompt
                    else format_chunks_block (splice_max_chars (app_limits en)) (rv_chunks rv) @ prompt),
                  fw_authorization = get_truthy headers ''authorization'', fw_stream = False, fw_response_headers = rv_headers rv\<rparr>, st)))"

section \<open>What is forwarded\<close>

text \<open>
  C3: the proxy forwards the conversation. Whatever was retrieved, a forwarded chat request goes to
  the configured upstream with every message that is not a system message unchanged and in order,
  so the model is asked the same question; what is added is at most one message. Without an
  upstream nothing is forwarded and nothing is retrieved.
\<close>

theorem proxy_forwards_conversation:
  "case proxy_chat_completions en env now body headers st of
     (Forward fw, st') \<Rightarrow> \<exists>u. upstream_of env = Some u \<and> fw_target fw = join_url u ''/v1/chat/completions''
        \<and> spoken (fw_messages fw) = spoken (cb_messages body)
        \<and> last_user_query (fw_messages fw) = last_user_query (cb_messages body)
        \<and> length (fw_messages fw) \<le> length (cb_messages body) + 1
        \<and> fw_authorization fw = get_truthy headers ''authorization''
   | (ProxyError n, st') \<Rightarrow> n = 503 \<and> upstream_of env = None \<and> st' = st \<or> n = 500 \<and> upstream_of env \<noteq> None
   | (ProxySilent, st') \<Rightarrow> upstream_of env \<noteq> None"
  by (simp add: proxy_chat_completions_def split: option.split prod.split sum.split)

end
