(* ===== verification/Svc_Watcher.thy ===== *)
theory Svc_Watcher
  imports Svc_Config Svc_Builder
begin

text \<open>
  The debounced file watcher (\<open>longctx_svc/watcher/__init__.py\<close>): which events it tracks, and
  the two threads that share its pending set: the observer's, which enqueues, and the debounce
  loop's, which drains. Each step below is one access to the shared state, so every
  interleaving of the threads is a run. Time is a clock that only moves forward.
\<close>

section \<open>Which paths are tracked\<close>

record watch_env =
  we_realpath :: "path \<Rightarrow> string option"
  we_darwin :: bool

definition realpath_or :: "watch_env \<Rightarrow> path \<Rightarrow> string" where
  "realpath_or en p = (let s = (case we_realpath en p of None \<Rightarrow> path_str p | Some s \<Rightarrow> s)
     in if we_darwin en then py_lower s else s)"

definition should_track :: "watch_env \<Rightarrow> path \<Rightarrow> path \<Rightarrow> bool" where
  "should_track en scope_root p =
     (if path_name p \<in> set lockfile_names then False
      else if py_lower (path_suffix p) \<in> set binary_exts then False
      else let rp = realpath_or en p; sr = realpath_or en scope_root in
        if \<not> prefix (py_rstrip_by (\<lambda>c. c = CHR ''/'') sr @ ''/'') rp \<and> rp \<noteq> sr then False
        else list_all (\<lambda>part. part \<notin> set always_skip_dirs \<and> \<not> (take 1 part = ''.'' \<and> part \<noteq> ''.github''))
          (split_on (CHR ''/'') (dropWhile (\<lambda>c. c = CHR ''/'') (drop (length sr) rp))))"

section \<open>The shared state and the loop\<close>

datatype loop_pc =
    LTop                 \<comment> \<open>\<open>while not self._stop_evt.is_set()\<close>\<close>
  | LWait                \<comment> \<open>\<open>self._wakeup.wait()\<close>\<close>
  | LWoken               \<comment> \<open>woken: check stop, then clear\<close>
  | LArmed               \<comment> \<open>cleared; the deadline is about to be set\<close>
  | LIdle time           \<comment> \<open>idle until the deadline\<close>
  | LExtended            \<comment> \<open>woken while idle: clear, move the deadline\<close>
  | LMoved time          \<comment> \<open>deadline moved; check stop\<close>
  | LDrain               \<comment> \<open>deadline passed; take the batch\<close>
  | LFire "path list"    \<comment> \<open>\<open>if batch: self.on_change(batch)\<close>\<close>
  | LDone

record watcher =
  wt_running :: bool
  wt_pending :: "path list"
  wt_wakeup :: bool
  wt_stop :: bool
  wt_signals :: nat         \<comment> \<open>enqueues that have added their path and not yet set the event\<close>
  wt_pc :: loop_pc
  wt_fired :: "(time \<times> path list) list"   \<comment> \<open>the calls of \<open>on_change\<close>, latest first\<close>
  wt_woke :: time           \<comment> \<open>when the loop last consumed the event\<close>

definition watcher_new :: watcher where
  "watcher_new = \<lparr>wt_running = False, wt_pending = [], wt_wakeup = False, wt_stop = False, wt_signals = 0,
     wt_pc = LDone, wt_fired = [], wt_woke = 0\<rparr>"

definition start :: "bool \<Rightarrow> watcher \<Rightarrow> watcher" where
  \<comment> \<open>a new loop thread, unless running or \<open>watchdog\<close> is missing\<close>
  "start has_watchdog w =
     (if wt_running w \<or> \<not> has_watchdog then w\<lparr>wt_running := has_watchdog\<rparr>
      else w\<lparr>wt_running := True, wt_pc := LTop\<rparr>)"

definition stop_set :: "watcher \<Rightarrow> watcher" where
  \<comment> \<open>the first half of \<open>stop\<close>: \<open>self._stop_evt.set()\<close>\<close>
  "stop_set w = w\<lparr>wt_running := False, wt_stop := True\<rparr>"

definition stop_wake :: "watcher \<Rightarrow> watcher" where
  \<comment> \<open>the second half, after the first: \<open>self._wakeup.set()\<close>\<close>
  "stop_wake w = (if wt_stop w then w\<lparr>wt_wakeup := True\<rparr> else w)"

datatype event_kind = Modified | Created | Deleted | Moved

record fs_event =
  ev_kind :: event_kind
  ev_is_directory :: bool
  ev_src :: path
  ev_dest :: "path option"

definition event_paths :: "fs_event \<Rightarrow> path list" where
  \<comment> \<open>what the handler of an observer event enqueues, in order\<close>
  "event_paths ev =
     (if ev_is_directory ev then []
      else case ev_kind ev of
        Moved \<Rightarrow> ev_src ev # (case ev_dest ev of None \<Rightarrow> [] | Some dest \<Rightarrow> [dest])
      | _ \<Rightarrow> [ev_src ev])"

definition enqueue_add :: "watch_env \<Rightarrow> path \<Rightarrow> path \<Rightarrow> watcher \<Rightarrow> watcher" where
  \<comment> \<open>the first half of \<open>_enqueue\<close>: filter, and add under the lock\<close>
  "enqueue_add en scope_root p w =
     (if \<not> should_track en scope_root p then w
      else w\<lparr>wt_pending := (if p \<in> set (wt_pending w) then wt_pending w else wt_pending w @ [p]),
             wt_signals := wt_signals w + 1\<rparr>)"

definition enqueue_signal :: "watcher \<Rightarrow> watcher" where
  \<comment> \<open>the second half: \<open>self._wakeup.set()\<close>\<close>
  "enqueue_signal w = (if wt_signals w = 0 then w else w\<lparr>wt_signals := wt_signals w - 1, wt_wakeup := True\<rparr>)"

definition loop_step :: "time \<Rightarrow> time \<Rightarrow> watcher \<Rightarrow> watcher" where
  \<comment> \<open>one step of \<open>_debounce_loop\<close> at time \<open>now\<close>; a blocked wait is a step that changes nothing\<close>
  "loop_step debounce now w =
     (case wt_pc w of
        LTop \<Rightarrow> w\<lparr>wt_pc := if wt_stop w then LDone else LWait\<rparr>
      | LWait \<Rightarrow> if wt_wakeup w then w\<lparr>wt_pc := LWoken\<rparr> else w
      | LWoken \<Rightarrow> if wt_stop w then w\<lparr>wt_pc := LDone\<rparr> else w\<lparr>wt_wakeup := False, wt_pc := LArmed\<rparr>
      | LArmed \<Rightarrow> w\<lparr>wt_woke := now, wt_pc := LIdle (now + debounce)\<rparr>
      | LIdle deadline \<Rightarrow>
          if deadline - now \<le> 0 then w\<lparr>wt_pc := LDrain\<rparr>
          else if wt_wakeup w then w\<lparr>wt_pc := LExtended\<rparr> else w
      | LExtended \<Rightarrow> w\<lparr>wt_wakeup := False, wt_woke := now, wt_pc := LMoved (now + debounce)\<rparr>
      | LMoved deadline \<Rightarrow> w\<lparr>wt_pc := if wt_stop w then LDone else LIdle deadline\<rparr>
      | LDrain \<Rightarrow> w\<lparr>wt_pending := [], wt_pc := LFire (wt_pending w)\<rparr>
      | LFire batch \<Rightarrow> w\<lparr>wt_fired := (if batch = [] then wt_fired w else (now, batch) # wt_fired w), wt_pc := LTop\<rparr>
      | LDone \<Rightarrow> w)"

section \<open>Runs\<close>

text \<open>
  What can happen to a watcher: events, their signals, loop steps, the halves of a stop. A run starts in some
  state, never goes back in time, and collects the tracked paths enqueued on the way.
\<close>

inductive watch_step :: "watch_env \<Rightarrow> path \<Rightarrow> time \<Rightarrow> time \<Rightarrow> watcher \<Rightarrow> path list \<Rightarrow> watcher \<Rightarrow> bool" for en base debounce now w where
  event: "watch_step en base debounce now w (if should_track en base p then [p] else []) (enqueue_add en base p w)"
| signal: "watch_step en base debounce now w [] (enqueue_signal w)"
| loop: "watch_step en base debounce now w [] (loop_step debounce now w)"
| stopping: "watch_step en base debounce now w [] (stop_set w)"
| waking: "watch_step en base debounce now w [] (stop_wake w)"

inductive watch_run :: "watch_env \<Rightarrow> path \<Rightarrow> time \<Rightarrow> watcher \<Rightarrow> time \<Rightarrow> path list \<Rightarrow> watcher \<Rightarrow> bool" for en base debounce w0 where
  started: "0 \<le> now \<Longrightarrow> watch_run en base debounce w0 now [] w0"
| later: "watch_run en base debounce w0 now evs w \<Longrightarrow> now \<le> now' \<Longrightarrow> watch_step en base debounce now' w new w' \<Longrightarrow>
    watch_run en base debounce w0 now' (evs @ new) w'"

inductive_cases watch_stepE [elim!]: "watch_step en base debounce now w new w'"

abbreviation fresh_watcher :: watcher where
  "fresh_watcher \<equiv> start True watcher_new"

lemma fresh_watcher_eq: "fresh_watcher = \<lparr>wt_running = True, wt_pending = [], wt_wakeup = False, wt_stop = False, wt_signals = 0,
     wt_pc = LTop, wt_fired = [], wt_woke = 0\<rparr>"
  by (simp add: start_def watcher_new_def)

section \<open>Nothing is lost, nothing is invented\<close>

definition in_flight :: "watcher \<Rightarrow> path set" where
  "in_flight w = (case wt_pc w of LFire b \<Rightarrow> set b | _ \<Rightarrow> {})"

definition delivered :: "watcher \<Rightarrow> path set" where
  "delivered w = (\<Union>x \<in> set (wt_fired w). set (snd x))"

lemma event_seen: "set (wt_pending (enqueue_add en base p w)) = set (wt_pending w) \<union> (if should_track en base p then {p} else {})"
  "wt_fired (enqueue_add en base p w) = wt_fired w" "wt_pc (enqueue_add en base p w) = wt_pc w"
  "wt_stop (enqueue_add en base p w) = wt_stop w" "wt_woke (enqueue_add en base p w) = wt_woke w"
  by (auto simp: enqueue_add_def)

lemma signal_seen: "wt_pending (enqueue_signal w) = wt_pending w" "wt_fired (enqueue_signal w) = wt_fired w"
  "wt_pc (enqueue_signal w) = wt_pc w" "wt_stop (enqueue_signal w) = wt_stop w" "wt_woke (enqueue_signal w) = wt_woke w"
  by (auto simp: enqueue_signal_def)

lemma stop_seen: "wt_pending (stop_set w) = wt_pending w" "wt_fired (stop_set w) = wt_fired w" "wt_pc (stop_set w) = wt_pc w"
  "wt_stop (stop_set w)" "wt_woke (stop_set w) = wt_woke w"
  "wt_pending (stop_wake w) = wt_pending w" "wt_fired (stop_wake w) = wt_fired w" "wt_pc (stop_wake w) = wt_pc w"
  "wt_stop (stop_wake w) = wt_stop w" "wt_woke (stop_wake w) = wt_woke w"
  by (simp_all add: stop_set_def stop_wake_def)

lemmas seen = event_seen signal_seen stop_seen

lemma loop_conserves:
  "set (wt_pending (loop_step d now w)) \<union> in_flight (loop_step d now w) \<union> delivered (loop_step d now w)
   = set (wt_pending w) \<union> in_flight w \<union> delivered w"
  by (cases "wt_pc w") (auto simp: loop_step_def in_flight_def delivered_def)

text \<open>
  C25: the watcher loses no change and invents none. In every run, whatever the interleaving of
  the observer and the debounce loop, the tracked paths enqueued so far are exactly those
  delivered to the callback, in the batch being delivered, or still pending.
\<close>

theorem watcher_conserves:
  assumes "watch_run en base debounce fresh_watcher now evs w"
  shows "set evs = set (wt_pending w) \<union> in_flight w \<union> delivered w"
  using assms
proof (induction rule: watch_run.induct)
  case (started now)
  show ?case by (simp add: fresh_watcher_eq in_flight_def delivered_def)
next
  case (later now evs w now' new w')
  from later.hyps(3) later.IH show ?case
    by (elim watch_stepE) (auto simp: seen in_flight_def delivered_def loop_conserves [unfolded in_flight_def delivered_def])
qed

section \<open>Debouncing\<close>

fun spaced :: "time \<Rightarrow> (time \<times> 'a) list \<Rightarrow> bool" where
  \<comment> \<open>latest first, at least \<open>d\<close> apart\<close>
  "spaced d ((t, b) # (t', b') # xs) \<longleftrightarrow> t' + d \<le> t \<and> spaced d ((t', b') # xs)"
| "spaced d _ \<longleftrightarrow> True"

definition fired_by :: "time \<Rightarrow> watcher \<Rightarrow> bool" where
  "fired_by t w \<longleftrightarrow> (case wt_fired w of [] \<Rightarrow> True | x # _ \<Rightarrow> fst x \<le> t)"

definition pace_inv :: "time \<Rightarrow> time \<Rightarrow> watcher \<Rightarrow> bool" where
  "pace_inv d now w \<longleftrightarrow> spaced d (wt_fired w) \<and> fired_by now w \<and> (\<forall>x \<in> set (wt_fired w). snd x \<noteq> []) \<and>
     (case wt_pc w of
        LIdle dl \<Rightarrow> dl = wt_woke w + d \<and> fired_by (wt_woke w) w \<and> wt_woke w \<le> now
      | LMoved dl \<Rightarrow> dl = wt_woke w + d \<and> fired_by (wt_woke w) w \<and> wt_woke w \<le> now
      | LExtended \<Rightarrow> True
      | LDrain \<Rightarrow> wt_woke w + d \<le> now \<and> fired_by (wt_woke w) w
      | LFire _ \<Rightarrow> wt_woke w + d \<le> now \<and> fired_by (wt_woke w) w
      | _ \<Rightarrow> True)"

lemma fired_by_mono: "fired_by t w \<Longrightarrow> t \<le> t' \<Longrightarrow> fired_by t' w"
  by (auto simp: fired_by_def split: list.splits)

lemma pace_later: "pace_inv d now w \<Longrightarrow> now \<le> now' \<Longrightarrow> pace_inv d now' w"
  using fired_by_mono by (auto simp: pace_inv_def split: loop_pc.splits)

lemma fired_by_seen: "wt_fired w' = wt_fired w \<Longrightarrow> fired_by t w' = fired_by t w"
  by (simp add: fired_by_def)

lemma pace_seen: "wt_fired w' = wt_fired w \<Longrightarrow> wt_pc w' = wt_pc w \<Longrightarrow> wt_woke w' = wt_woke w \<Longrightarrow> pace_inv d now w' = pace_inv d now w"
  by (cases "wt_pc w") (simp_all add: pace_inv_def fired_by_def)

lemma pace_actions: "pace_inv d now (enqueue_add en base p w) = pace_inv d now w"
  "pace_inv d now (enqueue_signal w) = pace_inv d now w" "pace_inv d now (stop_set w) = pace_inv d now w"
  "pace_inv d now (stop_wake w) = pace_inv d now w"
  by (rule pace_seen; simp add: seen)+

lemma pace_loop: "pace_inv d now w \<Longrightarrow> pace_inv d now (loop_step d now w)"
proof (cases "wt_pc w")
  case (LFire b)
  assume "pace_inv d now w"
  then show ?thesis using LFire
    by (cases "wt_fired w") (auto simp: pace_inv_def loop_step_def fired_by_def)
qed (auto simp: pace_inv_def loop_step_def fired_by_def)

lemma watch_run_pace: "watch_run en base d fresh_watcher now evs w \<Longrightarrow> pace_inv d now w"
proof (induction rule: watch_run.induct)
  case (started now)
  show ?case by (simp add: fresh_watcher_eq pace_inv_def fired_by_def)
next
  case (later now evs w now' new w')
  have "pace_inv d now' w" by (rule pace_later [OF later.IH later.hyps(2)])
  with later.hyps(3) show ?case
    by (elim watch_stepE) (simp_all only: pace_actions pace_loop)
qed

text \<open>
  Changes are debounced. In every run the callback is never called with an empty batch, and
  two calls are at least the debounce time apart, however fast the events come.
\<close>

lemma watcher_debounces:
  assumes "watch_run en base debounce fresh_watcher now evs w"
  shows "spaced debounce (wt_fired w) \<and> [] \<notin> snd ` set (wt_fired w)"
  using watch_run_pace [OF assms] by (auto simp: pace_inv_def)

section \<open>No change waits for ever\<close>

definition wake_inv :: "watcher \<Rightarrow> bool" where
  \<comment> \<open>pending paths are always on the way to a drain\<close>
  "wake_inv w \<longleftrightarrow> (wt_pc w = LDone \<longrightarrow> wt_stop w) \<and>
     (wt_pending w \<noteq> [] \<longrightarrow> wt_wakeup w \<or> 0 < wt_signals w
        \<or> (case wt_pc w of LTop \<Rightarrow> False | LWait \<Rightarrow> False | LFire _ \<Rightarrow> False | _ \<Rightarrow> True))"

definition draining :: "loop_pc \<Rightarrow> bool" where
  "draining pc = (case pc of LTop \<Rightarrow> False | LWait \<Rightarrow> False | LFire _ \<Rightarrow> False | _ \<Rightarrow> True)"

lemma wake_inv_eq: "wake_inv w \<longleftrightarrow> (wt_pc w = LDone \<longrightarrow> wt_stop w) \<and>
    (wt_pending w \<noteq> [] \<longrightarrow> wt_wakeup w \<or> 0 < wt_signals w \<or> draining (wt_pc w))"
  by (simp add: wake_inv_def draining_def)

lemma wake_event: "wake_inv w \<Longrightarrow> wake_inv (enqueue_add en base p w)"
  by (auto simp: wake_inv_eq enqueue_add_def)

lemma wake_signal: "wake_inv w \<Longrightarrow> wake_inv (enqueue_signal w)"
  by (auto simp: wake_inv_eq enqueue_signal_def)

lemma wake_stop: "wake_inv w \<Longrightarrow> wake_inv (stop_set w)" "wake_inv w \<Longrightarrow> wake_inv (stop_wake w)"
  by (auto simp: wake_inv_eq stop_set_def stop_wake_def)

lemma wake_loop: "wake_inv w \<Longrightarrow> wake_inv (loop_step d now w)"
  by (cases "wt_pc w") (auto simp: wake_inv_eq loop_step_def draining_def)

lemma watch_run_wake: "watch_run en base d fresh_watcher now evs w \<Longrightarrow> wake_inv w"
proof (induction rule: watch_run.induct)
  case (started now)
  show ?case by (simp add: fresh_watcher_eq wake_inv_eq)
next
  case (later now evs w now' new w')
  from later.hyps(3) later.IH show ?case
    by (elim watch_stepE) (simp_all add: wake_event wake_signal wake_loop wake_stop)
qed

text \<open>The loop alone, its steps at the given times.\<close>

definition loop_run :: "time \<Rightarrow> time list \<Rightarrow> watcher \<Rightarrow> watcher" where
  "loop_run d ts w = fold (loop_step d) ts w"

definition signal_all :: "watcher \<Rightarrow> watcher" where
  \<comment> \<open>the enqueues under way set the event\<close>
  "signal_all w = (enqueue_signal ^^ wt_signals w) w"

lemma signal_pow: "n \<le> wt_signals w \<Longrightarrow>
   (enqueue_signal ^^ n) w = w\<lparr>wt_signals := wt_signals w - n, wt_wakeup := (n > 0 \<or> wt_wakeup w)\<rparr>"
proof (induction n)
  case (Suc n)
  then show ?case by (simp add: enqueue_signal_def)
qed simp

lemma signal_all_eq: "signal_all w = w\<lparr>wt_signals := 0, wt_wakeup := (wt_signals w > 0 \<or> wt_wakeup w)\<rparr>"
  by (simp add: signal_all_def signal_pow)

text \<open>
  How many steps of the loop that are not waits are left until a path is delivered, and what holds
  of a watcher that will deliver it. Deadlines lie at most the debounce time after the last step.
\<close>

definition steps_left :: "path \<Rightarrow> watcher \<Rightarrow> nat" where
  "steps_left p w =
     (if p \<in> delivered w then 0
      else case wt_pc w of
        LFire b \<Rightarrow> if p \<in> set b then 1 else 11
      | LTop \<Rightarrow> 10 | LWait \<Rightarrow> 9 | LWoken \<Rightarrow> 8 | LArmed \<Rightarrow> 7
      | LIdle dl \<Rightarrow> if wt_wakeup w then 6 else 3
      | LExtended \<Rightarrow> 5 | LMoved dl \<Rightarrow> (if wt_wakeup w then 7 else 4) | LDrain \<Rightarrow> 2 | LDone \<Rightarrow> 12)"

definition will_deliver :: "path \<Rightarrow> watcher \<Rightarrow> bool" where
  "will_deliver p w \<longleftrightarrow> p \<in> delivered w \<or>
     \<not> wt_stop w \<and> (case wt_pc w of
        LFire b \<Rightarrow> p \<in> set b \<or> p \<in> set (wt_pending w) \<and> wt_wakeup w
      | LTop \<Rightarrow> p \<in> set (wt_pending w) \<and> wt_wakeup w
      | LWait \<Rightarrow> p \<in> set (wt_pending w) \<and> wt_wakeup w
      | LDone \<Rightarrow> False
      | _ \<Rightarrow> p \<in> set (wt_pending w))"

definition deadline_by :: "time \<Rightarrow> watcher \<Rightarrow> bool" where
  "deadline_by t w \<longleftrightarrow> (case wt_pc w of LIdle dl \<Rightarrow> dl \<le> t | LMoved dl \<Rightarrow> dl \<le> t | _ \<Rightarrow> True)"

definition waits :: "time \<Rightarrow> watcher \<Rightarrow> bool" where
  \<comment> \<open>a step at this time is a wait\<close>
  "waits t w \<longleftrightarrow> (case wt_pc w of LIdle dl \<Rightarrow> t < dl \<and> \<not> wt_wakeup w | _ \<Rightarrow> False)"

lemma step_delivered: "p \<in> delivered w \<Longrightarrow> p \<in> delivered (loop_step d t w)"
  by (cases "wt_pc w") (auto simp: loop_step_def delivered_def)

lemma step_wait: "waits t w \<Longrightarrow> loop_step d t w = w"
  by (auto simp: waits_def loop_step_def split: loop_pc.splits)

lemma step_counts: "will_deliver p w \<Longrightarrow> \<not> waits t w \<Longrightarrow> steps_left p (loop_step d t w) \<le> steps_left p w - 1"
  by (cases "p \<in> delivered w"; cases "wt_pc w")
    (auto simp: will_deliver_def waits_def steps_left_def loop_step_def delivered_def split: if_splits)

lemma step_will: "will_deliver p w \<Longrightarrow> will_deliver p (loop_step d t w)"
proof (cases "p \<in> delivered w")
  case True
  then show ?thesis using step_delivered by (simp add: will_deliver_def)
next
  case False
  assume "will_deliver p w"
  then show ?thesis using False
    by (cases "wt_pc w") (auto simp: will_deliver_def loop_step_def delivered_def split: if_splits)
qed

lemma step_deadline: "0 \<le> d \<Longrightarrow> deadline_by x w \<Longrightarrow> t + d \<le> y \<Longrightarrow> x \<le> y \<Longrightarrow> deadline_by y (loop_step d t w)"
  by (cases "wt_pc w") (auto simp: deadline_by_def loop_step_def)

text \<open>
  The steps of a schedule in which \<open>us\<close> are picked out, each at least the debounce time after the
  one before: between two of them there is a step that is no wait.
\<close>

fun apart :: "time \<Rightarrow> time list \<Rightarrow> bool" where
  "apart d (t # t' # ts) \<longleftrightarrow> t + d \<le> t' \<and> apart d (t' # ts)"
| "apart d _ \<longleftrightarrow> True"

definition on_course :: "time \<Rightarrow> path \<Rightarrow> nat \<Rightarrow> time \<Rightarrow> watcher \<Rightarrow> bool" where
  \<comment> \<open>\<open>n\<close> picked steps to come, the last one was at \<open>u\<close>\<close>
  "on_course d p n u w \<longleftrightarrow> will_deliver p w \<and> steps_left p w \<le> n \<and> (deadline_by (u + d) w \<or> steps_left p w \<le> n - 1)"

lemma steps_left_0: "steps_left p w = 0 \<Longrightarrow> p \<in> delivered w"
  by (auto simp: steps_left_def split: if_splits loop_pc.splits)

lemma waits_left: "waits t w \<Longrightarrow> deadline_by t w \<Longrightarrow> False"
  by (auto simp: waits_def deadline_by_def split: loop_pc.splits)

lemma course_between:
  assumes "on_course d p n u w"
  shows "on_course d p n u (loop_step d t w)"
proof (cases "waits t w")
  case True
  then show ?thesis using assms by (simp add: step_wait)
next
  case False
  then show ?thesis using assms step_counts [of p w t d] step_will [of p w d t] by (auto simp: on_course_def)
qed

lemma course_picked:
  assumes "on_course d p (Suc n) u w" "0 \<le> d" "u + d \<le> t" "deadline_by (t + d) w"
  shows "on_course d p n t (loop_step d t w)"
proof (cases "waits t w")
  case True
  then have "\<not> deadline_by t w" using waits_left by blast
  then have "\<not> deadline_by (u + d) w" using assms(3) by (auto simp: deadline_by_def split: loop_pc.splits)
  then show ?thesis using True assms by (simp add: step_wait on_course_def)
next
  case False
  have "deadline_by (t + d) (loop_step d t w)" by (rule step_deadline [OF assms(2,4)]) simp_all
  then show ?thesis using assms(1) step_counts [of p w t d] step_will [of p w d t] False by (auto simp: on_course_def)
qed

lemma course_delivers:
  assumes "0 \<le> d"
  shows "subseq us ts \<Longrightarrow> sorted (now # ts) \<Longrightarrow> apart d (u # us) \<Longrightarrow> deadline_by (now + d) w \<Longrightarrow> on_course d p (length us) u w
    \<Longrightarrow> p \<in> delivered (loop_run d ts w)"
proof (induction ts arbitrary: us now u w)
  case Nil
  then have "us = []" by simp
  then show ?case using Nil.prems(5) steps_left_0 by (simp add: on_course_def loop_run_def)
next
  case (Cons t ts)
  let ?w = "loop_step d t w"
  have run: "loop_run d (t # ts) w = loop_run d ts ?w" by (simp add: loop_run_def)
  have dl: "deadline_by (t + d) w" using Cons.prems(2,4) by (auto simp: deadline_by_def split: loop_pc.splits)
  have dl': "deadline_by (t + d) ?w" by (rule step_deadline [OF assms dl]) simp_all
  have srt: "sorted (t # ts)" using Cons.prems(2) by simp
  show ?case
  proof (cases "subseq us ts")
    case True
    show ?thesis unfolding run by (rule Cons.IH [OF True srt Cons.prems(3) dl' course_between [OF Cons.prems(5)]])
  next
    case False
    then obtain us' where us: "us = t # us'" "subseq us' ts" using Cons.prems(1) by (cases us) (auto split: if_splits)
    have "u + d \<le> t" "apart d (t # us')" using Cons.prems(3) by (simp_all add: us(1))
    moreover have "on_course d p (Suc (length us')) u w" using Cons.prems(5) by (simp add: us(1))
    ultimately show ?thesis unfolding run using Cons.IH [OF us(2) srt _ dl'] course_picked [OF _ assms _ dl] by blast
  qed
qed

lemma deadlines: "pace_inv d now w \<Longrightarrow> deadline_by (now + d) w"
  by (auto simp: pace_inv_def deadline_by_def split: loop_pc.splits)

lemma on_course_start:
  assumes "wake_inv w" "\<not> wt_stop w" "p \<in> set (wt_pending w)"
  shows "will_deliver p (signal_all w) \<and> steps_left p (signal_all w) \<le> 11"
  using assms by (cases "wt_pc w") (auto simp: wake_inv_eq draining_def signal_all_eq will_deliver_def steps_left_def)

text \<open>
  C26: every change is delivered, at any pace. In every run that was not stopped, once the enqueues
  under way have set the event and no further event comes, whatever the times of the loop's further
  steps: a schedule that contains twelve steps each at least the debounce time after the one before,
  with as many other steps in between as one likes, hands each pending path to the callback. No
  wakeup is lost between the two threads.
\<close>

theorem watcher_delivers:
  assumes "watch_run en base debounce fresh_watcher now evs w" "0 \<le> debounce" "\<not> wt_stop w" "p \<in> set (wt_pending w)"
    "sorted (now # ts)" "subseq us ts" "apart debounce us" "12 \<le> length us"
  shows "p \<in> delivered (loop_run debounce ts (signal_all w))"
proof -
  have w: "will_deliver p (signal_all w)" "steps_left p (signal_all w) \<le> 11"
    using on_course_start [OF watch_run_wake [OF assms(1)] assms(3,4)] by simp_all
  have "deadline_by (now + debounce) (signal_all w)"
    using deadlines [OF watch_run_pace [OF assms(1)]] by (simp add: deadline_by_def signal_all_eq)
  moreover obtain u us' where us: "us = u # us'" using assms(8) by (cases us) auto
  moreover have "apart debounce ((u - debounce) # us)" using assms(7) us by simp
  moreover have "on_course debounce p (length us) (u - debounce) (signal_all w)" using w assms(8) by (auto simp: on_course_def)
  ultimately show ?thesis using course_delivers [OF assms(2,6,5)] by blast
qed

section \<open>A run\<close>

definition demo_watch :: "watch_env" where
  "demo_watch = \<lparr>we_realpath = (\<lambda>p. Some (path_str p)), we_darwin = False\<rparr>"

abbreviation demo_file :: path where
  "demo_file \<equiv> [''/'', ''r'', ''a.py'']"

definition demo_pending :: "watcher" where
  "demo_pending = enqueue_add demo_watch [''/'', ''r''] demo_file fresh_watcher"

lemma demo_tracked: "should_track demo_watch [''/'', ''r''] demo_file"
  by code_simp

lemma demo_watch_run: "watch_run demo_watch [''/'', ''r''] 1 fresh_watcher 2 [demo_file] demo_pending"
proof -
  have "watch_run demo_watch [''/'', ''r''] 1 fresh_watcher 2 ([] @ (if should_track demo_watch [''/'', ''r''] demo_file then [demo_file] else []))
     (enqueue_add demo_watch [''/'', ''r''] demo_file fresh_watcher)"
    by (rule watch_run.later [OF watch_run.started [of 2] _ watch_step.event]) simp_all
  then show ?thesis using demo_tracked by (simp add: demo_pending_def)
qed

lemma demo_pending_eq: "demo_pending = fresh_watcher\<lparr>wt_pending := [demo_file], wt_signals := 1\<rparr>"
  using demo_tracked by (simp add: demo_pending_def enqueue_add_def fresh_watcher_eq)

theorem watcher_conserves_witness:
  "{demo_file} = set (wt_pending demo_pending) \<union> in_flight demo_pending \<union> delivered demo_pending"
  using watcher_conserves [OF demo_watch_run] by simp

lemma watcher_debounces_witness: "spaced 1 (wt_fired demo_pending)"
  using watcher_debounces [OF demo_watch_run] by simp

theorem watcher_delivers_witness:
  "demo_file \<in> delivered (loop_run 1 [2, 5/2, 3, 4, 5, 6, 7, 8, 9, 10, 11, 12, 25/2, 13] (signal_all demo_pending))"
  by (rule watcher_delivers [OF demo_watch_run, of _ _ "[2, 3, 4, 5, 6, 7, 8, 9, 10, 11, 12, 13]"])
    (simp_all add: demo_pending_eq fresh_watcher_eq)

section \<open>Restarting\<close>

text \<open>
  A watcher that was stopped cannot be started again: \<open>stop\<close> sets an event nothing clears, so the
  new loop ends at once, \<open>running\<close> says True and no change is ever delivered.
\<close>

lemma restarted_watcher_dead:
  assumes "watch_run en base d (start True w0) now evs w" "wt_stop w0" "wt_pc w0 = LDone"
  shows "wt_fired w = wt_fired w0"
proof -
  have "wt_fired w = wt_fired w0 \<and> wt_stop w \<and> wt_pc w \<in> {LTop, LDone}"
    using assms(1)
  proof (induction rule: watch_run.induct)
    case (started now)
    show ?case using assms(2,3) by (simp add: start_def)
  next
    case (later now evs w now' new w')
    from later.hyps(3) later.IH show ?case by (elim watch_stepE) (auto simp: seen loop_step_def)
  qed
  then show ?thesis by simp
qed

text \<open>
  Files whose own name starts with a dot are never tracked, though the walk indexes them: their
  edits do not reach the index.
\<close>

lemma dotfile_untracked:
  "\<not> should_track demo_watch [''/'', ''r''] [''/'', ''r'', ''.eslintrc'']"
  by code_simp

end
