(* ===== verification/Svc_Hibernate.thy ===== *)
theory Svc_Hibernate
  imports Svc_Evict
begin

text \<open>
  The disk half of the eviction store (\<open>longctx_svc/eviction_store.py\<close>): snapshot directories,
  \<open>hibernate\<close> (its two critical sections and the file writes between them), \<open>resume\<close>,
  \<open>evict_idle\<close>, \<open>disk_lru_cleanup\<close>; and the \<open>/evict\<close> and \<open>/sessions\<close> handlers of
  \<open>longctx_svc/app.py\<close> that drive it.

  The disk is a dictionary from directory names (under the hibernation directory) to the two
  files of a snapshot. A pickle that was written is read back as it was; the temporary files of
  the atomic renames and failing \<open>unlink\<close> calls are left out. The ids \<open>.\<close> and \<open>..\<close>, which
  \<open>session_dir\<close> lets through, name directories this flat dictionary does not have.
\<close>

section \<open>Directory names\<close>

definition safe_dir_char :: "char \<Rightarrow> bool" where
  "safe_dir_char c \<longleftrightarrow> is_alnum_ascii c \<or> c \<in> set ''_.-''"

fun sub_runs :: "(char \<Rightarrow> bool) \<Rightarrow> char \<Rightarrow> string \<Rightarrow> string" where
  \<comment> \<open>\<open>re.sub([^P]+, u, s)\<close>: each maximal run outside \<open>P\<close> becomes one \<open>u\<close>\<close>
  "sub_runs P u [] = []"
| "sub_runs P u [c] = (if P c then [c] else [u])"
| "sub_runs P u (c # d # s) = (if P c then c # sub_runs P u (d # s)
     else if P d then u # sub_runs P u (d # s) else sub_runs P u (d # s))"

definition session_dir :: "rescue_env \<Rightarrow> string \<Rightarrow> string" where
  "session_dir en sid =
     (let safe = sub_runs safe_dir_char (CHR ''_'') sid in
      if safe = [] \<or> safe \<noteq> sid
      then (if safe = [] then ''session'' else safe) @ ''.'' @ en_sha12 en sid
      else safe)"

section \<open>Snapshots\<close>

definition hibernation_schema_version :: int where
  "hibernation_schema_version = 1"

definition snap_of :: "rescue_env \<Rightarrow> store \<Rightarrow> string \<Rightarrow> snapshot_dir option" where
  "snap_of en st sid = dict_get (st_disk st) (session_dir en sid)"

definition is_hibernated :: "rescue_env \<Rightarrow> string \<Rightarrow> store \<Rightarrow> bool" where
  "is_hibernated en sid st =
     (case snap_of en st sid of None \<Rightarrow> False
      | Some d \<Rightarrow> sd_chunks d \<noteq> None \<and> sd_meta d \<noteq> NoMeta)"

text \<open>Where the file writes of \<open>hibernate\<close> fail, if they do.\<close>

datatype disk_io = IoOk | IoNoDir | IoNoChunks | IoNoMeta

definition empty_snapshot :: "snapshot_dir" where
  "empty_snapshot = \<lparr>sd_chunks = None, sd_meta = NoMeta\<rparr>"

definition hibernate_copy :: "string \<Rightarrow> store \<Rightarrow> (evicted_chunk list \<times> time) option \<times> store" where
  \<comment> \<open>the first critical section: copy the chunks, or drop an empty session\<close>
  "hibernate_copy sid st =
     (case dict_get (st_sessions st) sid of
        None \<Rightarrow> (None, st\<lparr>st_sessions := dict_pop sid (st_sessions st)\<rparr>)
      | Some idx \<Rightarrow>
          if si_chunks idx = [] then (None, st\<lparr>st_sessions := dict_pop sid (st_sessions st)\<rparr>)
          else (Some (si_chunks idx, si_last_access idx), st))"

definition hibernate_persist ::
  "rescue_env \<Rightarrow> disk_io \<Rightarrow> time \<Rightarrow> string \<Rightarrow> evicted_chunk list \<times> time \<Rightarrow> store \<Rightarrow> (exc + unit) \<times> store" where
  \<comment> \<open>outside the lock: the fingerprint is read, then the two files are written in turn\<close>
  "hibernate_persist en io now sid copy st =
     (let fp = (case st_fingerprint st of None \<Rightarrow> ''unknown'' | Some f \<Rightarrow> if f = [] then ''unknown'' else f);
          name = session_dir en sid;
          d0 = (case dict_get (st_disk st) name of Some d \<Rightarrow> d | None \<Rightarrow> empty_snapshot);
          meta = \<lparr>sm_schema_version = hibernation_schema_version, sm_fingerprint = fp, sm_hibernated_at = now,
                  sm_last_access = snd copy, sm_n_chunks = length (fst copy), sm_session_id = sid\<rparr>;
          d1 = d0\<lparr>sd_chunks := Some (fst copy)\<rparr>;
          d2 = d1\<lparr>sd_meta := Meta meta\<rparr>
      in case io of
           IoNoDir \<Rightarrow> (Inl OSError, st)
         | IoNoChunks \<Rightarrow> (Inl OSError, st\<lparr>st_disk := dict_set name d0 (st_disk st)\<rparr>)
         | IoNoMeta \<Rightarrow> (Inl OSError, st\<lparr>st_disk := dict_set name d1 (st_disk st)\<rparr>)
         | IoOk \<Rightarrow> (Inr (), st\<lparr>st_disk := dict_set name d2 (st_disk st)\<rparr>))"

definition hibernate_drop :: "string \<Rightarrow> store \<Rightarrow> store" where
  \<comment> \<open>the second critical section\<close>
  "hibernate_drop sid st = st\<lparr>st_sessions := dict_pop sid (st_sessions st)\<rparr>"

definition hibernate :: "rescue_env \<Rightarrow> disk_io \<Rightarrow> time \<Rightarrow> string \<Rightarrow> store \<Rightarrow> (exc + bool) \<times> store" where
  "hibernate en io now sid st =
     (case hibernate_copy sid st of
        (None, st) \<Rightarrow> (Inr False, st)
      | (Some copy, st) \<Rightarrow>
          (case hibernate_persist en io now sid copy st of
             (Inl e, st) \<Rightarrow> (Inl e, st)
           | (Inr _, st) \<Rightarrow> (Inr True, hibernate_drop sid st)))"

definition resume :: "rescue_env \<Rightarrow> string \<Rightarrow> bool \<Rightarrow> store \<Rightarrow> (exc + nat) \<times> store" where
  "resume en sid strict_fingerprint st =
     (if \<not> is_hibernated en sid st then (Inr 0, st)
      else case snap_of en st sid of
        None \<Rightarrow> (Inr 0, st)
      | Some d \<Rightarrow>
          (case sd_meta d of
             NoMeta \<Rightarrow> (Inl OSError, st)
           | BadMeta \<Rightarrow> (Inl JSONDecodeError, st)
           | Meta meta \<Rightarrow>
               if sm_schema_version meta \<noteq> hibernation_schema_version then (Inl SnapshotSchemaMismatch, st)
               else if strict_fingerprint \<and> st_fingerprint st \<noteq> None \<and> st_fingerprint st \<noteq> Some (sm_fingerprint meta)
               then (Inl EmbedderMismatch, st)
               else case sd_chunks d of
                 None \<Rightarrow> (Inl OSError, st)
               | Some chunks \<Rightarrow>
                   (Inr (length chunks),
                    st\<lparr>st_sessions := dict_set sid
                      \<lparr>si_chunks = chunks, si_last_access = sm_last_access meta, si_bm25_dirty = True,
                       si_bm25 = None, si_bm25_tokens = []\<rparr> (st_sessions st)\<rparr>)))"

definition forget_dir :: "rescue_env \<Rightarrow> string \<Rightarrow> store \<Rightarrow> bool \<times> store" where
  \<comment> \<open>\<open>forget_hibernated\<close>\<close>
  "forget_dir en sid st =
     (if snap_of en st sid = None then (False, st)
      else (True, st\<lparr>st_disk := dict_pop (session_dir en sid) (st_disk st)\<rparr>))"

definition maybe_resume :: "rescue_env \<Rightarrow> string \<Rightarrow> store \<Rightarrow> (exc + nat) \<times> store" where
  "maybe_resume en sid st =
     (if dict_get (st_sessions st) sid \<noteq> None then (Inr 0, st)
      else if \<not> is_hibernated en sid st then (Inr 0, st)
      else resume en sid True st)"

section \<open>Janitors\<close>

definition stale_sessions :: "time \<Rightarrow> store \<Rightarrow> string list" where
  "stale_sessions cutoff st = map fst (filter (\<lambda>e. si_last_access (snd e) < cutoff) (st_sessions st))"

definition retire :: "rescue_env \<Rightarrow> (string \<Rightarrow> disk_io) \<Rightarrow> time \<Rightarrow> bool \<Rightarrow> string \<Rightarrow> store \<Rightarrow> store" where
  \<comment> \<open>one turn of the loop: a failing hibernation falls back to dropping the session\<close>
  "retire en io now hib sid st =
     (if hib then (case hibernate en (io sid) now sid st of (Inl e, st) \<Rightarrow> snd (es_clear sid st) | (Inr b, st) \<Rightarrow> st)
      else snd (es_clear sid st))"

definition es_evict_idle :: "rescue_env \<Rightarrow> (string \<Rightarrow> disk_io) \<Rightarrow> time \<Rightarrow> real \<Rightarrow> bool \<Rightarrow> store \<Rightarrow> nat \<times> store" where
  "es_evict_idle en io now ttl hib st =
     (let stale = stale_sessions (now - ttl) st in (length stale, fold (retire en io now hib) stale st))"

definition snapshot_ts :: "snapshot_dir \<Rightarrow> time" where
  "snapshot_ts d = (case sd_meta d of Meta meta \<Rightarrow> sm_hibernated_at meta | BadMeta \<Rightarrow> 0 | NoMeta \<Rightarrow> 0)"

definition disk_lru_cleanup :: "rescue_env \<Rightarrow> time \<Rightarrow> real \<Rightarrow> store \<Rightarrow> nat \<times> store" where
  "disk_lru_cleanup en now ttl_days st =
     (let cutoff = now - ttl_days * 86400
      in fold (\<lambda>(name, d) (removed, st).
           if snapshot_ts d < cutoff then (removed + 1, snd (forget_dir en name st)) else (removed, st))
         (st_disk st) (0, st))"

section \<open>The handlers\<close>

record evict_hit =
  eh_text :: string
  eh_token_range :: "int \<times> int"
  eh_layer :: int
  eh_score :: real

definition hit_of :: "evicted_chunk \<Rightarrow> evict_hit" where
  "hit_of c = \<lparr>eh_text = ec_text c, eh_token_range = ec_token_range c, eh_layer = ec_layer c, eh_score = ec_score c\<rparr>"

definition chunk_of_hit :: "evict_hit \<Rightarrow> evicted_chunk" where
  "chunk_of_hit h = \<lparr>ec_text = eh_text h, ec_token_range = eh_token_range h, ec_layer = eh_layer h,
     ec_score = eh_score h, ec_embedding = None\<rparr>"

definition evict_write :: "rescue_env \<Rightarrow> time \<Rightarrow> string \<Rightarrow> evict_hit list \<Rightarrow> store \<Rightarrow> (nat \<times> nat) \<times> store" where
  \<comment> \<open>\<open>(accepted, session_total)\<close>\<close>
  "evict_write en now sid reqs st =
     (if reqs = [] then ((0, 0), st)
      else let (total, st) = es_write en now sid (map chunk_of_hit reqs) st in ((length reqs, total), st))"

definition evict_retrieve ::
  "rescue_env \<Rightarrow> time \<Rightarrow> string \<Rightarrow> string \<Rightarrow> int \<Rightarrow> real \<Rightarrow> real option \<Rightarrow> bool \<Rightarrow> int \<Rightarrow> store
     \<Rightarrow> (exc + evict_hit list \<times> nat) \<times> store" where
  "evict_retrieve en now sid query top_k score_floor hybrid_alpha use_rerank prefilter st =
     (let st = snd (maybe_resume en sid st) in
      case es_retrieve en now sid query top_k score_floor hybrid_alpha use_rerank prefilter st of
        (Inl e, st) \<Rightarrow> (Inl e, st)
      | (Inr chunks, st) \<Rightarrow>
          (Inr (map hit_of chunks, case dict_get (ss_per_session (es_stats st)) sid of None \<Rightarrow> 0 | Some n \<Rightarrow> n), st))"

definition evict_dump :: "string \<Rightarrow> store \<Rightarrow> nat \<times> (int \<times> int) list \<times> int list \<times> real list" where
  "evict_dump sid st =
     (case dict_get (st_sessions st) sid of
        None \<Rightarrow> (0, [], [], [])
      | Some idx \<Rightarrow> (length (map ec_token_range (si_chunks idx)), map ec_token_range (si_chunks idx),
          map ec_layer (si_chunks idx), map ec_score (si_chunks idx)))"

definition session_hibernate :: "rescue_env \<Rightarrow> disk_io \<Rightarrow> time \<Rightarrow> string \<Rightarrow> store \<Rightarrow> (exc + bool \<times> nat) \<times> store" where
  "session_hibernate en io now sid st =
     (let n_chunks = (case dict_get (st_sessions st) sid of None \<Rightarrow> 0 | Some idx \<Rightarrow> length (si_chunks idx)) in
      case hibernate en io now sid st of (Inl e, st) \<Rightarrow> (Inl e, st) | (Inr ok, st) \<Rightarrow> (Inr (ok, n_chunks), st))"

definition session_resume :: "rescue_env \<Rightarrow> string \<Rightarrow> store \<Rightarrow> (bool \<times> nat \<times> exc option) \<times> store" where
  "session_resume en sid st =
     (case resume en sid True st of
        (Inr n, st) \<Rightarrow> ((0 < n, n, None), st)
      | (Inl e, st) \<Rightarrow> ((False, 0, Some e), st))"

record hibernation_status =
  hs_in_ram :: bool
  hs_on_disk :: bool
  hs_n_ram :: nat
  hs_n_disk :: nat
  hs_fingerprint :: "string option"
  hs_hibernated_at :: "time option"

definition session_status :: "rescue_env \<Rightarrow> string \<Rightarrow> store \<Rightarrow> hibernation_status" where
  \<comment> \<open>\<open>session_hibernation_status\<close>\<close>
  "session_status en sid st =
     (let idx = dict_get (st_sessions st) sid;
          on_disk = is_hibernated en sid st;
          meta = (if on_disk then (case snap_of en st sid of
                    Some d \<Rightarrow> (case sd_meta d of Meta m \<Rightarrow> Some m | _ \<Rightarrow> None) | None \<Rightarrow> None) else None)
      in \<lparr>hs_in_ram = idx \<noteq> None, hs_on_disk = on_disk,
          hs_n_ram = (case idx of None \<Rightarrow> 0 | Some i \<Rightarrow> length (si_chunks i)),
          hs_n_disk = (case meta of None \<Rightarrow> 0 | Some m \<Rightarrow> sm_n_chunks m),
          hs_fingerprint = map_option sm_fingerprint meta,
          hs_hibernated_at = (case meta of None \<Rightarrow> None
             | Some m \<Rightarrow> if sm_hibernated_at m = 0 then None else Some (sm_hibernated_at m))\<rparr>)"

section \<open>Names\<close>

lemma sub_runs_chars: "c \<in> set (sub_runs P u s) \<Longrightarrow> P c \<or> c = u"
  by (induction P u s rule: sub_runs.induct) (auto split: if_splits)

lemma sub_runs_id: "\<forall>c \<in> set s. P c \<Longrightarrow> sub_runs P u s = s"
  by (induction P u s rule: sub_runs.induct) auto

lemma session_dir_chars:
  assumes "\<forall>c \<in> set (en_sha12 en sid). safe_dir_char c"
  shows "\<forall>c \<in> set (session_dir en sid). safe_dir_char c"
proof -
  have "safe_dir_char c" if "c \<in> set (sub_runs safe_dir_char (CHR ''_'') sid)" for c
    using sub_runs_chars [OF that] by (auto simp: safe_dir_char_def)
  moreover have "\<forall>c \<in> set ''session''. safe_dir_char c" by (simp add: safe_dir_char_def is_alnum_ascii_def is_lower_ascii_def cp_def)
  ultimately show ?thesis using assms by (auto simp: session_dir_def Let_def safe_dir_char_def)
qed

lemma session_dir_id: "\<forall>c \<in> set sid. safe_dir_char c \<Longrightarrow> sid \<noteq> [] \<Longrightarrow> session_dir en sid = sid"
  by (simp add: session_dir_def sub_runs_id)

lemma session_dir_nonempty: "session_dir en sid \<noteq> []"
  by (auto simp: session_dir_def Let_def)

section \<open>Hibernate and resume\<close>

lemma hibernate_ok:
  assumes "map_of (st_sessions st) sid = Some idx" "si_chunks idx \<noteq> []"
  shows "fst (hibernate en IoOk now sid st) = Inr True"
    and "st_sessions (snd (hibernate en IoOk now sid st)) = dict_pop sid (st_sessions st)"
    and "snap_of en (snd (hibernate en IoOk now sid st)) sid = Some
      \<lparr>sd_chunks = Some (si_chunks idx),
       sd_meta = Meta \<lparr>sm_schema_version = 1,
         sm_fingerprint = (case st_fingerprint st of None \<Rightarrow> ''unknown'' | Some f \<Rightarrow> if f = [] then ''unknown'' else f),
         sm_hibernated_at = now, sm_last_access = si_last_access idx, sm_n_chunks = length (si_chunks idx),
         sm_session_id = sid\<rparr>\<rparr>"
    and "st_fingerprint (snd (hibernate en IoOk now sid st)) = st_fingerprint st"
  using assms by (auto simp: hibernate_def hibernate_copy_def hibernate_persist_def hibernate_drop_def Let_def
      snap_of_def dict_simps hibernation_schema_version_def empty_snapshot_def split: option.split)

lemma hibernate_empty:
  "(case map_of (st_sessions st) sid of None \<Rightarrow> True | Some idx \<Rightarrow> si_chunks idx = []) \<Longrightarrow>
   hibernate en io now sid st = (Inr False, st\<lparr>st_sessions := dict_pop sid (st_sessions st)\<rparr>)"
  by (auto simp: hibernate_def hibernate_copy_def split: option.splits)

lemma resume_ok:
  assumes "snap_of en st sid = Some \<lparr>sd_chunks = Some cs, sd_meta = Meta m\<rparr>" "sm_schema_version m = 1"
    and "strict \<longrightarrow> st_fingerprint st = None \<or> st_fingerprint st = Some (sm_fingerprint m)"
  shows "resume en sid strict st = (Inr (length cs), st\<lparr>st_sessions := dict_set sid
     \<lparr>si_chunks = cs, si_last_access = sm_last_access m, si_bm25_dirty = True, si_bm25 = None, si_bm25_tokens = []\<rparr>
     (st_sessions st)\<rparr>)"
  using assms by (auto simp: resume_def is_hibernated_def hibernation_schema_version_def)

definition cold :: "session_index \<Rightarrow> session_index" where
  \<comment> \<open>an index as it comes back from a snapshot\<close>
  "cold idx = \<lparr>si_chunks = si_chunks idx, si_last_access = si_last_access idx, si_bm25_dirty = True,
     si_bm25 = None, si_bm25_tokens = []\<rparr>"

lemma hibernate_then_resume:
  fixes en :: rescue_env and now :: time
  assumes idx: "map_of (st_sessions st) sid = Some idx" "si_chunks idx \<noteq> []" and fp: "st_fingerprint st \<noteq> Some []"
  defines "st1 \<equiv> snd (hibernate en IoOk now sid st)"
  shows "maybe_resume en sid st1 = (Inr (length (si_chunks idx)),
     st1\<lparr>st_sessions := dict_set sid (cold idx) (dict_pop sid (st_sessions st))\<rparr>)"
proof -
  note h = hibernate_ok [OF idx, of en now, folded st1_def]
  have "is_hibernated en sid st1" by (simp add: is_hibernated_def h(3))
  moreover have "map_of (st_sessions st1) sid = None" by (simp add: h(2) dict_simps)
  moreover have "resume en sid True st1 = (Inr (length (si_chunks idx)),
     st1\<lparr>st_sessions := dict_set sid (cold idx) (dict_pop sid (st_sessions st))\<rparr>)"
    using fp by (subst resume_ok [OF h(3)]) (auto simp: h(2,4) cold_def split: option.split)
  ultimately show ?thesis by (simp add: maybe_resume_def)
qed

text \<open>Retrieve does not see whether an index came back from disk.\<close>

lemma rebuild_cold: "si_bm25 (rebuild_bm25 en (cold idx)) = si_bm25 (rebuild_bm25 en idx)"
  by (simp add: rebuild_bm25_def cold_def Let_def)

lemma rank_chunks_cong:
  "fuse en al b q cs = fuse en al b' q cs \<Longrightarrow> rank_chunks en al b q cs k fl rr pf = rank_chunks en al b' q cs k fl rr pf"
  by (simp add: rank_chunks_def)

lemma cold_inv: "index_inv en idx \<Longrightarrow> index_inv en (cold idx)"
  by (simp add: index_inv_def cold_def)

lemma es_retrieve_cold_index:
  assumes en: "env_ok en" and inv: "store_inv en st" "store_inv en st'"
    and idx: "map_of (st_sessions st) sid = Some idx" "si_chunks idx \<noteq> []"
    and idx': "map_of (st_sessions st') sid = Some (cold idx)"
    and rr: "reranker_available en st' = reranker_available en st"
  shows "fst (es_retrieve en now sid q k fl a rrk pf st') = fst (es_retrieve en now sid q k fl a rrk pf st)"
proof -
  have ne': "si_chunks (cold idx) \<noteq> []" and chunks: "si_chunks (cold idx) = si_chunks idx"
    using idx(2) by (simp_all add: cold_def)
  have ii: "index_inv en idx" using inv(1) idx(1) by (auto simp: store_inv_def)
  have "rank_chunks en (alpha_of en a) (si_bm25 (refreshed en now (alpha_of en a) (cold idx))) q cs k fl rrk pf
      = rank_chunks en (alpha_of en a) (si_bm25 (refreshed en now (alpha_of en a) idx)) q cs k fl rrk pf" for cs
    by (intro rank_chunks_cong) (simp add: fuse_refreshed [OF ii] fuse_refreshed [OF cold_inv [OF ii]] rebuild_cold)
  note same = this
  show ?thesis
    unfolding es_retrieve_eq [OF en inv(1) idx] es_retrieve_eq [OF en inv(2) idx' ne'] chunks same
    using rr by (simp add: fst_ensure_reranker)
qed

section \<open>Janitors\<close>

lemma retire_sessions [simp]: "st_sessions (retire en io now hib sid st) = dict_pop sid (st_sessions st)"
  by (auto simp: retire_def hibernate_def hibernate_copy_def hibernate_persist_def hibernate_drop_def es_clear_def Let_def
      split: option.split disk_io.split)

lemma retires_sessions: "st_sessions (fold (retire en io now hib) sids st) = fold dict_pop sids (st_sessions st)"
  by (induction sids arbitrary: st) simp_all

lemma evict_idle_sessions:
  assumes "dict_wf (st_sessions st)"
  shows "map_of (st_sessions (snd (es_evict_idle en io now ttl hib st))) sid =
     (case map_of (st_sessions st) sid of None \<Rightarrow> None | Some idx \<Rightarrow> if si_last_access idx < now - ttl then None else Some idx)"
  unfolding es_evict_idle_def Let_def snd_conv retires_sessions stale_sessions_def
  using od.get_sweep [OF assms, of "\<lambda>idx. si_last_access idx < now - ttl" sid] by simp

lemma snap_of_set_disk:
  "snap_of en (st\<lparr>st_disk := dict_set n d (st_disk st)\<rparr>) sid = (if session_dir en sid = n then Some d else snap_of en st sid)"
  by (simp add: snap_of_def dict_simps)

lemma hibernate_other_snap:
  "session_dir en s \<noteq> session_dir en sid \<Longrightarrow> snap_of en (snd (hibernate en io now sid st)) s = snap_of en st s"
  by (auto simp: hibernate_def hibernate_copy_def hibernate_persist_def hibernate_drop_def Let_def snap_of_def dict_simps
      split: option.split disk_io.split)

lemma retire_other_snap:
  "session_dir en s \<noteq> session_dir en sid \<Longrightarrow> snap_of en (retire en io now hib sid st) s = snap_of en st s"
  using hibernate_other_snap [of en s sid "io sid" now st]
  by (auto simp: retire_def es_clear_def snap_of_def split: prod.split sum.split)

lemma retires_other_snap:
  "session_dir en s \<notin> session_dir en ` set sids \<Longrightarrow> snap_of en (fold (retire en io now hib) sids st) s = snap_of en st s"
  by (induction sids arbitrary: st) (auto simp: retire_other_snap)

definition durable :: "rescue_env \<Rightarrow> string \<Rightarrow> session_index \<Rightarrow> store \<Rightarrow> bool" where
  \<comment> \<open>the session's snapshot is complete and holds exactly these chunks\<close>
  "durable en sid idx st \<longleftrightarrow> (\<exists>m. snap_of en st sid = Some \<lparr>sd_chunks = Some (si_chunks idx), sd_meta = Meta m\<rparr>
     \<and> sm_n_chunks m = length (si_chunks idx) \<and> sm_last_access m = si_last_access idx)"

lemma retire_durable:
  assumes "map_of (st_sessions st) sid = Some idx" "si_chunks idx \<noteq> []" "io sid = IoOk"
  shows "durable en sid idx (retire en io now True sid st)"
proof -
  obtain st' where h: "hibernate en IoOk now sid st = (Inr True, st')"
    using hibernate_ok(1) [OF assms(1,2), of en now] by (cases "hibernate en IoOk now sid st") simp
  then have "retire en io now True sid st = snd (hibernate en IoOk now sid st)"
    by (simp add: retire_def assms(3))
  then show ?thesis using hibernate_ok(3) [OF assms(1,2), of en now] by (simp add: durable_def)
qed

lemma retires_durable:
  assumes "distinct sids" "inj_on (session_dir en) (set sids)" "sid \<in> set sids"
    and "map_of (st_sessions st) sid = Some idx" "si_chunks idx \<noteq> []" "io sid = IoOk"
  shows "durable en sid idx (fold (retire en io now True) sids st)"
  using assms
proof (induction sids arbitrary: st)
  case (Cons s sids)
  show ?case
  proof (cases "s = sid")
    case True
    have "session_dir en sid \<notin> session_dir en ` set sids" using Cons.prems(1,2) True by auto
    then show ?thesis
      using retire_durable [where st = st and io = io and sid = sid and idx = idx and en = en and now = now] Cons.prems(4-6) True
      by (simp add: durable_def retires_other_snap)
  next
    case False
    then have "map_of (st_sessions (retire en io now True s st)) sid = Some idx"
      using Cons.prems(4) by (simp add: dict_simps)
    then show ?thesis using Cons.IH [of "retire en io now True s st"] Cons.prems False by simp
  qed
qed simp

lemma disk_cleanup_fold:
  assumes "\<forall>n \<in> fst ` set es. session_dir en n = n" "dict_wf es" "\<forall>(n, d) \<in> set es. map_of (st_disk st) n = Some d"
  shows "fold (\<lambda>(name, d) (removed, st). if snapshot_ts d < c then (removed + 1, snd (forget_dir en name st)) else (removed, st))
      es (k, st) =
    (k + length (filter (\<lambda>e. snapshot_ts (snd e) < c) es),
     st\<lparr>st_disk := fold dict_pop (map fst (filter (\<lambda>e. snapshot_ts (snd e) < c) es)) (st_disk st)\<rparr>)"
  using assms
proof (induction es arbitrary: k st)
  case (Cons e es)
  obtain n d where e: "e = (n, d)" by (cases e)
  have rest: "\<forall>(m, b) \<in> set es. map_of (dict_pop n (st_disk st)) m = Some b"
    using Cons.prems(2,3) e by (force simp: dict_simps)
  have "snd (forget_dir en n st) = st\<lparr>st_disk := dict_pop n (st_disk st)\<rparr>"
    using Cons.prems e by (simp add: forget_dir_def snap_of_def)
  then show ?case
    using Cons.IH [of "st\<lparr>st_disk := dict_pop n (st_disk st)\<rparr>" "k + 1"] Cons.IH [of st k] Cons.prems rest e
    by simp
qed simp

section \<open>The contract of cold storage\<close>

text \<open>
  C1: hibernation is transparent to retrieval. If the session is in memory with chunks, then
  hibernating it (with working disk writes) and calling the retrieve endpoint, which resumes it
  from its snapshot, gives the same hits and the same session total as calling it without the
  hibernation, for every query and every parameter.
\<close>

theorem hibernation_transparent:
  assumes "env_ok en" "store_inv en st" "map_of (st_sessions st) sid = Some idx" "si_chunks idx \<noteq> []"
    and "st_fingerprint st \<noteq> Some []"
  shows "fst (evict_retrieve en now sid q k fl a rrk pf (snd (hibernate en IoOk t sid st)))
       = fst (evict_retrieve en now sid q k fl a rrk pf st)"
proof -
  note h = hibernate_then_resume [OF assms(3-5), of en t]
  let ?st2 = "snd (maybe_resume en sid (snd (hibernate en IoOk t sid st)))"
  have frame: "reranker_available en (snd (hibernate en IoOk t sid st)) = reranker_available en st"
    using assms(3,4) by (simp add: hibernate_def hibernate_copy_def hibernate_persist_def hibernate_drop_def Let_def
        reranker_available_def)
  have inv1: "store_inv en (snd (hibernate en IoOk t sid st))"
    by (rule store_inv_pop [OF assms(2)]) (simp add: hibernate_ok(2) [OF assms(3,4)])
  have ii: "index_inv en idx" using assms(2,3) by (auto simp: store_inv_def)
  have idx2: "map_of (st_sessions ?st2) sid = Some (cold idx)" by (simp add: h dict_simps)
  have inv2: "store_inv en ?st2"
    by (rule store_inv_set [OF inv1 cold_inv [OF ii]]) (simp add: h hibernate_ok(2) [OF assms(3,4)])
  have live: "maybe_resume en sid st = (Inr 0, st)" using assms(3) by (simp add: maybe_resume_def)
  have fst_eq: "fst (es_retrieve en now sid q k fl a rrk pf ?st2) = fst (es_retrieve en now sid q k fl a rrk pf st)"
    by (rule es_retrieve_cold_index [OF assms(1,2) inv2 assms(3,4) idx2]) (simp add: h frame)
  have total: "(case dict_get (ss_per_session (es_stats s)) sid of None \<Rightarrow> 0 | Some n \<Rightarrow> n) = length (texts_of s sid)" for s
    by (simp add: es_stats_def map_of_map texts_of_def split: option.split)
  have "texts_of (snd (es_retrieve en now sid q k fl a rrk pf ?st2)) sid = texts_of (snd (es_retrieve en now sid q k fl a rrk pf st)) sid"
    using assms(3) idx2 by (simp add: texts_of_def es_retrieve_sessions dict_simps cold_def)
  then show ?thesis using fst_eq live
    by (simp add: evict_retrieve_def Let_def total split: prod.split sum.split) auto
qed

lemma demo_hot: "map_of (st_sessions (store_new\<lparr>st_sessions := [(''a'', demo_index)]\<rparr>)) ''a'' = Some demo_index"
  "si_chunks demo_index \<noteq> []" "st_fingerprint (store_new\<lparr>st_sessions := [(''a'', demo_index)]\<rparr>) \<noteq> Some []"
  by (simp_all add: demo_index_def store_new_def)

theorem hibernation_transparent_witness:
  "fst (evict_retrieve demo_env 5 ''a'' ''gamma'' 3 0 None True 30
       (snd (hibernate demo_env IoOk 4 ''a'' (store_new\<lparr>st_sessions := [(''a'', demo_index)]\<rparr>))))
   = fst (evict_retrieve demo_env 5 ''a'' ''gamma'' 3 0 None True 30 (store_new\<lparr>st_sessions := [(''a'', demo_index)]\<rparr>))"
  by (rule hibernation_transparent [OF demo_env_ok demo_store_inv demo_hot])

text \<open>
  Hibernate then resume is a round trip. Afterwards the session is out of memory and has a
  snapshot; resuming returns the number of its chunks, restores its chunks and last access with
  an empty BM25 state, and no other session has changed.
\<close>

lemma hibernate_roundtrip:
  assumes "map_of (st_sessions st) sid = Some idx" "si_chunks idx \<noteq> []" "st_fingerprint st \<noteq> Some []"
  shows "fst (hibernate en IoOk now sid st) = Inr True
    \<and> map_of (st_sessions (snd (hibernate en IoOk now sid st))) sid = None
    \<and> is_hibernated en sid (snd (hibernate en IoOk now sid st))
    \<and> fst (maybe_resume en sid (snd (hibernate en IoOk now sid st))) = Inr (length (si_chunks idx))
    \<and> map_of (st_sessions (snd (maybe_resume en sid (snd (hibernate en IoOk now sid st)))))
       = (map_of (st_sessions st))(sid \<mapsto> cold idx)"
  using hibernate_ok [OF assms(1,2), of en now] hibernate_then_resume [OF assms, of en now]
  by (auto simp: is_hibernated_def dict_simps fun_eq_iff)

lemma hibernate_roundtrip_witness:
  "fst (maybe_resume demo_env ''a'' (snd (hibernate demo_env IoOk 4 ''a'' (store_new\<lparr>st_sessions := [(''a'', demo_index)]\<rparr>)))) = Inr 1"
  using hibernate_roundtrip [OF demo_hot, of demo_env 4] by (simp add: demo_index_def)



text \<open>
  The idle janitor retires exactly the idle sessions. A session stays in memory, unchanged,
  iff its last access is within the TTL; the count returned is the number of idle sessions; and
  with working disk writes and no two idle sessions sharing a directory, the chunks of every
  idle session that has any are in its snapshot.
\<close>

lemma evict_idle_exact:
  assumes "dict_wf (st_sessions st)" "\<forall>s. io s = IoOk"
    and "inj_on (session_dir en) (set (stale_sessions (now - ttl) st))"
  shows "(\<forall>sid. map_of (st_sessions (snd (es_evict_idle en io now ttl True st))) sid =
       (case map_of (st_sessions st) sid of None \<Rightarrow> None
        | Some idx \<Rightarrow> if si_last_access idx < now - ttl then None else Some idx))
    \<and> fst (es_evict_idle en io now ttl True st) = card {sid. \<exists>idx. map_of (st_sessions st) sid = Some idx \<and> si_last_access idx < now - ttl}
    \<and> (\<forall>sid idx. map_of (st_sessions st) sid = Some idx \<longrightarrow> si_last_access idx < now - ttl \<longrightarrow> si_chunks idx \<noteq> []
        \<longrightarrow> durable en sid idx (snd (es_evict_idle en io now ttl True st)))"
proof (intro conjI allI impI)
  let ?stale = "stale_sessions (now - ttl) st"
  have mem: "sid \<in> set ?stale \<longleftrightarrow> (\<exists>idx. map_of (st_sessions st) sid = Some idx \<and> si_last_access idx < now - ttl)" for sid
    unfolding stale_sessions_def
    using od.stale_iff [OF assms(1), of sid "\<lambda>idx. si_last_access idx < now - ttl"] by simp
  have dist: "distinct ?stale" using assms(1) by (simp add: stale_sessions_def distinct_map_filter)
  show "map_of (st_sessions (snd (es_evict_idle en io now ttl True st))) sid =
       (case map_of (st_sessions st) sid of None \<Rightarrow> None
        | Some idx \<Rightarrow> if si_last_access idx < now - ttl then None else Some idx)" for sid
    by (rule evict_idle_sessions [OF assms(1)])
  have "set ?stale = {sid. \<exists>idx. map_of (st_sessions st) sid = Some idx \<and> si_last_access idx < now - ttl}"
    using mem by blast
  then show "fst (es_evict_idle en io now ttl True st) =
      card {sid. \<exists>idx. map_of (st_sessions st) sid = Some idx \<and> si_last_access idx < now - ttl}"
    using dist by (simp add: es_evict_idle_def Let_def flip: distinct_card)
  show "durable en sid idx (snd (es_evict_idle en io now ttl True st))"
    if "map_of (st_sessions st) sid = Some idx" "si_last_access idx < now - ttl" "si_chunks idx \<noteq> []" for sid idx
  proof -
    have "sid \<in> set ?stale" using mem that by blast
    from retires_durable [where io = io and now = now, OF dist assms(3) this that(1,3)]
    show ?thesis using assms(2) by (simp add: es_evict_idle_def Let_def)
  qed
qed

lemma evict_idle_exact_witness:
  "fst (es_evict_idle demo_env (\<lambda>s. IoOk) 5000 1800 True (store_new\<lparr>st_sessions := [(''a'', demo_index)]\<rparr>))
     = card {sid. \<exists>idx. map_of [(''a'', demo_index)] sid = Some idx \<and> si_last_access idx < 3200}
   \<and> durable demo_env ''a'' demo_index
       (snd (es_evict_idle demo_env (\<lambda>s. IoOk) 5000 1800 True (store_new\<lparr>st_sessions := [(''a'', demo_index)]\<rparr>)))"
  using evict_idle_exact [of "store_new\<lparr>st_sessions := [(''a'', demo_index)]\<rparr>" "\<lambda>s. IoOk" demo_env 5000 1800]
  by (simp add: stale_sessions_def demo_index_def)

text \<open>
  The disk cleanup removes exactly the expired snapshots. With every directory under the
  name its session gets, a snapshot survives, unchanged, iff its hibernation time is within the
  TTL (an unreadable one counts as expired), and the number removed is returned.
\<close>

lemma disk_cleanup_exact:
  assumes "dict_wf (st_disk st)" "\<forall>n \<in> set (dict_keys (st_disk st)). session_dir en n = n"
  shows "(\<forall>n. map_of (st_disk (snd (disk_lru_cleanup en now ttl st))) n =
       (case map_of (st_disk st) n of None \<Rightarrow> None
        | Some d \<Rightarrow> if snapshot_ts d < now - ttl * 86400 then None else Some d))
    \<and> fst (disk_lru_cleanup en now ttl st) = length (filter (\<lambda>e. snapshot_ts (snd e) < now - ttl * 86400) (st_disk st))
    \<and> st_sessions (snd (disk_lru_cleanup en now ttl st)) = st_sessions st"
proof -
  let ?c = "now - ttl * 86400"
  have items: "\<forall>(n, d) \<in> set (st_disk st). map_of (st_disk st) n = Some d"
    using dict_item_get [OF assms(1)] by blast
  have names: "\<forall>n \<in> fst ` set (st_disk st). session_dir en n = n" using assms(2) by simp
  note fld = disk_cleanup_fold [OF names assms(1) items, of ?c 0]
  have eq: "disk_lru_cleanup en now ttl st = (length (filter (\<lambda>e. snapshot_ts (snd e) < ?c) (st_disk st)),
     st\<lparr>st_disk := fold dict_pop (map fst (filter (\<lambda>e. snapshot_ts (snd e) < ?c) (st_disk st))) (st_disk st)\<rparr>)"
    unfolding disk_lru_cleanup_def Let_def fld by simp
  show ?thesis
    using od.get_sweep [OF assms(1), of "\<lambda>d. snapshot_ts d < ?c"] by (simp add: eq)
qed

lemma disk_cleanup_exact_witness:
  "fst (disk_lru_cleanup demo_env 9000000 30 (store_new\<lparr>st_disk := [(''a'', empty_snapshot)]\<rparr>)) = 1"
  using disk_cleanup_exact [of "store_new\<lparr>st_disk := [(''a'', empty_snapshot)]\<rparr>" demo_env 9000000 30]
  by (simp add: session_dir_def safe_dir_char_def is_alnum_ascii_def is_lower_ascii_def cp_def snapshot_ts_def empty_snapshot_def)

text \<open>
  Snapshot directory names are safe and stable. When the digest uses filename characters, so
  does every directory name; it is not empty, and naming it again gives it back (which the disk
  cleanup relies on, and which also means a session whose id is such a name shares the directory).
  Dots are safe characters, so the id \<open>..\<close> is its own name: the parent of the snapshot directory.
\<close>

lemma session_dir_stable:
  assumes "\<forall>c \<in> set (en_sha12 en sid). safe_dir_char c"
  shows "(\<forall>c \<in> set (session_dir en sid). safe_dir_char c) \<and> session_dir en sid \<noteq> []
    \<and> session_dir en (session_dir en sid) = session_dir en sid \<and> session_dir en ''..'' = ''..''"
proof -
  have "\<forall>c \<in> set ''..''. safe_dir_char c" by (simp add: safe_dir_char_def cp_def)
  then have "session_dir en ''..'' = ''..''" by (rule session_dir_id) simp
  then show ?thesis using session_dir_chars [OF assms] session_dir_nonempty session_dir_id by metis
qed

lemma session_dir_stable_witness:
  "session_dir (demo_env\<lparr>en_sha12 := \<lambda>s. ''0f''\<rparr>) ''a/b'' = ''a_b.0f''
   \<and> session_dir (demo_env\<lparr>en_sha12 := \<lambda>s. ''0f''\<rparr>) ''a_b.0f'' = ''a_b.0f''"
proof -
  have e: "session_dir (demo_env\<lparr>en_sha12 := \<lambda>s. ''0f''\<rparr>) ''a/b'' = ''a_b.0f''"
    by (simp add: session_dir_def safe_dir_char_def is_alnum_ascii_def is_lower_ascii_def is_upper_ascii_def is_digit_def cp_def)
  have "\<forall>c \<in> set (en_sha12 (demo_env\<lparr>en_sha12 := \<lambda>s. ''0f''\<rparr>) ''a/b''). safe_dir_char c"
    by (simp add: safe_dir_char_def is_alnum_ascii_def is_lower_ascii_def is_digit_def cp_def)
  from session_dir_stable [OF this] show ?thesis unfolding e by simp
qed

text \<open>
  A write to a hibernated session hides its snapshot. The write endpoint does not resume, so
  after it the session holds only the new chunks, auto-resume is a no-op, and the next
  hibernation replaces the snapshot by the new chunks: the earlier ones are gone.
\<close>

lemma write_hides_snapshot:
  fixes en :: rescue_env and now t t' :: time
  assumes "map_of (st_sessions st) sid = Some idx" "si_chunks idx \<noteq> []" "reqs \<noteq> []"
  defines "hib \<equiv> \<lambda>t st. snd (hibernate en IoOk t sid st)"
  defines "st2 \<equiv> snd (evict_write en now sid reqs (hib t st))"
  shows "texts_of st2 sid = map eh_text reqs \<and> maybe_resume en sid st2 = (Inr 0, st2)
    \<and> (\<exists>d cs. snap_of en (hib t' st2) sid = Some d \<and> sd_chunks d = Some cs \<and> map ec_text cs = map eh_text reqs)"
proof -
  let ?idx = "(empty_index now)\<lparr>si_chunks := embedded en (map chunk_of_hit reqs), si_last_access := now, si_bm25_dirty := True\<rparr>"
  have "session_of now sid (hib t st) = empty_index now"
    using hibernate_ok(2) [OF assms(1,2), of en t] by (simp add: hib_def session_of_def dict_simps)
  then have live: "map_of (st_sessions st2) sid = Some ?idx"
    using assms(3) es_write_sessions [of "map chunk_of_hit reqs" en now sid "hib t st"]
    by (auto simp: st2_def evict_write_def dict_simps empty_index_def split: prod.split)
  have texts: "map ec_text (si_chunks ?idx) = map eh_text reqs"
    by (simp add: chunk_of_hit_def)
  have "si_chunks ?idx \<noteq> []" using assms(3) texts by (metis list.map_disc_iff)
  from hibernate_ok(3) [OF live this, of en t'] show ?thesis
    using live texts by (simp add: texts_of_def maybe_resume_def hib_def chunk_of_hit_def)
qed

lemma write_hides_snapshot_witness:
  "texts_of (snd (evict_write demo_env 5 ''a'' [hit_of (demo_chunk ''new'')]
      (snd (hibernate demo_env IoOk 4 ''a'' (store_new\<lparr>st_sessions := [(''a'', demo_index)]\<rparr>))))) ''a'' = [''new'']"
  using write_hides_snapshot [OF demo_hot(1,2), of "[hit_of (demo_chunk ''new'')]" demo_env 5 4 0]
  by (simp add: hit_of_def demo_chunk_def)

end
