(* ===== verification/Rag_Chunker.thy ===== *)
theory Rag_Chunker
  imports LC_Regex LC_Lines
begin

text \<open>
  The token-aware chunker of the library (\<open>longctx/rag/chunker.py\<close>) and the chunk it makes
  (\<open>longctx/rag/coarse_filter.py\<close>). SHA-1 of a text (the hexadecimal digest) and the HuggingFace
  tokenizer (the character offsets of its tokens, or nothing when it cannot give them) are
  parameters. The empty \<open>metadata\<close> is left out; the default slack is a real number rounded down.
\<close>

record rag_chunk =
  rc_id :: string
  rc_text :: string
  rc_start_offset :: int
  rc_end_offset :: int
  rc_token_count :: int

definition default_chars_per_token :: int where "default_chars_per_token = 4"

definition sentence_end_rx :: rx where
  "sentence_end_rx = RSeq (RChar (\<lambda>c. c \<in> set ''.!?'')) (RChar is_space)"

definition pad6 :: "int \<Rightarrow> string" where
  \<comment> \<open>\<open>{position:06d}\<close>, for a position that is not negative\<close>
  "pad6 i = replicate (6 - length (int_str i)) (CHR ''0'') @ int_str i"

definition stable_id :: "(string \<Rightarrow> string) \<Rightarrow> int \<Rightarrow> string \<Rightarrow> string" where
  "stable_id sha1 position t = pad6 position @ ''_'' @ take 10 (sha1 t)"

definition walk_to_sentence_end :: "string \<Rightarrow> int \<Rightarrow> int \<Rightarrow> int" where
  "walk_to_sentence_end t end_pos slack =
     (let lo = max (end_pos - slack) 0;
          window = py_slice lo end_pos t;
          matches = find_iter sentence_end_rx window
      in if matches = [] then end_pos else lo + int (length window - length (rp_rest (last matches))))"

section \<open>The chunker\<close>

type_synonym tokenizer = "string \<Rightarrow> (int \<times> int) list option"

record chunker =
  ch_tokens_per_chunk :: int
  ch_token_overlap :: int
  ch_tokenizer :: "tokenizer option"
  ch_chars_per_token :: int
  ch_respect_sentences :: bool
  ch_sentence_slack :: int

definition chunker_new :: "int \<Rightarrow> int option \<Rightarrow> tokenizer option \<Rightarrow> int \<Rightarrow> bool \<Rightarrow> int option \<Rightarrow> exc + chunker" where
  "chunker_new tokens_per_chunk token_overlap tokenizer chars_per_token respect_sentences sentence_slack =
     (if tokens_per_chunk < 1 then Inl ValueError
      else let overlap = (case token_overlap of Some k \<Rightarrow> k | None \<Rightarrow> max (tokens_per_chunk div 10) 1)
           in if tokens_per_chunk \<le> overlap then Inl ValueError
              else Inr \<lparr>ch_tokens_per_chunk = tokens_per_chunk, ch_token_overlap = overlap, ch_tokenizer = tokenizer,
                     ch_chars_per_token = chars_per_token, ch_respect_sentences = respect_sentences,
                     ch_sentence_slack = (case sentence_slack of Some k \<Rightarrow> k
                       | None \<Rightarrow> max (tokens_per_chunk * chars_per_token div 20) 32)\<rparr>)"

text \<open>
  The loop of both modes: a window from \<open>start\<close> to the end found for it, until one reaches
  the end of the input; the next starts \<open>overlap\<close> before, and at least one further.
\<close>

function cut_windows :: "(int \<Rightarrow> int) \<Rightarrow> int \<Rightarrow> int \<Rightarrow> int \<Rightarrow> (int \<times> int) list" where
  "cut_windows end_of overlap n start =
     (if n \<le> start then []
      else if end_of start = n then [(start, end_of start)]
      else (start, end_of start) # cut_windows end_of overlap n (max (end_of start - overlap) (start + 1)))"
  by pat_completeness auto
termination
  by (relation "measure (\<lambda>(e, ov, n, start). nat (n - start))") auto

declare cut_windows.simps [simp del]

definition proxy_end :: "chunker \<Rightarrow> string \<Rightarrow> int \<Rightarrow> int" where
  "proxy_end ch t start =
     (let n = int (length t);
          end_pos = min (start + ch_tokens_per_chunk ch * ch_chars_per_token ch) n
      in if ch_respect_sentences ch \<and> end_pos < n then walk_to_sentence_end t end_pos (ch_sentence_slack ch) else end_pos)"

definition proxy_chunk :: "(string \<Rightarrow> string) \<Rightarrow> chunker \<Rightarrow> string \<Rightarrow> int \<Rightarrow> int \<times> int \<Rightarrow> rag_chunk" where
  "proxy_chunk sha1 ch t position w =
     (case w of (start, end_pos) \<Rightarrow>
        let piece = py_slice start end_pos t
        in \<lparr>rc_id = stable_id sha1 position piece, rc_text = piece, rc_start_offset = start, rc_end_offset = end_pos,
            rc_token_count = max (int (length piece) div ch_chars_per_token ch) 1\<rparr>)"

definition chunk_char_proxy :: "(string \<Rightarrow> string) \<Rightarrow> chunker \<Rightarrow> string \<Rightarrow> int \<Rightarrow> exc + rag_chunk list" where
  \<comment> \<open>a text that is not empty; the token count divides by \<open>chars_per_token\<close>\<close>
  "chunk_char_proxy sha1 ch t base_position =
     (if ch_chars_per_token ch = 0 then Inl ZeroDivisionError
      else let ws = cut_windows (proxy_end ch t) (ch_token_overlap ch * ch_chars_per_token ch) (int (length t)) 0
           in Inr (map (\<lambda>(i, w). proxy_chunk sha1 ch t (base_position + int i) w) (enumerate 0 ws)))"

definition token_chunk :: "(string \<Rightarrow> string) \<Rightarrow> (int \<times> int) list \<Rightarrow> string \<Rightarrow> int \<Rightarrow> int \<times> int \<Rightarrow> rag_chunk" where
  "token_chunk sha1 offsets t position w =
     (case w of (start_tok, end_tok) \<Rightarrow>
        let char_start = fst (offsets ! nat start_tok);
            char_end = snd (offsets ! nat (end_tok - 1));
            piece = py_slice char_start char_end t
        in \<lparr>rc_id = stable_id sha1 position piece, rc_text = piece, rc_start_offset = char_start, rc_end_offset = char_end,
            rc_token_count = end_tok - start_tok\<rparr>)"

definition chunk_with_tokenizer :: "(string \<Rightarrow> string) \<Rightarrow> chunker \<Rightarrow> tokenizer \<Rightarrow> string \<Rightarrow> int \<Rightarrow> exc + rag_chunk list" where
  "chunk_with_tokenizer sha1 ch tok t base_position =
     (case tok t of
        None \<Rightarrow> chunk_char_proxy sha1 ch t base_position
      | Some offsets \<Rightarrow>
          let n_tok = int (length offsets);
              ws = cut_windows (\<lambda>start. min (start + ch_tokens_per_chunk ch) n_tok) (ch_token_overlap ch) n_tok 0
          in Inr (map (\<lambda>(i, w). token_chunk sha1 offsets t (base_position + int i) w) (enumerate 0 ws)))"

definition rag_chunk_text :: "(string \<Rightarrow> string) \<Rightarrow> chunker \<Rightarrow> string \<Rightarrow> int \<Rightarrow> exc + rag_chunk list" where
  \<comment> \<open>\<open>Chunker.chunk\<close>\<close>
  "rag_chunk_text sha1 ch t base_position =
     (if t = [] then Inr []
      else case ch_tokenizer ch of
        Some tok \<Rightarrow> chunk_with_tokenizer sha1 ch tok t base_position
      | None \<Rightarrow> chunk_char_proxy sha1 ch t base_position)"

fun chunk_more :: "(string \<Rightarrow> string) \<Rightarrow> chunker \<Rightarrow> string list \<Rightarrow> rag_chunk list \<Rightarrow> exc + rag_chunk list" where
  "chunk_more sha1 ch [] out = Inr out"
| "chunk_more sha1 ch (t # ts) out =
     (case rag_chunk_text sha1 ch t (int (length out)) of
        Inl x \<Rightarrow> Inl x | Inr cs \<Rightarrow> chunk_more sha1 ch ts (out @ cs))"

definition chunk_many :: "(string \<Rightarrow> string) \<Rightarrow> chunker \<Rightarrow> string list \<Rightarrow> exc + rag_chunk list" where
  "chunk_many sha1 ch texts = chunk_more sha1 ch texts []"

record chunker_stats =
  cs_n_chunks :: nat
  cs_total_chars :: nat
  cs_total_tokens_est :: int
  cs_avg_chunk_tokens :: real

definition chunker_stats_of :: "rag_chunk list \<Rightarrow> chunker_stats" where
  "chunker_stats_of cs =
     \<lparr>cs_n_chunks = length cs, cs_total_chars = sum_list (map (\<lambda>c. length (rc_text c)) cs),
      cs_total_tokens_est = sum_list (map rc_token_count cs),
      cs_avg_chunk_tokens = (if cs = [] then 0 else real_of_int (sum_list (map rc_token_count cs)) / real (length cs))\<rparr>"

section \<open>Nothing is lost\<close>

text \<open>The text put together again: each chunk adds what lies past the chunks before it.\<close>

fun stitch :: "int \<Rightarrow> rag_chunk list \<Rightarrow> string" where
  "stitch pos [] = []"
| "stitch pos (c # cs) = drop (nat (pos - rc_start_offset c)) (rc_text c) @ stitch (max pos (rc_end_offset c)) cs"

definition ends_ok :: "(int \<Rightarrow> int) \<Rightarrow> int \<Rightarrow> bool" where
  "ends_ok end_of n \<longleftrightarrow> (\<forall>s. 0 \<le> s \<longrightarrow> s < n \<longrightarrow> s < end_of s \<and> end_of s \<le> n)"

lemma cut_windows_within:
  "ends_ok e n \<Longrightarrow> 0 \<le> start \<Longrightarrow> (s, t) \<in> set (cut_windows e ov n start) \<Longrightarrow> 0 \<le> s \<and> s < n \<and> t = e s"
proof (induction e ov n start rule: cut_windows.induct)
  case (1 e ov n start)
  show ?case
  proof (cases "n \<le> start \<or> e start = n \<or> (s, t) = (start, e start)")
    case True
    then show ?thesis using 1(3,4) by (subst (asm) cut_windows.simps) (auto split: if_splits)
  next
    case False
    then have "(s, t) \<in> set (cut_windows e ov n (max (e start - ov) (start + 1)))"
      using 1(4) by (subst (asm) cut_windows.simps) auto
    then show ?thesis using 1(1) False 1(2,3) by auto
  qed
qed

lemma stitch_windows:
  assumes "ends_ok e (int (length t))" "0 \<le> ov" "0 \<le> start" "start \<le> pos" "pos \<le> int (length t)"
    "\<And>p w. rc_text (mk p w) = py_slice (fst w) (snd w) t \<and> rc_start_offset (mk p w) = fst w \<and> rc_end_offset (mk p w) = snd w"
  shows "stitch pos (map (\<lambda>(i, w). mk i w) (enumerate k (cut_windows e ov (int (length t)) start))) = drop (nat pos) t"
  using assms(1-5)
proof (induction e ov "int (length t)" start arbitrary: pos k rule: cut_windows.induct)
  case (1 e ov start)
  let ?n = "int (length t)"
  show ?case
  proof (cases "?n \<le> start")
    case True
    then show ?thesis using 1(5,6) by (subst cut_windows.simps) simp
  next
    case False
    let ?e = "e start"
    have e: "start < ?e" "?e \<le> ?n" using 1(2) [unfolded ends_ok_def, rule_format, of start] 1(4) False by simp_all
    have "drop (nat (pos - start)) (py_slice start ?e t) = take (nat ?e - nat pos) (drop (nat pos) t)"
      using e 1(4,5) by (simp add: py_slice_in drop_take nat_diff_distrib)
    then have head: "drop (nat (pos - rc_start_offset (mk p (start, ?e)))) (rc_text (mk p (start, ?e)))
        = take (nat ?e - nat pos) (drop (nat pos) t)" for p
      by (simp add: assms(6))
    show ?thesis
    proof (cases "?e = ?n")
      case True
      then have "cut_windows e ov ?n start = [(start, ?e)]" using False by (subst cut_windows.simps) simp
      then show ?thesis using head True by simp
    next
      case e_less: False
      let ?s = "max (?e - ov) (start + 1)"
      have cut: "cut_windows e ov ?n start = (start, ?e) # cut_windows e ov ?n ?s"
        using False e_less by (subst cut_windows.simps) simp
      have ih: "stitch (max pos ?e) (map (\<lambda>(i, w). mk i w) (enumerate (Suc k) (cut_windows e ov ?n ?s))) = drop (nat (max pos ?e)) t"
        using 1(2-6) e by (intro 1(1) [OF False e_less]) auto
      have "take (nat ?e - nat pos) (drop (nat pos) t) @ drop (nat (max pos ?e)) t = drop (nat pos) t"
      proof (cases "?e \<le> pos")
        case False
        then have "nat (max pos ?e) = (nat ?e - nat pos) + nat pos" using 1(4,5) by simp
        then show ?thesis by (metis append_take_drop_id drop_drop)
      qed simp
      then show ?thesis using head ih by (simp add: cut assms(6))
    qed
  qed
qed

section \<open>Identity\<close>

lemma pad6_inj: "0 \<le> i \<Longrightarrow> 0 \<le> j \<Longrightarrow> pad6 i = pad6 j \<Longrightarrow> i = j"
proof -
  assume a: "0 \<le> i" "0 \<le> j" "pad6 i = pad6 j"
  have "foldl (\<lambda>n c. 10 * n + digit_val c) 0 (replicate k (CHR ''0'')) = 0" for k
    by (induction k) (simp_all add: digit_val_def cp_def)
  then have "str_nat (replicate k (CHR ''0'') @ s) = str_nat s" for k s
    by (simp add: str_nat_def)
  then have "str_nat (pad6 k) = nat k" if "0 \<le> k" for k using that by (simp add: pad6_def int_str_def)
  then show ?thesis using a by (metis int_nat_eq)
qed

lemma pad6_digits: "0 \<le> i \<Longrightarrow> c \<in> set (pad6 i) \<Longrightarrow> is_digit c"
  by (auto simp: pad6_def int_str_def is_digit_def cp_def dest: nat_str_digits)

lemma stable_id_inj: "0 \<le> i \<Longrightarrow> 0 \<le> j \<Longrightarrow> stable_id sha1 i s = stable_id sha1 j t \<Longrightarrow> i = j"
proof -
  assume a: "0 \<le> i" "0 \<le> j" "stable_id sha1 i s = stable_id sha1 j t"
  have d: "takeWhile is_digit (pad6 k @ ''_'' @ r) = pad6 k" if "0 \<le> k" for k r
    using pad6_digits [OF that] by (simp add: takeWhile_append2) (simp add: is_digit_def cp_def)
  have "pad6 i = pad6 j" using a d unfolding stable_id_def by metis
  then show ?thesis using pad6_inj a by blast
qed

definition positioned :: "(string \<Rightarrow> string) \<Rightarrow> int \<Rightarrow> rag_chunk list \<Rightarrow> bool" where
  "positioned sha1 k cs \<longleftrightarrow> (\<forall>i < length cs. \<exists>x. rc_id (cs ! i) = stable_id sha1 (k + int i) x)"

lemma positioned_enumerate:
  "(\<And>i w. \<exists>x. rc_id (mk i w) = stable_id sha1 (k + int i) x) \<Longrightarrow> positioned sha1 k (map (\<lambda>(i, w). mk i w) (enumerate 0 ws))"
  by (simp add: positioned_def nth_enumerate_eq)

lemma rag_chunk_text_positioned:
  assumes "rag_chunk_text sha1 ch t k = Inr cs"
  shows "positioned sha1 k cs"
proof -
  have proxy: "positioned sha1 k cs" if "chunk_char_proxy sha1 ch t k = Inr cs" for cs
  proof -
    have "positioned sha1 k (map (\<lambda>(i, w). proxy_chunk sha1 ch t (k + int i) w) (enumerate 0 ws))" for ws
      by (rule positioned_enumerate) (auto simp: proxy_chunk_def Let_def split: prod.split)
    then show ?thesis using that by (auto simp: chunk_char_proxy_def Let_def split: if_splits)
  qed
  have "positioned sha1 k (map (\<lambda>(i, w). token_chunk sha1 offs t (k + int i) w) (enumerate 0 ws))" for offs ws
    by (rule positioned_enumerate) (auto simp: token_chunk_def Let_def split: prod.split)
  then show ?thesis using assms proxy
    by (auto simp: rag_chunk_text_def chunk_with_tokenizer_def Let_def positioned_def split: if_splits option.splits)
qed

lemma chunk_more_positioned:
  "positioned sha1 0 out \<Longrightarrow> chunk_more sha1 ch ts out = Inr cs \<Longrightarrow> positioned sha1 0 cs"
proof (induction sha1 ch ts out rule: chunk_more.induct)
  case (2 sha1 ch t ts out)
  obtain new where n: "rag_chunk_text sha1 ch t (int (length out)) = Inr new" "chunk_more sha1 ch ts (out @ new) = Inr cs"
    using 2(3) by (auto split: sum.splits)
  have "positioned sha1 0 (out @ new)" unfolding positioned_def
  proof (intro allI impI)
    fix i
    assume i: "i < length (out @ new)"
    show "\<exists>x. rc_id ((out @ new) ! i) = stable_id sha1 (0 + int i) x"
      using 2(2) rag_chunk_text_positioned [OF n(1)] i unfolding positioned_def
      by (cases "i < length out") (auto simp: nth_append dest!: spec [of _ "i - length out"])
  qed
  then show ?case using 2(1) [OF n(1)] n(2) by blast
qed simp

text \<open>
  Chunk ids are unique. The chunks of any list of documents, in either mode, have pairwise
  distinct ids, whatever the hash of their texts: the position alone tells them apart. The coarse
  filter keys its scores by this id.
\<close>

lemma chunk_ids_distinct:
  "case chunk_many sha1 ch texts of Inl x \<Rightarrow> True | Inr cs \<Rightarrow> distinct (map rc_id cs)"
proof (cases "chunk_many sha1 ch texts")
  case (Inr cs)
  then have pos: "positioned sha1 0 cs"
    using chunk_more_positioned [of sha1 "[]" ch texts cs] by (simp add: chunk_many_def positioned_def)
  have "distinct (map rc_id cs)"
  proof (rule distinct_conv_nth [THEN iffD2], intro allI impI)
    fix i j
    assume ij: "i < length (map rc_id cs)" "j < length (map rc_id cs)" "i \<noteq> j"
    then obtain x y where "rc_id (cs ! i) = stable_id sha1 (int i) x" "rc_id (cs ! j) = stable_id sha1 (int j) y"
      using pos unfolding positioned_def by fastforce
    then show "map rc_id cs ! i \<noteq> map rc_id cs ! j"
      using ij stable_id_inj [of "int i" "int j" sha1 x y] by auto
  qed
  then show ?thesis by (simp add: Inr)
qed simp

section \<open>The chunks of a text\<close>

definition chunker_ok :: "chunker \<Rightarrow> bool" where
  \<comment> \<open>the search for a sentence end stays inside the window\<close>
  "chunker_ok ch \<longleftrightarrow> 1 \<le> ch_chars_per_token ch \<and> 0 \<le> ch_token_overlap ch \<and> 1 \<le> ch_tokens_per_chunk ch
     \<and> ch_sentence_slack ch < ch_tokens_per_chunk ch * ch_chars_per_token ch"

lemma walk_within: "0 \<le> e \<Longrightarrow> max (e - slack) 0 \<le> e \<Longrightarrow> e \<le> int (length t) \<Longrightarrow>
   max (e - slack) 0 \<le> walk_to_sentence_end t e slack \<and> walk_to_sentence_end t e slack \<le> e"
proof -
  assume a: "0 \<le> e" "max (e - slack) 0 \<le> e" "e \<le> int (length t)"
  have "length (py_slice (max (e - slack) 0) e t) = nat (e - max (e - slack) 0)"
    using a by (intro length_py_slice) auto
  then show ?thesis using a by (auto simp: walk_to_sentence_end_def Let_def)
qed

lemma walk_idle: "slack < 0 \<Longrightarrow> 0 \<le> e \<Longrightarrow> e \<le> int (length t) \<Longrightarrow> walk_to_sentence_end t e slack = e"
proof -
  assume a: "slack < 0" "0 \<le> e" "e \<le> int (length t)"
  then have "nat e \<le> nat (e - slack)" by simp
  then have "py_slice (max (e - slack) 0) e t = []" using a by (simp add: py_slice_def slice_bound_def)
  then show ?thesis by (simp add: walk_to_sentence_end_def Let_def) (code_simp)
qed

lemma proxy_end_within:
  assumes "chunker_ok ch" "0 \<le> start" "start < int (length t)"
  shows "start < proxy_end ch t start \<and> proxy_end ch t start \<le> int (length t)
    \<and> proxy_end ch t start \<le> start + ch_tokens_per_chunk ch * ch_chars_per_token ch"
proof -
  let ?size = "ch_tokens_per_chunk ch * ch_chars_per_token ch" and ?slack = "ch_sentence_slack ch"
  define e where "e = min (start + ?size) (int (length t))"
  have size: "1 \<le> ?size" using assms(1) mult_mono [of 1 "ch_tokens_per_chunk ch" 1 "ch_chars_per_token ch"]
    by (simp add: chunker_ok_def)
  then have e: "start < e" "e \<le> int (length t)" "e \<le> start + ?size" using assms(3) by (auto simp: e_def)
  have "start < walk_to_sentence_end t e ?slack \<and> walk_to_sentence_end t e ?slack \<le> e" if "e < int (length t)"
  proof (cases "?slack < 0")
    case True
    then show ?thesis using walk_idle [OF True, of e t] assms(2) e by simp
  next
    case False
    have "start < max (e - ?slack) 0" using that assms(1) by (auto simp: e_def chunker_ok_def)
    then show ?thesis using walk_within [of e ?slack t] False e assms(2) by linarith
  qed
  then show ?thesis using e by (auto simp: proxy_end_def Let_def simp flip: e_def)
qed

text \<open>
  C21: the chunker keeps the text. With positive sizes, an overlap that is not negative and a slack
  below the chunk size, the chunks of a text in character mode, taken in order and freed of their
  overlaps, are the text itself; each is the piece its offsets name, is not empty, and stays within
  the chunk size in characters and in tokens.
\<close>

theorem chunker_keeps_text:
  assumes "chunker_ok ch" "ch_tokenizer ch = None"
  shows "\<exists>cs. rag_chunk_text sha1 ch t base = Inr cs \<and> stitch 0 cs = t
    \<and> (\<forall>c \<in> set cs. rc_text c = py_slice (rc_start_offset c) (rc_end_offset c) t \<and> rc_text c \<noteq> []
        \<and> int (length (rc_text c)) \<le> ch_tokens_per_chunk ch * ch_chars_per_token ch
        \<and> rc_token_count c \<le> ch_tokens_per_chunk ch)"
proof (cases "t = []")
  case False
  let ?n = "int (length t)" and ?ov = "ch_token_overlap ch * ch_chars_per_token ch"
  define mk where "mk = (\<lambda>i w. proxy_chunk sha1 ch t (base + int i) w)"
  define ws where "ws = cut_windows (proxy_end ch t) ?ov ?n 0"
  have ok: "1 \<le> ch_chars_per_token ch" "0 \<le> ch_token_overlap ch" "1 \<le> ch_tokens_per_chunk ch"
    using assms(1) by (simp_all add: chunker_ok_def)
  have ends: "ends_ok (proxy_end ch t) ?n" using proxy_end_within [OF assms(1)] by (simp add: ends_ok_def)
  have mk: "rc_text (mk p w) = py_slice (fst w) (snd w) t \<and> rc_start_offset (mk p w) = fst w \<and> rc_end_offset (mk p w) = snd w" for p w
    by (simp add: mk_def proxy_chunk_def Let_def split: prod.split)
  have run: "rag_chunk_text sha1 ch t base = Inr (map (\<lambda>(i, w). mk i w) (enumerate 0 ws))"
    using False assms(2) ok(1) by (simp add: rag_chunk_text_def chunk_char_proxy_def ws_def mk_def Let_def)
  have stitched: "stitch 0 (map (\<lambda>(i, w). mk i w) (enumerate 0 ws)) = t"
    unfolding ws_def using stitch_windows [OF ends _ order_refl order_refl _ mk, of ?ov] ok by simp
  have each: "rc_text c = py_slice (rc_start_offset c) (rc_end_offset c) t \<and> rc_text c \<noteq> []
      \<and> int (length (rc_text c)) \<le> ch_tokens_per_chunk ch * ch_chars_per_token ch \<and> rc_token_count c \<le> ch_tokens_per_chunk ch"
    if mem: "c \<in> set (map (\<lambda>(i, w). mk i w) (enumerate 0 ws))" for c
  proof -
    obtain i where i: "i < length ws" "c = mk i (ws ! i)"
      using mem [unfolded in_set_conv_nth] by (auto simp: nth_enumerate_eq)
    obtain s e where se: "ws ! i = (s, e)" by fastforce
    then have c: "c = mk i (s, e)" "(s, e) \<in> set ws" using i nth_mem [OF i(1)] by simp_all
    have w: "0 \<le> s" "s < ?n" "e = proxy_end ch t s"
      using cut_windows_within [OF ends order_refl, of s e ?ov] c(2) by (simp_all add: ws_def)
    have len: "int (length (rc_text c)) = e - s" "s < e" "e - s \<le> ch_tokens_per_chunk ch * ch_chars_per_token ch"
      using proxy_end_within [OF assms(1) w(1,2)] w mk [of i "(s, e)"] c(1) by (simp_all add: length_py_slice)
    have "(e - s) div ch_chars_per_token ch \<le> ch_tokens_per_chunk ch"
      using zdiv_mono1 [OF len(3), of "ch_chars_per_token ch"] ok(1) by simp
    then have "rc_token_count c \<le> ch_tokens_per_chunk ch"
      using ok(3) len(1) c(1) mk [of i "(s, e)"] by (simp add: mk_def proxy_chunk_def Let_def)
    then show ?thesis using len mk [of i "(s, e)"] c(1) by auto
  qed
  show ?thesis using run stitched each by blast
qed (simp add: rag_chunk_text_def)

definition demo_chunker :: chunker where
  "demo_chunker = \<lparr>ch_tokens_per_chunk = 3, ch_token_overlap = 1, ch_tokenizer = None, ch_chars_per_token = 4,
     ch_respect_sentences = True, ch_sentence_slack = 6\<rparr>"

theorem chunker_keeps_text_witness:
  "\<exists>cs. rag_chunk_text (\<lambda>s. ''0123456789'') demo_chunker ''Alpha beta. Gamma delta epsilon.'' 0 = Inr cs
     \<and> stitch 0 cs = ''Alpha beta. Gamma delta epsilon.''"
  using chunker_keeps_text [of demo_chunker] by (fastforce simp: chunker_ok_def demo_chunker_def)

text \<open>
  The condition on the slack is needed, and the constructor does not check it. Its default is at
  least 32 characters, so with chunks of fewer than eight tokens the search runs back behind the
  start of the window, the chunk comes out empty, and text between two sentences is lost.
\<close>

lemma small_chunks_lose_text:
  "(case chunker_new 2 None None default_chars_per_token True None of
      Inl x \<Rightarrow> False
    | Inr ch \<Rightarrow> (case rag_chunk_text (\<lambda>s. []) ch ''a. bbbbccccdddd'' 0 of
        Inl x \<Rightarrow> False
      | Inr cs \<Rightarrow> (4, 3, []) \<in> set (map (\<lambda>c. (rc_start_offset c, rc_end_offset c, rc_text c)) cs)
          \<and> stitch 0 cs = ''a. ccccdddd''))"
  by code_simp

end
