(* ===== verification/Rag_Coarse.thy ===== *)
theory Rag_Coarse
  imports LC_Rank Rag_Chunker
begin

text \<open>
  The embedding cache and the coarse filter of the library (\<open>longctx/rag/embed_cache.py\<close>,
  \<open>longctx/rag/coarse_filter.py\<close>): chunks ranked by BM25 and by cosine for each query, the ranks
  fused by reciprocal rank. Outside the repository are the encoder, SHA-256, BM25Okapi, numpy's
  index sort and whether a file can be read or written. \<open>BM25Okapi(corpus)\<close> divides by zero for a
  corpus without a word, so whether it returns is a parameter.
\<close>

section \<open>The embedding cache\<close>

record embed_cache =
  ch_dir :: "string option"                    \<comment> \<open>None: disabled\<close>
  ch_files :: "(string, vec) dict"             \<comment> \<open>the readable files, by path\<close>

record cache_env =
  ce_encode :: "string list \<Rightarrow> vec list"
  ce_sha256 :: "string \<Rightarrow> string"
  ce_writable :: "string \<Rightarrow> bool"

definition safe_dir_name :: "string \<Rightarrow> string" where
  "safe_dir_name s = map (\<lambda>c. if c = CHR ''/'' \<or> c = CHR '':'' then CHR ''_'' else c) s"

definition default_cache_dir :: "(string \<Rightarrow> string option) \<Rightarrow> string \<Rightarrow> string" where
  \<comment> \<open>an empty variable counts as unset\<close>
  "default_cache_dir env home =
     (case env ''LONGCTX_CACHE_DIR'' of
        Some (c # s) \<Rightarrow> c # s
      | _ \<Rightarrow> (case env ''XDG_CACHE_HOME'' of Some (c # s) \<Rightarrow> c # s | _ \<Rightarrow> home @ ''/.cache'') @ ''/longctx'')"

definition embed_cache_new :: "(string \<Rightarrow> string option) \<Rightarrow> string \<Rightarrow> (string \<Rightarrow> bool) \<Rightarrow> (string, vec) dict \<Rightarrow> string option \<Rightarrow> string \<Rightarrow> embed_cache" where
  \<comment> \<open>a directory that cannot be made disables the cache\<close>
  "embed_cache_new env home can_make files cache_dir embedder_name =
     (case cache_dir of
        None \<Rightarrow> \<lparr>ch_dir = None, ch_files = files\<rparr>
      | Some d \<Rightarrow>
          let d = (if d = ''default'' then default_cache_dir env home else d) @ ''/'' @ safe_dir_name embedder_name
          in \<lparr>ch_dir = (if can_make d then Some d else None), ch_files = files\<rparr>)"

definition cache_path_for :: "cache_env \<Rightarrow> string \<Rightarrow> string \<Rightarrow> string" where
  "cache_path_for en d t = (let h = ce_sha256 en t in d @ ''/'' @ take 2 h @ ''/'' @ h @ ''.npy'')"

definition cache_get :: "cache_env \<Rightarrow> string \<Rightarrow> embed_cache \<Rightarrow> vec option" where
  "cache_get en t ca = (case ch_dir ca of None \<Rightarrow> None | Some d \<Rightarrow> dict_get (ch_files ca) (cache_path_for en d t))"

definition cache_set :: "cache_env \<Rightarrow> string \<Rightarrow> vec \<Rightarrow> embed_cache \<Rightarrow> embed_cache" where
  \<comment> \<open>a failing write is passed over\<close>
  "cache_set en t v ca =
     (case ch_dir ca of
        None \<Rightarrow> ca
      | Some d \<Rightarrow> if ce_writable en (cache_path_for en d t)
                  then ca\<lparr>ch_files := dict_set (cache_path_for en d t) v (ch_files ca)\<rparr> else ca)"

fun fill_misses :: "vec option list \<Rightarrow> vec list \<Rightarrow> vec list" where
  \<comment> \<open>\<open>out[idx] = new_embs[j]\<close> over the misses in order\<close>
  "fill_misses [] new = []"
| "fill_misses (Some v # out) new = v # fill_misses out new"
| "fill_misses (None # out) [] = [] # fill_misses out []"
| "fill_misses (None # out) (v # new) = v # fill_misses out new"

definition encode_with_cache :: "cache_env \<Rightarrow> string list \<Rightarrow> embed_cache \<Rightarrow> (exc + vec list) \<times> embed_cache" where
  \<comment> \<open>stacking no rows raises\<close>
  "encode_with_cache en texts ca =
     (if ch_dir ca = None then (Inr (ce_encode en texts), ca)
      else
        let out = map (\<lambda>t. cache_get en t ca) texts;
            misses = filter (\<lambda>t. cache_get en t ca = None) texts;
            new_embs = (if misses = [] then [] else ce_encode en misses);
            ca = fold (\<lambda>(t, v). cache_set en t v) (zip misses new_embs) ca
        in (if texts = [] then Inl ValueError else Inr (fill_misses out new_embs), ca))"

section \<open>The coarse filter\<close>

record coarse_env =
  co_cache :: cache_env
  co_bm25_builds :: "string list list \<Rightarrow> bool"     \<comment> \<open>\<open>BM25Okapi(corpus)\<close> returns; else it divides by zero\<close>
  co_bm25_scores :: "string list list \<Rightarrow> string list \<Rightarrow> real list"
  co_argsort :: "real list \<Rightarrow> nat list"
  co_rrf_k :: int

definition word_tokenize :: "string \<Rightarrow> string list" where
  "word_tokenize t = runs_of is_word (py_lower t)"

definition rag_rrf_score :: "int \<Rightarrow> int \<Rightarrow> exc + real" where
  "rag_rrf_score rank k = (if k + rank = 0 then Inl ZeroDivisionError else Inr (1 / real_of_int (k + rank)))"

fun add_ranks :: "coarse_env \<Rightarrow> rag_chunk list \<Rightarrow> real \<Rightarrow> (nat \<times> nat) list \<Rightarrow> (string, real) dict \<Rightarrow> exc + (string, real) dict" where
  "add_ranks en chunks weight [] fused = Inr fused"
| "add_ranks en chunks weight ((rank, idx) # ranks) fused =
     (let cid = rc_id (chunks ! idx) in
      case rag_rrf_score (int rank) (co_rrf_k en) of
        Inl x \<Rightarrow> Inl x
      | Inr s \<Rightarrow> add_ranks en chunks weight ranks
                  (dict_set cid ((case dict_get fused cid of None \<Rightarrow> 0 | Some v \<Rightarrow> v) + weight * s) fused))"

definition add_ranking :: "coarse_env \<Rightarrow> rag_chunk list \<Rightarrow> real \<Rightarrow> real list \<Rightarrow> (string, real) dict \<Rightarrow> exc + (string, real) dict" where
  \<comment> \<open>one ranking: \<open>for rank, idx in enumerate(argsort(-scores), start=1)\<close>\<close>
  "add_ranking en chunks weight scores fused =
     add_ranks en chunks weight (enumerate 1 (co_argsort en (map uminus scores))) fused"

fun add_rankings :: "coarse_env \<Rightarrow> rag_chunk list \<Rightarrow> real \<Rightarrow> real list list \<Rightarrow> (string, real) dict \<Rightarrow> exc + (string, real) dict" where
  "add_rankings en chunks weight [] fused = Inr fused"
| "add_rankings en chunks weight (scores # rest) fused =
     (case add_ranking en chunks weight scores fused of
        Inl x \<Rightarrow> Inl x
      | Inr fused \<Rightarrow> add_rankings en chunks weight rest fused)"

definition corpus_tokens :: "rag_chunk list \<Rightarrow> string list list" where
  "corpus_tokens chunks = map (\<lambda>c. word_tokenize (rc_text c)) chunks"

definition bm25_rows :: "coarse_env \<Rightarrow> rag_chunk list \<Rightarrow> string list \<Rightarrow> real list list" where
  "bm25_rows en chunks queries = map (\<lambda>q. co_bm25_scores en (corpus_tokens chunks) (word_tokenize q)) queries"

definition bm25_rankings :: "coarse_env \<Rightarrow> rag_chunk list \<Rightarrow> string list \<Rightarrow> exc + real list list" where
  \<comment> \<open>\<open>BM25Okapi(corpus_tokens)\<close>, unguarded, then the scores of every query\<close>
  "bm25_rankings en chunks queries =
     (if co_bm25_builds en (corpus_tokens chunks) then Inr (bm25_rows en chunks queries) else Inl ZeroDivisionError)"

definition dense_rankings :: "vec list \<Rightarrow> vec list \<Rightarrow> real list list" where
  \<comment> \<open>the columns of \<open>chunk_embs @ query_embs.T\<close>\<close>
  "dense_rankings chunk_embs query_embs = map (\<lambda>q. map (\<lambda>c. dot c q) chunk_embs) query_embs"

definition filter_multi_query ::
  "coarse_env \<Rightarrow> rag_chunk list \<Rightarrow> string list \<Rightarrow> int \<Rightarrow> real \<Rightarrow> real \<Rightarrow> embed_cache \<Rightarrow> (exc + (rag_chunk \<times> real) list) \<times> embed_cache" where
  "filter_multi_query en chunks queries top_k bm25_weight dense_weight ca =
     (if chunks = [] then (Inr [], ca)
      else if queries = [] then (Inl ValueError, ca)
      else if bm25_weight \<le> 0 \<and> dense_weight \<le> 0 then (Inl ValueError, ca)
      else
        case (if 0 < bm25_weight
              then (case bm25_rankings en chunks queries of
                      Inl x \<Rightarrow> Inl x
                    | Inr rows \<Rightarrow> add_rankings en chunks bm25_weight rows [])
              else Inr []) of
          Inl x \<Rightarrow> (Inl x, ca)
        | Inr fused \<Rightarrow>
            (case (if 0 < dense_weight then encode_with_cache (co_cache en) (map rc_text chunks) ca else (Inr [], ca)) of
               (Inl x, ca) \<Rightarrow> (Inl x, ca)
             | (Inr chunk_embs, ca) \<Rightarrow>
                 (case (if 0 < dense_weight
                        then add_rankings en chunks dense_weight (dense_rankings chunk_embs (ce_encode (co_cache en) queries)) fused
                        else Inr fused) of
                    Inl x \<Rightarrow> (Inl x, ca)
                  | Inr fused \<Rightarrow>
                      let by_id = fold (\<lambda>c. dict_set (rc_id c) c) chunks [];
                          pairs = concat (map (\<lambda>(cid, s). case dict_get by_id cid of None \<Rightarrow> [] | Some c \<Rightarrow> [(c, s)]) fused);
                          sorted_pairs = sort_desc snd pairs
                      in (Inr (if top_k < int (length chunks) then py_take top_k sorted_pairs else sorted_pairs), ca))))"

definition coarse_filter ::
  "coarse_env \<Rightarrow> rag_chunk list \<Rightarrow> string \<Rightarrow> int \<Rightarrow> real \<Rightarrow> real \<Rightarrow> embed_cache \<Rightarrow> (exc + (rag_chunk \<times> real) list) \<times> embed_cache" where
  "coarse_filter en chunks query top_k bm25_weight dense_weight ca =
     filter_multi_query en chunks [query] top_k bm25_weight dense_weight ca"

section \<open>The cache is transparent\<close>

definition cache_env_ok :: "cache_env \<Rightarrow> bool" where
  \<comment> \<open>the encoder works text by text, SHA-256 has no collisions\<close>
  "cache_env_ok en \<longleftrightarrow> (\<exists>f. ce_encode en = map f) \<and> inj (ce_sha256 en)"

definition cache_sound :: "cache_env \<Rightarrow> embed_cache \<Rightarrow> bool" where
  \<comment> \<open>what the cache holds for a text is what the encoder gives\<close>
  "cache_sound en ca \<longleftrightarrow> (\<forall>t v. cache_get en t ca = Some v \<longrightarrow> ce_encode en [t] = [v])"

lemma cache_path_inj: "cache_env_ok en \<Longrightarrow> cache_path_for en d s = cache_path_for en d t \<Longrightarrow> s = t"
proof -
  assume a: "cache_env_ok en" "cache_path_for en d s = cache_path_for en d t"
  let ?x = "take 2 (ce_sha256 en s) @ ''/'' @ ce_sha256 en s" and ?y = "take 2 (ce_sha256 en t) @ ''/'' @ ce_sha256 en t"
  have eq: "?x = ?y" using a(2) by (simp add: cache_path_for_def Let_def)
  have "min 2 (length (ce_sha256 en s)) + length (ce_sha256 en s) = min 2 (length (ce_sha256 en t)) + length (ce_sha256 en t)"
    using arg_cong [OF eq, of length] by simp
  then have "length (ce_sha256 en s) = length (ce_sha256 en t)" by (simp add: min_def split: if_splits)
  then have "ce_sha256 en s = ce_sha256 en t" using eq by simp
  then show ?thesis using a(1) by (auto simp: cache_env_ok_def dest: injD)
qed

lemma cache_get_set:
  "cache_env_ok en \<Longrightarrow> cache_get en t (cache_set en s v ca) = cache_get en t ca \<or> t = s \<and> cache_get en t (cache_set en s v ca) = Some v"
  using cache_path_inj by (auto simp: cache_get_def cache_set_def dict_simps split: option.splits)

lemma cache_set_sound: "cache_env_ok en \<Longrightarrow> cache_sound en ca \<Longrightarrow> ce_encode en [t] = [v] \<Longrightarrow> cache_sound en (cache_set en t v ca)"
  using cache_get_set unfolding cache_sound_def by (metis option.inject)

lemma cache_sets_sound:
  "cache_env_ok en \<Longrightarrow> cache_sound en ca \<Longrightarrow> \<forall>(t, v) \<in> set tvs. ce_encode en [t] = [v] \<Longrightarrow>
   cache_sound en (fold (\<lambda>(t, v). cache_set en t v) tvs ca)"
  by (induction tvs arbitrary: ca) (auto simp: cache_set_sound)

lemma fill_misses_map:
  "(\<And>t v. t \<in> set ts \<Longrightarrow> g t = Some v \<Longrightarrow> v = f t) \<Longrightarrow>
   fill_misses (map g ts) (map f (filter (\<lambda>t. g t = None) ts)) = map f ts"
proof (induction ts)
  case (Cons t ts)
  then show ?case by (cases "g t") auto
qed simp

lemma encode_with_cache_ok:
  assumes "cache_env_ok en" "cache_sound en ca" "texts \<noteq> [] \<or> ch_dir ca = None"
  shows "case encode_with_cache en texts ca of (res, ca') \<Rightarrow> res = Inr (ce_encode en texts) \<and> cache_sound en ca'"
proof (cases "ch_dir ca = None")
  case False
  obtain f where f: "ce_encode en = map f" using assms(1) by (auto simp: cache_env_ok_def)
  let ?miss = "filter (\<lambda>t. cache_get en t ca = None) texts"
  have g: "v = f t" if "cache_get en t ca = Some v" for t v
    using assms(2) that by (auto simp: cache_sound_def f)
  have "fill_misses (map (\<lambda>t. cache_get en t ca) texts) (map f ?miss) = map f texts"
    by (rule fill_misses_map) (rule g)
  moreover have "cache_sound en (fold (\<lambda>(t, v). cache_set en t v) (zip ?miss (map f ?miss)) ca)"
    by (rule cache_sets_sound [OF assms(1,2)]) (auto simp: f zip_map2 set_zip)
  moreover have "(if ?miss = [] then [] else ce_encode en ?miss) = map f ?miss" by (simp add: f)
  ultimately show ?thesis using False assms(3) by (simp only: encode_with_cache_def Let_def f) simp
qed (use assms in \<open>simp add: encode_with_cache_def\<close>)

section \<open>Runs over one disk\<close>

text \<open>
  Programs come and go, each with its own cache object for its own embedder, over the same disk.
  A run makes the cache object and encodes texts with it; before it, files may have gone missing
  or stopped loading, and its directory or its files may not be writable.
\<close>

record cache_run =
  cr_embedder :: string
  cr_cache_dir :: "string option"
  cr_encode :: "string list \<Rightarrow> vec list"
  cr_texts :: "string list"
  cr_can_make :: "string \<Rightarrow> bool"
  cr_writable :: "string \<Rightarrow> bool"
  cr_loads :: "string \<Rightarrow> bool"

definition run_env :: "(string \<Rightarrow> string) \<Rightarrow> cache_run \<Rightarrow> cache_env" where
  "run_env sha r = \<lparr>ce_encode = cr_encode r, ce_sha256 = sha, ce_writable = cr_writable r\<rparr>"

definition run_cache :: "(string \<Rightarrow> string option) \<Rightarrow> string \<Rightarrow> cache_run \<Rightarrow> (string, vec) dict \<Rightarrow> embed_cache" where
  "run_cache env home r files =
     embed_cache_new env home (cr_can_make r) (filter (\<lambda>(p, v). cr_loads r p) files) (cr_cache_dir r) (cr_embedder r)"

fun cache_runs ::
  "(string \<Rightarrow> string option) \<Rightarrow> string \<Rightarrow> (string \<Rightarrow> string) \<Rightarrow> cache_run list \<Rightarrow> (string, vec) dict \<Rightarrow> (exc + vec list) list" where
  "cache_runs env home sha [] files = []"
| "cache_runs env home sha (r # rs) files =
     (case encode_with_cache (run_env sha r) (cr_texts r) (run_cache env home r files) of
        (res, ca) \<Rightarrow> res # cache_runs env home sha rs (ch_files ca))"

definition files_sound :: "(string \<Rightarrow> string) \<Rightarrow> (string \<Rightarrow> string \<Rightarrow> vec) \<Rightarrow> (string, vec) dict \<Rightarrow> bool" where
  \<comment> \<open>a vector file in the directory of an embedder holds the vector its model gives\<close>
  "files_sound sha model files \<longleftrightarrow>
     (\<forall>base name t v en. ce_sha256 en = sha \<longrightarrow> dict_get files (cache_path_for en (base @ ''/'' @ safe_dir_name name) t) = Some v
        \<longrightarrow> v = model (safe_dir_name name) t)"

definition run_of_model :: "(string \<Rightarrow> string \<Rightarrow> vec) \<Rightarrow> cache_run \<Rightarrow> bool" where
  \<comment> \<open>the encoder works text by text, and is the model that the directory name stands for\<close>
  "run_of_model model r \<longleftrightarrow> cr_encode r = map (model (safe_dir_name (cr_embedder r)))"

lemma last_segment_eq:
  assumes "a @ c # x = b @ c # y" "c \<notin> set x" "c \<notin> set y"
  shows "a = b \<and> x = y"
proof -
  have "rev x @ c # rev a = rev y @ c # rev b" using arg_cong [OF assms(1), of rev] by simp
  then have "takeWhile ((\<noteq>) c) (rev x @ c # rev a) = takeWhile ((\<noteq>) c) (rev y @ c # rev b)" by simp
  then have "rev x = rev y" using assms(2,3) by (subst (asm) (1 2) takeWhile_append2) auto
  then show ?thesis using assms(1) by simp
qed

lemma cache_path_parts:
  assumes "cache_path_for en (base @ ''/'' @ safe_dir_name n) s = cache_path_for en' (base' @ ''/'' @ safe_dir_name n') t"
    "ce_sha256 en' = ce_sha256 en" "inj (ce_sha256 en)" "\<And>u. CHR ''/'' \<notin> set (ce_sha256 en u)"
  shows "safe_dir_name n = safe_dir_name n' \<and> s = t"
proof -
  have slash: "CHR ''/'' \<notin> set (ce_sha256 en u @ ''.npy'')" "CHR ''/'' \<notin> set (take 2 (ce_sha256 en u))" "CHR ''/'' \<notin> set (safe_dir_name m)" for u m
    using assms(4) by (auto simp: safe_dir_name_def dest: in_set_takeD)
  have "((base @ ''/'' @ safe_dir_name n) @ ''/'' @ take 2 (ce_sha256 en s)) @ CHR ''/'' # (ce_sha256 en s @ ''.npy'')
      = ((base' @ ''/'' @ safe_dir_name n') @ ''/'' @ take 2 (ce_sha256 en t)) @ CHR ''/'' # (ce_sha256 en t @ ''.npy'')"
    using assms(1,2) by (simp add: cache_path_for_def Let_def)
  note parts = last_segment_eq [OF this slash(1) slash(1)]
  have hash: "ce_sha256 en s = ce_sha256 en t" using parts [THEN conjunct2] by simp
  have dirs: "(base @ ''/'' @ safe_dir_name n) @ CHR ''/'' # take 2 (ce_sha256 en s)
        = (base' @ ''/'' @ safe_dir_name n') @ CHR ''/'' # take 2 (ce_sha256 en t)" using parts [THEN conjunct1] by simp
  from last_segment_eq [OF dirs slash(2) slash(2)]
  have "base @ CHR ''/'' # safe_dir_name n = base' @ CHR ''/'' # safe_dir_name n'" by simp
  from last_segment_eq [OF this slash(3) slash(3)] show ?thesis using hash assms(3) by (auto dest: injD)
qed

lemma cache_sets_files:
  "ch_dir ca = Some d \<Longrightarrow> dict_get (ch_files (fold (\<lambda>(t, v). cache_set en t v) tvs ca)) p = Some v \<Longrightarrow>
   dict_get (ch_files ca) p = Some v \<or> (\<exists>t. (t, v) \<in> set tvs \<and> p = cache_path_for en d t)"
proof (induction tvs arbitrary: ca)
  case (Cons tv tvs)
  obtain t u where tv: "tv = (t, u)" by fastforce
  have "ch_dir (cache_set en t u ca) = Some d" using Cons.prems(1) by (simp add: cache_set_def)
  then have "dict_get (ch_files (cache_set en t u ca)) p = Some v \<or> (\<exists>t. (t, v) \<in> set tvs \<and> p = cache_path_for en d t)"
    using Cons.IH Cons.prems(2) tv by simp
  then show ?case using Cons.prems(1) tv by (auto simp: cache_set_def dict_simps split: if_splits)
qed simp

lemma encode_with_cache_files:
  assumes "ce_encode en = map f" "ch_dir ca = Some d"
    "dict_get (ch_files (snd (encode_with_cache en texts ca))) p = Some v"
  shows "dict_get (ch_files ca) p = Some v \<or> (\<exists>t. v = f t \<and> p = cache_path_for en d t)"
proof -
  let ?miss = "filter (\<lambda>t. cache_get en t ca = None) texts"
  have new: "(if ?miss = [] then [] else ce_encode en ?miss) = map f ?miss" by (simp add: assms(1))
  have "snd (encode_with_cache en texts ca) = fold (\<lambda>(t, v). cache_set en t v) (zip ?miss (map f ?miss)) ca"
    unfolding encode_with_cache_def Let_def new using assms(2) by simp
  then show ?thesis using cache_sets_files [OF assms(2)] assms(3) by (fastforce simp: zip_map2 set_zip)
qed

lemma run_cache_dir: "ch_dir (run_cache env home r files) = Some d \<Longrightarrow> \<exists>base. d = base @ ''/'' @ safe_dir_name (cr_embedder r)"
  by (auto simp: run_cache_def embed_cache_new_def Let_def split: option.splits if_splits)

lemma run_cache_file: "dict_get (ch_files (run_cache env home r files)) p = Some v \<Longrightarrow> dict_get files p = Some v"
proof -
  have "ch_files (run_cache env home r files) = filter (\<lambda>(p, v). cr_loads r p) files"
    by (simp add: run_cache_def embed_cache_new_def Let_def split: option.split)
  moreover have "dict_get (filter (\<lambda>(p, v). cr_loads r p) fs) p = (if cr_loads r p then dict_get fs p else None)" for fs :: "(string, vec) dict"
    by (induction fs) auto
  ultimately show "dict_get (ch_files (run_cache env home r files)) p = Some v \<Longrightarrow> dict_get files p = Some v" by (simp split: if_splits)
qed

lemma cache_run_sound:
  assumes "inj sha" "\<And>u. CHR ''/'' \<notin> set (sha u)" "run_of_model model r" "files_sound sha model files"
  shows "fst (encode_with_cache (run_env sha r) (cr_texts r) (run_cache env home r files))
      = (if cr_texts r = [] \<and> ch_dir (run_cache env home r files) \<noteq> None then Inl ValueError else Inr (cr_encode r (cr_texts r)))"
    and "files_sound sha model (ch_files (snd (encode_with_cache (run_env sha r) (cr_texts r) (run_cache env home r files))))"
proof -
  let ?en = "run_env sha r" and ?ca = "run_cache env home r files" and ?f = "model (safe_dir_name (cr_embedder r))"
  have enc: "ce_encode ?en = map ?f" and sha: "ce_sha256 ?en = sha" using assms(3) by (simp_all add: run_env_def run_of_model_def)
  have ok: "cache_env_ok ?en" unfolding cache_env_ok_def sha using enc assms(1) by blast
  have "cache_sound ?en ?ca"
    unfolding cache_sound_def
  proof (intro allI impI)
    fix t v assume "cache_get ?en t ?ca = Some v"
    then obtain d where d: "ch_dir ?ca = Some d" "dict_get (ch_files ?ca) (cache_path_for ?en d t) = Some v"
      by (auto simp: cache_get_def split: option.splits)
    then have "v = ?f t" using run_cache_dir [OF d(1)] run_cache_file [OF d(2)] assms(4) sha unfolding files_sound_def by metis
    then show "ce_encode ?en [t] = [v]" by (simp add: enc)
  qed
  note res = encode_with_cache_ok [OF ok this, of "cr_texts r"]
  show "fst (encode_with_cache ?en (cr_texts r) ?ca)
      = (if cr_texts r = [] \<and> ch_dir ?ca \<noteq> None then Inl ValueError else Inr (cr_encode r (cr_texts r)))"
  proof (cases "cr_texts r = [] \<and> ch_dir ?ca \<noteq> None")
    case True
    then show ?thesis by (simp add: encode_with_cache_def)
  next
    case False
    then show ?thesis using res by (auto simp: run_env_def split: prod.splits)
  qed
  show "files_sound sha model (ch_files (snd (encode_with_cache ?en (cr_texts r) ?ca)))"
    unfolding files_sound_def
  proof (intro allI impI)
    fix base name t v and en :: cache_env
    let ?p = "cache_path_for en (base @ ''/'' @ safe_dir_name name) t"
    assume en: "ce_sha256 en = sha" and get: "dict_get (ch_files (snd (encode_with_cache ?en (cr_texts r) ?ca))) ?p = Some v"
    have old: "v = model (safe_dir_name name) t" if "dict_get (ch_files ?ca) ?p = Some v"
      using run_cache_file [OF that] assms(4) en unfolding files_sound_def by blast
    show "v = model (safe_dir_name name) t"
    proof (cases "ch_dir ?ca")
      case None
      then show ?thesis using get old by (simp add: encode_with_cache_def)
    next
      case (Some d)
      from encode_with_cache_files [OF enc Some get] old
      show ?thesis
      proof
        assume "\<exists>u. v = ?f u \<and> ?p = cache_path_for ?en d u"
        then obtain u where u: "v = ?f u" "?p = cache_path_for ?en d u" by blast
        obtain base' where "d = base' @ ''/'' @ safe_dir_name (cr_embedder r)" using run_cache_dir [OF Some] by blast
        then show ?thesis using cache_path_parts [of en base name t ?en base' "cr_embedder r" u] u en sha assms(1,2) by simp
      qed
    qed
  qed
qed

lemma cache_runs_sound:
  assumes "inj sha" "\<And>u. CHR ''/'' \<notin> set (sha u)" "list_all (run_of_model model) runs" "files_sound sha model files"
  shows "list_all2 (\<lambda>r res. res = Inr (cr_encode r (cr_texts r)) \<or> cr_texts r = [] \<and> cr_cache_dir r \<noteq> None \<and> res = Inl ValueError)
    runs (cache_runs env home sha runs files)"
  using assms(3,4)
proof (induction runs arbitrary: files)
  case (Cons r rs)
  note one = cache_run_sound [OF assms(1,2) _ Cons.prems(2), of r env home]
  have dir: "cr_cache_dir r \<noteq> None" if "ch_dir (run_cache env home r files) \<noteq> None"
    using that by (cases "cr_cache_dir r") (simp_all add: run_cache_def embed_cache_new_def)
  show ?case using one Cons.IH Cons.prems(1) dir by (auto simp: case_prod_beta split: if_splits)
qed simp

text \<open>
  C24: the cache is transparent. Take any sequence of programs, each with an embedder of its own,
  that encode texts over one disk that starts without cache files, while files are lost between
  runs and directories and files may refuse to be written. If embedders with the same directory
  name are the same model, working text by text, and the hash has no collision and no slash, then
  every run returns the vectors its own encoder gives for its texts, in input order, as it would
  without a cache; only an empty list of texts with a cache directory may raise.
\<close>

theorem cache_transparent:
  assumes "inj sha" "\<And>u. CHR ''/'' \<notin> set (sha u)" "list_all (run_of_model model) runs"
  shows "list_all2 (\<lambda>r res. res = Inr (cr_encode r (cr_texts r)) \<or> cr_texts r = [] \<and> cr_cache_dir r \<noteq> None \<and> res = Inl ValueError)
    runs (cache_runs env home sha runs [])"
  by (rule cache_runs_sound [OF assms]) (simp add: files_sound_def dict_simps)

section \<open>What a ranking adds\<close>

definition rank_of :: "coarse_env \<Rightarrow> real list \<Rightarrow> nat \<Rightarrow> nat" where
  \<comment> \<open>the rank of a chunk by its scores, from 1\<close>
  "rank_of en scores i = 1 + length (takeWhile ((\<noteq>) i) (co_argsort en (map uminus scores)))"

definition recip_rank :: "coarse_env \<Rightarrow> nat \<Rightarrow> real" where
  "recip_rank en rank = 1 / real_of_int (co_rrf_k en + int rank)"

definition rank_cancels :: "coarse_env \<Rightarrow> nat \<Rightarrow> bool" where
  \<comment> \<open>a negative dampening constant makes the denominator of one of \<open>n\<close> ranks zero\<close>
  "rank_cancels en n \<longleftrightarrow> 1 \<le> - co_rrf_k en \<and> - co_rrf_k en \<le> int n"

abbreviation put_ranks :: "rag_chunk list \<Rightarrow> (nat \<Rightarrow> real) \<Rightarrow> (nat \<times> nat) list \<Rightarrow> (string, real) dict \<Rightarrow> (string, real) dict" where
  "put_ranks chunks g \<equiv> fold (\<lambda>(rank, idx) d. let cid = rc_id (chunks ! idx)
     in dict_set cid ((case dict_get d cid of None \<Rightarrow> 0 | Some s \<Rightarrow> s) + g rank) d)"

lemma add_ranks_run:
  "add_ranks en chunks w ps d =
     (if \<exists>(r, j) \<in> set ps. co_rrf_k en + int r = 0 then Inl ZeroDivisionError
      else Inr (put_ranks chunks (\<lambda>r. w * recip_rank en r) ps d))"
proof (induction ps arbitrary: d)
  case (Cons p ps)
  then show ?case by (cases p) (auto simp: rag_rrf_score_def recip_rank_def Let_def)
qed simp

lemma add_ranking_run:
  assumes "argsort_ok (co_argsort en)" "length scores = n"
  shows "add_ranking en chunks w scores d =
     (if rank_cancels en n then Inl ZeroDivisionError
      else Inr (put_ranks chunks (\<lambda>r. w * recip_rank en r) (enumerate 1 (co_argsort en (map uminus scores))) d))"
proof -
  let ?o = "co_argsort en (map uminus scores)"
  have len: "length ?o = n" using argsort_perm [OF assms(1), of "map uminus scores"] assms(2) by simp
  have "(\<exists>(r, j) \<in> set (enumerate 1 ?o). co_rrf_k en + int r = 0) \<longleftrightarrow> (\<exists>r \<in> set (map fst (enumerate 1 ?o)). co_rrf_k en + int r = 0)"
    unfolding set_map bex_simps(7) by (intro bex_cong refl) (simp add: case_prod_beta)
  also have "\<dots> \<longleftrightarrow> rank_cancels en n"
  proof
    assume "\<exists>r \<in> set (map fst (enumerate 1 ?o)). co_rrf_k en + int r = 0"
    then show "rank_cancels en n" using len by (auto simp: rank_cancels_def map_fst_enumerate)
  next
    assume "rank_cancels en n"
    then show "\<exists>r \<in> set (map fst (enumerate 1 ?o)). co_rrf_k en + int r = 0"
      using len by (intro bexI [of _ "nat (- co_rrf_k en)"]) (auto simp: rank_cancels_def map_fst_enumerate)
  qed
  finally show ?thesis by (simp add: add_ranking_def add_ranks_run)
qed

lemma fold_ranks:
  fixes m :: "nat \<Rightarrow> string"
  assumes "distinct idxs" "inj_on m (insert i (set idxs))"
  shows "dict_get (fold (\<lambda>(rank, idx) d. let cid = m idx in dict_set cid ((case dict_get d cid of None \<Rightarrow> 0 | Some s \<Rightarrow> s) + g rank) d)
           (enumerate k idxs) d) (m i)
     = (if i \<in> set idxs then Some ((case dict_get d (m i) of None \<Rightarrow> 0 | Some s \<Rightarrow> s) + (g (k + length (takeWhile ((\<noteq>) i) idxs)) :: real))
        else dict_get d (m i))"
  using assms
proof (induction idxs arbitrary: k d)
  case (Cons j idxs)
  have inj: "inj_on m (insert i (set idxs))" using Cons.prems(2) by (auto intro: inj_on_subset)
  show ?case
  proof (cases "i = j")
    case True
    then show ?thesis using Cons.IH [OF _ inj] Cons.prems(1) by (simp add: Let_def dict_simps)
  next
    case False
    then have "m i \<noteq> m j" using Cons.prems(2) by (auto simp: inj_on_def)
    then show ?thesis using Cons.IH [OF _ inj] Cons.prems(1) False by (simp add: Let_def dict_simps)
  qed
qed simp

definition score_in :: "rag_chunk list \<Rightarrow> (string, real) dict \<Rightarrow> nat \<Rightarrow> real" where
  "score_in chunks d i = (case dict_get d (rc_id (chunks ! i)) of None \<Rightarrow> 0 | Some s \<Rightarrow> s)"

definition fused_ok :: "rag_chunk list \<Rightarrow> (string, real) dict \<Rightarrow> bool" where
  "fused_ok chunks d \<longleftrightarrow> dict_wf d \<and> (\<forall>k. dict_get d k \<noteq> None \<longrightarrow> k \<in> rc_id ` set chunks)"

lemma fused_ok_set: "fused_ok chunks d \<Longrightarrow> k \<in> rc_id ` set chunks \<Longrightarrow> fused_ok chunks (dict_set k v d)"
  by (auto simp: fused_ok_def dict_simps distinct_update)

lemma fused_ok_ranking:
  "fused_ok chunks d \<Longrightarrow> \<forall>(r, j) \<in> set ps. j < length chunks \<Longrightarrow>
   fused_ok chunks (put_ranks chunks g ps d)"
proof (induction ps arbitrary: d)
  case (Cons p ps)
  obtain r j where p: "p = (r, j)" by fastforce
  have "rc_id (chunks ! j) \<in> rc_id ` set chunks" using Cons.prems(2) p by simp
  then show ?case using Cons.prems(2) p
    by (simp add: Let_def) (rule Cons.IH [unfolded Let_def], auto intro: fused_ok_set [OF Cons.prems(1)])
qed simp

lemma ids_inj: "distinct (map rc_id chunks) \<Longrightarrow> inj_on (\<lambda>i. rc_id (chunks ! i)) {0..<length chunks}"
  by (auto simp: inj_on_def distinct_conv_nth) (metis nth_map)

lemma add_ranking_ok:
  fixes w :: real
  assumes "argsort_ok (co_argsort en)" "length scores = length chunks" "distinct (map rc_id chunks)" "fused_ok chunks d"
    "add_ranking en chunks w scores d = Inr d'"
  shows "fused_ok chunks d'"
    and "i < length chunks \<Longrightarrow> dict_get d' (rc_id (chunks ! i)) = Some (score_in chunks d i + w * recip_rank en (rank_of en scores i))"
proof -
  let ?o = "co_argsort en (map uminus scores)" and ?g = "\<lambda>rank. w * recip_rank en rank"
  have o: "set ?o = {0..<length chunks}" "distinct ?o" using argsort_perm [OF assms(1), of "map uminus scores"] assms(2) by simp_all
  have d': "d' = put_ranks chunks ?g (enumerate 1 ?o) d"
    using assms(5) unfolding add_ranking_run [OF assms(1,2)] by (simp split: if_splits)
  have "\<forall>(r, j) \<in> set (enumerate 1 ?o). j < length chunks"
    using o(1) by (auto simp: enumerate_eq_zip dest!: set_zip_rightD)
  then show "fused_ok chunks d'" unfolding d' by (rule fused_ok_ranking [OF assms(4)])
  assume i: "i < length chunks"
  then have "inj_on (\<lambda>i. rc_id (chunks ! i)) (insert i (set ?o))" using ids_inj [OF assms(3)] o(1) by (simp add: insert_absorb)
  from fold_ranks [OF o(2) this, of ?g 1 d]
  show "dict_get d' (rc_id (chunks ! i)) = Some (score_in chunks d i + ?g (rank_of en scores i))"
    using i o(1) by (simp add: d' score_in_def rank_of_def)
qed

text \<open>A list of rankings is added, or the first one divides by zero.\<close>

lemma add_rankings_ok:
  assumes "argsort_ok (co_argsort en)" "distinct (map rc_id chunks)"
  shows "\<forall>s \<in> set rs. length s = length chunks \<Longrightarrow> fused_ok chunks d \<Longrightarrow>
    case add_rankings en chunks w rs d of
      Inl x \<Rightarrow> x = ZeroDivisionError \<and> rs \<noteq> [] \<and> rank_cancels en (length chunks)
    | Inr d' \<Rightarrow> (rs = [] \<or> \<not> rank_cancels en (length chunks)) \<and> fused_ok chunks d'
        \<and> (\<forall>i < length chunks. score_in chunks d' i = score_in chunks d i + w * sum_list (map (\<lambda>s. recip_rank en (rank_of en s i)) rs)
          \<and> (rs \<noteq> [] \<or> dict_get d (rc_id (chunks ! i)) \<noteq> None \<longrightarrow> dict_get d' (rc_id (chunks ! i)) \<noteq> None))"
proof (induction rs arbitrary: d)
  case (Cons r rs)
  have len: "length r = length chunks" using Cons.prems(1) by simp
  note run = add_ranking_run [OF assms(1) len, of chunks w d]
  show ?case
  proof (cases "add_ranking en chunks w r d")
    case (Inl x)
    then show ?thesis using run by (simp split: if_splits)
  next
    case (Inr d1)
    note step = add_ranking_ok [OF assms(1) len assms(2) Cons.prems(2) Inr]
    have "score_in chunks d1 i = score_in chunks d i + w * recip_rank en (rank_of en r i)" if "i < length chunks" for i
      using step(2) [OF that] by (simp add: score_in_def)
    then show ?thesis using Cons.IH [OF _ step(1)] step(2) Cons.prems(1) Inr run
      by (simp add: algebra_simps split: sum.splits if_splits)
  qed
qed simp

section \<open>What the filter returns\<close>

definition coarse_env_ok :: "coarse_env \<Rightarrow> bool" where
  \<comment> \<open>numpy's argsort sorts, a BM25 object that was built scores every document\<close>
  "coarse_env_ok en \<longleftrightarrow> argsort_ok (co_argsort en) \<and> cache_env_ok (co_cache en)
     \<and> (\<forall>corpus q. co_bm25_builds en corpus \<longrightarrow> length (co_bm25_scores en corpus q) = length corpus)"

definition rrf_sum :: "coarse_env \<Rightarrow> real \<Rightarrow> real list list \<Rightarrow> nat \<Rightarrow> real" where
  "rrf_sum en w rankings i = (if 0 < w then w * sum_list (map (\<lambda>s. recip_rank en (rank_of en s i)) rankings) else 0)"

definition rrf_total :: "coarse_env \<Rightarrow> rag_chunk list \<Rightarrow> string list \<Rightarrow> real \<Rightarrow> real \<Rightarrow> nat \<Rightarrow> real" where
  \<comment> \<open>the reciprocal ranks of a chunk over all queries and both rankings\<close>
  "rrf_total en chunks queries bm25_weight dense_weight i =
     rrf_sum en bm25_weight (bm25_rows en chunks queries) i
     + rrf_sum en dense_weight (dense_rankings (ce_encode (co_cache en) (map rc_text chunks)) (ce_encode (co_cache en) queries)) i"

definition filter_raises :: "coarse_env \<Rightarrow> rag_chunk list \<Rightarrow> real \<Rightarrow> bool" where
  \<comment> \<open>BM25 is asked for and cannot be built, or a rank cancels the dampening constant\<close>
  "filter_raises en chunks bm25_weight \<longleftrightarrow>
     0 < bm25_weight \<and> \<not> co_bm25_builds en (corpus_tokens chunks) \<or> rank_cancels en (length chunks)"

lemma insort_key_map: "insort_key f (g x) (map g xs) = map g (insort_key (\<lambda>x. f (g x)) x xs)"
  by (induction xs) auto

lemma sort_key_map: "sort_key f (map g xs) = map g (sort_key (\<lambda>x. f (g x)) xs)"
  by (induction xs) (simp_all add: insort_key_map)

lemma sort_desc_map: "sort_desc f (map g xs) = map g (sort_desc (\<lambda>x. f (g x)) xs)"
  by (simp add: sort_desc_def rev_map sort_key_map)

lemma best_by_take_sorted:
  assumes "distinct js" "set js = cand"
  shows "best_by f cand (take k (sort_desc f js))"
proof -
  have s: "sorted_wrt (\<lambda>a b. f b \<le> f a) (sort_desc f js)" by (rule sorted_sort_desc)
  have d: "distinct (sort_desc f js)" using mset_sort_desc [of f js] assms(1) by (metis mset_eq_imp_distinct_iff)
  have "f j \<le> f i" if "i \<in> set (take k (sort_desc f js))" "j \<in> cand - set (take k (sort_desc f js))" for i j
  proof -
    have "j \<in> set (drop k (sort_desc f js))"
      using that(2) assms(2) by (metis DiffD1 DiffD2 Un_iff append_take_drop_id set_append set_sort_desc)
    then show ?thesis using sorted_desc_take_drop [OF s that(1)] by blast
  qed
  then show ?thesis using s d assms(2) by (auto simp: best_by_def sorted_wrt_take dest: in_set_takeD)
qed

text \<open>The dictionary of scores, read back as a ranking of the chunks.\<close>

lemma by_id_get:
  "distinct (map rc_id chunks) \<Longrightarrow> i < length chunks \<Longrightarrow> dict_get (fold (\<lambda>c. dict_set (rc_id c) c) chunks d) (rc_id (chunks ! i)) = Some (chunks ! i)"
proof (induction chunks arbitrary: d i)
  case (Cons c cs)
  have other: "dict_get (fold (\<lambda>c. dict_set (rc_id c) c) xs d) k = dict_get d k" if "k \<notin> rc_id ` set xs" for xs d k
    using that by (induction xs arbitrary: d) (auto simp: dict_simps)
  show ?case using Cons other [of "rc_id c" cs] by (cases i) (auto simp: dict_simps)
qed simp

lemma pairs_of_fused:
  assumes "fused_ok chunks d" "distinct (map rc_id chunks)" "\<forall>i < length chunks. dict_get d (rc_id (chunks ! i)) = Some (f i)"
  shows "\<exists>js. distinct js \<and> set js = {0..<length chunks}
    \<and> concat (map (\<lambda>(cid, s). case dict_get (fold (\<lambda>c. dict_set (rc_id c) c) chunks []) cid of None \<Rightarrow> [] | Some c \<Rightarrow> [(c, s)]) d)
      = map (\<lambda>i. (chunks ! i, f i)) js"
proof -
  define idx where "idx = the_inv_into {0..<length chunks} (\<lambda>i. rc_id (chunks ! i))"
  note inj = ids_inj [OF assms(2)]
  have wf: "dict_wf d" using assms(1) by (simp add: fused_ok_def)
  have entry: "idx k < length chunks \<and> rc_id (chunks ! idx k) = k \<and> s = f (idx k)" if "(k, s) \<in> set d" for k s
  proof -
    have get: "dict_get d k = Some s" using that unfolding dict_item_get [OF wf] .
    then obtain i where i: "i < length chunks" "k = rc_id (chunks ! i)"
      using assms(1) unfolding fused_ok_def by (metis imageE in_set_conv_nth option.distinct(1))
    then have "idx k = i" unfolding idx_def using the_inv_into_f_f [OF inj, of i] by simp
    then show ?thesis using i get assms(3) by simp
  qed
  define js where "js = map (idx \<circ> fst) d"
  have "concat (map (\<lambda>(cid, s). case dict_get (fold (\<lambda>c. dict_set (rc_id c) c) chunks []) cid of None \<Rightarrow> [] | Some c \<Rightarrow> [(c, s)]) xs)
      = map (\<lambda>i. (chunks ! i, f i)) (map (idx \<circ> fst) xs)" if "set xs \<subseteq> set d" for xs
    using that
  proof (induction xs)
    case (Cons x xs)
    obtain k s where x: "x = (k, s)" by fastforce
    then have e: "idx k < length chunks" "rc_id (chunks ! idx k) = k" "s = f (idx k)" using entry Cons.prems by auto
    then show ?case using Cons by_id_get [OF assms(2) e(1), of "[]"] by (simp add: x)
  qed simp
  moreover have "distinct js"
  proof -
    have "inj_on idx (fst ` set d)" using entry by (intro inj_onI) (metis imageE prod.collapse)
    then show ?thesis using wf by (simp add: js_def distinct_map comp_inj_on_iff flip: map_map)
  qed
  moreover have "set js = {0..<length chunks}"
  proof -
    have "i \<in> set js" if "i < length chunks" for i
    proof -
      have "(rc_id (chunks ! i), f i) \<in> set d" unfolding dict_item_get [OF wf] using assms(3) that by blast
      moreover have "idx (rc_id (chunks ! i)) = i" unfolding idx_def using the_inv_into_f_f [OF inj, of i] that by simp
      ultimately show ?thesis by (force simp: js_def)
    qed
    then show ?thesis using entry by (auto simp: js_def)
  qed
  ultimately show ?thesis by (auto simp: js_def)
qed

text \<open>The scores after both rankings, or the division by zero.\<close>

definition fused_all :: "coarse_env \<Rightarrow> rag_chunk list \<Rightarrow> string list \<Rightarrow> real \<Rightarrow> real \<Rightarrow> exc + (string, real) dict" where
  "fused_all en chunks queries bw dw =
     (case (if 0 < bw then (case bm25_rankings en chunks queries of Inl x \<Rightarrow> Inl x | Inr rows \<Rightarrow> add_rankings en chunks bw rows []) else Inr []) of
        Inl x \<Rightarrow> Inl x
      | Inr fused \<Rightarrow>
          if 0 < dw
          then add_rankings en chunks dw
                 (dense_rankings (ce_encode (co_cache en) (map rc_text chunks)) (ce_encode (co_cache en) queries)) fused
          else Inr fused)"

lemma fused_all_ok:
  assumes "coarse_env_ok en" "distinct (map rc_id chunks)" "queries \<noteq> []" "0 < bw \<or> 0 < dw"
  shows "case fused_all en chunks queries bw dw of
      Inl x \<Rightarrow> x = ZeroDivisionError \<and> filter_raises en chunks bw
    | Inr d \<Rightarrow> \<not> filter_raises en chunks bw \<and> fused_ok chunks d
        \<and> (\<forall>i < length chunks. dict_get d (rc_id (chunks ! i)) = Some (rrf_total en chunks queries bw dw i))"
proof -
  let ?n = "length chunks" and ?B = "bm25_rows en chunks queries"
  let ?D = "dense_rankings (ce_encode (co_cache en) (map rc_text chunks)) (ce_encode (co_cache en) queries)"
  have en: "argsort_ok (co_argsort en)" using assms(1) by (simp add: coarse_env_ok_def)
  obtain e where e: "ce_encode (co_cache en) = map e" using assms(1) by (auto simp: coarse_env_ok_def cache_env_ok_def)
  have D: "\<forall>s \<in> set ?D. length s = ?n" "?D \<noteq> []" using assms(3) by (auto simp: dense_rankings_def e)
  define first where "first = (if 0 < bw then (case bm25_rankings en chunks queries of Inl x \<Rightarrow> Inl x | Inr rows \<Rightarrow> add_rankings en chunks bw rows []) else Inr [])"
  have empty: "fused_ok chunks []" "score_in chunks [] i = 0" for i by (simp_all add: fused_ok_def score_in_def)
  have one: "case first of Inl x \<Rightarrow> x = ZeroDivisionError \<and> filter_raises en chunks bw
    | Inr d \<Rightarrow> (0 < bw \<longrightarrow> \<not> filter_raises en chunks bw) \<and> fused_ok chunks d \<and> (\<forall>i < ?n. score_in chunks d i = rrf_sum en bw ?B i
        \<and> (0 < bw \<longrightarrow> dict_get d (rc_id (chunks ! i)) \<noteq> None))"
  proof (cases "0 < bw \<and> co_bm25_builds en (corpus_tokens chunks)")
    case True
    then have B: "\<forall>s \<in> set ?B. length s = ?n" "?B \<noteq> []"
      using assms(1,3) by (auto simp: bm25_rows_def coarse_env_ok_def corpus_tokens_def)
    have "first = add_rankings en chunks bw ?B []" using True by (simp add: first_def bm25_rankings_def)
    then show ?thesis using add_rankings_ok [OF en assms(2) B(1) empty(1), of bw] B(2) empty(2) True
      by (auto simp: filter_raises_def rrf_sum_def split: sum.splits)
  next
    case False
    then show ?thesis using empty by (auto simp: first_def bm25_rankings_def filter_raises_def rrf_sum_def)
  qed
  have all: "fused_all en chunks queries bw dw = (case first of Inl x \<Rightarrow> Inl x | Inr d \<Rightarrow> if 0 < dw then add_rankings en chunks dw ?D d else Inr d)"
    by (simp add: fused_all_def first_def)
  show ?thesis
  proof (cases first)
    case (Inl x)
    then show ?thesis using one all by simp
  next
    case (Inr d)
    have d: "fused_ok chunks d" using one Inr by simp
    have get: "dict_get d' (rc_id (chunks ! i)) = Some v" if "score_in chunks d' i = v" "dict_get d' (rc_id (chunks ! i)) \<noteq> None" for d' i v
      using that by (auto simp: score_in_def)
    show ?thesis
    proof (cases "0 < dw")
      case True
      then have run: "fused_all en chunks queries bw dw = add_rankings en chunks dw ?D d" using all Inr by simp
      note two = add_rankings_ok [OF en assms(2) D(1) d, of dw]
      show ?thesis
      proof (cases "add_rankings en chunks dw ?D d")
        case Inl': (Inl x)
        then show ?thesis using two run by (simp add: filter_raises_def)
      next
        case Inr': (Inr d2)
        have "dict_get d2 (rc_id (chunks ! i)) = Some (rrf_total en chunks queries bw dw i)" if "i < ?n" for i
          using two one Inr Inr' True D(2) that by (intro get) (simp_all add: rrf_total_def rrf_sum_def)
        then show ?thesis using two one run Inr Inr' D(2) by (auto simp: filter_raises_def)
      qed
    next
      case False
      have "dict_get d (rc_id (chunks ! i)) = Some (rrf_total en chunks queries bw dw i)" if "i < ?n" for i
        using one Inr False assms(4) that by (intro get) (simp_all add: rrf_total_def rrf_sum_def)
      then show ?thesis using one Inr all False assms(4) by auto
    qed
  qed
qed

lemma filter_run:
  assumes "cache_env_ok (co_cache en)" "cache_sound (co_cache en) ca" "chunks \<noteq> []" "queries \<noteq> []" "0 < bw \<or> 0 < dw"
  shows "\<exists>ca'. cache_sound (co_cache en) ca' \<and> filter_multi_query en chunks queries top_k bw dw ca =
     (case fused_all en chunks queries bw dw of
        Inl x \<Rightarrow> (Inl x, ca')
      | Inr d \<Rightarrow>
          let pairs = sort_desc snd (concat (map (\<lambda>(cid, s). case dict_get (fold (\<lambda>c. dict_set (rc_id c) c) chunks []) cid of None \<Rightarrow> [] | Some c \<Rightarrow> [(c, s)]) d))
          in (Inr (if top_k < int (length chunks) then py_take top_k pairs else pairs), ca'))"
proof -
  let ?E = "ce_encode (co_cache en) (map rc_text chunks)"
  obtain ca1 where enc: "encode_with_cache (co_cache en) (map rc_text chunks) ca = (Inr ?E, ca1)" "cache_sound (co_cache en) ca1"
    using encode_with_cache_ok [OF assms(1,2), of "map rc_text chunks"] assms(3)
    by (cases "encode_with_cache (co_cache en) (map rc_text chunks) ca") auto
  define first where "first = (if 0 < bw then (case bm25_rankings en chunks queries of Inl x \<Rightarrow> Inl x | Inr rows \<Rightarrow> add_rankings en chunks bw rows []) else Inr [])"
  note run = filter_multi_query_def [of en chunks queries top_k bw dw ca, folded first_def] fused_all_def [of en chunks queries bw dw, folded first_def]
  have go: "\<not> (bw \<le> 0 \<and> dw \<le> 0)" using assms(5) by auto
  show ?thesis
  proof (cases first)
    case (Inl x)
    then show ?thesis using assms(2-4) go by (intro exI [of _ ca]) (auto simp: run)
  next
    case (Inr d)
    show ?thesis
    proof (cases "0 < dw")
      case True
      then show ?thesis using enc assms(3,4) go Inr
        by (intro exI [of _ ca1]) (simp add: run Let_def split: sum.split)
    next
      case False
      then show ?thesis using assms(2-4) go Inr by (intro exI [of _ ca]) (simp add: run Let_def)
    qed
  qed
qed

lemma filter_returns:
  assumes "coarse_env_ok en" "cache_sound (co_cache en) ca" "distinct (map rc_id chunks)" "chunks \<noteq> []" "queries \<noteq> []"
    "0 < bw \<or> 0 < dw" "0 \<le> top_k" "\<not> filter_raises en chunks bw"
  shows "\<exists>picks ca'. filter_multi_query en chunks queries top_k bw dw ca
      = (Inr (map (\<lambda>i. (chunks ! i, rrf_total en chunks queries bw dw i)) picks), ca')
    \<and> best_by (rrf_total en chunks queries bw dw) {0..<length chunks} picks
    \<and> length picks = min (nat top_k) (length chunks) \<and> cache_sound (co_cache en) ca'"
proof -
  let ?n = "length chunks" and ?f = "rrf_total en chunks queries bw dw"
  have en: "cache_env_ok (co_cache en)" using assms(1) by (simp add: coarse_env_ok_def)
  obtain d where d: "fused_all en chunks queries bw dw = Inr d" "fused_ok chunks d" "\<forall>i < ?n. dict_get d (rc_id (chunks ! i)) = Some (?f i)"
    using fused_all_ok [OF assms(1,3,5,6)] assms(8) by (auto split: sum.splits)
  obtain js where js: "distinct js" "set js = {0..<?n}"
      "concat (map (\<lambda>(cid, s). case dict_get (fold (\<lambda>c. dict_set (rc_id c) c) chunks []) cid of None \<Rightarrow> [] | Some c \<Rightarrow> [(c, s)]) d)
        = map (\<lambda>i. (chunks ! i, ?f i)) js"
    using pairs_of_fused [OF d(2) assms(3) d(3)] by blast
  have len: "length js = ?n" using js(1,2) by (metis card_atLeastLessThan diff_zero distinct_card)
  have sorted: "sort_desc snd (map (\<lambda>i. (chunks ! i, ?f i)) js) = map (\<lambda>i. (chunks ! i, ?f i)) (sort_desc ?f js)"
    by (simp add: sort_desc_map)
  have cut: "(if top_k < int ?n then py_take top_k xs else xs) = take (nat top_k) xs" if "length xs = ?n" for xs :: "(rag_chunk \<times> real) list"
    using assms(7) that by (auto simp: py_take_def)
  let ?picks = "take (nat top_k) (sort_desc ?f js)"
  obtain ca' where "cache_sound (co_cache en) ca'" "filter_multi_query en chunks queries top_k bw dw ca = (Inr (map (\<lambda>i. (chunks ! i, ?f i)) ?picks), ca')"
    using filter_run [OF en assms(2,4,5,6), of top_k] len
    unfolding d(1) sum.case Let_def js(3) sorted by (auto simp: cut take_map)
  moreover have "best_by ?f {0..<?n} ?picks" by (rule best_by_take_sorted [OF js(1,2)])
  ultimately show ?thesis using len by auto
qed

lemma filter_fails:
  assumes "coarse_env_ok en" "cache_sound (co_cache en) ca" "distinct (map rc_id chunks)" "chunks \<noteq> []" "queries \<noteq> []"
    "0 < bw \<or> 0 < dw" "filter_raises en chunks bw"
  shows "\<exists>ca'. filter_multi_query en chunks queries top_k bw dw ca = (Inl ZeroDivisionError, ca') \<and> cache_sound (co_cache en) ca'"
proof -
  have "fused_all en chunks queries bw dw = Inl ZeroDivisionError"
    using fused_all_ok [OF assms(1,3,5,6)] assms(7) by (auto split: sum.splits)
  moreover have "cache_env_ok (co_cache en)" using assms(1) by (simp add: coarse_env_ok_def)
  ultimately show ?thesis using filter_run [OF _ assms(2,4,5,6), of top_k] by auto
qed

text \<open>
  C23: the filter returns the best chunks by reciprocal rank. For chunks with distinct ids, at
  least one query, a positive weight and a sound cache: it raises, and only ZeroDivisionError,
  exactly when BM25 has a weight but cannot be built over the chunks (none has a word), or when a
  negative dampening constant cancels a rank. Otherwise it returns \<open>top_k\<close> distinct chunks, or all,
  in descending order of the weighted reciprocal ranks summed over every query and both rankings,
  each with that sum, and no chunk left out has a greater one. The cache stays sound either way.
\<close>

theorem coarse_filter_best:
  assumes "coarse_env_ok en" "cache_sound (co_cache en) ca" "distinct (map rc_id chunks)" "chunks \<noteq> []" "queries \<noteq> []"
    "0 < bm25_weight \<or> 0 < dense_weight" "0 \<le> top_k"
  shows "case filter_multi_query en chunks queries top_k bm25_weight dense_weight ca of (res, ca') \<Rightarrow>
    cache_sound (co_cache en) ca' \<and>
    (case res of
       Inl x \<Rightarrow> x = ZeroDivisionError \<and> filter_raises en chunks bm25_weight
     | Inr hits \<Rightarrow> \<not> filter_raises en chunks bm25_weight
         \<and> (\<exists>picks. hits = map (\<lambda>i. (chunks ! i, rrf_total en chunks queries bm25_weight dense_weight i)) picks
           \<and> best_by (rrf_total en chunks queries bm25_weight dense_weight) {0..<length chunks} picks
           \<and> length picks = min (nat top_k) (length chunks)))"
proof (cases "filter_raises en chunks bm25_weight")
  case True
  then show ?thesis using filter_fails [OF assms(1-6) True, of top_k] by auto
next
  case False
  from filter_returns [OF assms False] obtain picks ca' where
    "filter_multi_query en chunks queries top_k bm25_weight dense_weight ca
      = (Inr (map (\<lambda>i. (chunks ! i, rrf_total en chunks queries bm25_weight dense_weight i)) picks), ca')"
    "best_by (rrf_total en chunks queries bm25_weight dense_weight) {0..<length chunks} picks"
    "length picks = min (nat top_k) (length chunks)" "cache_sound (co_cache en) ca'" by blast
  then show ?thesis using False by (simp, intro exI [of _ picks]) simp
qed

text \<open>Chunks of punctuation alone make the filter raise, whatever the query.\<close>

lemma wordless_chunks_raise:
  assumes "coarse_env_ok en" "cache_sound (co_cache en) ca" "distinct (map rc_id chunks)" "chunks \<noteq> []"
    "\<not> co_bm25_builds en (corpus_tokens chunks)"
  shows "fst (coarse_filter en chunks query top_k 1 1 ca) = Inl ZeroDivisionError"
  using filter_fails [OF assms(1-4), of "[query]" 1 1 top_k] assms(5) by (auto simp: coarse_filter_def filter_raises_def)

definition scores_of :: "(exc + (rag_chunk \<times> real) list) \<times> embed_cache \<Rightarrow> rag_chunk \<Rightarrow> real option" where
  "scores_of r = (case fst r of Inl x \<Rightarrow> (\<lambda>c. None) | Inr ps \<Rightarrow> map_of ps)"

lemma scores_of_all:
  assumes "coarse_env_ok en" "cache_sound (co_cache en) ca" "distinct (map rc_id chunks)" "queries \<noteq> []"
    "0 < bm25_weight \<or> 0 < dense_weight" "i < length chunks" "\<not> filter_raises en chunks bm25_weight"
  shows "scores_of (filter_multi_query en chunks queries (int (length chunks)) bm25_weight dense_weight ca) (chunks ! i)
    = Some (rrf_total en chunks queries bm25_weight dense_weight i)"
proof -
  let ?f = "rrf_total en chunks queries bm25_weight dense_weight"
  have "chunks \<noteq> []" using assms(6) by auto
  then obtain picks ca' where r: "filter_multi_query en chunks queries (int (length chunks)) bm25_weight dense_weight ca
        = (Inr (map (\<lambda>i. (chunks ! i, ?f i)) picks), ca')"
      "best_by ?f {0..<length chunks} picks" "length picks = length chunks"
    using filter_returns [OF assms(1-3) _ assms(4,5) _ assms(7), of "int (length chunks)"] by auto
  have d: "distinct picks" "set picks \<subseteq> {0..<length chunks}" using r(2) by (simp_all add: best_by_def)
  then have "set picks = {0..<length chunks}"
    using r(3) by (intro card_subset_eq) (simp_all add: distinct_card)
  then have mem: "i \<in> set picks" using assms(6) by simp
  have "distinct chunks" using assms(3) by (simp add: distinct_map)
  then have "inj_on ((!) chunks) (set picks)" using d(2) by (intro inj_onI) (metis atLeastLessThan_iff nth_eq_iff_index_eq subsetD)
  then have "distinct (map fst (map (\<lambda>i. (chunks ! i, ?f i)) picks))" using d(1) by (simp add: comp_def distinct_map)
  then have "map_of (map (\<lambda>i. (chunks ! i, ?f i)) picks) (chunks ! i) = Some (?f i)"
    using mem by (intro map_of_is_SomeI) auto
  then show ?thesis by (simp add: scores_of_def r(1))
qed

lemma rrf_sum_map: "rrf_sum en w (map g qs) i = sum_list (map (\<lambda>q. rrf_sum en w [g q] i) qs)"
  by (cases "0 < w") (simp_all add: rrf_sum_def comp_def sum_list_const_mult)

text \<open>
  Several queries at once are the sum of the single ones. The score of a chunk under several
  paraphrases is the sum of its scores under each alone, as the documentation of
  \<open>filter_multi_query\<close> says, for any weights and sound caches, when the filter does not raise.
\<close>

lemma multi_query_sums:
  assumes "coarse_env_ok en" "distinct (map rc_id chunks)" "queries \<noteq> []" "0 < bm25_weight \<or> 0 < dense_weight" "c \<in> set chunks"
    "cache_sound (co_cache en) ca" "cache_sound (co_cache en) ca'" "\<not> filter_raises en chunks bm25_weight"
  shows "the (scores_of (filter_multi_query en chunks queries (int (length chunks)) bm25_weight dense_weight ca) c)
    = sum_list (map (\<lambda>q. the (scores_of (coarse_filter en chunks q (int (length chunks)) bm25_weight dense_weight ca') c)) queries)"
proof -
  obtain i where i: "i < length chunks" "c = chunks ! i" using assms(5) by (auto simp: in_set_conv_nth)
  obtain e where e: "ce_encode (co_cache en) = map e" using assms(1) by (auto simp: coarse_env_ok_def cache_env_ok_def)
  have B: "rrf_sum en bm25_weight (bm25_rows en chunks queries) i
      = sum_list (map (\<lambda>q. rrf_sum en bm25_weight (bm25_rows en chunks [q]) i) queries)"
    unfolding bm25_rows_def by (subst rrf_sum_map) simp
  have D: "rrf_sum en dense_weight (dense_rankings cs (map e queries)) i
      = sum_list (map (\<lambda>q. rrf_sum en dense_weight (dense_rankings cs (map e [q])) i) queries)" for cs
    unfolding dense_rankings_def map_map by (subst rrf_sum_map) (simp add: comp_def)
  have sums: "rrf_total en chunks queries bm25_weight dense_weight i
      = sum_list (map (\<lambda>q. rrf_total en chunks [q] bm25_weight dense_weight i) queries)"
    unfolding rrf_total_def sum_list_addf e by (simp only: B D)
  have "the (scores_of (coarse_filter en chunks q (int (length chunks)) bm25_weight dense_weight ca') c) = rrf_total en chunks [q] bm25_weight dense_weight i" for q
    using scores_of_all [OF assms(1,7,2) _ assms(4) i(1) assms(8), of "[q]"] by (simp add: coarse_filter_def i(2))
  then show ?thesis
    using scores_of_all [OF assms(1,6,2,3,4) i(1) assms(8)] sums by (simp add: i(2))
qed

section \<open>An instance\<close>

definition demo_coarse :: coarse_env where
  \<comment> \<open>a text is embedded by its length; BM25 counts the query words in a document\<close>
  "demo_coarse = \<lparr>co_cache = \<lparr>ce_encode = map (\<lambda>t. [real (length t)]), ce_sha256 = (\<lambda>t. t), ce_writable = (\<lambda>p. True)\<rparr>,
     co_bm25_builds = list_ex (\<lambda>d. d \<noteq> []), co_bm25_scores = (\<lambda>corpus q. map (\<lambda>d. real (length (filter (\<lambda>w. w \<in> set q) d))) corpus),
     co_argsort = stable_argsort, co_rrf_k = 60\<rparr>"

definition demo_rag_chunks :: "rag_chunk list" where
  "demo_rag_chunks = [\<lparr>rc_id = ''0'', rc_text = ''alpha'', rc_start_offset = 0, rc_end_offset = 5, rc_token_count = 1\<rparr>,
     \<lparr>rc_id = ''1'', rc_text = ''beta'', rc_start_offset = 5, rc_end_offset = 9, rc_token_count = 1\<rparr>]"

definition empty_cache :: embed_cache where
  "empty_cache = \<lparr>ch_dir = Some ''c'', ch_files = []\<rparr>"

lemma demo_coarse_ok: "coarse_env_ok demo_coarse" "cache_sound (co_cache demo_coarse) empty_cache" "distinct (map rc_id demo_rag_chunks)"
  by (auto simp: coarse_env_ok_def cache_env_ok_def demo_coarse_def stable_argsort_ok cache_sound_def empty_cache_def cache_get_def
      demo_rag_chunks_def inj_def)

lemma demo_filter_returns: "\<not> filter_raises demo_coarse demo_rag_chunks 1"
proof -
  have "word_tokenize ''alpha'' = [''alpha'']" by code_simp
  then show ?thesis by (simp add: filter_raises_def demo_coarse_def rank_cancels_def corpus_tokens_def demo_rag_chunks_def)
qed

definition demo_run :: "string \<Rightarrow> real \<Rightarrow> string list \<Rightarrow> cache_run" where
  "demo_run name x ts = \<lparr>cr_embedder = name, cr_cache_dir = Some ''c'', cr_encode = map (\<lambda>t. [x + real (length t)]), cr_texts = ts,
     cr_can_make = (\<lambda>p. True), cr_writable = (\<lambda>p. True), cr_loads = (\<lambda>p. True)\<rparr>"

definition plain_sha :: "string \<Rightarrow> string" where
  \<comment> \<open>a hash without collision and without slash\<close>
  "plain_sha t = concat (map (\<lambda>c. if c = CHR ''/'' then ''.s'' else if c = CHR ''.'' then ''.d'' else [c]) t)"

lemma plain_sha_inj: "plain_sha s = plain_sha t \<Longrightarrow> s = t"
proof (induction s arbitrary: t)
  case Nil
  then show ?case by (cases t) (auto simp: plain_sha_def split: if_splits)
next
  case (Cons c s)
  then show ?case by (cases t) (auto simp: plain_sha_def split: if_splits)
qed

theorem cache_transparent_witness:
  "list_all2 (\<lambda>r res. res = Inr (cr_encode r (cr_texts r)) \<or> cr_texts r = [] \<and> cr_cache_dir r \<noteq> None \<and> res = Inl ValueError)
     [demo_run ''m'' 0 [''ab''], demo_run ''n'' 5 [''ab''], demo_run ''m'' 0 [''ab'', ''c'']]
     (cache_runs (\<lambda>v. None) ''h'' plain_sha [demo_run ''m'' 0 [''ab''], demo_run ''n'' 5 [''ab''], demo_run ''m'' 0 [''ab'', ''c'']] [])"
  by (rule cache_transparent [where model = "\<lambda>n t. [(if n = ''n'' then 5 else 0) + real (length t)]"])
    (auto simp: inj_def plain_sha_inj run_of_model_def demo_run_def safe_dir_name_def, auto simp: plain_sha_def split: if_splits)

theorem coarse_filter_best_witness:
  "\<exists>picks ca'. filter_multi_query demo_coarse demo_rag_chunks [''beta''] 1 1 1 empty_cache
      = (Inr (map (\<lambda>i. (demo_rag_chunks ! i, rrf_total demo_coarse demo_rag_chunks [''beta''] 1 1 i)) picks), ca') \<and> length picks = 1"
  using coarse_filter_best [OF demo_coarse_ok, of "[''beta'']" 1 1 1] demo_filter_returns
  by (cases "filter_multi_query demo_coarse demo_rag_chunks [''beta''] 1 1 1 empty_cache")
    (auto simp: demo_rag_chunks_def split: sum.splits)

lemma multi_query_sums_witness:
  "the (scores_of (filter_multi_query demo_coarse demo_rag_chunks [''a'', ''beta''] 2 1 0 empty_cache) (hd demo_rag_chunks))
   = the (scores_of (coarse_filter demo_coarse demo_rag_chunks ''a'' 2 1 0 empty_cache) (hd demo_rag_chunks))
     + the (scores_of (coarse_filter demo_coarse demo_rag_chunks ''beta'' 2 1 0 empty_cache) (hd demo_rag_chunks))"
  using multi_query_sums [OF demo_coarse_ok(1,3), of "[''a'', ''beta'']" 1 0 "hd demo_rag_chunks", OF _ _ _ demo_coarse_ok(2,2) demo_filter_returns]
  by (simp add: demo_rag_chunks_def)

text \<open>
  The directory of an embedder is not unique: slash and colon both become an underscore, so two
  embedders can share the cache although their vectors differ, which the cache cannot tell.
\<close>

lemma embedders_share_cache: "safe_dir_name ''org/e'' = safe_dir_name ''org_e''"
  by (simp add: safe_dir_name_def)

lemma shared_cache_answers:
  "cache_runs (\<lambda>v. None) ''h'' plain_sha [demo_run ''org/e'' 0 [''a''], demo_run ''org_e'' 5 [''a'']] [] = [Inr [[1]], Inr [[1]]]"
  by (simp add: demo_run_def run_env_def run_cache_def embed_cache_new_def safe_dir_name_def encode_with_cache_def cache_get_def
      cache_set_def cache_path_for_def plain_sha_def Let_def dict_simps)

end
