(* ===== verification/Rag_Retrieve.thy ===== *)
theory Rag_Retrieve
  imports Rag_Coarse
begin

text \<open>
  The retrieval pipeline of the library (\<open>longctx/rag/pipeline.py\<close>): candidates ranked by cosine,
  with an optional cross-encoder, and long candidates ranked by their best window. Stacking or
  multiplying no rows raises. An index sort over scores that may be \<open>-inf\<close> is a parameter like
  the others.
\<close>

record rag_env =
  re_coarse :: coarse_env
  re_argsort_x :: "xreal list \<Rightarrow> nat list"
  re_predict :: "((string \<times> string) list \<Rightarrow> real list) option"     \<comment> \<open>the cross-encoder, if there is one\<close>

definition rag_resolve_device :: "bool \<Rightarrow> bool \<Rightarrow> bool option \<Rightarrow> string \<Rightarrow> string" where
  \<comment> \<open>whether torch can be imported, has CUDA, has MPS and can use it\<close>
  "rag_resolve_device torch cuda mps device =
     (if device \<noteq> ''auto'' then device
      else if torch \<and> cuda then ''cuda'' else if torch \<and> mps = Some True then ''mps'' else ''cpu'')"

record retrieval_result =
  rt_indices :: "nat list"
  rt_candidates :: "string list"
  rt_scores :: "real option list"      \<comment> \<open>None: \<open>-inf\<close>\<close>

definition in_order :: "bool \<Rightarrow> nat list \<Rightarrow> 'a list \<Rightarrow> nat list \<times> 'a list" where
  \<comment> \<open>the last step of both retrievals\<close>
  "in_order preserve_order order scores =
     (if preserve_order then let paired = sort_key fst (zip order scores) in (map fst paired, map snd paired) else (order, scores))"

definition cosines_with :: "cache_env \<Rightarrow> string \<Rightarrow> string list \<Rightarrow> embed_cache \<Rightarrow> (exc + real list) \<times> embed_cache" where
  \<comment> \<open>\<open>(embs @ query_emb.T).flatten()\<close>\<close>
  "cosines_with en query texts ca =
     (case encode_with_cache en texts ca of
        (Inl x, ca) \<Rightarrow> (Inl x, ca)
      | (Inr rows, ca) \<Rightarrow>
          (case ce_encode en [query] of
             q # _ \<Rightarrow> (if rows = [] then Inl ValueError else Inr (map (\<lambda>r. dot r q) rows), ca)
           | [] \<Rightarrow> (Inl ValueError, ca)))"

section \<open>\<open>retrieve\<close>\<close>

definition default_retrieve_k :: "int \<Rightarrow> int" where
  "default_retrieve_k top_k = max (top_k * 2) (top_k + 4)"

definition rag_retrieve ::
  "rag_env \<Rightarrow> string \<Rightarrow> string list \<Rightarrow> int \<Rightarrow> int option \<Rightarrow> bool \<Rightarrow> embed_cache \<Rightarrow> (exc + retrieval_result) \<times> embed_cache" where
  "rag_retrieve en query candidates top_k retrieve_k preserve_order ca =
     (let retrieve_k = (case retrieve_k of None \<Rightarrow> default_retrieve_k top_k | Some k \<Rightarrow> k);
          argsort = co_argsort (re_coarse en)
      in case cosines_with (co_cache (re_coarse en)) query candidates ca of
           (Inl x, ca) \<Rightarrow> (Inl x, ca)
         | (Inr sims, ca) \<Rightarrow>
             let (order, scores) = (case re_predict en of
                   None \<Rightarrow> let order = py_take top_k (argsort (map uminus sims)) in (order, map ((!) sims) order)
                 | Some predict \<Rightarrow>
                     if int (length candidates) \<le> retrieve_k
                     then let order = py_take top_k (argsort (map uminus sims)) in (order, map ((!) sims) order)
                     else
                       let stage1 = py_take retrieve_k (argsort (map uminus sims));
                           rerank = predict (map (\<lambda>i. (query, take 2000 (candidates ! i))) stage1);
                           top_within = py_take top_k (argsort (map uminus rerank))
                       in (map ((!) stage1) top_within, map ((!) rerank) top_within));
                 (order, scores) = in_order preserve_order order scores
             in (Inr \<lparr>rt_indices = order, rt_candidates = map ((!) candidates) order, rt_scores = map Some scores\<rparr>, ca))"

section \<open>\<open>retrieve_chunked\<close>\<close>

definition window_size :: "int \<Rightarrow> int" where
  "window_size chunk_size = max (chunk_size * 4) 1"

definition window_stride :: "int \<Rightarrow> int \<Rightarrow> int" where
  \<comment> \<open>the overlap is clamped below the size\<close>
  "window_stride chunk_size chunk_overlap =
     window_size chunk_size - max 0 (min (chunk_overlap * 4) (window_size chunk_size - 1))"

lemma window_stride_pos: "0 < window_stride cs ov"
  by (auto simp: window_stride_def window_size_def max_def min_def)

function message_windows :: "int \<Rightarrow> int \<Rightarrow> string \<Rightarrow> int \<Rightarrow> string list" where
  "message_windows chunk_size chunk_overlap msg start =
     (if int (length msg) \<le> start then []
      else let end_pos = min (start + window_size chunk_size) (int (length msg)) in
        py_slice start end_pos msg #
        (if end_pos = int (length msg) then []
         else message_windows chunk_size chunk_overlap msg (start + window_stride chunk_size chunk_overlap)))"
  by pat_completeness auto
termination
  by (relation "measure (\<lambda>(cs, ov, msg, start). nat (int (length msg) - start))") (auto simp: window_stride_pos)

declare message_windows.simps [simp del]

definition parent_windows :: "int \<Rightarrow> int \<Rightarrow> string list \<Rightarrow> (string \<times> nat) list" where
  "parent_windows chunk_size chunk_overlap candidates =
     concat (map (\<lambda>(p, msg). map (\<lambda>w. (w, p)) (message_windows chunk_size chunk_overlap msg 0)) (enumerate 0 candidates))"

definition coarse_stage ::
  "rag_env \<Rightarrow> string \<Rightarrow> int \<Rightarrow> int option \<Rightarrow> int \<Rightarrow> (string \<times> nat) list \<Rightarrow> embed_cache \<Rightarrow> (exc + (string \<times> nat) list) \<times> embed_cache" where
  \<comment> \<open>above the threshold only the windows kept by the coarse filter stay\<close>
  "coarse_stage en query total_chars threshold top_n ws ca =
     (if (case threshold of None \<Rightarrow> False | Some t \<Rightarrow> t \<le> total_chars) \<and> top_n < int (length ws)
      then
        let cf_chunks = map (\<lambda>(i, w). \<lparr>rc_id = nat_str i, rc_text = fst w, rc_start_offset = 0, rc_end_offset = 0, rc_token_count = 0\<rparr>)
              (enumerate 0 ws)
        in case coarse_filter ((re_coarse en)\<lparr>co_rrf_k := 60\<rparr>) cf_chunks query top_n 1 1 ca of
             (Inl x, ca) \<Rightarrow> (Inl x, ca)
           | (Inr kept, ca) \<Rightarrow> (Inr (map snd (filter (\<lambda>(i, w). nat_str i \<in> set (map (rc_id \<circ> fst) kept)) (enumerate 0 ws))), ca)
      else (Inr ws, ca))"

definition best_per_parent :: "nat \<Rightarrow> nat list \<Rightarrow> real list \<Rightarrow> real option list" where
  \<comment> \<open>starting from \<open>-inf\<close>, a greater similarity replaces the best so far\<close>
  "best_per_parent n_parents parents sims =
     fold (\<lambda>(p, s) best. if (case best ! p of None \<Rightarrow> True | Some b \<Rightarrow> b < s) then best[p := Some s] else best)
       (zip parents sims) (replicate n_parents None)"

definition cost_of :: "real option \<Rightarrow> xreal" where
  \<comment> \<open>the negated score\<close>
  "cost_of s = (case s of None \<Rightarrow> PInf | Some x \<Rightarrow> Fin (- x))"

definition retrieve_chunked ::
  "rag_env \<Rightarrow> string \<Rightarrow> string list \<Rightarrow> int \<Rightarrow> int \<Rightarrow> int \<Rightarrow> bool \<Rightarrow> int option \<Rightarrow> int \<Rightarrow> embed_cache \<Rightarrow> (exc + retrieval_result) \<times> embed_cache" where
  "retrieve_chunked en query candidates top_k chunk_size chunk_overlap preserve_order threshold top_n ca =
     (let ws = parent_windows chunk_size chunk_overlap candidates;
          total_chars = int (sum_list (map length candidates))
      in case coarse_stage en query total_chars threshold top_n ws ca of
           (Inl x, ca) \<Rightarrow> (Inl x, ca)
         | (Inr ws, ca) \<Rightarrow>
             (case cosines_with (co_cache (re_coarse en)) query (map fst ws) ca of
                (Inl x, ca) \<Rightarrow> (Inl x, ca)
              | (Inr sims, ca) \<Rightarrow>
                  let best = best_per_parent (length candidates) (map snd ws) sims;
                      order = py_take top_k (re_argsort_x en (map cost_of best));
                      (order, scores) = in_order preserve_order order (map ((!) best) order)
                  in (Inr \<lparr>rt_indices = order, rt_candidates = map ((!) candidates) order, rt_scores = scores\<rparr>, ca)))"

section \<open>The windows cover the message\<close>

fun stitched :: "int \<Rightarrow> string list \<Rightarrow> string" where
  \<comment> \<open>each window without the part it shares with the one before\<close>
  "stitched stride [] = []"
| "stitched stride [w] = w"
| "stitched stride (w # v # ws) = take (nat stride) w @ stitched stride (v # ws)"

lemma message_windows_cover:
  "0 \<le> start \<Longrightarrow> start < int (length msg) \<Longrightarrow>
   stitched (window_stride cs ov) (message_windows cs ov msg start) = drop (nat start) msg
   \<and> message_windows cs ov msg start \<noteq> []
   \<and> (\<forall>w \<in> set (message_windows cs ov msg start). w \<noteq> [] \<and> int (length w) \<le> window_size cs \<and> sublist w msg)"
proof (induction cs ov msg start rule: message_windows.induct)
  case (1 cs ov msg start)
  let ?n = "int (length msg)" and ?e = "min (start + window_size cs) (int (length msg))"
  let ?w = "py_slice start ?e msg"
  have size: "1 \<le> window_size cs" by (simp add: window_size_def)
  have e: "start < ?e" "?e \<le> ?n" "?e - start \<le> window_size cs" using 1(2,3) size by auto
  have len: "int (length ?w) = ?e - start" using 1(2) e by (simp add: length_py_slice)
  then have w: "?w \<noteq> []" "int (length ?w) \<le> window_size cs" "sublist ?w msg" using e py_slice_sublist by auto
  have slice: "?w = take (nat ?e - nat start) (drop (nat start) msg)" using 1(2) e by (simp add: py_slice_in)
  show ?case
  proof (cases "?e = ?n")
    case True
    then have m: "message_windows cs ov msg start = [?w]" using 1(3) by (subst message_windows.simps) (simp add: Let_def)
    have "?w = drop (nat start) msg" using True slice by simp
    then show ?thesis using w by (simp add: m)
  next
    case False
    let ?s = "start + window_stride cs ov"
    have m: "message_windows cs ov msg start = ?w # message_windows cs ov msg ?s"
      by (subst message_windows.simps, unfold Let_def, subst if_not_P, use 1(3) in linarith, subst if_not_P, rule False, rule refl)
    have stride: "0 < window_stride cs ov" "window_stride cs ov \<le> window_size cs"
      using window_stride_pos by (auto simp: window_stride_def)
    then have s: "0 \<le> ?s" "?s < ?n" using 1(2) False e by auto
    note ih = 1(1) [OF _ refl False s]
    obtain v vs where v: "message_windows cs ov msg ?s = v # vs" using ih 1(3) by (metis neq_Nil_conv not_le)
    have "take (nat (window_stride cs ov)) ?w = take (nat (window_stride cs ov)) (drop (nat start) msg)"
      unfolding slice using stride False 1(2) by (simp add: min_def nat_add_distrib split: if_splits)
    moreover have "take (nat (window_stride cs ov)) (drop (nat start) msg) @ drop (nat ?s) msg = drop (nat start) msg"
      using stride 1(2) by (simp add: nat_add_distrib) (metis add.commute append_take_drop_id drop_drop)
    ultimately show ?thesis using ih w 1(3) by (simp add: m v)
  qed
qed

section \<open>The best window decides\<close>

definition best_score :: "real option \<Rightarrow> real list \<Rightarrow> real option" where
  "best_score b ss = (if ss = [] then b else Some (case b of None \<Rightarrow> Max (set ss) | Some x \<Rightarrow> max x (Max (set ss))))"

lemma best_score_Cons: "best_score b (s # ss) = best_score (if (case b of None \<Rightarrow> True | Some x \<Rightarrow> x < s) then Some s else b) ss"
  by (cases "ss = []"; cases b) (auto simp: best_score_def max_def)

lemma best_fold:
  "p < length best \<Longrightarrow>
   fold (\<lambda>(p, s) best. if (case best ! p of None \<Rightarrow> True | Some b \<Rightarrow> b < s) then best[p := Some s] else best) ps best ! p
   = best_score (best ! p) (map snd (filter (\<lambda>x. fst x = p) ps))"
proof (induction ps arbitrary: best)
  case (Cons x ps)
  obtain q s where x: "x = (q, s)" by fastforce
  show ?case using Cons.prems
    by (cases "q = p") (simp_all add: x Cons.IH best_score_Cons)
qed (simp add: best_score_def)

lemma best_per_parent_nth:
  "p < n \<Longrightarrow> length ps = length ss \<Longrightarrow>
   best_per_parent n ps ss ! p = best_score None (map snd (filter (\<lambda>x. fst x = p) (zip ps ss)))"
  by (simp add: best_per_parent_def best_fold)

lemma length_best_per_parent: "length (best_per_parent n ps ss) = n"
proof -
  have "length (fold (\<lambda>(p, s) best. if (case best ! p of None \<Rightarrow> True | Some b \<Rightarrow> b < s) then best[p := Some s] else best) xs b) = length b"
    for xs and b :: "real option list"
    by (induction xs arbitrary: b) auto
  then show ?thesis by (simp add: best_per_parent_def)
qed

definition parent_score :: "(string \<Rightarrow> real) \<Rightarrow> int \<Rightarrow> int \<Rightarrow> string \<Rightarrow> real option" where
  \<comment> \<open>the similarity of the best window; None, that is \<open>-inf\<close>, for an empty text\<close>
  "parent_score sim cs ov msg = best_score None (map sim (message_windows cs ov msg 0))"

lemma parent_windows_of:
  "p < length ms \<Longrightarrow>
   map sim (map fst (filter (\<lambda>x. snd x = p + k) (concat (map (\<lambda>(p, msg). map (\<lambda>w. (w, p)) (message_windows cs ov msg 0)) (enumerate k ms)))))
   = map sim (message_windows cs ov (ms ! p) 0)"
proof (induction ms arbitrary: p k)
  case (Cons m ms)
  have none: "filter (\<lambda>x. snd x = j) (concat (map (\<lambda>(p, msg). map (\<lambda>w. (w, p)) (f msg)) (enumerate i xs))) = []"
    if "j < i" for j i and f :: "string \<Rightarrow> string list" and xs
    using that by (auto simp: filter_empty_conv in_set_enumerate_eq)
  show ?case
  proof (cases p)
    case 0
    then show ?thesis using none [of k "Suc k"] by (simp add: comp_def)
  next
    case (Suc p')
    then show ?thesis using Cons.IH [of p' "Suc k"] Cons.prems by (simp add: filter_empty_conv)
  qed
qed simp

lemma in_order_result:
  assumes "distinct order" "length scores = length order"
  shows "case in_order b order scores of (order', scores') \<Rightarrow> mset order' = mset order
    \<and> (b \<longrightarrow> sorted order') \<and> (\<not> b \<longrightarrow> order' = order) \<and> (scores = map f order \<longrightarrow> scores' = map f order')"
proof -
  have "snd p = f (fst p)" if "p \<in> set (sort_key fst (zip order (map f order)))" for p
    using that by (auto simp: in_set_zip)
  then have "map snd (sort_key fst (zip order (map f order))) = map f (map fst (sort_key fst (zip order (map f order))))"
    by simp
  moreover have "mset (map fst (sort_key fst (zip order scores))) = mset order"
    using assms(2) by (simp only: mset_map mset_sort) (simp flip: mset_map)
  ultimately show ?thesis by (auto simp: in_order_def Let_def)
qed

definition best_first :: "'a::linorder list \<Rightarrow> nat list \<Rightarrow> bool" where
  \<comment> \<open>distinct indices, and what is left out costs no less\<close>
  "best_first cost picks \<longleftrightarrow> distinct picks \<and> set picks \<subseteq> {0..<length cost}
     \<and> (\<forall>i \<in> set picks. \<forall>j \<in> {0..<length cost} - set picks. cost ! i \<le> cost ! j)"

lemma argsort_take:
  assumes "argsort_ok f"
  shows "best_first xs (take k (f xs)) \<and> sorted (map ((!) xs) (take k (f xs))) \<and> length (take k (f xs)) = min k (length xs)"
proof -
  have s: "sorted (map ((!) xs) (f xs))" using assms by (simp add: argsort_ok_def)
  note perm = argsort_perm [OF assms, of xs]
  have "sorted_wrt (\<lambda>i j. xs ! i \<le> xs ! j) (take k (f xs) @ drop k (f xs))" using s by (simp add: sorted_map)
  then have le: "xs ! i \<le> xs ! j" if "i \<in> set (take k (f xs))" "j \<in> set (drop k (f xs))" for i j
    using that by (simp only: sorted_wrt_append)
  have rest: "j \<in> set (drop k (f xs))" if "j \<in> {0..<length xs} - set (take k (f xs))" for j
    using that perm append_take_drop_id [of k "f xs"] by (metis DiffE Un_iff set_append)
  have "set (take k (f xs)) \<subseteq> {0..<length xs}" using perm set_take_subset by fastforce
  then have "best_first xs (take k (f xs))" using perm le rest by (simp add: best_first_def)
  moreover have "sorted (map ((!) xs) (take k (f xs)))" using s by (simp add: take_map [symmetric] sorted_wrt_take)
  moreover have "length (take k (f xs)) = min k (length xs)" using perm by simp
  ultimately show ?thesis by blast
qed

lemma best_first_mset: "mset p = mset q \<Longrightarrow> best_first cost p = best_first cost q"
  using mset_eq_imp_distinct_iff [of p q] mset_eq_setD [of p q] by (simp add: best_first_def)

definition encode_one :: "cache_env \<Rightarrow> string \<Rightarrow> vec" where
  "encode_one en t = hd (ce_encode en [t])"

definition similarity :: "rag_env \<Rightarrow> string \<Rightarrow> string \<Rightarrow> real" where
  "similarity en query t = dot (encode_one (co_cache (re_coarse en)) t) (encode_one (co_cache (re_coarse en)) query)"

lemma cosines_with_ok:
  assumes "cache_env_ok (co_cache (re_coarse en))" "cache_sound (co_cache (re_coarse en)) ca" "texts \<noteq> []"
  shows "\<exists>ca'. cosines_with (co_cache (re_coarse en)) query texts ca = (Inr (map (similarity en query) texts), ca')
    \<and> cache_sound (co_cache (re_coarse en)) ca'"
proof -
  let ?en = "co_cache (re_coarse en)"
  obtain e where e: "ce_encode ?en = map e" using assms(1) by (auto simp: cache_env_ok_def)
  note t = encode_with_cache_ok [OF assms(1,2) disjI1 [OF assms(3)]]
  obtain res ca' where r: "encode_with_cache ?en texts ca = (res, ca')" by fastforce
  with t have "res = Inr (map e texts)" "cache_sound ?en ca'" by (simp_all add: e)
  then show ?thesis using r assms(3)
    by (simp add: cosines_with_def e comp_def) (simp add: similarity_def encode_one_def e)
qed

definition window_score :: "rag_env \<Rightarrow> string \<Rightarrow> int \<Rightarrow> int \<Rightarrow> string \<Rightarrow> real option" where
  \<comment> \<open>the similarity of the best window of a text, None (\<open>-inf\<close>) for the empty text\<close>
  "window_score en query chunk_size chunk_overlap msg =
     parent_score (similarity en query) chunk_size chunk_overlap msg"

lemma best_per_parent_windows:
  "best_per_parent (length cs) (map snd (parent_windows sz ov cs)) (map sim (map fst (parent_windows sz ov cs)))
   = map (parent_score sim sz ov) cs"
proof (rule nth_equalityI)
  fix p assume "p < length (best_per_parent (length cs) (map snd (parent_windows sz ov cs)) (map sim (map fst (parent_windows sz ov cs))))"
  then have p: "p < length cs" by (simp add: length_best_per_parent)
  have "map snd (filter (\<lambda>x. fst x = p) (zip (map snd ws) (map sim (map fst ws)))) = map sim (map fst (filter (\<lambda>x. snd x = p) ws))"
    for ws :: "(string \<times> nat) list"
    by (induction ws) auto
  then show "best_per_parent (length cs) (map snd (parent_windows sz ov cs)) (map sim (map fst (parent_windows sz ov cs))) ! p
      = map (parent_score sim sz ov) cs ! p"
    using p parent_windows_of [OF p, of sim 0 sz ov]
    by (simp only: best_per_parent_nth length_map parent_windows_def [symmetric] nth_map parent_score_def add_0_right)
qed (simp add: length_best_per_parent)

lemma parent_windows_nonempty: "c \<in> set cs \<Longrightarrow> c \<noteq> [] \<Longrightarrow> parent_windows sz ov cs \<noteq> []"
proof -
  assume c: "c \<in> set cs" "c \<noteq> []"
  then obtain i where "i < length cs" "cs ! i = c" by (auto simp: in_set_conv_nth)
  then have "(i, c) \<in> set (enumerate 0 cs)" by (auto simp: in_set_enumerate_eq)
  moreover have "message_windows sz ov c 0 \<noteq> []" using message_windows_cover [of 0 c sz ov] c(2) by simp
  ultimately show ?thesis by (force simp: parent_windows_def)
qed

text \<open>
  C22: long candidates are ranked by their best window. Without the coarse stage (no threshold, or a
  text below it), with an encoder that works text by text, a sound cache and at least one candidate
  with text, \<open>retrieve_chunked\<close> returns distinct candidates, \<open>top_k\<close> of them or all, each with the
  similarity of its best window to the query; no candidate left out has a better one. They come
  in their original order if that is asked for, and best first otherwise.
\<close>

theorem retrieve_chunked_best:
  assumes "cache_env_ok (co_cache (re_coarse en))" "argsort_ok (re_argsort_x en)" "cache_sound (co_cache (re_coarse en)) ca"
    "\<exists>c \<in> set candidates. c \<noteq> []" "0 \<le> top_k"
    "threshold = None \<or> int (sum_list (map length candidates)) < the threshold"
  shows "\<exists>picks ca'. retrieve_chunked en query candidates top_k chunk_size chunk_overlap preserve_order threshold top_n ca
      = (Inr \<lparr>rt_indices = picks, rt_candidates = map ((!) candidates) picks,
             rt_scores = map (\<lambda>i. window_score en query chunk_size chunk_overlap (candidates ! i)) picks\<rparr>, ca')
    \<and> best_first (map (cost_of \<circ> window_score en query chunk_size chunk_overlap) candidates) picks
    \<and> length picks = min (nat top_k) (length candidates)
    \<and> (if preserve_order then sorted picks
       else sorted (map (\<lambda>i. cost_of (window_score en query chunk_size chunk_overlap (candidates ! i))) picks))"
proof -
  let ?score = "window_score en query chunk_size chunk_overlap" and ?ws = "parent_windows chunk_size chunk_overlap candidates"
  define order where "order = take (nat top_k) (re_argsort_x en (map (cost_of \<circ> ?score) candidates))"
  note o = argsort_take [OF assms(2), of "map (cost_of \<circ> ?score) candidates" "nat top_k", folded order_def]
  have dom: "i < length candidates" if "i \<in> set order" for i using o that by (auto simp: best_first_def)
  have ws: "map fst ?ws \<noteq> []" using assms(4) parent_windows_nonempty by blast
  obtain ca' where sims: "cosines_with (co_cache (re_coarse en)) query (map fst ?ws) ca = (Inr (map (similarity en query) (map fst ?ws)), ca')"
    using cosines_with_ok [OF assms(1,3) ws] by blast
  have coarse: "coarse_stage en query (int (sum_list (map length candidates))) threshold top_n ?ws ca = (Inr ?ws, ca)"
    using assms(6) by (auto simp: coarse_stage_def split: option.splits)
  have best: "best_per_parent (length candidates) (map snd ?ws) (map (similarity en query) (map fst ?ws)) = map ?score candidates"
    unfolding best_per_parent_windows by (simp add: window_score_def fun_eq_iff)
  have scores: "map ((!) (map ?score candidates)) order = map (\<lambda>i. ?score (candidates ! i)) order" using dom by simp
  obtain picks scores' where io: "in_order preserve_order order (map (\<lambda>i. ?score (candidates ! i)) order) = (picks, scores')"
    by fastforce
  have r: "mset picks = mset order" "preserve_order \<longrightarrow> sorted picks" "\<not> preserve_order \<longrightarrow> picks = order"
      "scores' = map (\<lambda>i. ?score (candidates ! i)) picks"
    using in_order_result [of order "map (\<lambda>i. ?score (candidates ! i)) order" preserve_order "\<lambda>i. ?score (candidates ! i)"] o io
    by (auto simp: best_first_def)
  have take: "py_take top_k (re_argsort_x en (map cost_of (map ?score candidates))) = order"
    using assms(5) by (simp add: py_take_def order_def)
  have "retrieve_chunked en query candidates top_k chunk_size chunk_overlap preserve_order threshold top_n ca
      = (Inr \<lparr>rt_indices = picks, rt_candidates = map ((!) candidates) picks, rt_scores = scores'\<rparr>, ca')"
    unfolding retrieve_chunked_def Let_def coarse
    by (simp only: prod.case sum.case sims best take scores io)
  moreover have "best_first (map (cost_of \<circ> ?score) candidates) picks" using o by (simp add: best_first_mset [OF r(1)])
  moreover have "length picks = min (nat top_k) (length candidates)" using mset_eq_length [OF r(1)] o by simp
  moreover have "sorted (map (\<lambda>i. cost_of (?score (candidates ! i))) order)"
    using o dom by (simp cong: map_cong)
  ultimately show ?thesis using r by auto
qed

text \<open>
  Two-stage retrieval. With a cross-encoder that scores pair by pair and more candidates than
  the first stage keeps, the candidates returned are among the \<open>retrieve_k\<close> most similar to the
  query, \<open>top_k\<close> of those or all; each comes with the cross-encoder's score of the query and its
  first 2000 characters, and no candidate the first stage kept and the second left out scores
  higher. They come in their original order if that is asked for.
\<close>

lemma retrieve_two_stages:
  assumes "cache_env_ok (co_cache (re_coarse en))" "argsort_ok (co_argsort (re_coarse en))" "cache_sound (co_cache (re_coarse en)) ca"
    "re_predict en = Some (map score)" "0 \<le> top_k" "0 \<le> retrieve_k" "retrieve_k < int (length candidates)"
  shows "\<exists>stage1 picks ca'. rag_retrieve en query candidates top_k (Some retrieve_k) preserve_order ca
      = (Inr \<lparr>rt_indices = picks, rt_candidates = map ((!) candidates) picks,
             rt_scores = map (\<lambda>i. Some (score (query, take 2000 (candidates ! i)))) picks\<rparr>, ca')
    \<and> best_first (map (\<lambda>c. - similarity en query c) candidates) stage1 \<and> length stage1 = nat retrieve_k
    \<and> distinct picks \<and> set picks \<subseteq> set stage1 \<and> length picks = min (nat top_k) (nat retrieve_k)
    \<and> (\<forall>i \<in> set picks. \<forall>j \<in> set stage1 - set picks.
         score (query, take 2000 (candidates ! j)) \<le> score (query, take 2000 (candidates ! i)))
    \<and> (preserve_order \<longrightarrow> sorted picks)"
proof -
  let ?sims = "map (similarity en query) candidates"
  let ?g = "\<lambda>i. score (query, take 2000 (candidates ! i))"
  let ?argsort = "co_argsort (re_coarse en)"
  have "candidates \<noteq> []" using assms(6,7) by auto
  then obtain ca' where sims: "cosines_with (co_cache (re_coarse en)) query candidates ca = (Inr ?sims, ca')"
    using cosines_with_ok [OF assms(1,3)] by blast
  define stage1 where "stage1 = take (nat retrieve_k) (?argsort (map uminus ?sims))"
  define rerank where "rerank = map ?g stage1"
  define top_within where "top_within = take (nat top_k) (?argsort (map uminus rerank))"
  define order where "order = map ((!) stage1) top_within"
  note o1 = argsort_take [OF assms(2), of "map uminus ?sims" "nat retrieve_k", folded stage1_def]
  note o2 = argsort_take [OF assms(2), of "map uminus rerank" "nat top_k", folded top_within_def]
  have len1: "length stage1 = nat retrieve_k" using o1 assms(7) by simp
  have dist1: "distinct stage1" using o1 by (simp add: best_first_def)
  have dom: "i < length stage1" if "i \<in> set top_within" for i using o2 that by (auto simp: best_first_def rerank_def)
  have scores: "map ((!) rerank) top_within = map ?g order"
    using dom by (simp add: rerank_def order_def)
  have dist: "distinct order"
    using o2 dom dist1 by (auto simp: order_def distinct_map best_first_def inj_on_def nth_eq_iff_index_eq)
  have sub: "set order \<subseteq> set stage1" using dom by (auto simp: order_def)
  have out: "?g j \<le> ?g i" if i: "i \<in> set order" and j: "j \<in> set stage1 - set order" for i j
  proof -
    obtain a where a: "a \<in> set top_within" "i = stage1 ! a" using i by (auto simp: order_def)
    obtain b where b: "b < length stage1" "j = stage1 ! b" using j by (auto simp: in_set_conv_nth [of _ stage1])
    then have "b \<notin> set top_within" using j by (auto simp: order_def)
    with a b show ?thesis using o2 dom by (auto simp: best_first_def rerank_def)
  qed
  obtain picks scores' where io: "in_order preserve_order order (map ?g order) = (picks, scores')" by fastforce
  have r: "mset picks = mset order" "preserve_order \<longrightarrow> sorted picks" "scores' = map ?g picks"
    using in_order_result [OF dist, of "map ?g order" preserve_order ?g] io by auto
  have set: "set picks = set order" "distinct picks" "length picks = length order"
    using r(1) dist mset_eq_setD mset_eq_imp_distinct_iff mset_eq_length by blast+
  have "length order = min (nat top_k) (nat retrieve_k)" using o2 len1 by (simp add: order_def rerank_def)
  moreover have "rag_retrieve en query candidates top_k (Some retrieve_k) preserve_order ca
      = (Inr \<lparr>rt_indices = picks, rt_candidates = map ((!) candidates) picks, rt_scores = map (\<lambda>i. Some (?g i)) picks\<rparr>, ca')"
  proof -
    have "py_take retrieve_k (?argsort (map uminus ?sims)) = stage1" "py_take top_k (?argsort (map uminus rerank)) = top_within"
      using assms(5,6) by (simp_all add: py_take_def stage1_def top_within_def)
    moreover have "map score (map (\<lambda>i. (query, take 2000 (candidates ! i))) stage1) = rerank" by (simp add: rerank_def)
    moreover have "\<not> int (length candidates) \<le> retrieve_k" using assms(7) by simp
    ultimately have "fst (rag_retrieve en query candidates top_k (Some retrieve_k) preserve_order ca)
        = Inr \<lparr>rt_indices = picks, rt_candidates = map ((!) candidates) picks, rt_scores = map Some scores'\<rparr>
      \<and> snd (rag_retrieve en query candidates top_k (Some retrieve_k) preserve_order ca) = ca'"
      unfolding rag_retrieve_def Let_def
      by (simp only: option.case sims sum.case prod.case assms(4) if_False order_def [symmetric] scores io fst_conv snd_conv)
    then show ?thesis by (simp add: prod_eq_iff r(3))
  qed
  moreover have "best_first (map (\<lambda>c. - similarity en query c) candidates) stage1" using o1 by (simp add: comp_def)
  ultimately show ?thesis using len1 set sub out r(2) by auto
qed

section \<open>Witnesses\<close>

definition demo_rag :: rag_env where
  "demo_rag = \<lparr>re_coarse = demo_coarse, re_argsort_x = stable_argsort, re_predict = Some (map (\<lambda>(q, d). real (length d)))\<rparr>"

lemma demo_rag_ok: "cache_env_ok (co_cache (re_coarse demo_rag))" "argsort_ok (re_argsort_x demo_rag)"
    "argsort_ok (co_argsort (re_coarse demo_rag))" "cache_sound (co_cache (re_coarse demo_rag)) empty_cache"
  using demo_coarse_ok by (simp_all add: demo_rag_def coarse_env_ok_def stable_argsort_ok)

theorem retrieve_chunked_best_witness:
  "\<exists>r ca'. retrieve_chunked demo_rag ''q'' [''abcdefgh'', [], ''xy''] 2 1 0 True (Some 400000) 1000 empty_cache = (Inr r, ca')
    \<and> length (rt_indices r) = 2 \<and> sorted (rt_indices r)"
  using retrieve_chunked_best [OF demo_rag_ok(1,2,4), of "[''abcdefgh'', [], ''xy'']" 2 "Some 400000" "''q''" 1 0 True 1000] by auto

lemma retrieve_two_stages_witness:
  "\<exists>r ca'. rag_retrieve demo_rag ''q'' [''abcdefgh'', ''a'', ''xy''] 1 (Some 2) True empty_cache = (Inr r, ca') \<and> length (rt_indices r) = 1"
  using retrieve_two_stages [OF demo_rag_ok(1,3,4), of _ 1 2 "[''abcdefgh'', ''a'', ''xy'']" "''q''" True]
  by (fastforce simp: demo_rag_def)

end
