(* ===== verification/Dmn_Sqlite.thy ===== *)
theory Dmn_Sqlite
  imports LC_Rank
begin

text \<open>
  The chunk store of the daemon (\<open>longctx_daemon/storage/sqlite_store.py\<close>): projects, files and
  chunks in SQLite tables, and a BM25 index over the chunk texts that is built when a search needs
  it and pickled beside the database. A table is the list of its rows; the constraints of the
  schema (primary keys, uniqueness, foreign keys with cascading deletes) are the guards of the
  statements, and a row without an id gets the greatest id plus one, as SQLite assigns it.
  The connection is in autocommit mode and no statement opens a transaction, so the statements of
  a batch are committed one by one. The schema migration, the version check and file modes are
  left out.
\<close>

section \<open>Rows\<close>

record project =
  pj_name :: string
  pj_root_path :: string
  pj_last_full_scan_at :: int
  pj_session_id :: "string option"

record file_record =
  fl_id :: nat                          \<comment> \<open>0: to be assigned\<close>
  fl_project :: string
  fl_rel_path :: string
  fl_mtime :: int
  fl_size_bytes :: int
  fl_content_hash :: string

record chunk_record =
  cn_id :: nat                          \<comment> \<open>0: to be assigned\<close>
  cn_file_id :: nat
  cn_chunk_index :: nat
  cn_start_offset :: int
  cn_end_offset :: int
  cn_start_line :: nat
  cn_end_line :: nat
  cn_token_count :: int
  cn_content_hash :: string
  cn_text :: string
  cn_embedder_model :: string
  cn_embedder_sha256 :: string
  cn_embedding_row :: "nat option"

record scope_filter =
  sf_project :: "string option"
  sf_project_in :: "string list option"

record bm25_snapshot =
  bs_chunk_count :: nat
  bs_corpus_digest :: string
  bs_chunk_ids :: "nat list"

text \<open>A \<open>BM25Okapi\<close> object is the corpus it was built from.\<close>

record chunk_store =
  cs_projects :: "project list"
  cs_files :: "file_record list"
  cs_chunks :: "chunk_record list"
  cs_bm25 :: "string list list option"
  cs_bm25_chunk_ids :: "nat list"
  cs_bm25_dirty :: bool
  cs_pickle :: "(bm25_snapshot \<times> string list list) option"   \<comment> \<open>the readable pickle\<close>

record sqlite_env =
  se_bm25_builds :: "string list list \<Rightarrow> bool"     \<comment> \<open>\<open>BM25Okapi(corpus)\<close> returns; else it divides by zero (as when no document has a word)\<close>
  se_bm25_scores :: "string list list \<Rightarrow> string list \<Rightarrow> real list"
  se_sha256 :: "string \<Rightarrow> string"
  se_argpartition :: "xreal list \<Rightarrow> nat \<Rightarrow> nat list"
  se_argsort :: "xreal list \<Rightarrow> nat list"
  se_pickle_writable :: bool

definition sql_in_batch :: nat where "sql_in_batch = 500"

function ibatched :: "nat \<Rightarrow> 'a list \<Rightarrow> 'a list list" where
  "ibatched n xs = (if n = 0 \<or> xs = [] then [] else take n xs # ibatched n (drop n xs))"
  by pat_completeness auto
termination by (relation "measure (\<lambda>(n, xs). length xs)") auto

declare ibatched.simps [simp del]

definition next_id :: "nat list \<Rightarrow> nat" where
  "next_id ids = Suc (fold max ids 0)"

definition sql_word_tokenize :: "string \<Rightarrow> string list" where
  "sql_word_tokenize t = runs_of is_word (py_lower t)"

section \<open>Projects\<close>

definition upsert_project :: "project \<Rightarrow> chunk_store \<Rightarrow> (exc + unit) \<times> chunk_store" where
  \<comment> \<open>\<open>root_path\<close> is unique too\<close>
  "upsert_project p st =
     (if list_ex (\<lambda>q. pj_root_path q = pj_root_path p \<and> pj_name q \<noteq> pj_name p) (cs_projects st) then (Inl IntegrityError, st)
      else if pj_name p \<in> set (map pj_name (cs_projects st))
      then (Inr (), st\<lparr>cs_projects := map (\<lambda>q. if pj_name q = pj_name p then p else q) (cs_projects st)\<rparr>)
      else (Inr (), st\<lparr>cs_projects := cs_projects st @ [p]\<rparr>))"

definition get_project :: "string \<Rightarrow> chunk_store \<Rightarrow> project option" where
  "get_project name st = find (\<lambda>p. pj_name p = name) (cs_projects st)"

definition list_projects :: "chunk_store \<Rightarrow> project list" where
  "list_projects st = sort_key pj_name (cs_projects st)"

definition drop_files :: "(file_record \<Rightarrow> bool) \<Rightarrow> chunk_store \<Rightarrow> chunk_store" where
  \<comment> \<open>deleting files deletes their chunks\<close>
  "drop_files P st =
     (let gone = map fl_id (filter P (cs_files st))
      in st\<lparr>cs_files := filter (\<lambda>f. \<not> P f) (cs_files st), cs_chunks := filter (\<lambda>c. cn_file_id c \<notin> set gone) (cs_chunks st)\<rparr>)"

definition delete_project :: "string \<Rightarrow> chunk_store \<Rightarrow> chunk_store" where
  "delete_project name st =
     (drop_files (\<lambda>f. fl_project f = name) (st\<lparr>cs_projects := filter (\<lambda>p. pj_name p \<noteq> name) (cs_projects st)\<rparr>))\<lparr>cs_bm25_dirty := True\<rparr>"

section \<open>Files\<close>

definition get_file :: "string \<Rightarrow> string \<Rightarrow> chunk_store \<Rightarrow> file_record option" where
  "get_file project rel_path st = find (\<lambda>f. fl_project f = project \<and> fl_rel_path f = rel_path) (cs_files st)"

definition upsert_file :: "file_record \<Rightarrow> chunk_store \<Rightarrow> (exc + nat) \<times> chunk_store" where
  "upsert_file f st =
     (case get_file (fl_project f) (fl_rel_path f) st of
        Some g \<Rightarrow> (Inr (fl_id g), st\<lparr>cs_files := map (\<lambda>r. if fl_id r = fl_id g
             then r\<lparr>fl_mtime := fl_mtime f, fl_size_bytes := fl_size_bytes f, fl_content_hash := fl_content_hash f\<rparr> else r) (cs_files st)\<rparr>)
      | None \<Rightarrow>
          if fl_id f \<noteq> 0 \<and> fl_id f \<in> set (map fl_id (cs_files st)) then (Inl IntegrityError, st)
          else if fl_project f \<notin> set (map pj_name (cs_projects st)) then (Inl IntegrityError, st)
          else let i = (if fl_id f \<noteq> 0 then fl_id f else next_id (map fl_id (cs_files st)))
               in (Inr i, st\<lparr>cs_files := cs_files st @ [f\<lparr>fl_id := i\<rparr>]\<rparr>))"

definition list_files :: "string option \<Rightarrow> chunk_store \<Rightarrow> file_record list" where
  "list_files project st =
     (case project of
        None \<Rightarrow> sort_key (\<lambda>f. (fl_project f, fl_rel_path f)) (cs_files st)
      | Some p \<Rightarrow> sort_key fl_rel_path (filter (\<lambda>f. fl_project f = p) (cs_files st)))"

definition delete_file :: "nat \<Rightarrow> chunk_store \<Rightarrow> chunk_store" where
  "delete_file file_id st = (drop_files (\<lambda>f. fl_id f = file_id) st)\<lparr>cs_bm25_dirty := True\<rparr>"

definition rename_file :: "nat \<Rightarrow> string \<Rightarrow> int \<Rightarrow> chunk_store \<Rightarrow> (exc + unit) \<times> chunk_store" where
  "rename_file file_id new_rel_path mtime st =
     (case find (\<lambda>f. fl_id f = file_id) (cs_files st) of
        None \<Rightarrow> (Inr (), st)
      | Some r \<Rightarrow>
          if list_ex (\<lambda>f. fl_project f = fl_project r \<and> fl_rel_path f = new_rel_path \<and> fl_id f \<noteq> file_id) (cs_files st)
          then (Inl IntegrityError, st)
          else (Inr (), st\<lparr>cs_files := map (\<lambda>f. if fl_id f = file_id then f\<lparr>fl_rel_path := new_rel_path, fl_mtime := mtime\<rparr> else f) (cs_files st)\<rparr>))"

definition get_file_by_id :: "nat \<Rightarrow> chunk_store \<Rightarrow> file_record option" where
  "get_file_by_id file_id st = find (\<lambda>f. fl_id f = file_id) (cs_files st)"

section \<open>Chunks\<close>

definition upsert_chunk :: "chunk_record \<Rightarrow> chunk_store \<Rightarrow> (exc + unit) \<times> chunk_store" where
  "upsert_chunk c st =
     (if cn_file_id c \<notin> set (map fl_id (cs_files st)) then (Inl IntegrityError, st)
      else if cn_id c \<noteq> 0 \<and> cn_id c \<in> set (map cn_id (cs_chunks st))
      then (Inr (), st\<lparr>cs_chunks := map (\<lambda>r. if cn_id r = cn_id c then c else r) (cs_chunks st)\<rparr>)
      else let i = (if cn_id c \<noteq> 0 then cn_id c else next_id (map cn_id (cs_chunks st)))
           in (Inr (), st\<lparr>cs_chunks := cs_chunks st @ [c\<lparr>cn_id := i\<rparr>]\<rparr>))"

fun upsert_each :: "chunk_record list \<Rightarrow> chunk_store \<Rightarrow> (exc + unit) \<times> chunk_store" where
  \<comment> \<open>\<open>executemany\<close>: the first failing statement ends it, the rows before stay\<close>
  "upsert_each [] st = (Inr (), st)"
| "upsert_each (c # cs) st = (case upsert_chunk c st of (Inl x, st) \<Rightarrow> (Inl x, st) | (Inr u, st) \<Rightarrow> upsert_each cs st)"

definition upsert_chunks :: "chunk_record list \<Rightarrow> chunk_store \<Rightarrow> (exc + unit) \<times> chunk_store" where
  "upsert_chunks chunks st =
     (if chunks = [] then (Inr (), st)
      else case upsert_each chunks st of
             (Inl x, st) \<Rightarrow> (Inl x, st)
           | (Inr u, st) \<Rightarrow> (Inr (), st\<lparr>cs_bm25_dirty := True\<rparr>))"

definition rows_by_id :: "chunk_store \<Rightarrow> chunk_record list" where
  \<comment> \<open>the order of the table, and \<open>ORDER BY id\<close>\<close>
  "rows_by_id st = sort_key cn_id (cs_chunks st)"

definition get_chunks_by_file :: "nat \<Rightarrow> chunk_store \<Rightarrow> chunk_record list" where
  "get_chunks_by_file file_id st = sort_key cn_chunk_index (filter (\<lambda>c. cn_file_id c = file_id) (cs_chunks st))"

definition get_chunks_by_id :: "nat list \<Rightarrow> chunk_store \<Rightarrow> chunk_record list" where
  "get_chunks_by_id ids st =
     (let by_id = fold (\<lambda>batch d. fold (\<lambda>c. dict_set (cn_id c) c) (filter (\<lambda>c. cn_id c \<in> set batch) (cs_chunks st)) d)
            (ibatched sql_in_batch ids) []
      in concat (map (\<lambda>i. case dict_get by_id i of None \<Rightarrow> [] | Some c \<Rightarrow> [c]) ids))"

definition get_chunks_by_content_hash :: "nat \<Rightarrow> string list \<Rightarrow> chunk_store \<Rightarrow> chunk_record list" where
  "get_chunks_by_content_hash file_id hashes st =
     concat (map (\<lambda>batch. filter (\<lambda>c. cn_file_id c = file_id \<and> cn_content_hash c \<in> set batch) (cs_chunks st))
       (ibatched (sql_in_batch - 1) hashes))"

definition delete_chunks_by_file :: "nat \<Rightarrow> chunk_store \<Rightarrow> chunk_store" where
  "delete_chunks_by_file file_id st = st\<lparr>cs_chunks := filter (\<lambda>c. cn_file_id c \<noteq> file_id) (cs_chunks st), cs_bm25_dirty := True\<rparr>"

definition scope_projects :: "scope_filter option \<Rightarrow> string list option" where
  \<comment> \<open>None: no restriction, which an empty \<open>project_in\<close> also gives\<close>
  "scope_projects scope =
     (case scope of
        None \<Rightarrow> None
      | Some sc \<Rightarrow>
          if sf_project sc = None \<and> (case sf_project_in sc of None \<Rightarrow> True | Some ps \<Rightarrow> ps = []) then None
          else case sf_project_in sc of
                 Some ps \<Rightarrow> Some (case sf_project sc of None \<Rightarrow> ps | Some p \<Rightarrow> if p \<in> set ps then ps else ps @ [p])
               | None \<Rightarrow> Some (case sf_project sc of None \<Rightarrow> [] | Some p \<Rightarrow> [p]))"

definition joined :: "string list \<Rightarrow> chunk_store \<Rightarrow> chunk_record list" where
  \<comment> \<open>\<open>chunks c JOIN files f ON f.id = c.file_id WHERE f.project IN ..\<close>\<close>
  "joined projects st =
     filter (\<lambda>c. list_ex (\<lambda>f. fl_id f = cn_file_id c \<and> fl_project f \<in> set projects) (cs_files st)) (cs_chunks st)"

definition scope_chunk_ids :: "scope_filter option \<Rightarrow> chunk_store \<Rightarrow> nat set option" where
  "scope_chunk_ids scope st = map_option (\<lambda>ps. set (map cn_id (joined ps st))) (scope_projects scope)"

definition list_chunk_ids_in_scope :: "scope_filter option \<Rightarrow> chunk_store \<Rightarrow> nat list" where
  "list_chunk_ids_in_scope scope st =
     (case scope_projects scope of
        None \<Rightarrow> sort (map cn_id (cs_chunks st))
      | Some ps \<Rightarrow> sort (remdups (map cn_id (joined ps st))))"

definition get_chunk_ids_by_embedding_rows :: "int option list \<Rightarrow> chunk_store \<Rightarrow> (nat, nat) dict" where
  "get_chunk_ids_by_embedding_rows rows st =
     (let rows_list = map nat (filter (\<lambda>r. 0 \<le> r) (concat (map (\<lambda>r. case r of None \<Rightarrow> [] | Some r \<Rightarrow> [r]) rows)))
      in fold (\<lambda>batch d. fold (\<lambda>c d. case cn_embedding_row c of None \<Rightarrow> d | Some r \<Rightarrow> if r \<in> set batch then dict_set r (cn_id c) d else d)
            (rows_by_id st) d) (ibatched sql_in_batch rows_list) [])"

definition get_embedding_rows_by_chunk_ids :: "int option list \<Rightarrow> chunk_store \<Rightarrow> nat list" where
  "get_embedding_rows_by_chunk_ids ids st =
     (let ids_list = map nat (filter (\<lambda>i. 0 \<le> i) (concat (map (\<lambda>i. case i of None \<Rightarrow> [] | Some i \<Rightarrow> [i]) ids)))
      in sort (remdups (concat (map (\<lambda>batch.
            concat (map (\<lambda>c. if cn_id c \<in> set batch then (case cn_embedding_row c of None \<Rightarrow> [] | Some r \<Rightarrow> [r]) else []) (cs_chunks st)))
          (ibatched sql_in_batch ids_list)))))"

definition chunk_count :: "scope_filter option \<Rightarrow> chunk_store \<Rightarrow> nat" where
  "chunk_count scope st =
     (case scope of
        None \<Rightarrow> length (cs_chunks st)
      | Some sc \<Rightarrow>
          (case (sf_project sc, sf_project_in sc) of
             (None, None) \<Rightarrow> length (cs_chunks st)
           | (Some p, _) \<Rightarrow> length (joined [p] st)
           | (None, Some ps) \<Rightarrow> if ps = [] then 0 else length (joined ps st)))"

section \<open>The BM25 index\<close>

definition digest_chunks :: "sqlite_env \<Rightarrow> nat list \<Rightarrow> string list \<Rightarrow> string" where
  "digest_chunks en chunk_ids content_hashes =
     se_sha256 en (concat (map (\<lambda>(cid, ch). nat_str cid @ [CHR 0x00] @ ch @ [CHR 0x00]) (zip chunk_ids content_hashes)))"

definition save_bm25 :: "sqlite_env \<Rightarrow> chunk_store \<Rightarrow> chunk_store" where
  \<comment> \<open>a failing write leaves the old pickle\<close>
  "save_bm25 en st =
     (case cs_bm25 st of
        None \<Rightarrow> st
      | Some bm25 \<Rightarrow>
          let ids = cs_bm25_chunk_ids st;
              by_id = fold (\<lambda>batch d. fold (\<lambda>c. dict_set (cn_id c) (cn_content_hash c)) (filter (\<lambda>c. cn_id c \<in> set batch) (cs_chunks st)) d)
                (ibatched sql_in_batch ids) [];
              digest = digest_chunks en ids (map (\<lambda>i. case dict_get by_id i of None \<Rightarrow> [] | Some h \<Rightarrow> h) ids)
          in if se_pickle_writable en
             then st\<lparr>cs_pickle := Some (\<lparr>bs_chunk_count = length ids, bs_corpus_digest = digest, bs_chunk_ids = ids\<rparr>, bm25)\<rparr>
             else st)"

definition rebuild_bm25 :: "sqlite_env \<Rightarrow> chunk_store \<Rightarrow> (exc + unit) \<times> chunk_store" where
  \<comment> \<open>a constructor that raises leaves the old index, marked dirty or missing\<close>
  "rebuild_bm25 en st =
     (let rows = rows_by_id st; corpus = map (sql_word_tokenize \<circ> cn_text) rows
      in if rows = [] then (Inr (), st\<lparr>cs_bm25 := None, cs_bm25_chunk_ids := [], cs_bm25_dirty := False\<rparr>)
         else if \<not> se_bm25_builds en corpus then (Inl ZeroDivisionError, st)
         else (Inr (), save_bm25 en (st\<lparr>cs_bm25 := Some corpus, cs_bm25_chunk_ids := map cn_id rows, cs_bm25_dirty := False\<rparr>)))"

definition ensure_bm25 :: "sqlite_env \<Rightarrow> chunk_store \<Rightarrow> (exc + unit) \<times> chunk_store" where
  "ensure_bm25 en st = (if \<not> cs_bm25_dirty st \<and> cs_bm25 st \<noteq> None then (Inr (), st) else rebuild_bm25 en st)"

definition invalidate_lexical :: "chunk_store \<Rightarrow> chunk_store" where
  "invalidate_lexical st = st\<lparr>cs_bm25_dirty := True\<rparr>"

definition lexical_hits :: "sqlite_env \<Rightarrow> string list \<Rightarrow> int \<Rightarrow> scope_filter option \<Rightarrow> chunk_store \<Rightarrow> (nat \<times> real) list" where
  \<comment> \<open>\<open>search_lexical\<close> once the index is there\<close>
  "lexical_hits en query_terms k scope st =
     (case cs_bm25 st of
        None \<Rightarrow> []
      | Some bm25 \<Rightarrow>
          let ids = cs_bm25_chunk_ids st;
              scores = se_bm25_scores en bm25 query_terms;
              masked = (case scope_chunk_ids scope st of
                  None \<Rightarrow> map (\<lambda>s. Fin (- s)) scores
                | Some scope_ids \<Rightarrow> map (\<lambda>(cid, s). if cid \<in> scope_ids then Fin (- s) else PInf) (zip ids scores));
              top_idx = select_top (se_argpartition en) (se_argsort en) masked (min (nat k) (length ids))
          in if ids = [] then []
             else map (\<lambda>i. (ids ! i, scores ! i)) (filter (\<lambda>i. masked ! i \<noteq> PInf) top_idx))"

definition search_lexical ::
  "sqlite_env \<Rightarrow> string list \<Rightarrow> int \<Rightarrow> scope_filter option \<Rightarrow> chunk_store \<Rightarrow> (exc + (nat \<times> real) list) \<times> chunk_store" where
  "search_lexical en query_terms k scope st =
     (if k \<le> 0 then (Inr [], st)
      else if query_terms = [] then (Inr [], st)
      else case ensure_bm25 en st of
             (Inl x, st) \<Rightarrow> (Inl x, st)
           | (Inr u, st) \<Rightarrow> (Inr (lexical_hits en query_terms k scope st), st))"

definition load_bm25_if_valid :: "sqlite_env \<Rightarrow> chunk_store \<Rightarrow> chunk_store" where
  "load_bm25_if_valid en st =
     (case cs_pickle st of
        None \<Rightarrow> st\<lparr>cs_bm25_dirty := True\<rparr>
      | Some (snap, bm25) \<Rightarrow>
          let live_ids = map cn_id (rows_by_id st);
              live_digest = digest_chunks en live_ids (map cn_content_hash (rows_by_id st))
          in if bs_chunk_count snap \<noteq> length live_ids \<or> bs_corpus_digest snap \<noteq> live_digest \<or> bs_chunk_ids snap \<noteq> live_ids
             then st\<lparr>cs_bm25_dirty := True\<rparr>
             else st\<lparr>cs_bm25 := Some bm25, cs_bm25_chunk_ids := bs_chunk_ids snap, cs_bm25_dirty := False\<rparr>)"

definition close_chunks :: "sqlite_env \<Rightarrow> chunk_store \<Rightarrow> chunk_store" where
  "close_chunks en st = (if cs_bm25 st \<noteq> None \<and> \<not> cs_bm25_dirty st then save_bm25 en st else st)"

definition open_chunks :: "sqlite_env \<Rightarrow> chunk_store \<Rightarrow> chunk_store" where
  \<comment> \<open>the constructor, over the tables and the pickle found on disk\<close>
  "open_chunks en st = load_bm25_if_valid en (st\<lparr>cs_bm25 := None, cs_bm25_chunk_ids := [], cs_bm25_dirty := True\<rparr>)"

section \<open>Histories\<close>

datatype chunk_op =
    SProject project | SDropProject string | SFile file_record | SDropFile nat | SRename nat string int
  | SChunks "chunk_record list" | SDropChunks nat | SSearch "string list" int "scope_filter option" | SInvalidate | SReopen

fun chunk_step :: "sqlite_env \<Rightarrow> chunk_op \<Rightarrow> chunk_store \<Rightarrow> bool \<times> chunk_store" where
  \<comment> \<open>the flag tells whether the operation returned\<close>
  "chunk_step en (SProject p) st = (case upsert_project p st of (r, st) \<Rightarrow> (\<not> isl r, st))"
| "chunk_step en (SDropProject n) st = (True, delete_project n st)"
| "chunk_step en (SFile f) st = (case upsert_file f st of (r, st) \<Rightarrow> (\<not> isl r, st))"
| "chunk_step en (SDropFile i) st = (True, delete_file i st)"
| "chunk_step en (SRename i rel m) st = (case rename_file i rel m st of (r, st) \<Rightarrow> (\<not> isl r, st))"
| "chunk_step en (SChunks cs) st = (case upsert_chunks cs st of (r, st) \<Rightarrow> (\<not> isl r, st))"
| "chunk_step en (SDropChunks i) st = (True, delete_chunks_by_file i st)"
| "chunk_step en (SSearch q k sc) st = (case search_lexical en q k sc st of (r, st) \<Rightarrow> (\<not> isl r, st))"
| "chunk_step en SInvalidate st = (True, invalidate_lexical st)"
| "chunk_step en SReopen st = (True, open_chunks en (close_chunks en st))"

definition empty_chunks :: chunk_store where
  "empty_chunks = \<lparr>cs_projects = [], cs_files = [], cs_chunks = [], cs_bm25 = None, cs_bm25_chunk_ids = [],
     cs_bm25_dirty = True, cs_pickle = None\<rparr>"

section \<open>Keys and references\<close>

definition db_ok :: "chunk_store \<Rightarrow> bool" where
  "db_ok st \<longleftrightarrow> distinct (map pj_name (cs_projects st)) \<and> distinct (map pj_root_path (cs_projects st))
     \<and> distinct (map fl_id (cs_files st)) \<and> distinct (map (\<lambda>f. (fl_project f, fl_rel_path f)) (cs_files st))
     \<and> (\<forall>f \<in> set (cs_files st). fl_id f \<noteq> 0 \<and> fl_project f \<in> pj_name ` set (cs_projects st))
     \<and> distinct (map cn_id (cs_chunks st))
     \<and> (\<forall>c \<in> set (cs_chunks st). cn_id c \<noteq> 0 \<and> cn_file_id c \<in> fl_id ` set (cs_files st))"

lemma next_id_fresh: "next_id ids \<notin> set ids \<and> next_id ids \<noteq> 0"
proof -
  have "m \<le> fold max ids m" for m :: nat and ids by (induction ids arbitrary: m) (auto dest: max.boundedE)
  then have "i \<le> fold max ids m" if "i \<in> set ids" for i m
    using that by (induction ids arbitrary: m) (auto intro: max.cobounded1 [THEN order_trans])
  then have "i < next_id ids" if "i \<in> set ids" for i using that by (simp add: next_id_def le_imp_less_Suc)
  then show ?thesis by (auto simp: next_id_def)
qed

lemma map_if_same: "(\<And>x. x \<in> set xs \<Longrightarrow> P x \<Longrightarrow> f (g x) = f x) \<Longrightarrow> map f (map (\<lambda>x. if P x then g x else x) xs) = map f xs"
  by (induction xs) auto

lemma db_ok_cong:
  "cs_projects st' = cs_projects st \<Longrightarrow> cs_files st' = cs_files st \<Longrightarrow> cs_chunks st' = cs_chunks st \<Longrightarrow> db_ok st' = db_ok st"
  by (simp add: db_ok_def)

lemma db_ok_bm25 [simp]:
  "db_ok (st\<lparr>cs_bm25_dirty := b\<rparr>) = db_ok st" "db_ok (st\<lparr>cs_bm25 := x\<rparr>) = db_ok st" "db_ok (st\<lparr>cs_bm25_chunk_ids := i\<rparr>) = db_ok st"
  "db_ok (st\<lparr>cs_pickle := p\<rparr>) = db_ok st"
  by (simp_all add: db_ok_def)

lemma distinct_replace:
  assumes "distinct (map f xs)" "\<forall>x \<in> set xs. k x = k0 \<longrightarrow> (\<forall>y \<in> set xs. k y \<noteq> k0 \<longrightarrow> f y \<noteq> v)" "\<And>x. k x = k0 \<Longrightarrow> f (g x) = v"
    "distinct (map k xs)"
  shows "distinct (map f (map (\<lambda>x. if k x = k0 then g x else x) xs))"
  using assms(1,2,4)
proof (induction xs)
  case (Cons x xs)
  show ?case
  proof (cases "k x = k0")
    case True
    then have "\<forall>y \<in> set xs. k y \<noteq> k0" using Cons.prems(3) by auto (metis image_eqI)
    then have "map (\<lambda>x. if k x = k0 then g x else x) xs = xs" by (simp add: map_idI)
    moreover have "f y \<noteq> v" if "y \<in> set xs" for y using Cons.prems(2) True \<open>\<forall>y \<in> set xs. k y \<noteq> k0\<close> that by auto
    ultimately show ?thesis using Cons.prems(1) True assms(3) by auto
  next
    case False
    have ne: "f x \<noteq> f (if k y = k0 then g y else y)" if y: "y \<in> set xs" for y
    proof (cases "k y = k0")
      case True
      then show ?thesis using Cons.prems(2) False y assms(3) by force
    next
      case False
      moreover have "f y \<in> f ` set xs" using y by (rule imageI)
      ultimately show ?thesis using Cons.prems(1) by auto
    qed
    have "f x \<notin> set (map f (map (\<lambda>x. if k x = k0 then g x else x) xs))"
      unfolding set_map image_image using ne by (simp only: image_iff) blast
    moreover have "distinct (map f (map (\<lambda>x. if k x = k0 then g x else x) xs))" using Cons.prems by (intro Cons.IH) auto
    ultimately show ?thesis using False by (simp only: list.map distinct.simps if_False simp_thms)
  qed
qed simp

lemma find_Some: "find P xs = Some x \<Longrightarrow> x \<in> set xs \<and> P x"
  by (auto simp: find_Some_iff)

lemma find_None: "find P xs = None \<Longrightarrow> x \<in> set xs \<Longrightarrow> \<not> P x"
  by (auto simp: find_None_iff)

lemma upsert_project_ok:
  assumes ok: "db_ok st" and u: "upsert_project p st = (r, st')"
  shows "db_ok st'"
proof (cases "list_ex (\<lambda>q. pj_root_path q = pj_root_path p \<and> pj_name q \<noteq> pj_name p) (cs_projects st)")
  case True
  then show ?thesis using ok u by (simp add: upsert_project_def)
next
  case False
  let ?P = "cs_projects st"
  have root: "\<forall>q \<in> set ?P. pj_root_path q = pj_root_path p \<longrightarrow> pj_name q = pj_name p" using False by (auto simp: list_ex_iff)
  show ?thesis
  proof (cases "pj_name p \<in> set (map pj_name ?P)")
    case mem: True
    define P' where "P' = map (\<lambda>q. if pj_name q = pj_name p then p else q) ?P"
    have st': "st' = st\<lparr>cs_projects := P'\<rparr>" using u False mem unfolding upsert_project_def P'_def by simp
    have "distinct (map pj_root_path P')" unfolding P'_def
    proof (rule distinct_replace [where v = "pj_root_path p"])
      show "\<forall>x \<in> set ?P. pj_name x = pj_name p \<longrightarrow> (\<forall>y \<in> set ?P. pj_name y \<noteq> pj_name p \<longrightarrow> pj_root_path y \<noteq> pj_root_path p)"
        using root by blast
    qed (use ok in \<open>simp_all add: db_ok_def\<close>)
    moreover have names: "map pj_name P' = map pj_name ?P" unfolding P'_def by (rule map_if_same) simp
    moreover have "pj_name ` set P' = pj_name ` set ?P" using names by (metis list.set_map)
    ultimately show ?thesis using ok unfolding st' db_ok_def by simp
  next
    case new: False
    have "st' = st\<lparr>cs_projects := ?P @ [p]\<rparr>" using u False new unfolding upsert_project_def by simp
    moreover have "pj_root_path p \<notin> pj_root_path ` set ?P" using new root by (metis (no_types, lifting) image_iff list.set_map)
    ultimately show ?thesis using ok new by (auto simp: db_ok_def)
  qed
qed

lemma drop_files_ok:
  assumes "db_ok st"
  shows "db_ok (drop_files P st)"
proof -
  have "cn_file_id c \<in> fl_id ` {f \<in> set (cs_files st). \<not> P f}"
    if c: "c \<in> set (cs_chunks st)" "cn_file_id c \<notin> fl_id ` {f \<in> set (cs_files st). P f}" for c
  proof -
    obtain f where "f \<in> set (cs_files st)" "cn_file_id c = fl_id f" using assms c(1) by (auto simp: db_ok_def)
    then show ?thesis using c(2) by blast
  qed
  then show ?thesis using assms by (simp add: db_ok_def drop_files_def Let_def distinct_map_filter)
qed

lemma delete_project_ok:
  assumes "db_ok st"
  shows "db_ok (delete_project name st)"
proof -
  have "db_ok ((drop_files (\<lambda>f. fl_project f = name) st)\<lparr>cs_projects := filter (\<lambda>p. pj_name p \<noteq> name) (cs_projects st)\<rparr>)"
    using drop_files_ok [OF assms, of "\<lambda>f. fl_project f = name"] by (auto simp: db_ok_def drop_files_def Let_def distinct_map_filter)
  then show ?thesis by (simp add: delete_project_def db_ok_def drop_files_def Let_def)
qed

lemma delete_file_ok: "db_ok st \<Longrightarrow> db_ok (delete_file i st)"
  by (simp add: delete_file_def drop_files_ok)

lemma delete_chunks_ok: "db_ok st \<Longrightarrow> db_ok (delete_chunks_by_file i st)"
  by (auto simp: db_ok_def delete_chunks_by_file_def distinct_map_filter)

lemma upsert_file_ok:
  assumes ok: "db_ok st" and u: "upsert_file f st = (r, st')"
  shows "db_ok st'"
proof (cases "get_file (fl_project f) (fl_rel_path f) st")
  case (Some g)
  define F' where "F' = map (\<lambda>r. if fl_id r = fl_id g
     then r\<lparr>fl_mtime := fl_mtime f, fl_size_bytes := fl_size_bytes f, fl_content_hash := fl_content_hash f\<rparr> else r) (cs_files st)"
  have st': "st' = st\<lparr>cs_files := F'\<rparr>" using u Some by (simp add: upsert_file_def F'_def)
  have keys: "map fl_id F' = map fl_id (cs_files st)" "map fl_project F' = map fl_project (cs_files st)"
      "map (\<lambda>f. (fl_project f, fl_rel_path f)) F' = map (\<lambda>f. (fl_project f, fl_rel_path f)) (cs_files st)"
    unfolding F'_def by (rule map_if_same, simp)+
  have "fl_id ` set F' = fl_id ` set (cs_files st)" "fl_project ` set F' = fl_project ` set (cs_files st)" using keys(1,2) by (metis list.set_map)+
  moreover from this have "\<forall>f \<in> set F'. fl_id f \<noteq> 0 \<and> fl_project f \<in> pj_name ` set (cs_projects st)"
    using ok by (metis (no_types, lifting) db_ok_def imageE imageI)
  ultimately show ?thesis using ok keys unfolding st' db_ok_def by simp
next
  case None
  show ?thesis
  proof (cases "(fl_id f \<noteq> 0 \<and> fl_id f \<in> set (map fl_id (cs_files st))) \<or> fl_project f \<notin> set (map pj_name (cs_projects st))")
    case True
    then have "st' = st" using u None by (auto simp: upsert_file_def split: if_splits)
    then show ?thesis using ok by simp
  next
    case False
    define i where "i = (if fl_id f \<noteq> 0 then fl_id f else next_id (map fl_id (cs_files st)))"
    have i: "i \<noteq> 0" "i \<notin> fl_id ` set (cs_files st)" using False next_id_fresh [of "map fl_id (cs_files st)"] by (auto simp: i_def)
    have st': "st' = st\<lparr>cs_files := cs_files st @ [f\<lparr>fl_id := i\<rparr>]\<rparr>"
      using u None False unfolding i_def upsert_file_def by (auto simp: Let_def split: if_splits)
    have "(fl_project f, fl_rel_path f) \<notin> (\<lambda>f. (fl_project f, fl_rel_path f)) ` set (cs_files st)"
      using find_None [OF None [unfolded get_file_def]] by fastforce
    then show ?thesis using ok i False unfolding st' db_ok_def by auto
  qed
qed

lemma rename_file_ok:
  assumes ok: "db_ok st" and u: "rename_file i rel m st = (r, st')"
  shows "db_ok st'"
proof (cases "find (\<lambda>f. fl_id f = i) (cs_files st)")
  case None
  then show ?thesis using u ok by (simp add: rename_file_def)
next
  case (Some g)
  note g = find_Some [OF Some]
  show ?thesis
  proof (cases "list_ex (\<lambda>f. fl_project f = fl_project g \<and> fl_rel_path f = rel \<and> fl_id f \<noteq> i) (cs_files st)")
    case True
    then show ?thesis using u ok Some by (simp add: rename_file_def)
  next
    case False
    define F' where "F' = map (\<lambda>f. if fl_id f = i then f\<lparr>fl_rel_path := rel, fl_mtime := m\<rparr> else f) (cs_files st)"
    have st': "st' = st\<lparr>cs_files := F'\<rparr>" using u Some False by (simp add: rename_file_def F'_def)
    have ids: "map fl_id F' = map fl_id (cs_files st)" "map fl_project F' = map fl_project (cs_files st)"
      unfolding F'_def by (rule map_if_same, simp)+
    have inj: "x = g" if "x \<in> set (cs_files st)" "fl_id x = i" for x
      using that g ok by (auto simp: db_ok_def distinct_map inj_on_def)
    have "F' = map (\<lambda>f. if fl_id f = i then g\<lparr>fl_rel_path := rel, fl_mtime := m\<rparr> else f) (cs_files st)"
      unfolding F'_def using inj by (intro map_cong) auto
    moreover have "distinct (map (\<lambda>f. (fl_project f, fl_rel_path f)) (map (\<lambda>f. if fl_id f = i then g\<lparr>fl_rel_path := rel, fl_mtime := m\<rparr> else f) (cs_files st)))"
      using ok False by (intro distinct_replace [where v = "(fl_project g, rel)"]) (auto simp: db_ok_def list_ex_iff)
    ultimately have "distinct (map (\<lambda>f. (fl_project f, fl_rel_path f)) F')" by simp
    moreover have "fl_id ` set F' = fl_id ` set (cs_files st)" "fl_project ` set F' = fl_project ` set (cs_files st)" using ids by (metis list.set_map)+
    moreover from this have "\<forall>f \<in> set F'. fl_id f \<noteq> 0 \<and> fl_project f \<in> pj_name ` set (cs_projects st)"
      using ok by (metis (no_types, lifting) db_ok_def imageE imageI)
    ultimately show ?thesis using ok ids unfolding st' db_ok_def by simp
  qed
qed

lemma upsert_chunk_ok:
  assumes ok: "db_ok st" and u: "upsert_chunk c st = (r, st')"
  shows "db_ok st'"
proof (cases "cn_file_id c \<in> set (map fl_id (cs_files st))")
  case False
  then show ?thesis using u ok by (simp add: upsert_chunk_def)
next
  case has_file: True
  show ?thesis
  proof (cases "cn_id c \<noteq> 0 \<and> cn_id c \<in> set (map cn_id (cs_chunks st))")
    case True
    define C' where "C' = map (\<lambda>r. if cn_id r = cn_id c then c else r) (cs_chunks st)"
    have st': "st' = st\<lparr>cs_chunks := C'\<rparr>" using u has_file True by (simp add: upsert_chunk_def C'_def)
    have "map cn_id C' = map cn_id (cs_chunks st)" unfolding C'_def by (rule map_if_same) simp
    moreover have "set C' \<subseteq> insert c (set (cs_chunks st))" by (auto simp: C'_def)
    ultimately show ?thesis using ok has_file True unfolding st' db_ok_def by auto
  next
    case False
    define i where "i = (if cn_id c \<noteq> 0 then cn_id c else next_id (map cn_id (cs_chunks st)))"
    have i: "i \<noteq> 0" "i \<notin> cn_id ` set (cs_chunks st)" using False next_id_fresh [of "map cn_id (cs_chunks st)"] by (auto simp: i_def)
    have "st' = st\<lparr>cs_chunks := cs_chunks st @ [c\<lparr>cn_id := i\<rparr>]\<rparr>"
      using u has_file False unfolding i_def upsert_chunk_def by (auto simp: Let_def split: if_splits)
    then show ?thesis using ok i has_file by (auto simp: db_ok_def)
  qed
qed

lemma upsert_each_ok: "db_ok st \<Longrightarrow> upsert_each cs st = (r, st') \<Longrightarrow> db_ok st'"
  by (induction cs arbitrary: st) (auto split: prod.splits sum.splits dest: upsert_chunk_ok)

lemma upsert_chunks_ok: "db_ok st \<Longrightarrow> upsert_chunks cs st = (r, st') \<Longrightarrow> db_ok st'"
  by (auto simp: upsert_chunks_def split: if_splits prod.splits sum.splits dest: upsert_each_ok)

section \<open>The index follows the tables\<close>

text \<open>What an operation on the BM25 index leaves alone.\<close>

definition same_tables :: "chunk_store \<Rightarrow> chunk_store \<Rightarrow> bool" where
  "same_tables st st' \<longleftrightarrow> cs_projects st' = cs_projects st \<and> cs_files st' = cs_files st \<and> cs_chunks st' = cs_chunks st"

lemma same_tables_bm25:
  "same_tables st (save_bm25 en st)" "same_tables st (snd (rebuild_bm25 en st))" "same_tables st (snd (ensure_bm25 en st))"
  "same_tables st (load_bm25_if_valid en st)" "same_tables st (close_chunks en st)" "same_tables st (open_chunks en st)"
  "same_tables st (snd (search_lexical en q k sc st))" "same_tables st (invalidate_lexical st)"
proof -
  show save: "same_tables st (save_bm25 en st)" for st by (simp add: same_tables_def save_bm25_def Let_def split: option.splits)
  show load: "same_tables st (load_bm25_if_valid en st)" for st
    by (simp add: same_tables_def load_bm25_if_valid_def Let_def split: option.splits prod.splits)
  show rebuild: "same_tables st (snd (rebuild_bm25 en st))" for st
    using save [of "st\<lparr>cs_bm25 := x, cs_bm25_chunk_ids := i, cs_bm25_dirty := b\<rparr>" for x i b]
    by (simp add: same_tables_def rebuild_bm25_def Let_def)
  then show ensure: "same_tables st (snd (ensure_bm25 en st))" for st by (simp add: ensure_bm25_def) (simp add: same_tables_def)
  show "same_tables st (close_chunks en st)" using save [of st] by (simp add: close_chunks_def) (simp add: same_tables_def)
  show "same_tables st (open_chunks en st)"
    using load [of "st\<lparr>cs_bm25 := None, cs_bm25_chunk_ids := [], cs_bm25_dirty := True\<rparr>"] by (simp add: open_chunks_def same_tables_def)
  show "same_tables st (snd (search_lexical en q k sc st))" using ensure [of st] by (cases "ensure_bm25 en st"; cases "fst (ensure_bm25 en st)") (simp_all add: search_lexical_def same_tables_def)
  show "same_tables st (invalidate_lexical st)" by (simp add: same_tables_def invalidate_lexical_def)
qed

lemma search_lexical_tables: "search_lexical en q k sc st = (r, st') \<Longrightarrow> same_tables st st'"
  using same_tables_bm25(7) [of st en q k sc] by simp

lemma same_tables_ok: "same_tables st st' \<Longrightarrow> db_ok st' = db_ok st"
  by (simp add: same_tables_def db_ok_def)

lemma chunk_step_ok: "db_ok st \<Longrightarrow> db_ok (snd (chunk_step en op st))"
proof (cases op)
  case SReopen
  then show "db_ok st \<Longrightarrow> ?thesis"
    using same_tables_ok [OF same_tables_bm25(5), of en st] same_tables_ok [OF same_tables_bm25(6), of en "close_chunks en st"] by simp
qed (auto split: prod.splits dest: upsert_project_ok upsert_file_ok rename_file_ok upsert_chunks_ok
    intro: delete_project_ok delete_file_ok delete_chunks_ok simp: same_tables_ok [OF search_lexical_tables] same_tables_ok [OF same_tables_bm25(8)])

interpretation chunks_db: machine "\<lambda>op st. snd (chunk_step en op st)" db_ok
  by unfold_locales (rule chunk_step_ok)

lemma concat_ibatched: "0 < n \<Longrightarrow> concat (ibatched n xs) = xs"
proof (induction n xs rule: ibatched.induct)
  case (1 n xs)
  then show ?case by (subst ibatched.simps) auto
qed

lemma batched_get:
  assumes "distinct (map cn_id cs)"
  shows "dict_get (fold (\<lambda>batch d. fold (\<lambda>c. dict_set (cn_id c) (g c)) (filter (\<lambda>c. cn_id c \<in> set batch) cs) d) bs d0) i
    = (if i \<in> set (concat bs) \<and> i \<in> cn_id ` set cs then map_option g (find (\<lambda>c. cn_id c = i) cs) else dict_get d0 i)"
proof -
  have one: "dict_get (fold (\<lambda>c. dict_set (cn_id c) (g c)) cs d) i
      = (if i \<in> cn_id ` set cs then map_option g (find (\<lambda>c. cn_id c = i) cs) else dict_get d i)"
    if "distinct (map cn_id cs)" for cs d
    using that by (induction cs arbitrary: d) (auto simp: dict_simps)
  have some: "find (\<lambda>c. cn_id c = i) (filter (\<lambda>c. cn_id c \<in> set b) cs) = (if i \<in> set b then find (\<lambda>c. cn_id c = i) cs else None)"
    for cs and b by (induction cs) auto
  have batch: "dict_get (fold (\<lambda>c. dict_set (cn_id c) (g c)) (filter (\<lambda>c. cn_id c \<in> set b) cs) d) i
      = (if i \<in> set b \<and> i \<in> cn_id ` set cs then map_option g (find (\<lambda>c. cn_id c = i) cs) else dict_get d i)" for b d
    using one [of "filter (\<lambda>c. cn_id c \<in> set b) cs" d] assms unfolding some by (auto simp: distinct_map_filter)
  show ?thesis by (induction bs arbitrary: d0) (auto simp: batch)
qed

lemma find_by_id: "distinct (map cn_id cs) \<Longrightarrow> c \<in> set cs \<Longrightarrow> find (\<lambda>x. cn_id x = cn_id c) cs = Some c"
  by (induction cs) (auto simp: image_iff)

lemma rows_by_id_set [simp]: "set (rows_by_id st) = set (cs_chunks st)" "length (rows_by_id st) = length (cs_chunks st)"
  by (simp_all add: rows_by_id_def)

lemma rows_by_id_empty [simp]: "rows_by_id st = [] \<longleftrightarrow> cs_chunks st = []"
  by (metis length_0_conv rows_by_id_set(2))

lemma distinct_rows_by_id: "db_ok st \<Longrightarrow> distinct (map cn_id (rows_by_id st))"
  by (simp add: db_ok_def rows_by_id_def distinct_map)

lemma rows_by_id_cong: "cs_chunks st' = cs_chunks st \<Longrightarrow> rows_by_id st' = rows_by_id st"
  by (simp add: rows_by_id_def)

definition corpus_of :: "chunk_record list \<Rightarrow> string list list" where
  "corpus_of cs = map (sql_word_tokenize \<circ> cn_text) cs"

definition sha_ok :: "sqlite_env \<Rightarrow> bool" where
  \<comment> \<open>no collisions, and a hex digest has no null character\<close>
  "sha_ok en \<longleftrightarrow> inj (se_sha256 en) \<and> (\<forall>t. CHR 0x00 \<notin> set (se_sha256 en t))"

definition hashed :: "sqlite_env \<Rightarrow> chunk_record list \<Rightarrow> bool" where
  \<comment> \<open>the content hash is the one of the text, as the indexer makes it\<close>
  "hashed en cs \<longleftrightarrow> (\<forall>c \<in> set cs. cn_content_hash c = se_sha256 en (cn_text c))"

definition bm25_fresh :: "sqlite_env \<Rightarrow> chunk_store \<Rightarrow> bool" where
  "bm25_fresh en st \<longleftrightarrow> \<not> cs_bm25_dirty st \<longrightarrow> (\<forall>bm. cs_bm25 st = Some bm \<longrightarrow>
     bm = corpus_of (rows_by_id st) \<and> cs_bm25_chunk_ids st = map cn_id (rows_by_id st) \<and> se_bm25_builds en bm)"

definition pickle_ok :: "sqlite_env \<Rightarrow> chunk_store \<Rightarrow> bool" where
  \<comment> \<open>the pickle describes chunks there once were\<close>
  "pickle_ok en st \<longleftrightarrow> (\<forall>snap bm. cs_pickle st = Some (snap, bm) \<longrightarrow> (\<exists>cs. hashed en cs \<and> bm = corpus_of cs \<and> se_bm25_builds en bm
     \<and> bs_chunk_ids snap = map cn_id cs \<and> bs_corpus_digest snap = digest_chunks en (map cn_id cs) (map cn_content_hash cs)))"

definition lexical_inv :: "sqlite_env \<Rightarrow> chunk_store \<Rightarrow> bool" where
  "lexical_inv en st \<longleftrightarrow> db_ok st \<and> hashed en (cs_chunks st) \<and> bm25_fresh en st \<and> pickle_ok en st"

lemma digest_inj:
  assumes "sha_ok en" "hashed en xs" "hashed en ys" "map cn_id xs = map cn_id ys"
    "digest_chunks en (map cn_id xs) (map cn_content_hash xs) = digest_chunks en (map cn_id ys) (map cn_content_hash ys)"
  shows "map cn_text xs = map cn_text ys"
proof -
  let ?f = "\<lambda>(cid, ch). nat_str cid @ [CHR 0x00] @ ch @ [CHR 0x00]"
  have "concat (map ?f (zip (map cn_id xs) (map cn_content_hash xs))) = concat (map ?f (zip (map cn_id ys) (map cn_content_hash ys)))"
    using assms(1,5) unfolding digest_chunks_def sha_ok_def by (blast dest: injD)
  then show ?thesis using assms(2,3,4)
  proof (induction xs arbitrary: ys)
    case (Cons x xs)
    then obtain y ys' where ys: "ys = y # ys'" by (cases ys) auto
    have hx: "cn_content_hash x = se_sha256 en (cn_text x)" "cn_content_hash y = se_sha256 en (cn_text y)"
      using Cons.prems(2,3) by (simp_all add: hashed_def ys)
    then have no: "CHR 0x00 \<notin> set (cn_content_hash x)" "CHR 0x00 \<notin> set (cn_content_hash y)" using assms(1) by (auto simp: sha_ok_def)
    have eq: "cn_content_hash x @ CHR 0x00 # concat (map ?f (zip (map cn_id xs) (map cn_content_hash xs)))
        = cn_content_hash y @ CHR 0x00 # concat (map ?f (zip (map cn_id ys') (map cn_content_hash ys')))"
      using Cons.prems(1,4) by (simp add: ys)
    have split: "u = v \<and> p = q" if "u @ CHR 0x00 # p = v @ CHR 0x00 # q" "CHR 0x00 \<notin> set u" "CHR 0x00 \<notin> set v" for u v p q :: string
      using that by (induction u arbitrary: v) (auto simp: append_eq_Cons_conv Cons_eq_append_conv)
    note e = split [OF eq no]
    have "cn_text x = cn_text y" using e hx assms(1) by (metis injD sha_ok_def)
    moreover have "map cn_text xs = map cn_text ys'"
      using Cons.IH [of ys'] Cons.prems e by (simp add: ys hashed_def)
    ultimately show ?case by (simp add: ys)
  qed simp
qed

lemma corpus_of_cong: "map cn_text xs = map cn_text ys \<Longrightarrow> corpus_of xs = corpus_of ys"
  unfolding corpus_of_def by (metis map_map)

lemma save_bm25_inv:
  assumes "lexical_inv en st" "\<not> cs_bm25_dirty st"
  shows "lexical_inv en (save_bm25 en st)"
proof (cases "cs_bm25 st")
  case None
  then show ?thesis using assms by (simp add: save_bm25_def)
next
  case (Some bm)
  define by_id where "by_id = fold (\<lambda>batch d. fold (\<lambda>c. dict_set (cn_id c) (cn_content_hash c)) (filter (\<lambda>c. cn_id c \<in> set batch) (cs_chunks st)) d)
     (ibatched sql_in_batch (cs_bm25_chunk_ids st)) []"
  have ids: "bm = corpus_of (rows_by_id st)" "cs_bm25_chunk_ids st = map cn_id (rows_by_id st)" "se_bm25_builds en bm"
    using assms Some unfolding lexical_inv_def bm25_fresh_def by blast+
  have dist: "distinct (map cn_id (cs_chunks st))" using assms(1) by (simp add: lexical_inv_def db_ok_def)
  have get: "dict_get by_id (cn_id c) = Some (cn_content_hash c)" if "c \<in> set (rows_by_id st)" for c
    using that find_by_id [OF dist, of c] by (simp add: batched_get [OF dist] concat_ibatched sql_in_batch_def ids(2) by_id_def)
  define hs where "hs = map (\<lambda>i. case dict_get by_id i of None \<Rightarrow> [] | Some h \<Rightarrow> h) (cs_bm25_chunk_ids st)"
  have hs: "hs = map cn_content_hash (rows_by_id st)" unfolding hs_def ids(2) using get by simp
  have "cs_pickle (save_bm25 en st) = (if se_pickle_writable en
      then Some (\<lparr>bs_chunk_count = length (cs_bm25_chunk_ids st), bs_corpus_digest = digest_chunks en (cs_bm25_chunk_ids st) hs,
        bs_chunk_ids = cs_bm25_chunk_ids st\<rparr>, bm) else cs_pickle st)"
    by (simp add: save_bm25_def Some Let_def hs_def by_id_def)
  moreover have "hashed en (rows_by_id st)" using assms(1) by (simp add: lexical_inv_def hashed_def)
  ultimately have "pickle_ok en (save_bm25 en st)"
    using assms(1) ids hs unfolding pickle_ok_def lexical_inv_def by (auto split: if_splits)
  moreover have "bm25_fresh en (save_bm25 en st)" "hashed en (cs_chunks (save_bm25 en st))" "db_ok (save_bm25 en st)"
    using assms(1) same_tables_ok [OF same_tables_bm25(1), of en st] same_tables_bm25(1) [of st en]
    by (auto simp: lexical_inv_def same_tables_def bm25_fresh_def save_bm25_def Some Let_def rows_by_id_def)
  ultimately show ?thesis by (simp add: lexical_inv_def)
qed

lemma lexical_inv_dirty:
  "db_ok st \<Longrightarrow> hashed en (cs_chunks st) \<Longrightarrow> pickle_ok en st \<Longrightarrow> cs_bm25_dirty st \<Longrightarrow> lexical_inv en st"
  by (simp add: lexical_inv_def bm25_fresh_def)

lemma rebuild_inv:
  assumes "lexical_inv en st" "rebuild_bm25 en st = (r, st')"
  shows "lexical_inv en st' \<and> (r = Inr () \<longrightarrow> \<not> cs_bm25_dirty st')"
proof (cases "rows_by_id st = []")
  case True
  then show ?thesis using assms by (auto simp: rebuild_bm25_def lexical_inv_def bm25_fresh_def pickle_ok_def)
next
  case False
  define st1 where "st1 = st\<lparr>cs_bm25 := Some (corpus_of (rows_by_id st)), cs_bm25_chunk_ids := map cn_id (rows_by_id st), cs_bm25_dirty := False\<rparr>"
  have run: "rebuild_bm25 en st = (if se_bm25_builds en (corpus_of (rows_by_id st)) then (Inr (), save_bm25 en st1) else (Inl ZeroDivisionError, st))"
    using False by (simp add: rebuild_bm25_def st1_def Let_def corpus_of_def)
  show ?thesis
  proof (cases "se_bm25_builds en (corpus_of (rows_by_id st))")
    case True
    have "rows_by_id st1 = rows_by_id st" by (rule rows_by_id_cong) (simp add: st1_def)
    then have "lexical_inv en st1" using assms(1) True by (simp add: st1_def lexical_inv_def bm25_fresh_def pickle_ok_def)
    moreover have "\<not> cs_bm25_dirty st1" by (simp add: st1_def)
    moreover have "cs_bm25_dirty (save_bm25 en st1) = cs_bm25_dirty st1" by (simp add: save_bm25_def Let_def split: option.splits)
    ultimately show ?thesis using save_bm25_inv [of en st1] assms(2) True by (auto simp: run)
  next
    case False
    then show ?thesis using assms by (auto simp: run)
  qed
qed

lemma ensure_inv:
  "lexical_inv en st \<Longrightarrow> ensure_bm25 en st = (r, st') \<Longrightarrow> lexical_inv en st' \<and> (r = Inr () \<longrightarrow> \<not> cs_bm25_dirty st')"
proof (cases "\<not> cs_bm25_dirty st \<and> cs_bm25 st \<noteq> None")
  case False
  then have e: "ensure_bm25 en st = rebuild_bm25 en st" by (simp only: ensure_bm25_def if_False)
  assume "lexical_inv en st" "ensure_bm25 en st = (r, st')"
  then show ?thesis unfolding e by (rule rebuild_inv)
qed (auto simp: ensure_bm25_def)

text \<open>The index is there, or it is built, unless there are chunks it cannot be built from.\<close>

lemma ensure_raises:
  assumes "lexical_inv en st"
  shows "fst (ensure_bm25 en st) = (if cs_chunks st = [] \<or> se_bm25_builds en (corpus_of (rows_by_id st)) then Inr () else Inl ZeroDivisionError)"
proof (cases "\<not> cs_bm25_dirty st \<and> cs_bm25 st \<noteq> None")
  case True
  then show ?thesis using assms by (auto simp: ensure_bm25_def lexical_inv_def bm25_fresh_def)
next
  case False
  then show ?thesis by (auto simp: ensure_bm25_def rebuild_bm25_def Let_def corpus_of_def)
qed

lemma load_inv:
  assumes "sha_ok en" "lexical_inv en st"
  shows "lexical_inv en (load_bm25_if_valid en st)"
proof (cases "\<exists>snap bm. cs_pickle st = Some (snap, bm) \<and> bs_corpus_digest snap = digest_chunks en (map cn_id (rows_by_id st)) (map cn_content_hash (rows_by_id st))
    \<and> bs_chunk_ids snap = map cn_id (rows_by_id st) \<and> bs_chunk_count snap = length (map cn_id (rows_by_id st))")
  case True
  then obtain snap bm where s: "cs_pickle st = Some (snap, bm)" "bs_chunk_ids snap = map cn_id (rows_by_id st)"
      "bs_corpus_digest snap = digest_chunks en (map cn_id (rows_by_id st)) (map cn_content_hash (rows_by_id st))"
      "bs_chunk_count snap = length (map cn_id (rows_by_id st))" by blast
  obtain cs where cs: "hashed en cs" "bm = corpus_of cs" "se_bm25_builds en bm" "bs_chunk_ids snap = map cn_id cs"
      "bs_corpus_digest snap = digest_chunks en (map cn_id cs) (map cn_content_hash cs)"
    using assms(2) s(1) by (auto simp: lexical_inv_def pickle_ok_def)
  have "hashed en (rows_by_id st)" using assms(2) by (simp add: lexical_inv_def hashed_def)
  then have "map cn_text cs = map cn_text (rows_by_id st)" using digest_inj [OF assms(1) cs(1)] s cs by metis
  then have "bm = corpus_of (rows_by_id st)" using cs(2) corpus_of_cong by blast
  moreover have "load_bm25_if_valid en st = st\<lparr>cs_bm25 := Some bm, cs_bm25_chunk_ids := bs_chunk_ids snap, cs_bm25_dirty := False\<rparr>"
    using s by (simp add: load_bm25_if_valid_def)
  ultimately show ?thesis using assms(2) s(2) cs(3) by (simp add: lexical_inv_def bm25_fresh_def pickle_ok_def rows_by_id_def)
next
  case False
  then have "load_bm25_if_valid en st = st\<lparr>cs_bm25_dirty := True\<rparr>"
    by (auto simp: load_bm25_if_valid_def Let_def split: option.splits)
  then show ?thesis using assms(2) by (simp add: lexical_inv_def bm25_fresh_def pickle_ok_def)
qed

lemma reopen_inv: "sha_ok en \<Longrightarrow> lexical_inv en st \<Longrightarrow> lexical_inv en (open_chunks en (close_chunks en st))"
proof -
  assume a: "sha_ok en" "lexical_inv en st"
  have "lexical_inv en (close_chunks en st)" using a(2) save_bm25_inv by (simp add: close_chunks_def)
  then have "lexical_inv en ((close_chunks en st)\<lparr>cs_bm25 := None, cs_bm25_chunk_ids := [], cs_bm25_dirty := True\<rparr>)"
    by (simp add: lexical_inv_def bm25_fresh_def pickle_ok_def)
  then show ?thesis unfolding open_chunks_def by (rule load_inv [OF a(1)])
qed

lemma upsert_each_hashed:
  "hashed en (cs_chunks st) \<Longrightarrow> hashed en cs \<Longrightarrow> upsert_each cs st = (r, st') \<Longrightarrow>
   hashed en (cs_chunks st') \<and> cs_pickle st' = cs_pickle st"
proof (induction cs arbitrary: st)
  case (Cons c cs)
  obtain r1 st1 where u: "upsert_chunk c st = (r1, st1)" by fastforce
  have "hashed en (cs_chunks (snd (upsert_chunk c st))) \<and> cs_pickle (snd (upsert_chunk c st)) = cs_pickle st"
    using Cons.prems(1,2) by (auto simp: upsert_chunk_def Let_def hashed_def)
  then have st1: "hashed en (cs_chunks st1)" "cs_pickle st1 = cs_pickle st" by (simp_all add: u)
  show ?case
  proof (cases r1)
    case (Inl x)
    then show ?thesis using Cons.prems(3) st1 by (simp add: u)
  next
    case (Inr y)
    then show ?thesis using Cons.prems Cons.IH [OF st1(1)] st1(2) by (simp add: u hashed_def)
  qed
qed simp

fun op_hashed :: "sqlite_env \<Rightarrow> chunk_op \<Rightarrow> bool" where
  "op_hashed en (SChunks cs) = hashed en cs"
| "op_hashed en _ = True"

fun broken_batch :: "chunk_op \<times> bool \<Rightarrow> bool" where
  "broken_batch (SChunks cs, ok) = (\<not> ok)"
| "broken_batch _ = False"

definition same_chunks :: "chunk_store \<Rightarrow> chunk_store \<Rightarrow> bool" where
  "same_chunks st st' \<longleftrightarrow> cs_chunks st' = cs_chunks st \<and> cs_bm25 st' = cs_bm25 st \<and> cs_bm25_chunk_ids st' = cs_bm25_chunk_ids st
     \<and> cs_bm25_dirty st' = cs_bm25_dirty st \<and> cs_pickle st' = cs_pickle st"

lemma same_chunks_ops:
  "same_chunks st (snd (upsert_project p st))" "same_chunks st (snd (upsert_file f st))" "same_chunks st (snd (rename_file i rel m st))"
  by (simp_all add: same_chunks_def upsert_project_def upsert_file_def rename_file_def Let_def split: option.split)

lemma same_chunks_inv: "lexical_inv en st \<Longrightarrow> db_ok st' \<Longrightarrow> same_chunks st st' \<Longrightarrow> lexical_inv en st'"
  using rows_by_id_cong [of st' st] by (simp add: same_chunks_def lexical_inv_def bm25_fresh_def pickle_ok_def)

lemma chunk_step_lexical:
  assumes "sha_ok en" "lexical_inv en st" "op_hashed en op" "chunk_step en op st = (b, st')" "\<not> broken_batch (op, b)"
  shows "lexical_inv en st'"
proof -
  have db: "db_ok st'" using chunk_step_ok [of st en op] assms(2,4) by (simp add: lexical_inv_def)
  have st: "hashed en (cs_chunks st)" "pickle_ok en st" using assms(2) by (simp_all add: lexical_inv_def)
  show ?thesis
  proof (cases op)
    case (SProject p)
    then show ?thesis using assms(4) same_chunks_inv [OF assms(2) db] same_chunks_ops(1) [where st = st]
      by (auto simp: case_prod_beta)
  next
    case (SDropProject n)
    then show ?thesis using assms(4) db st
      by (intro lexical_inv_dirty) (auto simp: delete_project_def drop_files_def Let_def hashed_def pickle_ok_def)
  next
    case (SFile f)
    then show ?thesis using assms(4) same_chunks_inv [OF assms(2) db] same_chunks_ops(2) [where st = st]
      by (auto simp: case_prod_beta)
  next
    case (SDropFile i)
    then show ?thesis using assms(4) db st
      by (intro lexical_inv_dirty) (auto simp: delete_file_def drop_files_def Let_def hashed_def pickle_ok_def)
  next
    case (SRename i rel m)
    then show ?thesis using assms(4) same_chunks_inv [OF assms(2) db] same_chunks_ops(3) [where st = st]
      by (auto simp: case_prod_beta)
  next
    case (SChunks cs)
    show ?thesis
    proof (cases "cs = []")
      case True
      then show ?thesis using SChunks assms(2,4) by (simp add: upsert_chunks_def)
    next
      case False
      obtain r st1 where u: "upsert_each cs st = (r, st1)" by fastforce
      have "hashed en cs" using SChunks assms(3) by simp
      note h = upsert_each_hashed [OF st(1) this u]
      show ?thesis using SChunks False assms(4,5) db h st(2)
        by (intro lexical_inv_dirty) (auto simp: upsert_chunks_def u pickle_ok_def split: sum.splits)
    qed
  next
    case (SDropChunks i)
    then show ?thesis using assms(4) db st
      by (intro lexical_inv_dirty) (auto simp: delete_chunks_by_file_def hashed_def pickle_ok_def)
  next
    case (SSearch q k sc)
    then show ?thesis using assms(2,4) ensure_inv [OF assms(2)] by (auto simp: search_lexical_def split: if_splits prod.splits sum.splits)
  next
    case SInvalidate
    then show ?thesis using assms(4) db st by (intro lexical_inv_dirty) (auto simp: invalidate_lexical_def pickle_ok_def)
  next
    case SReopen
    then show ?thesis using assms(4) reopen_inv [OF assms(1,2)] by simp
  qed
qed

lemma history_lexical:
  "sha_ok en \<Longrightarrow> lexical_inv en st \<Longrightarrow> list_all (op_hashed en) ops \<Longrightarrow> run_log (chunk_step en) ops st = (answers, st') \<Longrightarrow>
   \<not> list_ex broken_batch answers \<Longrightarrow> lexical_inv en st'"
proof (induction ops arbitrary: st answers)
  case (Cons op ops)
  obtain b st1 where s: "chunk_step en op st = (b, st1)" by fastforce
  obtain xs where t: "run_log (chunk_step en) ops st1 = (xs, st')" "answers = (op, b) # xs"
    using Cons.prems(4) by (auto simp: s split: prod.splits)
  have "lexical_inv en st1" using chunk_step_lexical [OF Cons.prems(1,2) _ s] Cons.prems(3,5) t(2) by simp
  then show ?case using Cons.IH [OF Cons.prems(1) _ _ t(1)] Cons.prems(3,5) t(2) by simp
qed simp

lemma empty_lexical: "lexical_inv en empty_chunks"
  by (simp add: lexical_inv_def empty_chunks_def db_ok_def hashed_def bm25_fresh_def pickle_ok_def)

section \<open>What the store promises\<close>

text \<open>
  C39: the tables stay consistent. After any history of operations, failing ones and batches cut off
  in the middle included, names, roots, ids and file paths are unique, every file belongs to a
  project and every chunk to a file.
\<close>

theorem chunk_store_consistent: "db_ok (snd (run_log (chunk_step en) ops empty_chunks))"
proof -
  have "db_ok empty_chunks" by (simp add: db_ok_def empty_chunks_def)
  then have "db_ok (fold (\<lambda>op st. snd (chunk_step en op st)) ops empty_chunks)" by (rule chunks_db.run_inv)
  moreover have "snd (run_log (chunk_step en) ops st) = fold (\<lambda>op st. snd (chunk_step en op st)) ops st" for st
    by (induction ops arbitrary: st) (auto simp: case_prod_beta Let_def)
  ultimately show ?thesis by simp
qed

definition in_lexical_scope :: "scope_filter option \<Rightarrow> chunk_store \<Rightarrow> chunk_record \<Rightarrow> bool" where
  "in_lexical_scope scope st c \<longleftrightarrow> (case scope_projects scope of None \<Rightarrow> True | Some ps \<Rightarrow> c \<in> set (joined ps st))"

lemma scope_ids_in:
  assumes "db_ok st" "c \<in> set (cs_chunks st)"
  shows "(case scope_chunk_ids scope st of None \<Rightarrow> True | Some ids \<Rightarrow> cn_id c \<in> ids) = in_lexical_scope scope st c"
proof (cases "scope_projects scope")
  case None
  then show ?thesis by (simp add: scope_chunk_ids_def in_lexical_scope_def)
next
  case (Some ps)
  have "cn_id c \<in> cn_id ` set (joined ps st) \<longleftrightarrow> c \<in> set (joined ps st)"
  proof
    assume "cn_id c \<in> cn_id ` set (joined ps st)"
    then obtain d where d: "d \<in> set (joined ps st)" "cn_id d = cn_id c" by auto
    then have "d \<in> set (cs_chunks st)" by (simp add: joined_def)
    then have "d = c" using d(2) assms by (auto simp: db_ok_def distinct_map inj_on_def)
    then show "c \<in> set (joined ps st)" using d(1) by simp
  qed simp
  then show ?thesis using Some by (simp add: scope_chunk_ids_def in_lexical_scope_def)
qed

lemma lexical_hits_best:
  fixes query_terms :: "string list" and scope :: "scope_filter option"
  assumes "lexical_inv en st" "\<not> cs_bm25_dirty st" "cs_chunks st \<noteq> []" "cs_bm25 st \<noteq> None"
    "argpartition_ok (se_argpartition en)" "argsort_ok (se_argsort en)" "1 \<le> k"
    "\<And>corpus. se_bm25_builds en corpus \<Longrightarrow> length (se_bm25_scores en corpus query_terms) = length corpus"
  defines "score \<equiv> \<lambda>i. se_bm25_scores en (corpus_of (rows_by_id st)) query_terms ! i"
    and "cand \<equiv> {i. i < length (rows_by_id st) \<and> in_lexical_scope scope st (rows_by_id st ! i)}"
  shows "\<exists>picks. lexical_hits en query_terms k scope st = map (\<lambda>i. (cn_id (rows_by_id st ! i), score i)) picks
    \<and> best_by score cand picks \<and> length picks = min (nat k) (card cand)"
proof -
  let ?rows = "rows_by_id st" and ?ids = "cs_bm25_chunk_ids st"
  obtain bm where bm: "cs_bm25 st = Some bm" using assms(4) by blast
  have inv: "db_ok st" "bm = corpus_of ?rows" "?ids = map cn_id ?rows" "se_bm25_builds en bm"
    using assms(1,2) bm unfolding lexical_inv_def bm25_fresh_def by blast+
  define scores where "scores = se_bm25_scores en bm query_terms"
  have len: "length scores = length ?rows" using assms(8) [OF inv(4)] by (simp add: scores_def inv(2) corpus_of_def)
  define masked where "masked = (case scope_chunk_ids scope st of
      None \<Rightarrow> map (\<lambda>s. Fin (- s)) scores
    | Some scope_ids \<Rightarrow> map (\<lambda>(cid, s). if cid \<in> scope_ids then Fin (- s) else PInf) (zip ?ids scores))"
  have lenm: "length masked = length ?rows" using len inv(3) by (simp add: masked_def split: option.split)
  have nth: "masked ! i = (if in_lexical_scope scope st (?rows ! i) then Fin (- score i) else PInf)" if "i < length ?rows" for i
  proof -
    have "?rows ! i \<in> set (cs_chunks st)" using nth_mem [OF that] by simp
    then show ?thesis using that len inv(2,3) scope_ids_in [OF inv(1), of "?rows ! i" scope]
      by (auto simp: masked_def score_def scores_def split: option.splits)
  qed
  have pos: "0 < min (nat k) (length ?ids)" "min (nat k) (length ?ids) \<le> length masked"
    using assms(3,7) lenm inv(3) by auto
  define picks where "picks = filter (\<lambda>i. masked ! i \<noteq> PInf) (select_top (se_argpartition en) (se_argsort en) masked (min (nat k) (length ?ids)))"
  have cand: "cand = {j. j < length masked \<and> masked ! j \<noteq> PInf}" using lenm nth by (auto simp: cand_def split: if_splits)
  have "best_by score cand picks \<and> length picks = min (min (nat k) (length ?ids)) (card cand)"
    unfolding picks_def using nth by (intro select_top_best [OF assms(5,6) pos _ cand]) (auto simp: cand_def)
  moreover have "card cand \<le> length ?ids" using card_mono [of "{..<length ?rows}" cand] inv(3) by (auto simp: cand_def)
  ultimately have best: "best_by score cand picks" "length picks = min (nat k) (card cand)" by auto
  have "lexical_hits en query_terms k scope st = map (\<lambda>i. (?ids ! i, scores ! i)) picks"
  proof -
    have "?ids \<noteq> []" using assms(3) inv(3) by simp
    then show ?thesis
      unfolding lexical_hits_def bm option.case Let_def scores_def [symmetric] masked_def [symmetric] picks_def [symmetric] by simp
  qed
  also have "\<dots> = map (\<lambda>i. (cn_id (?rows ! i), score i)) picks"
    using best(1) inv(2,3) by (auto simp: best_by_def cand_def score_def scores_def)
  finally show ?thesis using best by blast
qed

lemma lexical_hits_ensured:
  fixes query_terms :: "string list" and scope :: "scope_filter option"
  assumes "lexical_inv en st" "ensure_bm25 en st = (Inr (), st1)" "cs_chunks st = [] \<or> se_bm25_builds en (corpus_of (rows_by_id st))"
    "argpartition_ok (se_argpartition en)" "argsort_ok (se_argsort en)" "1 \<le> k"
    "\<And>corpus. se_bm25_builds en corpus \<Longrightarrow> length (se_bm25_scores en corpus query_terms) = length corpus"
  defines "score \<equiv> \<lambda>i. se_bm25_scores en (corpus_of (rows_by_id st)) query_terms ! i"
    and "cand \<equiv> {i. i < length (rows_by_id st) \<and> in_lexical_scope scope st (rows_by_id st ! i)}"
  shows "\<exists>picks. lexical_hits en query_terms k scope st1 = map (\<lambda>i. (cn_id (rows_by_id st ! i), score i)) picks
    \<and> best_by score cand picks \<and> length picks = min (nat k) (card cand)"
proof -
  have st1: "lexical_inv en st1" "\<not> cs_bm25_dirty st1" using ensure_inv [OF assms(1,2)] by simp_all
  have same: "cs_chunks st1 = cs_chunks st" "cs_files st1 = cs_files st"
    using same_tables_bm25(3) [of st en] by (simp_all add: same_tables_def assms(2))
  have rows: "rows_by_id st1 = rows_by_id st" by (rule rows_by_id_cong) (rule same(1))
  have scope: "in_lexical_scope scope st1 c = in_lexical_scope scope st c" for c
    using same by (simp add: in_lexical_scope_def joined_def split: option.split)
  show ?thesis
  proof (cases "cs_chunks st = []")
    case True
    then have none: "map cn_id (rows_by_id st1) = []" using rows by simp
    have "cs_bm25 st1 = None \<or> cs_bm25_chunk_ids st1 = []"
      using st1 unfolding lexical_inv_def bm25_fresh_def none by (cases "cs_bm25 st1") simp_all
    then have "lexical_hits en query_terms k scope st1 = []" by (auto simp: lexical_hits_def Let_def split: option.split)
    moreover have "rows_by_id st = []" using True by simp
    ultimately show ?thesis by (simp add: best_by_def cand_def)
  next
    case False
    have "cs_bm25 (save_bm25 en s) = cs_bm25 s" for s by (simp add: save_bm25_def Let_def split: option.split)
    then have "cs_bm25 st1 \<noteq> None" using False assms(2) by (auto simp: ensure_bm25_def rebuild_bm25_def Let_def split: if_splits)
    moreover have "cs_chunks st1 \<noteq> []" using False same by simp
    ultimately show ?thesis
      using lexical_hits_best [OF st1 _ _ assms(4-7), of scope] unfolding rows scope score_def cand_def by blast
  qed
qed

text \<open>
  C13: the lexical search is exact. After any history of the store in which no batch was cut off,
  with whatever searches, closings and reopenings in between and whether or not the index could be
  saved, a search ranks the chunks that are in the tables now by the BM25 scores of their texts: the
  hits are distinct chunks of the scope with those scores, best first, \<open>k\<close> of them or all, and no chunk
  of the scope left out scores higher. The index kept in memory or loaded from the pickle is never stale.
  When there are chunks whose words BM25 cannot be built from, the search raises a division by zero,
  and it raises in no other case.
\<close>

theorem lexical_search_best:
  fixes query_terms :: "string list"
  assumes "sha_ok en" "argpartition_ok (se_argpartition en)" "argsort_ok (se_argsort en)"
    "\<And>corpus. se_bm25_builds en corpus \<Longrightarrow> length (se_bm25_scores en corpus query_terms) = length corpus"
    "list_all (op_hashed en) ops" "run_log (chunk_step en) ops empty_chunks = (answers, st)" "\<not> list_ex broken_batch answers"
    "1 \<le> k" "query_terms \<noteq> []"
  shows "case fst (search_lexical en query_terms k scope st) of
      Inl x \<Rightarrow> x = ZeroDivisionError \<and> cs_chunks st \<noteq> [] \<and> \<not> se_bm25_builds en (corpus_of (rows_by_id st))
    | Inr hits \<Rightarrow> (cs_chunks st = [] \<or> se_bm25_builds en (corpus_of (rows_by_id st))) \<and> (\<exists>picks.
        hits = map (\<lambda>i. (cn_id (rows_by_id st ! i), se_bm25_scores en (corpus_of (rows_by_id st)) query_terms ! i)) picks
      \<and> best_by (\<lambda>i. se_bm25_scores en (corpus_of (rows_by_id st)) query_terms ! i)
          {i. i < length (rows_by_id st) \<and> in_lexical_scope scope st (rows_by_id st ! i)} picks
      \<and> length picks = min (nat k) (card {i. i < length (rows_by_id st) \<and> in_lexical_scope scope st (rows_by_id st ! i)}))"
proof -
  have inv: "lexical_inv en st" using history_lexical [OF assms(1) empty_lexical assms(5,6,7)] .
  obtain r st1 where ens: "ensure_bm25 en st = (r, st1)" by fastforce
  have st1: "lexical_inv en st1" "r = Inr () \<Longrightarrow> \<not> cs_bm25_dirty st1" using ensure_inv [OF inv ens] by simp_all
  have r: "r = (if cs_chunks st = [] \<or> se_bm25_builds en (corpus_of (rows_by_id st)) then Inr () else Inl ZeroDivisionError)"
    using ensure_raises [OF inv] by (simp add: ens)
  have search: "fst (search_lexical en query_terms k scope st) = map_sum id (\<lambda>u. lexical_hits en query_terms k scope st1) r"
    using assms(8,9) by (cases r) (simp_all add: search_lexical_def ens)
  show ?thesis
  proof (cases "cs_chunks st = [] \<or> se_bm25_builds en (corpus_of (rows_by_id st))")
    case True
    have "\<exists>picks. lexical_hits en query_terms k scope st1 = map (\<lambda>i. (cn_id (rows_by_id st ! i), se_bm25_scores en (corpus_of (rows_by_id st)) query_terms ! i)) picks
      \<and> best_by (\<lambda>i. se_bm25_scores en (corpus_of (rows_by_id st)) query_terms ! i)
          {i. i < length (rows_by_id st) \<and> in_lexical_scope scope st (rows_by_id st ! i)} picks
      \<and> length picks = min (nat k) (card {i. i < length (rows_by_id st) \<and> in_lexical_scope scope st (rows_by_id st ! i)})"
      using True r by (intro lexical_hits_ensured [OF inv _ True assms(2,3,8,4)]) (simp add: ens)
    then show ?thesis using True r by (simp add: search)
  next
    case False
    then show ?thesis using r by (simp add: search)
  qed
qed

section \<open>Reading by id and by row\<close>

text \<open>The limit on bound parameters does not show: looking ids up in batches is looking each one up.\<close>

lemma get_chunks_by_id_eq:
  assumes "db_ok st"
  shows "get_chunks_by_id ids st = concat (map (\<lambda>i. case find (\<lambda>c. cn_id c = i) (cs_chunks st) of None \<Rightarrow> [] | Some c \<Rightarrow> [c]) ids)"
proof -
  have dist: "distinct (map cn_id (cs_chunks st))" using assms by (simp add: db_ok_def)
  have none: "find (\<lambda>c. cn_id c = i) (cs_chunks st) = None" if "i \<notin> cn_id ` set (cs_chunks st)" for i
    using that by (auto simp: find_None_iff)
  have "dict_get (fold (\<lambda>batch d. fold (\<lambda>c. dict_set (cn_id c) c) (filter (\<lambda>c. cn_id c \<in> set batch) (cs_chunks st)) d)
      (ibatched sql_in_batch ids) []) i = find (\<lambda>c. cn_id c = i) (cs_chunks st)" if "i \<in> set ids" for i
    using that none [of i] batched_get [OF dist, of "\<lambda>c. c" "ibatched sql_in_batch ids" "[]" i]
    by (auto simp: concat_ibatched sql_in_batch_def option.map_ident)
  then show ?thesis by (simp add: get_chunks_by_id_def cong: map_cong)
qed

text \<open>Ids of chunks that are there come back as those chunks, in the order asked for.\<close>

lemma get_chunks_by_id_present:
  "db_ok st \<Longrightarrow> set cs \<subseteq> set (cs_chunks st) \<Longrightarrow> get_chunks_by_id (map cn_id cs) st = cs"
proof -
  assume a: "db_ok st" "set cs \<subseteq> set (cs_chunks st)"
  have "find (\<lambda>x. cn_id x = cn_id c) (cs_chunks st) = Some c" if "c \<in> set cs" for c
    using a that by (intro find_by_id) (auto simp: db_ok_def)
  then have "concat (map (\<lambda>i. case find (\<lambda>c. cn_id c = i) (cs_chunks st) of None \<Rightarrow> [] | Some c \<Rightarrow> [c]) (map cn_id cs)) = concat (map (\<lambda>c. [c]) cs)"
    by (simp add: comp_def cong: map_cong)
  then show ?thesis by (simp add: get_chunks_by_id_eq [OF a(1)])
qed

section \<open>Findings\<close>

text \<open>
  A batch is not atomic: with the connection in autocommit mode, the chunks before a failing one
  stay in the table, and the index over the old tables is still taken for current.
\<close>

definition half_batch_store :: chunk_store where
  "half_batch_store = empty_chunks\<lparr>cs_projects := [\<lparr>pj_name = ''p'', pj_root_path = ''/p'', pj_last_full_scan_at = 0, pj_session_id = None\<rparr>],
     cs_files := [\<lparr>fl_id = 1, fl_project = ''p'', fl_rel_path = ''a'', fl_mtime = 0, fl_size_bytes = 1, fl_content_hash = ''h''\<rparr>],
     cs_bm25 := None, cs_bm25_dirty := False\<rparr>"

definition demo_chunk_record :: "nat \<Rightarrow> string \<Rightarrow> chunk_record" where
  "demo_chunk_record file text = \<lparr>cn_id = 0, cn_file_id = file, cn_chunk_index = 0, cn_start_offset = 0, cn_end_offset = int (length text),
     cn_start_line = 1, cn_end_line = 1, cn_token_count = 1, cn_content_hash = text, cn_text = text, cn_embedder_model = ''m'',
     cn_embedder_sha256 = ''s'', cn_embedding_row = Some 0\<rparr>"

lemma batch_not_atomic:
  "case upsert_chunks [demo_chunk_record 1 ''x'', demo_chunk_record 2 ''y''] half_batch_store of
     (r, st) \<Rightarrow> r = Inl IntegrityError \<and> map cn_text (cs_chunks st) = [''x''] \<and> \<not> cs_bm25_dirty st"
  by (simp add: upsert_chunks_def upsert_chunk_def half_batch_store_def empty_chunks_def demo_chunk_record_def next_id_def)

text \<open>An empty list of projects counts nothing and searches everything.\<close>

lemma empty_scope_disagrees:
  assumes "scope = Some \<lparr>sf_project = None, sf_project_in = Some []\<rparr>"
  shows "chunk_count scope st = 0 \<and> list_chunk_ids_in_scope scope st = sort (map cn_id (cs_chunks st))"
  using assms by (simp add: chunk_count_def list_chunk_ids_in_scope_def scope_projects_def)

section \<open>An instance\<close>

definition demo_sha :: "string \<Rightarrow> string" where
  \<comment> \<open>injective, and without null characters\<close>
  "demo_sha t = concat (map (\<lambda>c. if c = CHR 0x00 then [CHR 0x01, CHR 0x01] else if c = CHR 0x01 then [CHR 0x01, CHR 0x02] else [c]) t)"

lemma demo_sha_inj: "demo_sha s = demo_sha t \<Longrightarrow> s = t"
proof (induction s arbitrary: t)
  case Nil
  then show ?case by (cases t) (auto simp: demo_sha_def split: if_splits)
next
  case (Cons c s)
  then show ?case by (cases t) (auto simp: demo_sha_def split: if_splits)
qed

definition demo_sql :: sqlite_env where
  \<comment> \<open>a score counts the query words in a document\<close>
  "demo_sql = \<lparr>se_bm25_builds = list_ex (\<lambda>d. d \<noteq> []), se_bm25_scores = (\<lambda>corpus q. map (\<lambda>d. real (length (filter (\<lambda>w. w \<in> set q) d))) corpus), se_sha256 = demo_sha,
     se_argpartition = (\<lambda>xs k. stable_argsort xs), se_argsort = stable_argsort, se_pickle_writable = True\<rparr>"

lemma demo_sql_ok: "sha_ok demo_sql" "argpartition_ok (se_argpartition demo_sql)" "argsort_ok (se_argsort demo_sql)"
    "length (se_bm25_scores demo_sql corpus q) = length corpus"
proof -
  have "CHR 0x00 \<notin> set (demo_sha t)" for t by (auto simp: demo_sha_def split: if_splits)
  then show "sha_ok demo_sql" using demo_sha_inj by (auto simp: sha_ok_def demo_sql_def inj_def)
qed (simp_all add: demo_sql_def stable_argsort_ok stable_argpartition_ok)

definition demo_history :: "chunk_op list" where
  "demo_history = [SProject \<lparr>pj_name = ''p'', pj_root_path = ''/p'', pj_last_full_scan_at = 0, pj_session_id = None\<rparr>,
     SFile \<lparr>fl_id = 0, fl_project = ''p'', fl_rel_path = ''a'', fl_mtime = 0, fl_size_bytes = 1, fl_content_hash = ''h''\<rparr>,
     SChunks [demo_chunk_record 1 ''alpha'', demo_chunk_record 1 ''beta gamma''], SReopen]"

lemma demo_history_run:
  "list_all (op_hashed demo_sql) demo_history" "\<not> list_ex broken_batch (fst (run_log (chunk_step demo_sql) demo_history empty_chunks))"
  "length (rows_by_id (snd (run_log (chunk_step demo_sql) demo_history empty_chunks))) = 2"
  by code_simp+

lemma demo_history_words:
  "list_ex (\<lambda>d. d \<noteq> []) (corpus_of (rows_by_id (snd (run_log (chunk_step demo_sql) demo_history empty_chunks))))"
  by code_simp

theorem lexical_search_best_witness:
  "map_sum id length (fst (search_lexical demo_sql [''beta''] 1 None (snd (run_log (chunk_step demo_sql) demo_history empty_chunks)))) = Inr 1"
proof -
  obtain answers st where r: "run_log (chunk_step demo_sql) demo_history empty_chunks = (answers, st)" by fastforce
  have "card {i. i < length (rows_by_id st) \<and> in_lexical_scope None st (rows_by_id st ! i)} = 2"
    using demo_history_run(3) by (simp add: r in_lexical_scope_def scope_projects_def)
  moreover have "se_bm25_builds demo_sql (corpus_of (rows_by_id st))" using demo_history_words unfolding r snd_conv by (simp add: demo_sql_def)
  ultimately show ?thesis
    using lexical_search_best [OF demo_sql_ok(1,2,3,4) demo_history_run(1) r, of 1 "[''beta'']" None] demo_history_run(2)
    by (auto simp: r split: sum.splits)
qed

text \<open>A store whose only chunk has no word: every search for a word divides by zero.\<close>

lemma wordless_store_raises:
  "fst (search_lexical demo_sql [''beta''] 1 None (snd (run_log (chunk_step demo_sql)
      [SProject \<lparr>pj_name = ''p'', pj_root_path = ''/p'', pj_last_full_scan_at = 0, pj_session_id = None\<rparr>,
       SFile \<lparr>fl_id = 0, fl_project = ''p'', fl_rel_path = ''a'', fl_mtime = 0, fl_size_bytes = 1, fl_content_hash = ''h''\<rparr>,
       SChunks [demo_chunk_record 1 ''---'']] empty_chunks))) = Inl ZeroDivisionError"
  by code_simp

end
