(* ===== verification/Dmn_Memmap.thy ===== *)
theory Dmn_Memmap
  imports LC_Rank
begin

text \<open>
  The embedding store of the daemon (\<open>longctx_daemon/storage/memmap_store.py\<close>): rows of a numpy
  memmap, a freelist of rows to reuse, and a pickled index beside them. The memmap is the file
  itself, so a write to a row is a write to disk; the index is replaced in one step by
  \<open>_save_index\<close>. Rows are real vectors. numpy's index sorts are parameters of the search. The
  lock makes each operation one step; a store is not used after it was closed.

  A file that numpy maps with more rows than it has is extended by zeros.
\<close>

section \<open>The files and the store\<close>

record embed_index =
  ei_num_rows :: nat
  ei_dim :: nat
  ei_model_name :: string
  ei_model_sha256 :: string
  ei_freelist :: "nat list"
  ei_capacity :: nat

record embed_files =
  ef_npy :: "vec list option"
  ef_idx :: "embed_index option"

record embed_store =
  em_state :: embed_index
  em_npy :: "vec list"
  em_saved :: embed_index
  em_growth_factor :: real
  em_validate :: bool

definition safe_filename :: "string \<Rightarrow> string" where
  "safe_filename name = map (\<lambda>c. if is_alnum_ascii c \<or> c \<in> set ''._-'' then c else CHR ''_'') name"

definition default_initial_rows :: int where "default_initial_rows = 1024"
definition default_growth_factor :: real where "default_growth_factor = 3 / 2"
definition norm_atol :: real where "norm_atol = 1 / 10 ^ 5"

definition zero_row :: "nat \<Rightarrow> vec" where "zero_row n = replicate n 0"

definition fit_rows :: "nat \<Rightarrow> nat \<Rightarrow> vec list \<Rightarrow> vec list" where
  \<comment> \<open>what mapping a file with at least \<open>cap\<close> rows makes of it\<close>
  "fit_rows cap n npy = npy @ replicate (cap - length npy) (zero_row n)"

definition save_idx :: "embed_store \<Rightarrow> embed_store" where
  "save_idx st = st\<lparr>em_saved := em_state st\<rparr>"

definition files_of :: "embed_store \<Rightarrow> embed_files" where
  "files_of st = \<lparr>ef_npy = Some (em_npy st), ef_idx = Some (em_saved st)\<rparr>"

section \<open>Create and open\<close>

record embed_args =
  ea_model_name :: string
  ea_model_sha256 :: string
  ea_dim :: int
  ea_initial_rows :: int
  ea_growth_factor :: real
  ea_validate :: bool
  ea_on_mismatch :: string

definition create_new :: "embed_args \<Rightarrow> embed_store" where
  "create_new ar =
     (let state = \<lparr>ei_num_rows = 0, ei_dim = nat (ea_dim ar), ei_model_name = ea_model_name ar,
                   ei_model_sha256 = ea_model_sha256 ar, ei_freelist = [], ei_capacity = nat (ea_initial_rows ar)\<rparr>
      in \<lparr>em_state = state, em_npy = replicate (nat (ea_initial_rows ar)) (zero_row (nat (ea_dim ar))), em_saved = state,
          em_growth_factor = ea_growth_factor ar, em_validate = ea_validate ar\<rparr>)"

definition open_existing :: "embed_args \<Rightarrow> vec list \<Rightarrow> embed_index \<Rightarrow> exc + embed_store" where
  "open_existing ar npy state =
     (if int (ei_dim state) \<noteq> ea_dim ar then Inl ValueError
      else if ei_model_name state \<noteq> ea_model_name ar then Inl EmbedderMismatch
      else if ei_model_sha256 state \<noteq> ea_model_sha256 ar \<and> ea_on_mismatch ar = ''raise'' then Inl EmbedderMismatch
      else let state = state\<lparr>ei_model_sha256 := ea_model_sha256 ar\<rparr>
           in Inr \<lparr>em_state = state, em_npy = fit_rows (ei_capacity state) (ei_dim state) npy, em_saved = state,
                em_growth_factor = ea_growth_factor ar, em_validate = ea_validate ar\<rparr>)"

definition open_store :: "embed_args \<Rightarrow> (string \<Rightarrow> embed_files) \<Rightarrow> exc + embed_store" where
  \<comment> \<open>the constructor, over the files of the directory by their base name\<close>
  "open_store ar files =
     (if ea_growth_factor ar \<le> 1 then Inl ValueError
      else if ea_dim ar \<le> 0 then Inl ValueError
      else if ea_initial_rows ar \<le> 0 then Inl ValueError
      else if ea_on_mismatch ar \<notin> {''raise'', ''warn''} then Inl ValueError
      else case (ef_idx (files (safe_filename (ea_model_name ar))), ef_npy (files (safe_filename (ea_model_name ar)))) of
             (Some state, Some npy) \<Rightarrow> open_existing ar npy state
           | _ \<Rightarrow> Inr (create_new ar))"

section \<open>Writing\<close>

definition assert_normalized :: "embed_store \<Rightarrow> vec \<Rightarrow> bool" where
  \<comment> \<open>false: the assertion fails\<close>
  "assert_normalized st emb \<longleftrightarrow> em_validate st \<longrightarrow>
     l2norm emb \<noteq> 0 \<and> list_all (\<lambda>x. \<bar>x - x / l2norm emb\<bar> \<le> norm_atol) emb"

definition grow :: "nat \<Rightarrow> embed_store \<Rightarrow> embed_store" where
  "grow min_extra st =
     (let old_cap = ei_capacity (em_state st);
          new_cap = max (nat \<lfloor>real old_cap * em_growth_factor st\<rfloor> + 1) (old_cap + max min_extra 1)
      in st\<lparr>em_npy := take old_cap (em_npy st) @ replicate (new_cap - old_cap) (zero_row (ei_dim (em_state st))) @ drop new_cap (em_npy st),
            em_state := (em_state st)\<lparr>ei_capacity := new_cap\<rparr>\<rparr>)"

definition take_free :: "vec \<Rightarrow> embed_store \<Rightarrow> nat \<times> embed_store" where
  \<comment> \<open>reuse the row freed last\<close>
  "take_free emb st =
     (let row = last (ei_freelist (em_state st))
      in (row, st\<lparr>em_state := (em_state st)\<lparr>ei_freelist := butlast (ei_freelist (em_state st))\<rparr>, em_npy := (em_npy st)[row := emb]\<rparr>))"

definition append_data :: "vec \<Rightarrow> embed_store \<Rightarrow> nat \<times> embed_store" where
  \<comment> \<open>the row and the counters, before the index is saved\<close>
  "append_data emb st =
     (if ei_freelist (em_state st) \<noteq> [] then take_free emb st
      else let st = (if ei_capacity (em_state st) \<le> ei_num_rows (em_state st) then grow 0 st else st);
               row = ei_num_rows (em_state st)
           in (row, st\<lparr>em_npy := (em_npy st)[row := emb], em_state := (em_state st)\<lparr>ei_num_rows := row + 1\<rparr>\<rparr>))"

definition append_row :: "vec \<Rightarrow> embed_store \<Rightarrow> (exc + nat) \<times> embed_store" where
  "append_row emb st =
     (if length emb \<noteq> ei_dim (em_state st) then (Inl ValueError, st)
      else if \<not> assert_normalized st emb then (Inl AssertionError, st)
      else let (row, st) = append_data emb st in (Inr row, save_idx st))"

fun fill_free :: "vec list \<Rightarrow> embed_store \<Rightarrow> nat list \<times> vec list \<times> embed_store" where
  \<comment> \<open>the first loop of \<open>append_batch\<close>: the rows used, the embeddings left\<close>
  "fill_free [] st = ([], [], st)"
| "fill_free (emb # embs) st =
     (if ei_freelist (em_state st) = [] then ([], emb # embs, st)
      else let (row, st) = take_free emb st; (rows, rest, st) = fill_free embs st in (row # rows, rest, st))"

function reserve :: "nat \<Rightarrow> embed_store \<Rightarrow> embed_store" where
  "reserve remaining st =
     (if ei_capacity (em_state st) < ei_num_rows (em_state st) + remaining then reserve remaining (grow remaining st) else st)"
  by pat_completeness auto
termination
  by (relation "measure (\<lambda>(n, st). ei_num_rows (em_state st) + n - ei_capacity (em_state st))") (auto simp: grow_def Let_def)

declare reserve.simps [simp del]

definition write_tail :: "vec list \<Rightarrow> embed_store \<Rightarrow> nat list \<times> embed_store" where
  \<comment> \<open>\<open>mm[start:start + remaining] = embeddings[consumed:]\<close>\<close>
  "write_tail embs st =
     (let start = ei_num_rows (em_state st); n = length embs
      in ([start..<start + n],
          st\<lparr>em_npy := take start (em_npy st) @ embs @ drop (start + n) (em_npy st),
             em_state := (em_state st)\<lparr>ei_num_rows := start + n\<rparr>\<rparr>))"

definition append_batch :: "vec list \<Rightarrow> embed_store \<Rightarrow> (exc + nat list) \<times> embed_store" where
  "append_batch embs st =
     (if \<not> list_all (\<lambda>e. length e = ei_dim (em_state st)) embs then (Inl ValueError, st)
      else if embs = [] then (Inr [], st)
      else if \<not> list_all (assert_normalized st) embs then (Inl AssertionError, st)
      else let (rows, rest, st) = fill_free embs st;
               (tail_rows, st) = (if rest = [] then ([], st) else write_tail rest (reserve (length rest) st))
           in (Inr (rows @ tail_rows), save_idx st))"

definition free_row :: "int \<Rightarrow> embed_store \<Rightarrow> (exc + unit) \<times> embed_store" where
  "free_row row st =
     (if \<not> (0 \<le> row \<and> row < int (ei_num_rows (em_state st))) then (Inl IndexError, st)
      else if nat row \<in> set (ei_freelist (em_state st)) then (Inr (), st)
      else (Inr (), save_idx (st\<lparr>em_npy := (em_npy st)[nat row := zero_row (ei_dim (em_state st))],
                                em_state := (em_state st)\<lparr>ei_freelist := ei_freelist (em_state st) @ [nat row]\<rparr>\<rparr>)))"

section \<open>Reading\<close>

definition get_row :: "int \<Rightarrow> embed_store \<Rightarrow> exc + vec" where
  "get_row row st =
     (if \<not> (0 \<le> row \<and> row < int (ei_num_rows (em_state st))) then Inl IndexError else Inr (em_npy st ! nat row))"

fun get_batch :: "int list \<Rightarrow> embed_store \<Rightarrow> exc + vec list" where
  "get_batch [] st = Inr []"
| "get_batch (r # rs) st = (case get_row r st of Inl e \<Rightarrow> Inl e
     | Inr v \<Rightarrow> (case get_batch rs st of Inl e \<Rightarrow> Inl e | Inr vs \<Rightarrow> Inr (v # vs)))"

definition scored :: "embed_store \<Rightarrow> vec \<Rightarrow> int list option \<Rightarrow> xreal list" where
  \<comment> \<open>the negated scores; a freed row or one out of scope is at \<open>+inf\<close>\<close>
  "scored st q in_scope = map (\<lambda>r.
     if r \<in> set (ei_freelist (em_state st)) \<or> (case in_scope of None \<Rightarrow> False | Some rs \<Rightarrow> int r \<notin> set rs)
     then PInf else Fin (- dot (em_npy st ! r) q)) [0..<ei_num_rows (em_state st)]"

definition search_dense ::
  "(xreal list \<Rightarrow> nat \<Rightarrow> nat list) \<Rightarrow> (xreal list \<Rightarrow> nat list) \<Rightarrow> embed_store \<Rightarrow> vec \<Rightarrow> int \<Rightarrow> int list option \<Rightarrow> exc + (nat \<times> real) list" where
  "search_dense part srt st q k in_scope =
     (if k \<le> 0 then Inr []
      else if length q \<noteq> ei_dim (em_state st) then Inl ValueError
      else let n = ei_num_rows (em_state st) in
        if n = 0 then Inr []
        else let neg = scored st q in_scope;
                 top_idx = select_top part srt neg (min (nat k) n)
             in Inr (map (\<lambda>i. (i, dot (em_npy st ! i) q)) (filter (\<lambda>i. neg ! i \<noteq> PInf) top_idx)))"

definition close_store :: "embed_store \<Rightarrow> embed_files" where
  "close_store st = files_of (save_idx st)"

section \<open>The rows in use\<close>

text \<open>
  What the store stands for: a finite map from rows to embeddings. A row is in use when it was
  handed out and is not on the freelist.
\<close>

definition live :: "embed_store \<Rightarrow> nat \<Rightarrow> vec option" where
  "live st r = (if r < ei_num_rows (em_state st) \<and> r \<notin> set (ei_freelist (em_state st)) then Some (em_npy st ! r) else None)"

definition rows_ok :: "embed_store \<Rightarrow> bool" where
  "rows_ok st \<longleftrightarrow> ei_num_rows (em_state st) \<le> ei_capacity (em_state st) \<and> ei_capacity (em_state st) \<le> length (em_npy st)
     \<and> (\<forall>v \<in> set (em_npy st). length v = ei_dim (em_state st))
     \<and> distinct (ei_freelist (em_state st)) \<and> set (ei_freelist (em_state st)) \<subseteq> {..<ei_num_rows (em_state st)}"

definition embed_ok :: "embed_store \<Rightarrow> bool" where
  "embed_ok st \<longleftrightarrow> rows_ok st \<and> em_saved st = em_state st"

lemma save_idx_ok [simp]: "embed_ok (save_idx st) = rows_ok st" "live (save_idx st) = live st"
  by (auto simp: embed_ok_def rows_ok_def save_idx_def live_def fun_eq_iff)

lemma length_zero_row [simp]: "length (zero_row n) = n"
  by (simp add: zero_row_def)

lemma grow_fields [simp]:
  "ei_num_rows (em_state (grow n st)) = ei_num_rows (em_state st)" "ei_freelist (em_state (grow n st)) = ei_freelist (em_state st)"
  "ei_dim (em_state (grow n st)) = ei_dim (em_state st)" "em_saved (grow n st) = em_saved st" "em_validate (grow n st) = em_validate st"
  by (simp_all add: grow_def Let_def)

lemma grow_capacity: "ei_capacity (em_state st) + max n 1 \<le> ei_capacity (em_state (grow n st))"
  by (simp add: grow_def Let_def)

lemma grow_rows:
  assumes "rows_ok st"
  shows "rows_ok (grow n st) \<and> live (grow n st) = live st"
proof -
  have r: "r < ei_capacity (em_state st)" if "r < ei_num_rows (em_state st)" for r
    using that assms by (simp add: rows_ok_def)
  have "rows_ok (grow n st)" using assms
    by (auto simp: rows_ok_def grow_def Let_def dest: in_set_takeD in_set_dropD)
  moreover have "live (grow n st) = live st" using assms r
    by (auto simp: live_def fun_eq_iff grow_def Let_def nth_append rows_ok_def)
  ultimately show ?thesis by blast
qed

lemma reserve_rows:
  "rows_ok st \<Longrightarrow> rows_ok (reserve n st) \<and> live (reserve n st) = live st
     \<and> ei_num_rows (em_state (reserve n st)) = ei_num_rows (em_state st) \<and> ei_freelist (em_state (reserve n st)) = ei_freelist (em_state st)
     \<and> ei_dim (em_state (reserve n st)) = ei_dim (em_state st)
     \<and> ei_num_rows (em_state st) + n \<le> ei_capacity (em_state (reserve n st))"
proof (induction n st rule: reserve.induct)
  case (1 n st)
  show ?case
  proof (cases "ei_capacity (em_state st) < ei_num_rows (em_state st) + n")
    case True
    then have "reserve n st = reserve n (grow n st)" by (subst reserve.simps) simp
    then show ?thesis using 1(1) [OF True] grow_rows [OF 1(2), of n] by simp
  next
    case False
    then have "reserve n st = st" by (subst reserve.simps) simp
    then show ?thesis using 1(2) False by simp
  qed
qed

lemma take_free_rows:
  assumes "rows_ok st" "ei_freelist (em_state st) \<noteq> []" "length emb = ei_dim (em_state st)"
  shows "case take_free emb st of (row, st') \<Rightarrow> rows_ok st' \<and> live st row = None \<and> live st' = (live st)(row \<mapsto> emb)
     \<and> ei_dim (em_state st') = ei_dim (em_state st)"
proof -
  obtain fs row where fs: "ei_freelist (em_state st) = fs @ [row]" using assms(2) by (metis rev_exhaust)
  have row: "row < ei_num_rows (em_state st)" "row \<notin> set fs" "row < length (em_npy st)"
    using assms(1) fs by (auto simp: rows_ok_def)
  have "rows_ok (snd (take_free emb st))" using assms(1,3) fs
    by (auto simp: rows_ok_def take_free_def Let_def dest: set_update_subset_insert [THEN subsetD])
  then show ?thesis using fs row
    by (auto simp: take_free_def Let_def live_def fun_eq_iff)
qed

lemma append_data_rows:
  assumes "rows_ok st" "length emb = ei_dim (em_state st)"
  shows "case append_data emb st of (row, st') \<Rightarrow> rows_ok st' \<and> live st row = None \<and> live st' = (live st)(row \<mapsto> emb)
     \<and> ei_dim (em_state st') = ei_dim (em_state st) \<and> em_saved st' = em_saved st
     \<and> ei_capacity (em_state st) \<le> ei_capacity (em_state st')"
proof (cases "ei_freelist (em_state st) = []")
  case False
  then show ?thesis using take_free_rows [OF assms(1) False assms(2)]
    by (auto simp: append_data_def take_free_def Let_def)
next
  case True
  define st1 where "st1 = (if ei_capacity (em_state st) \<le> ei_num_rows (em_state st) then grow 0 st else st)"
  have st1: "rows_ok st1" "live st1 = live st" "ei_num_rows (em_state st1) = ei_num_rows (em_state st)"
      "ei_freelist (em_state st1) = []" "ei_dim (em_state st1) = ei_dim (em_state st)" "em_saved st1 = em_saved st"
    using assms(1) grow_rows [OF assms(1), of 0] True by (simp_all add: st1_def)
  have cap: "ei_num_rows (em_state st1) < ei_capacity (em_state st1)"
    using grow_capacity [of st 0] assms(1) by (auto simp: st1_def rows_ok_def)
  define row where "row = ei_num_rows (em_state st1)"
  have len: "row < length (em_npy st1)" using cap st1(1) by (simp add: rows_ok_def row_def)
  have eq: "append_data emb st = (row, st1\<lparr>em_npy := (em_npy st1)[row := emb], em_state := (em_state st1)\<lparr>ei_num_rows := row + 1\<rparr>\<rparr>)"
    using True by (simp add: append_data_def st1_def row_def Let_def)
  have "rows_ok (snd (append_data emb st))" using st1 cap assms(2)
    by (auto simp: eq rows_ok_def row_def dest: set_update_subset_insert [THEN subsetD])
  moreover have "live st row = None" using st1(2,4) by (simp add: live_def row_def flip: st1(2))
  moreover have "live (snd (append_data emb st)) = (live st)(row \<mapsto> emb)"
    unfolding st1(2) [symmetric] using len st1(4) by (auto simp: eq live_def fun_eq_iff row_def)
  moreover have "ei_capacity (em_state st) \<le> ei_capacity (em_state st1)"
    using grow_capacity [of st 0] by (simp add: st1_def)
  ultimately show ?thesis using st1(5,6) by (simp add: eq)
qed

lemma fill_free_rows:
  assumes "rows_ok st" "\<forall>e \<in> set embs. length e = ei_dim (em_state st)"
  shows "case fill_free embs st of (rows, rest, st') \<Rightarrow> rows_ok st' \<and> distinct rows \<and> (\<forall>r \<in> set rows. live st r = None)
     \<and> length rows + length rest = length embs \<and> rest = drop (length rows) embs \<and> (rest \<noteq> [] \<longrightarrow> ei_freelist (em_state st') = [])
     \<and> live st' = (live st)(rows [\<mapsto>] take (length rows) embs) \<and> ei_dim (em_state st') = ei_dim (em_state st)"
  using assms
proof (induction embs st rule: fill_free.induct)
  case (2 emb embs st)
  show ?case
  proof (cases "ei_freelist (em_state st) = []")
    case True
    then show ?thesis using 2(2,3) by simp
  next
    case False
    obtain row st1 where t: "take_free emb st = (row, st1)" by fastforce
    have t1: "rows_ok st1" "live st row = None" "live st1 = (live st)(row \<mapsto> emb)" "ei_dim (em_state st1) = ei_dim (em_state st)"
      using take_free_rows [OF 2(2) False, of emb] 2(3) by (simp_all add: t)
    obtain rows rest st2 where f: "fill_free embs st1 = (rows, rest, st2)" using prod_cases3 by blast
    have "\<forall>e \<in> set embs. length e = ei_dim (em_state st1)" using 2(3) t1(4) by simp
    note ih = 2(1) [OF False t [symmetric] refl t1(1) this, unfolded f prod.case]
    have "\<forall>r \<in> set rows. live st r = None \<and> r \<noteq> row" using ih t1(3) by (metis fun_upd_apply option.distinct(1))
    then show ?thesis using ih t1 False by (auto simp: t f)
  qed
qed simp

lemma live_upds_tail:
  assumes "length vs = n"
  shows "(m([k..<k + n] [\<mapsto>] vs)) r = (if k \<le> r \<and> r < k + n then Some (vs ! (r - k)) else m r)"
  using assms
proof (induction vs arbitrary: m k n)
  case (Cons v vs)
  then obtain n' where n: "n = Suc n'" "length vs = n'" by auto
  have u: "[k..<k + n] = k # [Suc k..<Suc k + n']" by (simp add: n(1) upt_rec)
  note ih = Cons.IH [OF n(2), of "m(k \<mapsto> v)" "Suc k"]
  have "(m([k..<k + n] [\<mapsto>] v # vs)) r = (if Suc k \<le> r \<and> r < Suc k + n' then Some (vs ! (r - Suc k)) else (m(k \<mapsto> v)) r)"
    unfolding u map_upds_Cons by (rule ih)
  also have "\<dots> = (if k \<le> r \<and> r < k + n then Some ((v # vs) ! (r - k)) else m r)"
    using n(1) by (cases "r = k") (auto simp: nth_Cons')
  finally show ?case .
qed auto

lemma write_tail_rows:
  assumes "rows_ok st" "ei_num_rows (em_state st) + length embs \<le> ei_capacity (em_state st)"
    "\<forall>e \<in> set embs. length e = ei_dim (em_state st)"
  shows "case write_tail embs st of (rows, st') \<Rightarrow> rows_ok st' \<and> distinct rows \<and> (\<forall>r \<in> set rows. live st r = None)
     \<and> length rows = length embs \<and> live st' = (live st)(rows [\<mapsto>] embs)"
proof -
  let ?k = "ei_num_rows (em_state st)" and ?n = "length embs"
  have fl: "r < ?k" if "r \<in> set (ei_freelist (em_state st))" for r using assms(1) that by (auto simp: rows_ok_def)
  have ok: "rows_ok (snd (write_tail embs st))" using assms
    by (auto simp: rows_ok_def write_tail_def Let_def dest: in_set_takeD in_set_dropD)
  have npy: "(take ?k (em_npy st) @ embs @ drop (?k + ?n) (em_npy st)) ! r
      = (if r < ?k then em_npy st ! r else embs ! (r - ?k))" if "r < ?k + ?n" for r
  proof -
    have "?k \<le> length (em_npy st)" using assms(1) by (simp add: rows_ok_def)
    then show ?thesis using that by (cases "r < ?k") (simp_all add: nth_append, linarith)
  qed
  have "live (snd (write_tail embs st)) r = ((live st)([?k..<?k + ?n] [\<mapsto>] embs)) r" for r
  proof (cases "?k \<le> r \<and> r < ?k + ?n")
    case True
    then have "r \<notin> set (ei_freelist (em_state st))" using fl by (metis not_less)
    then show ?thesis using True npy [of r] by (simp add: live_upds_tail) (simp add: live_def write_tail_def Let_def)
  next
    case False
    then show ?thesis using npy [of r] by (simp add: live_upds_tail) (auto simp: live_def write_tail_def Let_def)
  qed
  then have "live (snd (write_tail embs st)) = (live st)([?k..<?k + ?n] [\<mapsto>] embs)" by blast
  then show ?thesis using ok by (auto simp: write_tail_def Let_def live_def)
qed

section \<open>Every operation on the map of rows\<close>

lemma append_row_live:
  assumes "embed_ok st" "append_row emb st = (res, st')"
  shows "embed_ok st' \<and> (case res of Inl x \<Rightarrow> st' = st | Inr row \<Rightarrow> live st row = None \<and> live st' = (live st)(row \<mapsto> emb))"
proof (cases "length emb = ei_dim (em_state st) \<and> assert_normalized st emb")
  case True
  obtain row st1 where a: "append_data emb st = (row, st1)" by fastforce
  have "rows_ok st1 \<and> live st row = None \<and> live st1 = (live st)(row \<mapsto> emb)"
    using append_data_rows [of st emb] assms(1) True by (simp add: a embed_ok_def)
  then show ?thesis using assms(2) True by (auto simp: append_row_def a)
next
  case False
  then show ?thesis using assms by (auto simp: append_row_def split: if_splits)
qed

lemma map_upds_append: "length rs = length xs \<Longrightarrow> m(rs @ ts [\<mapsto>] xs @ ys) = (m(rs [\<mapsto>] xs))(ts [\<mapsto>] ys)"
  by (induction rs xs arbitrary: m rule: list_induct2) simp_all

lemma map_upds_None: "length rs = length xs \<Longrightarrow> (m(rs [\<mapsto>] xs)) r = None \<longleftrightarrow> m r = None \<and> r \<notin> set rs"
  by (induction rs xs arbitrary: m rule: list_induct2) auto

lemma append_batch_live:
  assumes "embed_ok st" "append_batch embs st = (res, st')"
  shows "embed_ok st' \<and> (case res of Inl x \<Rightarrow> st' = st
     | Inr rows \<Rightarrow> distinct rows \<and> length rows = length embs \<and> (\<forall>r \<in> set rows. live st r = None) \<and> live st' = (live st)(rows [\<mapsto>] embs))"
proof (cases "list_all (\<lambda>e. length e = ei_dim (em_state st)) embs \<and> embs \<noteq> [] \<and> list_all (assert_normalized st) embs")
  case False
  then show ?thesis using assms by (auto simp: append_batch_def split: if_splits)
next
  case True
  then have dims: "\<forall>e \<in> set embs. length e = ei_dim (em_state st)" by (simp add: list_all_iff)
  obtain rows rest st1 where f: "fill_free embs st = (rows, rest, st1)" using prod_cases3 by blast
  note fill = fill_free_rows [OF _ dims, unfolded f prod.case]
  have ok: "rows_ok st" using assms(1) by (simp add: embed_ok_def)
  note fill = fill [OF ok]
  show ?thesis
  proof (cases "rest = []")
    case rest: True
    then have "(Inr rows, save_idx st1) = (res, st')" using assms(2) True by (simp add: append_batch_def f)
    then show ?thesis using fill rest by auto
  next
    case rest: False
    let ?s2 = "reserve (length rest) st1"
    have F: "rows_ok st1" "distinct rows" "\<forall>r \<in> set rows. live st r = None" "length rows + length rest = length embs"
        "rest = drop (length rows) embs" "live st1 = (live st)(rows [\<mapsto>] take (length rows) embs)"
        "ei_dim (em_state st1) = ei_dim (em_state st)" using fill by auto
    have R: "rows_ok ?s2" "live ?s2 = live st1" "ei_dim (em_state ?s2) = ei_dim (em_state st)"
        "ei_num_rows (em_state ?s2) + length rest \<le> ei_capacity (em_state ?s2)"
      using reserve_rows [OF F(1), of "length rest"] F(7) by auto
    obtain ts st3 where w: "write_tail rest ?s2 = (ts, st3)" by fastforce
    have "\<forall>e \<in> set rest. length e = ei_dim (em_state ?s2)" using F(5) R(3) dims by (metis in_set_dropD)
    from write_tail_rows [OF R(1,4) this] have tail: "rows_ok st3" "distinct ts" "\<forall>r \<in> set ts. live st1 r = None"
        "length ts = length rest" "live st3 = (live st1)(ts [\<mapsto>] rest)"
      by (simp_all add: w R(2))
    have len: "length rows = length (take (length rows) embs)" using F(4) by simp
    have fresh: "live st r = None \<and> r \<notin> set rows" if "r \<in> set ts" for r
      using tail(3) that unfolding F(6) map_upds_None [OF len] by blast
    have "live st3 = (live st)(rows @ ts [\<mapsto>] take (length rows) embs @ drop (length rows) embs)"
      unfolding map_upds_append [OF len] F(6) [symmetric] F(5) [symmetric] by (rule tail(5))
    then have all: "live st3 = (live st)(rows @ ts [\<mapsto>] embs)" by simp
    moreover have "(Inr (rows @ ts), save_idx st3) = (res, st')"
      using assms(2) True rest by (simp add: append_batch_def f w)
    ultimately show ?thesis using F(2,3,4) tail(1,2,4) fresh all by auto
  qed
qed

lemma free_row_live:
  assumes "embed_ok st" "free_row row st = (res, st')"
  shows "embed_ok st' \<and> (case res of Inl x \<Rightarrow> st' = st | Inr u \<Rightarrow> live st' = (live st)(nat row := None))"
proof (cases "0 \<le> row \<and> row < int (ei_num_rows (em_state st)) \<and> nat row \<notin> set (ei_freelist (em_state st))")
  case True
  define st1 where "st1 = st\<lparr>em_npy := (em_npy st)[nat row := zero_row (ei_dim (em_state st))],
     em_state := (em_state st)\<lparr>ei_freelist := ei_freelist (em_state st) @ [nat row]\<rparr>\<rparr>"
  have "rows_ok st1" using True assms(1)
    by (auto simp: st1_def rows_ok_def embed_ok_def dest: set_update_subset_insert [THEN subsetD])
  moreover have "live st1 = (live st)(nat row := None)" using True
    by (auto simp: live_def st1_def fun_eq_iff)
  moreover have "(Inr (), save_idx st1) = (res, st')" using assms(2) True by (simp add: free_row_def st1_def)
  ultimately show ?thesis by auto
next
  case False
  then show ?thesis using assms by (auto simp: free_row_def live_def fun_eq_iff split: if_splits)
qed

section \<open>Search\<close>

definition in_search :: "embed_store \<Rightarrow> int list option \<Rightarrow> nat set" where
  \<comment> \<open>the rows a search ranges over\<close>
  "in_search st in_scope = {r. live st r \<noteq> None \<and> (case in_scope of None \<Rightarrow> True | Some rs \<Rightarrow> int r \<in> set rs)}"

lemma scored_nth:
  "r < ei_num_rows (em_state st) \<Longrightarrow> scored st q sc ! r = (if r \<in> in_search st sc then Fin (- dot (em_npy st ! r) q) else PInf)"
  by (auto simp: scored_def in_search_def live_def split: option.splits)

lemma length_scored [simp]: "length (scored st q sc) = ei_num_rows (em_state st)"
  by (simp add: scored_def)

lemma in_search_rows: "r \<in> in_search st sc \<Longrightarrow> r < ei_num_rows (em_state st) \<and> live st r = Some (em_npy st ! r)"
  by (auto simp: in_search_def live_def split: if_splits)

text \<open>
  C28: the search is exact. For any contents of the store, a query vector of its dimension and
  \<open>k >= 1\<close>, whatever numpy does with ties, the hits are distinct rows in use (freed rows and rows
  outside the given scope never appear), each with the cosine of its embedding, best first; no
  row left out scores higher, and there are \<open>k\<close> of them or all there are.
\<close>

theorem search_dense_best:
  assumes "argpartition_ok part" "argsort_ok srt" "1 \<le> k" "length q = ei_dim (em_state st)"
  shows "\<exists>rows. search_dense part srt st q k sc = Inr (map (\<lambda>r. (r, dot (the (live st r)) q)) rows)
    \<and> best_by (\<lambda>r. dot (the (live st r)) q) (in_search st sc) rows
    \<and> length rows = min (nat k) (card (in_search st sc))"
proof -
  let ?n = "ei_num_rows (em_state st)" and ?xs = "scored st q sc" and ?cand = "in_search st sc"
  let ?f = "\<lambda>r. dot (the (live st r)) q"
  have cand: "?cand = {j. j < length ?xs \<and> ?xs ! j \<noteq> PInf}"
    using in_search_rows by (auto simp: scored_nth split: if_splits)
  have val: "?xs ! j = Fin (- ?f j)" if "j \<in> ?cand" for j
    using in_search_rows [OF that] that by (simp add: scored_nth)
  show ?thesis
  proof (cases "?n = 0")
    case True
    then have "?cand = {}" using in_search_rows by fastforce
    then show ?thesis using True assms(3,4) by (intro exI [of _ "[]"]) (simp add: search_dense_def best_by_def)
  next
    case False
    define picks where "picks = filter (\<lambda>i. ?xs ! i \<noteq> PInf) (select_top part srt ?xs (min (nat k) ?n))"
    have best: "best_by ?f ?cand picks \<and> length picks = min (min (nat k) ?n) (card ?cand)"
      unfolding picks_def using assms(3) False by (intro select_top_best [OF assms(1,2) _ _ val cand]) auto
    have "card ?cand \<le> card {..<?n}" using in_search_rows by (intro card_mono) auto
    then have len: "length picks = min (nat k) (card ?cand)" using best by simp
    have "dot (em_npy st ! r) q = ?f r" if "r \<in> set picks" for r
      using in_search_rows [of r st sc] best that by (auto simp: best_by_def)
    then have "search_dense part srt st q k sc = Inr (map (\<lambda>r. (r, ?f r)) picks)"
      using assms(3,4) False by (simp add: search_dense_def Let_def flip: picks_def)
    then show ?thesis using best len by blast
  qed
qed

section \<open>Histories\<close>

text \<open>
  A process runs operations on the store and may close it and open its files again, with any
  arguments; when that fails the files stay as they were for the next attempt.
\<close>

datatype embed_op = EAppend vec | EBatch "vec list" | EFree int | EReopen embed_args

datatype embed_res = RRows "nat list" | RFreed | ROpened | RFailed exc

fun embed_step :: "embed_op \<Rightarrow> embed_store \<Rightarrow> embed_res \<times> embed_store" where
  "embed_step (EAppend e) st = (case append_row e st of (Inl x, st) \<Rightarrow> (RFailed x, st) | (Inr r, st) \<Rightarrow> (RRows [r], st))"
| "embed_step (EBatch es) st = (case append_batch es st of (Inl x, st) \<Rightarrow> (RFailed x, st) | (Inr rs, st) \<Rightarrow> (RRows rs, st))"
| "embed_step (EFree r) st = (case free_row r st of (Inl x, st) \<Rightarrow> (RFailed x, st) | (Inr u, st) \<Rightarrow> (RFreed, st))"
| "embed_step (EReopen ar) st =
     (case open_store (ar\<lparr>ea_model_name := ei_model_name (em_state st)\<rparr>) (\<lambda>name. close_store st) of
        Inl x \<Rightarrow> (RFailed x, st) | Inr st \<Rightarrow> (ROpened, st))"

fun row_map :: "embed_op \<times> embed_res \<Rightarrow> (nat \<Rightarrow> vec option) \<Rightarrow> nat \<Rightarrow> vec option" where
  \<comment> \<open>the operation on the map of rows, given the rows the store chose\<close>
  "row_map (EAppend e, RRows rs) m = m(rs [\<mapsto>] [e])"
| "row_map (EBatch es, RRows rs) m = m(rs [\<mapsto>] es)"
| "row_map (EFree r, RFreed) m = m(nat r := None)"
| "row_map _ m = m"

fun rows_fresh :: "embed_op \<times> embed_res \<Rightarrow> (nat \<Rightarrow> vec option) \<Rightarrow> bool" where
  \<comment> \<open>the rows handed out are as many as embeddings, distinct, and were not in use\<close>
  "rows_fresh (EAppend e, RRows rs) m \<longleftrightarrow> length rs = 1 \<and> m (hd rs) = None"
| "rows_fresh (EBatch es, RRows rs) m \<longleftrightarrow> length rs = length es \<and> distinct rs \<and> list_all (\<lambda>r. m r = None) rs"
| "rows_fresh _ m \<longleftrightarrow> True"

lemma fit_rows_same: "cap \<le> length npy \<Longrightarrow> fit_rows cap n npy = npy"
  by (simp add: fit_rows_def)

lemma open_existing_live:
  assumes "open_existing ar npy state = Inr st" "rows_ok st0" "npy = em_npy st0"
    "ei_capacity state \<le> length npy" "ei_num_rows state \<le> ei_capacity state" "ei_dim state = ei_dim (em_state st0)"
    "distinct (ei_freelist state)" "set (ei_freelist state) \<subseteq> {..<ei_num_rows state}"
  shows "embed_ok st \<and> live st = (\<lambda>r. if r < ei_num_rows state \<and> r \<notin> set (ei_freelist state) then Some (npy ! r) else None)"
  using assms
  by (auto simp: open_existing_def embed_ok_def rows_ok_def live_def fun_eq_iff Let_def fit_rows_same split: if_splits)

lemma reopen_live:
  assumes "embed_ok st" "open_store ar (\<lambda>name. close_store st) = Inr st'"
  shows "embed_ok st' \<and> live st' = live st"
proof -
  have o: "open_existing ar (em_npy st) (em_state st) = Inr st'"
    using assms by (auto simp: open_store_def close_store_def files_of_def save_idx_def split: if_splits)
  have ok: "rows_ok st" using assms(1) by (simp add: embed_ok_def)
  show ?thesis using open_existing_live [OF o ok refl] ok by (auto simp: rows_ok_def live_def fun_eq_iff)
qed

lemma embed_step_live:
  assumes "embed_ok st" "embed_step op st = (r, st')"
  shows "embed_ok st' \<and> live st' = row_map (op, r) (live st) \<and> rows_fresh (op, r) (live st)"
proof (cases op)
  case (EAppend e)
  then show ?thesis using assms append_row_live [OF assms(1), of e]
    by (cases "append_row e st") (auto split: sum.splits)
next
  case (EBatch es)
  then show ?thesis using assms append_batch_live [OF assms(1), of es]
    by (cases "append_batch es st") (auto simp: list_all_iff split: sum.splits)
next
  case (EFree i)
  then show ?thesis using assms free_row_live [OF assms(1), of i]
    by (cases "free_row i st") (auto split: sum.splits)
next
  case (EReopen ar)
  then show ?thesis using assms reopen_live [OF assms(1)] by (auto split: sum.splits)
qed

interpretation embeds: answering_machine embed_step embed_ok live rows_fresh row_map
  by unfold_locales (rule embed_step_live)

text \<open>
  C5: the store implements a map from rows to embeddings. After any history of appends, batches,
  frees and reopenings on a fresh store, whatever the growth of the file and the reuse of freed
  rows, the rows in use hold exactly the embeddings the log says, a row is handed out only when
  it is not in use, and the index on disk is the one in memory.
\<close>

theorem embed_store_refines_map:
  "case run_log embed_step ops (create_new ar) of
     (answers, st) \<Rightarrow> live st = fold row_map answers (\<lambda>r. None) \<and> log_allowed rows_fresh row_map answers (\<lambda>r. None) \<and> embed_ok st"
proof -
  have "embed_ok (create_new ar)" "live (create_new ar) = (\<lambda>r. None)"
    by (auto simp: create_new_def embed_ok_def rows_ok_def live_def fun_eq_iff Let_def)
  then show ?thesis using embeds.run_answers [of "create_new ar" ops] by (simp split: prod.split)
qed

text \<open>
  C36: an append that is cut off loses nothing. If the process dies after the row was written and
  before the index is replaced, opening the files again gives the rows in use before it, unchanged,
  and a store that satisfies the invariant; also when the file had just grown.
\<close>

theorem append_crash_safe:
  assumes "embed_ok st" "length emb = ei_dim (em_state st)"
    "open_store ar (\<lambda>name. files_of (snd (append_data emb st))) = Inr st'"
  shows "embed_ok st' \<and> live st' = live st"
proof -
  obtain row st1 where a: "append_data emb st = (row, st1)" by fastforce
  have ok: "rows_ok st" "em_saved st = em_state st" using assms(1) by (simp_all add: embed_ok_def)
  have st1: "rows_ok st1" "live st row = None" "live st1 = (live st)(row \<mapsto> emb)" "em_saved st1 = em_state st"
      "ei_dim (em_state st1) = ei_dim (em_state st)" "ei_capacity (em_state st) \<le> ei_capacity (em_state st1)"
    using append_data_rows [OF ok(1) assms(2)] ok(2) by (simp_all add: a)
  have o: "open_existing ar (em_npy st1) (em_state st) = Inr st'"
    using assms(3) st1(4) by (auto simp: open_store_def files_of_def a split: if_splits)
  have "ei_capacity (em_state st) \<le> length (em_npy st1)" using st1(1,6) by (simp add: rows_ok_def)
  then have res: "embed_ok st' \<and> live st' = (\<lambda>r. if r < ei_num_rows (em_state st) \<and> r \<notin> set (ei_freelist (em_state st))
      then Some (em_npy st1 ! r) else None)"
    using open_existing_live [OF o st1(1) refl] ok(1) st1(5) by (simp add: rows_ok_def)
  have "em_npy st1 ! r = em_npy st ! r" if "live st r \<noteq> None" for r
  proof -
    have "live st1 r = live st r" using that st1(2,3) by auto
    then show ?thesis using that by (simp add: live_def split: if_splits)
  qed
  then show ?thesis using res by (auto simp: fun_eq_iff live_def)
qed

section \<open>An instance\<close>

definition demo_embed_args :: embed_args where
  "demo_embed_args = \<lparr>ea_model_name = ''BAAI/bge'', ea_model_sha256 = ''s'', ea_dim = 2, ea_initial_rows = 2,
     ea_growth_factor = default_growth_factor, ea_validate = False, ea_on_mismatch = ''raise''\<rparr>"

definition demo_rows :: embed_store where
  \<comment> \<open>two rows, the first freed again\<close>
  "demo_rows = snd (run_log embed_step [EAppend [1, 0], EAppend [3 / 5, 4 / 5], EFree 0] (create_new demo_embed_args))"

lemma demo_rows_eq:
  "em_state demo_rows = \<lparr>ei_num_rows = 2, ei_dim = 2, ei_model_name = ''BAAI/bge'', ei_model_sha256 = ''s'', ei_freelist = [0], ei_capacity = 2\<rparr>"
  "em_npy demo_rows = [[0, 0], [3 / 5, 4 / 5]]" "em_saved demo_rows = em_state demo_rows"
  by (simp_all add: demo_rows_def create_new_def demo_embed_args_def append_row_def append_data_def assert_normalized_def
      save_idx_def free_row_def zero_row_def Let_def numeral_2_eq_2)

lemma demo_rows_ok: "embed_ok demo_rows"
  by (simp add: embed_ok_def rows_ok_def demo_rows_eq)

theorem search_dense_best_witness:
  "\<exists>rows. search_dense (\<lambda>xs k. stable_argsort xs) stable_argsort demo_rows [1, 0] 5 None
       = Inr (map (\<lambda>r. (r, dot (the (live demo_rows r)) [1, 0])) rows) \<and> length rows = 1"
proof -
  have "in_search demo_rows None = {1}"
    by (auto simp: in_search_def live_def demo_rows_eq split: if_splits)
  then show ?thesis
    using search_dense_best [OF stable_argpartition_ok stable_argsort_ok, of 5 "[1, 0]" demo_rows None]
    by (auto simp: demo_rows_eq)
qed

theorem append_crash_safe_witness:
  "\<exists>st'. open_store demo_embed_args (\<lambda>name. files_of (snd (append_data [0, 1] demo_rows))) = Inr st' \<and> live st' 1 = Some [3 / 5, 4 / 5] \<and> live st' 0 = None"
proof -
  obtain st' where o: "open_store demo_embed_args (\<lambda>name. files_of (snd (append_data [0, 1] demo_rows))) = Inr st'"
    by (simp add: open_store_def demo_embed_args_def default_growth_factor_def files_of_def append_data_def take_free_def
        demo_rows_eq open_existing_def Let_def)
  have "live st' = live demo_rows" using append_crash_safe [OF demo_rows_ok _ o] by (simp add: demo_rows_eq)
  moreover have "live demo_rows 1 = Some [3 / 5, 4 / 5]" "live demo_rows 0 = None" by (simp_all add: live_def demo_rows_eq)
  ultimately show ?thesis using o by metis
qed

end
