(* ===== verification/Dmn_Policy.thy ===== *)
theory Dmn_Policy
  imports LC_Regex LC_Rank LC_Path
begin

text \<open>
  The retrieval policy (\<open>longctx_daemon/policy.py\<close>) and the classification of queries and
  routing of the daemon's searcher (\<open>classify_query_type\<close> to \<open>_walk_to_project\<close> in
  \<open>longctx_daemon/searcher.py\<close>). The regular expressions are those of the source.
\<close>

section \<open>Policies\<close>

datatype query_shape = UNKNOWN | SYMBOLIC | PROSE | MIXED

definition shape_value :: "query_shape \<Rightarrow> string" where
  "shape_value sh = (case sh of UNKNOWN \<Rightarrow> ''unknown'' | SYMBOLIC \<Rightarrow> ''symbolic'' | PROSE \<Rightarrow> ''prose'' | MIXED \<Rightarrow> ''mixed'')"

record retrieval_policy =
  rp_bm25_weight :: real
  rp_dense_weight :: real
  rp_chunk_tokens :: "nat option"
  rp_rerank_pre_k :: "nat option"
  rp_embedder_hint :: "string option"
  rp_rationale :: string

datatype size_bucket = SHORT | MID | LONG | EXTRA_LONG

definition size_bucket :: "int \<Rightarrow> size_bucket" where
  "size_bucket corpus_size_chars =
     (if corpus_size_chars < 64000 then SHORT
      else if corpus_size_chars < 256000 then MID
      else if corpus_size_chars < 1000000 then LONG
      else EXTRA_LONG)"

definition hybrid :: "nat option \<Rightarrow> nat option \<Rightarrow> string \<Rightarrow> retrieval_policy" where
  "hybrid chunk_tokens rerank_pre_k rationale = \<lparr>rp_bm25_weight = 1, rp_dense_weight = 1, rp_chunk_tokens = chunk_tokens,
     rp_rerank_pre_k = rerank_pre_k, rp_embedder_hint = None, rp_rationale = rationale\<rparr>"

definition dense_only :: "string \<Rightarrow> nat option \<Rightarrow> nat option \<Rightarrow> string \<Rightarrow> retrieval_policy" where
  "dense_only embedder_hint chunk_tokens rerank_pre_k rationale = \<lparr>rp_bm25_weight = 0, rp_dense_weight = 1, rp_chunk_tokens = chunk_tokens,
     rp_rerank_pre_k = rerank_pre_k, rp_embedder_hint = Some embedder_hint, rp_rationale = rationale\<rparr>"

definition em_dash :: string where
  \<comment> \<open>the dash of the rationales lies outside the modelled code points and is written as a hyphen\<close>
  "em_dash = '' - ''"

definition default_policy :: retrieval_policy where
  "default_policy = hybrid None None (''default'' @ em_dash @ ''BM25+dense+RRF, safe across workloads'')"

definition policy_table :: "((size_bucket \<times> query_shape) \<times> retrieval_policy) list" where
  "policy_table =
     [((SHORT, SYMBOLIC), hybrid None None (''symbolic short'' @ em_dash @ ''BM25 lexical match dominates'')),
      ((MID, SYMBOLIC), hybrid None None (''symbolic mid'' @ em_dash @ ''BM25+dense, no chunking needed'')),
      ((LONG, SYMBOLIC), hybrid (Some 500) (Some 32) (''symbolic long'' @ em_dash @ ''sub-chunk + rerank surface deep-buried symbol mentions'')),
      ((EXTRA_LONG, SYMBOLIC), hybrid (Some 300) (Some 64) (''symbolic xlong'' @ em_dash @ ''finer chunks + wider rerank pool'')),
      ((SHORT, PROSE), dense_only ''BAAI/bge-m3'' None None
         (''prose short'' @ em_dash @ ''dense-only with bge-m3 (essays fit in 8K maxlen, finer semantic disambiguation)'')),
      ((MID, PROSE), dense_only ''BAAI/bge-m3'' None (Some 32) (''prose mid'' @ em_dash @ ''dense+rerank, bge-m3 still wins at this size'')),
      ((LONG, PROSE), dense_only ''sentence-transformers/all-MiniLM-L6-v2'' (Some 300) (Some 64)
         (''prose long'' @ em_dash @ ''MiniLM'' @ [CHR 0x27] @ ''s 256-token first-paragraph anchor beats bge-m3 here; chunked + reranked'')),
      ((EXTRA_LONG, PROSE), dense_only ''sentence-transformers/all-MiniLM-L6-v2'' (Some 300) (Some 64)
         (''prose xlong'' @ em_dash @ ''same as long; MiniLM holds up at 1M+ when bge-m3'' @ [CHR 0x27] @ ''s full-essay embedding dilutes'')),
      ((SHORT, MIXED), hybrid None None (''mixed short'' @ em_dash @ ''full hybrid, no extras'')),
      ((MID, MIXED), hybrid None (Some 32) (''mixed mid'' @ em_dash @ ''hybrid + rerank for prose disambig'')),
      ((LONG, MIXED), hybrid (Some 500) (Some 32) (''mixed long'' @ em_dash @ ''chunked + reranked hybrid'')),
      ((EXTRA_LONG, MIXED), hybrid (Some 300) (Some 64) (''mixed xlong'' @ em_dash @ ''finer chunks + wider rerank''))]"

definition select_policy :: "int \<Rightarrow> query_shape \<Rightarrow> retrieval_policy" where
  "select_policy corpus_size_chars shape =
     (if shape = UNKNOWN then default_policy
      else case map_of policy_table (size_bucket corpus_size_chars, shape) of None \<Rightarrow> default_policy | Some p \<Rightarrow> p)"

section \<open>The shape of a query\<close>

definition alnum_rx :: rx where "alnum_rx = RChar is_alnum_ascii"

definition identifier_rx :: rx where
  "identifier_rx = rseq [RBound, ralts
     [rseq [RChar is_lower_ascii, RStar (RChar (\<lambda>c. is_lower_ascii c \<or> is_digit c)), RChar is_upper_ascii, rplus alnum_rx],
      rseq [RChar is_upper_ascii, rplus (RChar (\<lambda>c. is_lower_ascii c \<or> is_digit c)), RChar is_upper_ascii, rplus alnum_rx],
      rseq [rplus (RChar is_lower_ascii), rstr ''_'', rplus (RChar (\<lambda>c. is_lower_ascii c \<or> c = CHR ''_'' \<or> is_digit c))],
      rseq [RChar is_upper_ascii, rplus (RChar (\<lambda>c. is_upper_ascii c \<or> is_digit c)), rstr ''_'',
        rplus (RChar (\<lambda>c. is_upper_ascii c \<or> is_digit c \<or> c = CHR ''_''))],
      rseq [RChar (\<lambda>c. is_upper_ascii c \<or> is_lower_ascii c \<or> c = CHR ''_''), RStar (RChar (\<lambda>c. is_alnum_ascii c \<or> c = CHR ''_'')), rstr ''.'',
        RChar (\<lambda>c. is_upper_ascii c \<or> is_lower_ascii c \<or> c = CHR ''_''), RStar (RChar (\<lambda>c. is_alnum_ascii c \<or> c = CHR ''_'' \<or> c = CHR ''.''))]],
     RBound]"

definition nl_signal_rx :: rx where
  "nl_signal_rx = rseq [RBound, ralts (map rci
     [''the'', ''a'', ''an'', ''how'', ''why'', ''what'', ''where'', ''who'', ''when'',
      ''explain'', ''describe'', ''find'', ''reproduce'', ''show'', ''tell'',
      ''summarize'', ''summarise'', ''list'', ''give'', ''fetch'']), RBound]"

definition detect_query_shape :: "string \<Rightarrow> query_shape" where
  "detect_query_shape query =
     (let q = py_strip query in
      if q = [] \<or> length q < 5 then UNKNOWN
      else let has_identifier = rx_search identifier_rx q; has_natural = rx_search nl_signal_rx q in
        if has_identifier \<and> \<not> has_natural then SYMBOLIC
        else if has_natural \<and> \<not> has_identifier then PROSE
        else if has_identifier \<and> has_natural then MIXED
        else if 4 \<le> length (runs_of (\<lambda>c. \<not> is_space c) q) then PROSE
        else UNKNOWN)"

section \<open>The type of a query\<close>

definition spaces_rx :: rx where "spaces_rx = RStar (RChar is_space)"
definition words_rx :: rx where "words_rx = rplus (RChar is_word)"
definition gap_rx :: rx where "gap_rx = rplus (RChar is_space)"
definition dotted_rx :: rx where "dotted_rx = RSeq (RChar is_word) (RStar (RChar (\<lambda>c. is_word c \<or> c = CHR ''.'')))"

definition code_blob_rx :: rx where
  "code_blob_rx = ralts
     [rseq [RBound, rstr ''def'', gap_rx, words_rx, spaces_rx, rstr ''(''],
      rseq [RBound, rstr ''class'', gap_rx, words_rx, spaces_rx, RChar (\<lambda>c. c \<in> set '':('')],
      rseq [RBound, rstr ''function'', gap_rx, words_rx, spaces_rx, rstr ''(''],
      rseq [RBound, rstr ''func'', gap_rx, words_rx, spaces_rx, rstr ''(''],
      rseq [RBound, rstr ''fn'', gap_rx, words_rx, spaces_rx, rstr ''(''],
      rseq [RBound, rstr ''import'', gap_rx, dotted_rx],
      rseq [rbol, spaces_rx, ralts [rseq [rstr ''from'', gap_rx, dotted_rx, gap_rx, rstr ''import''], rseq [rstr ''require'', spaces_rx, rstr ''('']]],
      rseq [rstr ''}'', spaces_rx, rstr ''else'', spaces_rx, rstr ''{''],
      rseq [rstr '')'', spaces_rx, rstr ''->'', spaces_rx, RChar is_word],
      rseq [rbol, spaces_rx, rstr ''//'', RChar is_space],
      rseq [rbol, spaces_rx, rstr ''#'', spaces_rx, RChar is_upper_ascii],
      rseq [rstr ''::'', words_rx, spaces_rx, rstr ''('']]"

definition interrogative_rx :: rx where
  "interrogative_rx = rseq [RBound, ralts (map rci
     [''what'', ''where'', ''when'', ''who'', ''why'', ''how'', ''which'',
      ''is'', ''are'', ''does'', ''do'', ''did'', ''can'', ''could'', ''should'', ''would'', ''will'',
      ''won'' @ [CHR 0x27] @ ''t'', ''isn'' @ [CHR 0x27] @ ''t'', ''aren'' @ [CHR 0x27] @ ''t'',
      ''show'', ''tell'', ''find'', ''give'', ''explain'', ''describe'', ''list'', ''name'']), RBound]"

definition quote_char :: "char \<Rightarrow> bool" where "quote_char c \<longleftrightarrow> c = CHR 0x22 \<or> c = CHR 0x27"

definition query_traceback_rx :: rx where
  "query_traceback_rx = ralts
     [rseq [rstr ''Traceback'', spaces_rx, rstr ''(''],
      rseq [RBound, rstr ''at'', gap_rx, RChar is_word, RStar (RChar (\<lambda>c. is_word c \<or> c = CHR ''.'' \<or> c = CHR ''/'')), rstr ''.'',
        words_rx, rstr '':'', rplus (RChar is_digit)],
      rseq [rbol, spaces_rx, rstr ''File'', gap_rx, RChar quote_char, rplus (RChar (\<lambda>c. \<not> quote_char c)), RChar quote_char, rstr '','',
        spaces_rx, rstr ''line'', gap_rx, rplus (RChar is_digit)]]"

definition classify_query_type :: "string \<Rightarrow> string" where
  "classify_query_type query =
     (if query = [] \<or> CHR 0x0A \<notin> set query then ''natural_language''
      else if \<not> (rx_search code_blob_rx query \<or> rx_search query_traceback_rx query) then ''natural_language''
      else if rx_search interrogative_rx query then ''natural_language''
      else ''find_similar'')"

section \<open>Routing a query to projects\<close>

definition common_word_names :: "string list" where
  "common_word_names = [''auth'', ''core'', ''lib'', ''api'', ''client'', ''server'', ''tools'', ''utils'', ''platform'']"

definition cue_patterns :: "string \<Rightarrow> rx list" where
  "cue_patterns name =
     [rseq [RBound, rci ''in'', gap_rx, rci name, RBound],
      rseq [RBound, rci name, gap_rx, rci ''repo'', RBound],
      rseq [RBound, rci name, gap_rx, rci ''module'', RBound],
      rseq [RBound, rci name, gap_rx, rci ''project'', RBound],
      rseq [RBound, rci name, rstr [CHR 0x27], rci ''s'', RBound],
      rseq [RBound, rci ''the'', gap_rx, rci name, RBound]]"

definition delimiter :: "char \<Rightarrow> bool" where
  "delimiter c \<longleftrightarrow> is_space c \<or> c \<in> set ''.,;:!?()[]{}'' \<or> c \<in> {CHR 0x22, CHR 0x27, CHR 0x60}"

definition mention_rx :: "string \<Rightarrow> rx" where
  \<comment> \<open>\<open>$\<close> is the end or before a last newline, which is a delimiter too\<close>
  "mention_rx name = rseq [RAfter delimiter, rci name, rahead (RAlt (RNotAhead (RChar (\<lambda>c. True))) (RChar delimiter))]"

definition project_mentioned :: "string \<Rightarrow> string \<Rightarrow> bool" where
  "project_mentioned query name = rx_search (mention_rx name) query"

definition project_mentioned_with_cue :: "string \<Rightarrow> string \<Rightarrow> bool" where
  "project_mentioned_with_cue query name = list_ex (\<lambda>p. rx_search p query) (cue_patterns name)"

definition routed :: "string \<Rightarrow> string \<Rightarrow> bool" where
  \<comment> \<open>the names the query picks: a common word needs a cue\<close>
  "routed query name =
     (if py_lower name \<in> set common_word_names then project_mentioned_with_cue query name
      else project_mentioned query name \<or> project_mentioned_with_cue query name)"

definition root_norm :: "string \<Rightarrow> string" where
  "root_norm r = py_rstrip_by (\<lambda>c. c = CHR ''/'') r"

definition better_root :: "string \<Rightarrow> string list \<Rightarrow> string \<times> string \<Rightarrow> (string \<times> nat) option \<Rightarrow> (string \<times> nat) option" where
  "better_root cwd indexed = (\<lambda>(name, p) best.
     if name \<notin> set indexed then best
     else let r = root_norm p in
       if cwd = r \<or> prefix (r @ ''/'') cwd
       then (case best of None \<Rightarrow> Some (name, length r) | Some (_, n) \<Rightarrow> if n < length r then Some (name, length r) else best)
       else best)"

definition walk_to_project :: "string \<Rightarrow> string list \<Rightarrow> (string, string) dict \<Rightarrow> string option" where
  \<comment> \<open>an empty dictionary of roots is the same as none\<close>
  "walk_to_project cwd indexed project_roots =
     (case fold (better_root cwd indexed) project_roots None of
        Some (name, _) \<Rightarrow> Some name
      | None \<Rightarrow> find (\<lambda>name. name \<in> set (filter (\<lambda>p. p \<noteq> []) (split_on (CHR ''/'') cwd))) indexed)"

record scope_decision =
  sd_primary_project :: "string option"
  sd_primary_source :: string
  sd_fanout_projects :: "string list"
  sd_cross_project_pattern_matched :: "string option"
  sd_active_project_sticky :: "string option"

definition decide_scope ::
  "string \<Rightarrow> string option \<Rightarrow> string option \<Rightarrow> string option \<Rightarrow> string list \<Rightarrow> (string, string) dict \<Rightarrow> scope_decision" where
  "decide_scope query cwd project sticky indexed project_roots =
     (case project of
        Some p \<Rightarrow> \<lparr>sd_primary_project = Some p, sd_primary_source = ''explicit_project'', sd_fanout_projects = [p],
                   sd_cross_project_pattern_matched = None, sd_active_project_sticky = sticky\<rparr>
      | None \<Rightarrow>
          (case filter (routed query) indexed of
             m # ms \<Rightarrow> \<lparr>sd_primary_project = Some m, sd_primary_source = ''cross_project_pattern'', sd_fanout_projects = m # ms,
                        sd_cross_project_pattern_matched = Some m, sd_active_project_sticky = sticky\<rparr>
           | [] \<Rightarrow>
               (case sticky of
                  Some p \<Rightarrow> \<lparr>sd_primary_project = Some p, sd_primary_source = ''active_project_sticky'', sd_fanout_projects = [p],
                             sd_cross_project_pattern_matched = None, sd_active_project_sticky = sticky\<rparr>
                | None \<Rightarrow>
                    (case (case cwd of None \<Rightarrow> None | Some d \<Rightarrow> walk_to_project d indexed project_roots) of
                       Some p \<Rightarrow> \<lparr>sd_primary_project = Some p, sd_primary_source = ''cwd_walk_to_sentinel'', sd_fanout_projects = [p],
                                  sd_cross_project_pattern_matched = None, sd_active_project_sticky = sticky\<rparr>
                     | None \<Rightarrow> \<lparr>sd_primary_project = None, sd_primary_source = ''fanout_no_primary'', sd_fanout_projects = indexed,
                                sd_cross_project_pattern_matched = None, sd_active_project_sticky = sticky\<rparr>))))"

section \<open>Facts about the policy\<close>

text \<open>
  The table is complete. For every corpus size and every shape of query the dense ranking is
  on, and the lexical ranking is off exactly for prose; the default is used for an unknown shape
  only.
\<close>

lemma policy_weights:
  "rp_dense_weight (select_policy n sh) = 1 \<and> rp_bm25_weight (select_policy n sh) = (if sh = PROSE then 0 else 1)
    \<and> (select_policy n sh = default_policy \<longleftrightarrow> sh = UNKNOWN)"
proof (cases "sh = UNKNOWN")
  case True
  then show ?thesis by (simp add: select_policy_def default_policy_def hybrid_def)
next
  case False
  then show ?thesis
    by (cases "size_bucket n"; cases sh) (simp_all add: select_policy_def policy_table_def default_policy_def hybrid_def dense_only_def em_dash_def)
qed

lemma shape_examples:
  "detect_query_shape ''auth'' = UNKNOWN" "detect_query_shape ''f.bcd'' = SYMBOLIC"
  by code_simp+

lemma one_line_is_language: "CHR 0x0A \<notin> set query \<Longrightarrow> classify_query_type query = ''natural_language''"
  by (simp add: classify_query_type_def)

section \<open>Facts about routing\<close>

lemma rahead_run: "rx_run (rahead r) p = (if rx_run r p = [] then [] else [p])"
  by (simp add: rahead_def rx_run.simps)

lemma mention_run:
  "rx_run (mention_rx name) \<lparr>rp_pre = pre, rp_rest = t, rp_groups = []\<rparr> \<noteq> [] \<longleftrightarrow>
     (pre = [] \<or> delimiter (hd pre)) \<and> length name \<le> length t \<and> py_lower (take (length name) t) = py_lower name
     \<and> (drop (length name) t = [] \<or> delimiter (hd (drop (length name) t)))"
proof (cases "drop (length name) t")
  case Nil
  then show ?thesis by (auto simp: mention_rx_def rx_run.simps rx_run_rci rahead_run step_char_def)
next
  case (Cons c u)
  then show ?thesis by (auto simp: mention_rx_def rx_run.simps rx_run_rci rahead_run step_char_def)
qed

text \<open>
  C35: a name is mentioned where it stands alone. The pattern built for a project name finds it in a
  query exactly when the name occurs there, in any case, with nothing or a space or a punctuation
  mark on either side; a hyphen or an underscore beside it is no such mark.
\<close>

theorem project_mentioned_iff:
  "project_mentioned query name \<longleftrightarrow>
     (\<exists>before found after. query = before @ found @ after \<and> py_lower found = py_lower name
        \<and> (before = [] \<or> delimiter (last before)) \<and> (after = [] \<or> delimiter (hd after)))"
proof
  assume "project_mentioned query name"
  then obtain m t where s: "query = m @ t" "rx_run (mention_rx name) \<lparr>rp_pre = rev m, rp_rest = t, rp_groups = []\<rparr> \<noteq> []"
    unfolding project_mentioned_def rx_search_iff by blast
  show "\<exists>before found after. query = before @ found @ after \<and> py_lower found = py_lower name
        \<and> (before = [] \<or> delimiter (last before)) \<and> (after = [] \<or> delimiter (hd after))"
    using s(1) s(2) [unfolded mention_run]
    by (intro exI [of _ m] exI [of _ "take (length name) t"] exI [of _ "drop (length name) t"]) (auto simp: hd_rev)
next
  assume "\<exists>before found after. query = before @ found @ after \<and> py_lower found = py_lower name
        \<and> (before = [] \<or> delimiter (last before)) \<and> (after = [] \<or> delimiter (hd after))"
  then obtain before found after where s: "query = before @ found @ after" "py_lower found = py_lower name"
      "before = [] \<or> delimiter (last before)" "after = [] \<or> delimiter (hd after)"
    by blast
  have "length found = length name" using arg_cong [OF s(2), of length] by simp
  then have "rx_run (mention_rx name) \<lparr>rp_pre = rev before, rp_rest = found @ after, rp_groups = []\<rparr> \<noteq> []"
    unfolding mention_run using s by (auto simp: hd_rev)
  then show "project_mentioned query name" unfolding project_mentioned_def rx_search_iff using s(1) by blast
qed

lemma mention_examples:
  "\<not> project_mentioned ''see longctx-other'' ''longctx''" "project_mentioned ''The LongCtx repo'' ''longctx''"
  "\<not> routed ''where do I handle auth'' ''auth''" "routed ''in the auth module'' ''auth''"
  by code_simp+

lemma better_root_fold:
  assumes "fold (better_root cwd indexed) rs best = Some (name, n)" "\<forall>b. best = Some b \<longrightarrow> fst b \<in> set indexed"
  shows "name \<in> set indexed"
  using assms
proof (induction rs arbitrary: best)
  case (Cons r rs)
  obtain nm p where r: "r = (nm, p)" by (cases r)
  have "\<forall>b. better_root cwd indexed r best = Some b \<longrightarrow> fst b \<in> set indexed"
    using Cons.prems(2) by (auto simp: r better_root_def Let_def split: if_splits option.splits prod.splits)
  then show ?case using Cons.IH [of "better_root cwd indexed r best"] Cons.prems(1) by simp
qed auto

lemma walk_to_project_indexed: "walk_to_project cwd indexed roots = Some p \<Longrightarrow> p \<in> set indexed"
  by (auto simp: walk_to_project_def find_Some_iff split: option.splits dest: better_root_fold)

text \<open>
  The decision. The first of the five tiers that applies decides; a primary project heads the
  fanout, and without an explicit or a pinned project every searched project is an indexed one.
\<close>

lemma decide_scope_tiers:
  fixes query cwd project sticky indexed roots
  defines "d \<equiv> decide_scope query cwd project sticky indexed roots"
  shows "project = Some p \<Longrightarrow> sd_fanout_projects d = [p]"
    and "project = None \<Longrightarrow> filter (routed query) indexed \<noteq> [] \<Longrightarrow> sd_fanout_projects d = filter (routed query) indexed"
    and "project = None \<Longrightarrow> filter (routed query) indexed = [] \<Longrightarrow> sticky = Some p \<Longrightarrow> sd_fanout_projects d = [p]"
    and "project = None \<Longrightarrow> sticky = None \<Longrightarrow> set (sd_fanout_projects d) \<subseteq> set indexed"
    and "sd_primary_project d = Some p \<Longrightarrow> sd_fanout_projects d \<noteq> [] \<and> hd (sd_fanout_projects d) = p"
    and "sd_primary_project d = None \<Longrightarrow> sd_fanout_projects d = indexed"
proof -
  have sub: "set (filter (routed query) indexed) \<subseteq> set indexed" by simp
  show "set (sd_fanout_projects d) \<subseteq> set indexed" if none: "project = None" "sticky = None"
  proof (cases "filter (routed query) indexed")
    case Nil
    show ?thesis
    proof (cases "case cwd of None \<Rightarrow> None | Some c \<Rightarrow> walk_to_project c indexed roots")
      case (Some p)
      then have "p \<in> set indexed" using walk_to_project_indexed by (auto split: option.splits)
      then show ?thesis using none Nil Some by (simp add: d_def decide_scope_def)
    qed (use none Nil in \<open>simp add: d_def decide_scope_def\<close>)
  next
    case (Cons m ms)
    then show ?thesis using none sub by (simp add: d_def decide_scope_def)
  qed
qed (auto simp: d_def decide_scope_def split: list.split option.split)

end
