(* ===== verification/Dmn_Searcher.thy ===== *)
theory Dmn_Searcher
  imports Dmn_Sqlite Dmn_Memmap Dmn_Policy Rag_Symbols
begin

text \<open>
  The daemon's searcher (\<open>longctx_daemon/searcher.py\<close>): one search over the chunk store and the
  embedding store, from the choice of projects to the answer, and the search for several questions.
  The encoder, BM25, the index sorts of numpy, \<open>rg\<close>, \<open>Path.resolve\<close>, the watcher's report on
  pending updates and the clock are parameters. Floats are real numbers; the time each stage takes
  is left out. Classification and routing are in \<open>Dmn_Policy\<close>.
\<close>

section \<open>Configuration, arguments, answers\<close>

record searcher_config =
  sc_rrf_k :: int
  sc_bm25_weight :: real
  sc_dense_weight :: real
  sc_default_top_k_for_fusion :: int
  sc_default_wait_for_quiescence_ms :: int
  sc_chars_per_token :: int
  sc_relevance_floor :: real
  sc_project_floors :: "(string, real) dict"
  sc_dedup_by_doc_root :: bool

definition default_searcher_config :: searcher_config where
  "default_searcher_config = \<lparr>sc_rrf_k = 60, sc_bm25_weight = 1, sc_dense_weight = 1, sc_default_top_k_for_fusion = 1000,
     sc_default_wait_for_quiescence_ms = 500, sc_chars_per_token = 4, sc_relevance_floor = 1 / 2, sc_project_floors = [],
     sc_dedup_by_doc_root = False\<rparr>"

record searcher =
  sr_config :: searcher_config
  sr_encode :: "string list \<Rightarrow> exc + vec list"
  sr_sqlite :: sqlite_env
  sr_argpartition :: "xreal list \<Rightarrow> nat \<Rightarrow> nat list"
  sr_argsort :: "xreal list \<Rightarrow> nat list"
  sr_quiescence :: "string option \<Rightarrow> int \<Rightarrow> int \<times> string"   \<comment> \<open>pending updates and the time indexed through\<close>
  sr_now :: string
  sr_rg :: "string \<Rightarrow> string \<Rightarrow> string option"                 \<comment> \<open>in a root, for a pattern\<close>
  sr_root_exists :: "string \<Rightarrow> bool"
  sr_resolve :: "path \<Rightarrow> path"

record search_args =
  sa_cwd :: "string option"
  sa_project :: "string option"
  sa_max_tokens :: int
  sa_max_results :: "int option"
  sa_wait_ms :: "int option"
  sa_sticky :: "string option"
  sa_paraphrases :: "string list"
  sa_relevance_floor :: "real option"
  sa_auto_policy :: bool
  sa_dedup_by_doc_root :: "bool option"
  sa_prior_context :: "string list"                  \<comment> \<open>a single string is a list of one\<close>
  sa_prior_context_weight :: real
  sa_suppress_ids :: "int list option"

record citation =
  ct_project :: string
  ct_file_path :: string
  ct_start_line :: nat
  ct_end_line :: nat

record search_chunk =
  sk_citation :: citation
  sk_text :: string
  sk_relevance_score :: real
  sk_token_count :: int
  sk_dense_cosine :: "real option"
  sk_chunk_id :: nat

record search_freshness =
  fs_is_fully_fresh :: bool
  fs_pending_updates :: int
  fs_indexed_through :: string
  fs_stale_files :: "string list"

record search_result =
  an_chunks :: "search_chunk list"
  an_freshness :: search_freshness
  an_scope_decision :: scope_decision
  an_no_relevant_results :: bool
  an_top1_dense_cosine :: real
  an_query_type :: string
  an_confidence_gap :: real
  an_query_shape :: string
  an_policy_rationale :: string
  an_embedder_hint :: string
  an_retrieval_quality :: string

section \<open>Policy and scope\<close>

definition resolve_policy :: "searcher \<Rightarrow> string \<Rightarrow> bool \<Rightarrow> chunk_store \<Rightarrow> real \<times> real \<times> string \<times> string \<times> string" where
  \<comment> \<open>both weights, the rationale, the embedder hint, the shape\<close>
  "resolve_policy s query auto_policy st =
     (let shape = detect_query_shape query in
      if \<not> auto_policy then (sc_bm25_weight (sr_config s), sc_dense_weight (sr_config s), [], [], shape_value shape)
      else let policy = select_policy (int (Dmn_Sqlite.chunk_count None st) * 8000) shape
           in (rp_bm25_weight policy, rp_dense_weight policy, rp_rationale policy,
               (case rp_embedder_hint policy of None \<Rightarrow> [] | Some h \<Rightarrow> h), shape_value shape))"

definition scope_to_filter :: "scope_decision \<Rightarrow> scope_filter option" where
  "scope_to_filter sc =
     (case sd_fanout_projects sc of
        [] \<Rightarrow> None
      | [p] \<Rightarrow> Some \<lparr>sf_project = Some p, sf_project_in = None\<rparr>
      | ps \<Rightarrow> Some \<lparr>sf_project = None, sf_project_in = Some ps\<rparr>)"

definition scope_to_embedding_rows :: "scope_decision \<Rightarrow> chunk_store \<Rightarrow> int list option" where
  "scope_to_embedding_rows sc st =
     (case scope_to_filter sc of
        None \<Rightarrow> None
      | Some f \<Rightarrow>
          let chunk_ids = list_chunk_ids_in_scope (Some f) st in
          if chunk_ids = [] then Some []
          else Some (map int (get_embedding_rows_by_chunk_ids (map (\<lambda>i. Some (int i)) chunk_ids) st)))"

section \<open>Embedding the queries\<close>

definition vec_scale :: "real \<Rightarrow> vec \<Rightarrow> vec" where "vec_scale a v = map (\<lambda>x. a * x) v"
definition vec_add :: "vec \<Rightarrow> vec \<Rightarrow> vec" where "vec_add u v = map2 (+) u v"

definition vec_mean :: "vec list \<Rightarrow> vec" where
  "vec_mean vs = vec_scale (1 / real (length vs)) (foldr vec_add (tl vs) (hd vs))"

definition unit_vec :: "vec \<Rightarrow> vec" where
  \<comment> \<open>a zero vector is left alone\<close>
  "unit_vec v = (if l2norm v = 0 then v else vec_scale (1 / l2norm v) v)"

definition embed_queries_with_prior :: "searcher \<Rightarrow> string list \<Rightarrow> string list \<Rightarrow> real \<Rightarrow> exc + vec list" where
  \<comment> \<open>vectors of one encoder have one length\<close>
  "embed_queries_with_prior s queries prior_texts weight =
     (case sr_encode s queries of
        Inl x \<Rightarrow> Inl x
      | Inr base \<Rightarrow>
          if prior_texts = [] \<or> weight \<le> 0 \<or> concat base = [] then Inr base
          else let w = min (max weight 0) 1 in
            (case sr_encode s prior_texts of
               Inl x \<Rightarrow> Inl x
             | Inr prior_embs \<Rightarrow>
                 let prior_mean = unit_vec (vec_mean prior_embs)
                 in Inr (map (\<lambda>q. unit_vec (vec_add (vec_scale (1 - w) q) (vec_scale w prior_mean))) base)))"

section \<open>Rankings and their fusion\<close>

type_synonym hits = "(nat \<times> real) list"

fun lexical_rankings :: "searcher \<Rightarrow> int \<Rightarrow> scope_filter option \<Rightarrow> string list \<Rightarrow> chunk_store \<Rightarrow> (exc + hits list) \<times> chunk_store" where
  "lexical_rankings s top_n f [] st = (Inr [], st)"
| "lexical_rankings s top_n f (q # qs) st =
     (let terms = sql_word_tokenize q
      in case (if terms = [] then (Inr [], st) else search_lexical (sr_sqlite s) terms top_n f st) of
           (Inl x, st) \<Rightarrow> (Inl x, st)
         | (Inr hits, st) \<Rightarrow>
             (case lexical_rankings s top_n f qs st of
                (Inl x, st) \<Rightarrow> (Inl x, st)
              | (Inr rest, st) \<Rightarrow> (Inr (hits # rest), st)))"

fun raw_dense_rankings :: "searcher \<Rightarrow> embed_store \<Rightarrow> int \<Rightarrow> int list option \<Rightarrow> vec list \<Rightarrow> exc + hits list" where
  "raw_dense_rankings s em top_n rows [] = Inr []"
| "raw_dense_rankings s em top_n rows (e # es) =
     (case search_dense (sr_argpartition s) (sr_argsort s) em e top_n rows of
        Inl x \<Rightarrow> Inl x
      | Inr hits \<Rightarrow> map_sum id ((#) hits) (raw_dense_rankings s em top_n rows es))"

definition rows_to_chunks :: "chunk_store \<Rightarrow> hits list \<Rightarrow> hits list" where
  \<comment> \<open>rows become chunk ids; a row without a chunk keeps its number\<close>
  "rows_to_chunks st raw =
     (let row_set = remdups (map fst (concat raw));
          row_to_chunk_id = (if row_set = [] then [] else get_chunk_ids_by_embedding_rows (map (\<lambda>r. Some (int r)) row_set) st)
      in map (map (\<lambda>(r, score). ((case dict_get row_to_chunk_id r of None \<Rightarrow> r | Some c \<Rightarrow> c), score))) raw)"

definition dense_rankings_of :: "searcher \<Rightarrow> embed_store \<Rightarrow> int \<Rightarrow> scope_decision \<Rightarrow> vec list \<Rightarrow> chunk_store \<Rightarrow> exc + hits list" where
  "dense_rankings_of s em top_n sc query_embs st =
     map_sum id (rows_to_chunks st) (raw_dense_rankings s em top_n (scope_to_embedding_rows sc st) query_embs)"

definition sr_rrf_score :: "int \<Rightarrow> int \<Rightarrow> real" where
  "sr_rrf_score rank k = 1 / real_of_int (k + rank)"

definition fuse_one :: "int \<Rightarrow> real \<Rightarrow> hits \<Rightarrow> (nat, real) dict \<Rightarrow> (nat, real) dict" where
  "fuse_one k weight ranking fused =
     fold (\<lambda>(rank, cid, score) d. dict_set cid ((case dict_get d cid of None \<Rightarrow> 0 | Some v \<Rightarrow> v) + weight * sr_rrf_score (int rank) k) d)
       (enumerate 1 ranking) fused"

definition rrf_fuse :: "int \<Rightarrow> hits list \<Rightarrow> hits list \<Rightarrow> real \<Rightarrow> real \<Rightarrow> exc + hits" where
  \<comment> \<open>a negative constant divides by zero at the rank that cancels it\<close>
  "rrf_fuse k bm25_rankings dense_rankings bm25_weight dense_weight =
     (if list_ex (\<lambda>r. 1 \<le> - k \<and> - k \<le> int (length r)) (bm25_rankings @ dense_rankings) then Inl ZeroDivisionError
      else Inr (sort_key (\<lambda>(cid, v). (- v, cid))
             (fold (fuse_one k dense_weight) dense_rankings (fold (fuse_one k bm25_weight) bm25_rankings []))))"

definition fused_cap :: "int option \<Rightarrow> int list option \<Rightarrow> int \<Rightarrow> int" where
  "fused_cap max_results suppress_ids top_n =
     (let suppress_count = (case suppress_ids of None \<Rightarrow> 0 | Some is \<Rightarrow> int (length (remdups is)));
          cap = (case max_results of None \<Rightarrow> top_n | Some m \<Rightarrow> m)
      in max (min (cap + suppress_count) top_n) 1)"

definition best_cosines :: "hits list \<Rightarrow> (nat, real) dict" where
  "best_cosines rankings =
     fold (\<lambda>(cid, v) d. if v > (case dict_get d cid of None \<Rightarrow> - 1 | Some w \<Rightarrow> w) then dict_set cid v d else d) (concat rankings) []"

definition cosine_at :: "(nat, real) dict \<Rightarrow> hits \<Rightarrow> nat \<Rightarrow> real" where
  "cosine_at cosines fused i =
     (if i < length fused then (case dict_get cosines (fst (fused ! i)) of None \<Rightarrow> 0 | Some v \<Rightarrow> v) else 0)"

definition resolve_floor :: "searcher_config \<Rightarrow> real option \<Rightarrow> scope_decision \<Rightarrow> real" where
  "resolve_floor cf arg sc =
     (case arg of
        Some v \<Rightarrow> v
      | None \<Rightarrow>
          (case sd_primary_project sc of
             None \<Rightarrow> sc_relevance_floor cf
           | Some p \<Rightarrow> if p = [] then sc_relevance_floor cf
                       else (case dict_get (sc_project_floors cf) p of None \<Rightarrow> sc_relevance_floor cf | Some v \<Rightarrow> v)))"

section \<open>Chunks, their files, their order\<close>

definition ranked_chunks_of :: "chunk_store \<Rightarrow> hits \<Rightarrow> (chunk_record \<times> real) list" where
  "ranked_chunks_of st fused =
     (let chunks_by_id = fold (\<lambda>c. dict_set (cn_id c) c) (get_chunks_by_id (map fst fused) st) []
      in concat (map (\<lambda>(cid, score). case dict_get chunks_by_id cid of None \<Rightarrow> [] | Some c \<Rightarrow> [(c, score)]) fused))"

definition project_root_of :: "string \<Rightarrow> chunk_store \<Rightarrow> string option" where
  "project_root_of name st = map_option pj_root_path (find (\<lambda>p. pj_name p = name) (list_projects st))"

definition chunk_path_abs :: "searcher \<Rightarrow> chunk_store \<Rightarrow> chunk_record \<Rightarrow> string" where
  "chunk_path_abs s st c =
     (case get_file_by_id (cn_file_id c) st of
        None \<Rightarrow> []
      | Some f \<Rightarrow>
          (case project_root_of (fl_project f) st of
             None \<Rightarrow> []
           | Some r \<Rightarrow> let q = path_of (fl_rel_path f) in path_str (sr_resolve s (if path_abs q then q else path_of r @ q))))"

definition definition_sites :: "searcher \<Rightarrow> string \<Rightarrow> string \<Rightarrow> chunk_store \<Rightarrow> string list" where
  "definition_sites s query primary st =
     (case project_root_of primary st of
        None \<Rightarrow> []
      | Some r \<Rightarrow>
          if r = [] then []
          else let syms = extract_symbols query
               in if syms = [] then [] else map (\<lambda>p. path_str (sr_resolve s (path_of p))) (symbol_grep_repo (sr_rg s r) (sr_root_exists s r) 5 syms))"

definition augment_key :: "searcher \<Rightarrow> chunk_store \<Rightarrow> query_feats \<Rightarrow> string list \<Rightarrow> chunk_record \<times> real \<Rightarrow> real \<times> real" where
  "augment_key s st qf sym_paths = (\<lambda>(c, score).
     let abs_path = chunk_path_abs s st c;
         sym_boost = (if abs_path \<in> set sym_paths then 3 / 2 else 1)
     in (- (sym_boost * file_type_weight abs_path qf), - score))"

definition symbol_rerank :: "searcher \<Rightarrow> string \<Rightarrow> scope_decision \<Rightarrow> chunk_store \<Rightarrow> (chunk_record \<times> real) list \<Rightarrow> (chunk_record \<times> real) list" where
  "symbol_rerank s query sc st ranked =
     (let qf = query_features query in
      case sd_primary_project sc of
        Some p \<Rightarrow> if has_code_signal qf \<and> p \<noteq> [] then sort_key (augment_key s st qf (definition_sites s query p st)) ranked else ranked
      | None \<Rightarrow> ranked)"

definition hex_lower :: "char \<Rightarrow> bool" where
  "hex_lower c \<longleftrightarrow> is_digit c \<or> (97 \<le> cp c \<and> cp c \<le> 102)"

definition strip_hash_end :: "string \<Rightarrow> string" where
  "strip_hash_end t =
     (if 13 \<le> length t \<and> list_all hex_lower (drop (length t - 12) t) \<and> t ! (length t - 13) = CHR ''.''
      then take (length t - 13) t else t)"

definition doc_root :: "string \<Rightarrow> string" where
  \<comment> \<open>\<open>\.[0-9a-f]{12}$\<close>, where \<open>$\<close> is also before a last newline\<close>
  "doc_root t = (if t \<noteq> [] \<and> last t = CHR 0x0A then strip_hash_end (butlast t) @ [CHR 0x0A] else strip_hash_end t)"

definition dedup_key :: "chunk_store \<Rightarrow> chunk_record \<Rightarrow> string option" where
  "dedup_key st c = map_option (\<lambda>f. fl_project f @ ''::'' @ doc_root (fl_rel_path f)) (get_file_by_id (cn_file_id c) st)"

definition build_citation :: "chunk_store \<Rightarrow> chunk_record \<Rightarrow> citation" where
  "build_citation st c =
     (case get_file_by_id (cn_file_id c) st of
        Some f \<Rightarrow> \<lparr>ct_project = fl_project f, ct_file_path = fl_project f @ ''/'' @ fl_rel_path f,
                   ct_start_line = cn_start_line c, ct_end_line = cn_end_line c\<rparr>
      | None \<Rightarrow> \<lparr>ct_project = [], ct_file_path = ''chunk-'' @ nat_str (cn_id c), ct_start_line = cn_start_line c, ct_end_line = cn_end_line c\<rparr>)"

definition chunk_token_count :: "searcher_config \<Rightarrow> chunk_record \<Rightarrow> exc + int" where
  "chunk_token_count cf c =
     (if 0 < cn_token_count c then Inr (cn_token_count c)
      else if sc_chars_per_token cf = 0 then Inl ZeroDivisionError
      else Inr (max 1 (int (length (cn_text c)) div sc_chars_per_token cf)))"

section \<open>Taking chunks under the budget\<close>

record take_env =
  tk_config :: searcher_config
  tk_store :: chunk_store
  tk_cosines :: "(nat, real) dict"
  tk_dedup :: bool
  tk_suppress :: "int list"
  tk_max_results :: "int option"

definition search_chunk_of :: "take_env \<Rightarrow> chunk_record \<Rightarrow> real \<Rightarrow> int \<Rightarrow> search_chunk" where
  "search_chunk_of te c score tok = \<lparr>sk_citation = build_citation (tk_store te) c, sk_text = cn_text c, sk_relevance_score = score,
     sk_token_count = tok, sk_dense_cosine = dict_get (tk_cosines te) (cn_id c), sk_chunk_id = cn_id c\<rparr>"

definition key_of :: "take_env \<Rightarrow> chunk_record \<Rightarrow> string option" where
  "key_of te c = (if tk_dedup te then dedup_key (tk_store te) c else None)"

fun take_chunks :: "take_env \<Rightarrow> int \<Rightarrow> string list \<Rightarrow> search_chunk list \<Rightarrow> (chunk_record \<times> real) list \<Rightarrow> exc + search_chunk list" where
  "take_chunks te budget seen kept [] = Inr kept"
| "take_chunks te budget seen kept ((c, score) # rest) =
     (if int (cn_id c) \<in> set (tk_suppress te) then take_chunks te budget seen kept rest
      else if (case key_of te c of None \<Rightarrow> False | Some key \<Rightarrow> key \<in> set seen) then take_chunks te budget seen kept rest
      else let seen = (case key_of te c of None \<Rightarrow> seen | Some key \<Rightarrow> key # seen) in
        case chunk_token_count (tk_config te) c of
          Inl x \<Rightarrow> Inl x
        | Inr tok \<Rightarrow>
            if tok > budget \<and> kept \<noteq> [] then Inr kept
            else let kept = kept @ [search_chunk_of te c score tok] in
              if (case tk_max_results te of None \<Rightarrow> False | Some m \<Rightarrow> m \<le> int (length kept)) then Inr kept
              else take_chunks te (budget - tok) seen kept rest)"

section \<open>One search\<close>

definition retrieval_quality :: "real \<Rightarrow> real \<Rightarrow> bool \<Rightarrow> nat \<Rightarrow> string" where
  "retrieval_quality top1_cosine confidence_gap no_relevant_results n_chunks =
     (if no_relevant_results then ''abstain''
      else if n_chunks = 0 then ''unknown''
      else if top1_cosine \<ge> 3 / 4 \<and> confidence_gap \<ge> 1 / 10 then ''high''
      else if top1_cosine \<ge> 3 / 5 then ''medium''
      else if top1_cosine \<ge> 1 / 2 \<and> confidence_gap \<ge> 3 / 20 then ''medium''
      else ''low'')"

definition rank_all ::
  "searcher \<Rightarrow> embed_store \<Rightarrow> search_args \<Rightarrow> string list \<Rightarrow> scope_decision \<Rightarrow> real \<Rightarrow> real \<Rightarrow> vec list \<Rightarrow> chunk_store
     \<Rightarrow> (exc + hits \<times> (nat, real) dict) \<times> chunk_store" where
  \<comment> \<open>the stages \<open>bm25_score\<close>, \<open>dense_score\<close> and \<open>rrf_fuse\<close>: the fused list, cut, and the best cosine of each chunk\<close>
  "rank_all s em ar queries sc bm25_weight dense_weight query_embs st =
     (let top_n = sc_default_top_k_for_fusion (sr_config s)
      in case (if 0 < bm25_weight then lexical_rankings s top_n (scope_to_filter sc) queries st else (Inr [], st)) of
           (Inl x, st) \<Rightarrow> (Inl x, st)
         | (Inr bm25_rankings, st) \<Rightarrow>
             (case (if 0 < dense_weight then dense_rankings_of s em top_n sc query_embs st else Inr []) of
                Inl x \<Rightarrow> (Inl x, st)
              | Inr dense_rankings \<Rightarrow>
                  (case rrf_fuse (sc_rrf_k (sr_config s)) bm25_rankings dense_rankings bm25_weight dense_weight of
                     Inl x \<Rightarrow> (Inl x, st)
                   | Inr fused \<Rightarrow>
                       (Inr (py_take (fused_cap (sa_max_results ar) (sa_suppress_ids ar) top_n) fused, best_cosines dense_rankings), st))))"

text \<open>A search that returned ranked without an exception.\<close>

lemma rank_all_Inr:
  assumes "rank_all s em ar queries sc bw dw embs st = (Inr (fused, cosines), st')"
  defines "top_n \<equiv> sc_default_top_k_for_fusion (sr_config s)"
  obtains bm dense all where "(if 0 < bw then lexical_rankings s top_n (scope_to_filter sc) queries st else (Inr [], st)) = (Inr bm, st')"
    "(if 0 < dw then dense_rankings_of s em top_n sc embs st' else Inr []) = Inr dense"
    "rrf_fuse (sc_rrf_k (sr_config s)) bm dense bw dw = Inr all"
    "fused = py_take (fused_cap (sa_max_results ar) (sa_suppress_ids ar) top_n) all" "cosines = best_cosines dense"
proof -
  obtain r st1 where bm: "(if 0 < bw then lexical_rankings s top_n (scope_to_filter sc) queries st else (Inr [], st)) = (r, st1)" by fastforce
  note run = assms(1) [unfolded rank_all_def Let_def top_n_def [symmetric] bm prod.case]
  obtain bm' where r: "r = Inr bm'" using run by (cases r) auto
  obtain dense where d: "(if 0 < dw then dense_rankings_of s em top_n sc embs st1 else Inr []) = Inr dense"
    using run unfolding r sum.case by (cases "if 0 < dw then dense_rankings_of s em top_n sc embs st1 else Inr []") auto
  obtain all where a: "rrf_fuse (sc_rrf_k (sr_config s)) bm' dense bw dw = Inr all"
    using run unfolding r sum.case d by (cases "rrf_fuse (sc_rrf_k (sr_config s)) bm' dense bw dw") auto
  have st': "st1 = st'" and out: "fused = py_take (fused_cap (sa_max_results ar) (sa_suppress_ids ar) top_n) all" "cosines = best_cosines dense"
    using run unfolding r sum.case d a by auto
  show ?thesis by (rule that [OF bm [unfolded r st'] d [unfolded st'] a out])
qed

definition fetch_chunks ::
  "searcher \<Rightarrow> search_args \<Rightarrow> string \<Rightarrow> scope_decision \<Rightarrow> hits \<Rightarrow> (nat, real) dict \<Rightarrow> chunk_store \<Rightarrow> exc + search_chunk list" where
  "fetch_chunks s ar query sc fused cosines st =
     take_chunks \<lparr>tk_config = sr_config s, tk_store = st, tk_cosines = cosines,
          tk_dedup = (case sa_dedup_by_doc_root ar of Some b \<Rightarrow> b | None \<Rightarrow> sc_dedup_by_doc_root (sr_config s)),
          tk_suppress = (case sa_suppress_ids ar of None \<Rightarrow> [] | Some is \<Rightarrow> is), tk_max_results = sa_max_results ar\<rparr>
       (sa_max_tokens ar) [] [] (symbol_rerank s query sc st (ranked_chunks_of st fused))"

definition search :: "searcher \<Rightarrow> embed_store \<Rightarrow> string \<Rightarrow> search_args \<Rightarrow> chunk_store \<Rightarrow> (exc + search_result) \<times> chunk_store" where
  "search s em query ar st =
     (let cf = sr_config s;
          (bm25_weight, dense_weight, rationale, hint, shape) = resolve_policy s query (sa_auto_policy ar) st;
          sc = decide_scope query (sa_cwd ar) (sa_project ar) (sa_sticky ar) (map pj_name (list_projects st)) [];
          (pending, indexed_through) = sr_quiescence s (sd_primary_project sc)
             (case sa_wait_ms ar of Some t \<Rightarrow> t | None \<Rightarrow> sc_default_wait_for_quiescence_ms cf);
          queries = query # sa_paraphrases ar;
          prior_texts = filter (\<lambda>t. \<not> py_blank t) (sa_prior_context ar)
      in case embed_queries_with_prior s queries prior_texts (sa_prior_context_weight ar) of
           Inl x \<Rightarrow> (Inl x, st)
         | Inr query_embs \<Rightarrow>
             (case rank_all s em ar queries sc bm25_weight dense_weight query_embs st of
                (Inl x, st) \<Rightarrow> (Inl x, st)
              | (Inr (fused, cosines), st) \<Rightarrow>
                  let top1 = cosine_at cosines fused 0;
                      gap = max 0 (top1 - cosine_at cosines fused 1);
                      fl = resolve_floor cf (sa_relevance_floor ar) sc;
                      no_relevant = (0 < fl \<and> 0 < dense_weight \<and> (fused = [] \<or> top1 < fl))
                  in case (if no_relevant then Inr [] else fetch_chunks s ar query sc fused cosines st) of
                       Inl x \<Rightarrow> (Inl x, st)
                     | Inr kept \<Rightarrow>
                         (Inr \<lparr>an_chunks = kept,
                            an_freshness = \<lparr>fs_is_fully_fresh = (pending = 0), fs_pending_updates = pending,
                              fs_indexed_through = indexed_through, fs_stale_files = []\<rparr>,
                            an_scope_decision = sc, an_no_relevant_results = no_relevant, an_top1_dense_cosine = top1,
                            an_query_type = classify_query_type query, an_confidence_gap = gap, an_query_shape = shape,
                            an_policy_rationale = rationale, an_embedder_hint = hint,
                            an_retrieval_quality = retrieval_quality top1 gap no_relevant (length kept)\<rparr>, st)))"

section \<open>Several questions\<close>

record multi_search_result =
  mr_queries :: "string list"
  mr_groups :: "search_result list"
  mr_scope_decision :: scope_decision
  mr_freshness :: search_freshness

fun search_groups :: "searcher \<Rightarrow> embed_store \<Rightarrow> search_args \<Rightarrow> int list \<Rightarrow> string list \<Rightarrow> chunk_store
    \<Rightarrow> (exc + search_result list) \<times> chunk_store" where
  \<comment> \<open>\<open>suppress\<close> grows by the chunks of each answer\<close>
  "search_groups s em ar suppress [] st = (Inr [], st)"
| "search_groups s em ar suppress (q # qs) st =
     (case search s em q (ar\<lparr>sa_suppress_ids := (if suppress = [] then None else Some suppress)\<rparr>) st of
        (Inl x, st) \<Rightarrow> (Inl x, st)
      | (Inr r, st) \<Rightarrow>
          (case search_groups s em ar (suppress @ map (\<lambda>k. int (sk_chunk_id k)) (an_chunks r)) qs st of
             (Inl x, st) \<Rightarrow> (Inl x, st)
           | (Inr rs, st) \<Rightarrow> (Inr (r # rs), st)))"

definition merged_freshness :: "search_result list \<Rightarrow> search_freshness" where
  "merged_freshness groups =
     (let fs = map an_freshness groups;
          any_stale = list_ex (\<lambda>f. \<not> fs_is_fully_fresh f) fs;
          max_pending = foldr max (map fs_pending_updates (tl fs)) (fs_pending_updates (hd fs))
      in \<lparr>fs_is_fully_fresh = (\<not> any_stale \<and> max_pending = 0), fs_pending_updates = max_pending,
          fs_indexed_through = foldr min (map fs_indexed_through (tl fs)) (fs_indexed_through (hd fs)),
          fs_stale_files = sort (remdups (concat (map fs_stale_files fs)))\<rparr>)"

definition search_multi :: "searcher \<Rightarrow> embed_store \<Rightarrow> string list \<Rightarrow> search_args \<Rightarrow> chunk_store \<Rightarrow> (exc + multi_search_result) \<times> chunk_store" where
  \<comment> \<open>without paraphrases and without the automatic policy\<close>
  "search_multi s em queries ar st =
     (if queries = []
      then (Inr \<lparr>mr_queries = [], mr_groups = [],
              mr_scope_decision = \<lparr>sd_primary_project = None, sd_primary_source = ''fanout_no_primary'', sd_fanout_projects = [],
                sd_cross_project_pattern_matched = None, sd_active_project_sticky = sa_sticky ar\<rparr>,
              mr_freshness = \<lparr>fs_is_fully_fresh = True, fs_pending_updates = 0, fs_indexed_through = sr_now s, fs_stale_files = []\<rparr>\<rparr>, st)
      else case search_groups s em (ar\<lparr>sa_paraphrases := [], sa_auto_policy := False\<rparr>)
                  (case sa_suppress_ids ar of None \<Rightarrow> [] | Some is \<Rightarrow> is) queries st of
             (Inl x, st) \<Rightarrow> (Inl x, st)
           | (Inr groups, st) \<Rightarrow>
               (Inr \<lparr>mr_queries = queries, mr_groups = groups, mr_scope_decision = an_scope_decision (hd groups),
                  mr_freshness = merged_freshness groups\<rparr>, st))"

section \<open>The fused ranking\<close>

definition rrf_of :: "int \<Rightarrow> real \<Rightarrow> hits \<Rightarrow> nat \<Rightarrow> real" where
  \<comment> \<open>what one ranking gives a chunk\<close>
  "rrf_of k w ranking cid = sum_list (map (\<lambda>(rank, c, v). if c = cid then w / (real_of_int k + real rank) else 0) (enumerate 1 ranking))"

definition rrf_total :: "int \<Rightarrow> real \<Rightarrow> hits list \<Rightarrow> nat \<Rightarrow> real" where
  "rrf_total k w rankings cid = sum_list (map (\<lambda>r. rrf_of k w r cid) rankings)"

definition ids_in :: "hits list \<Rightarrow> nat set" where
  "ids_in rankings = fst ` set (concat rankings)"

definition score_in :: "(nat, real) dict \<Rightarrow> nat \<Rightarrow> real" where
  "score_in d cid = (case dict_get d cid of None \<Rightarrow> 0 | Some v \<Rightarrow> v)"

lemma fuse_step:
  "score_in (fold (\<lambda>(rank, c, v) d. dict_set c (score_in d c + w * sr_rrf_score (int rank) k) d) xs d) cid
     = score_in d cid + sum_list (map (\<lambda>(rank, c, v). if c = cid then w / (real_of_int k + real rank) else 0) xs)"
  "fst ` set (fold (\<lambda>(rank, c, v) d. dict_set c (score_in d c + w * sr_rrf_score (int rank) k) d) xs d) = fst ` set d \<union> (fst \<circ> snd) ` set xs"
  "dict_wf d \<Longrightarrow> dict_wf (fold (\<lambda>(rank, c, v) d. dict_set c (score_in d c + w * sr_rrf_score (int rank) k) d) xs d)"
proof (induction xs arbitrary: d)
  case (Cons x xs)
  obtain rank c v where x: "x = (rank, c, v)" by (cases x)
  {
    case 1
    show ?case using Cons(1) by (simp add: x score_in_def sr_rrf_score_def update_conv')
  next
    case 2
    show ?case using Cons(2) by (auto simp: x dom_update)
  next
    case 3
    then show ?case using Cons(3) by (simp add: x distinct_update)
  }
qed auto

lemma fuse_one_eq:
  "fuse_one k w ranking d = fold (\<lambda>(rank, c, v) d. dict_set c (score_in d c + w * sr_rrf_score (int rank) k) d) (enumerate 1 ranking) d"
  by (simp add: fuse_one_def score_in_def)

lemma fuse_one_facts:
  "score_in (fuse_one k w ranking d) cid = score_in d cid + rrf_of k w ranking cid"
  "fst ` set (fuse_one k w ranking d) = fst ` set d \<union> fst ` set ranking"
  "dict_wf d \<Longrightarrow> dict_wf (fuse_one k w ranking d)"
proof -
  have "snd ` set (enumerate 1 ranking) = set ranking" by (metis map_snd_enumerate set_map)
  then have "(fst \<circ> snd) ` set (enumerate 1 ranking) = fst ` set ranking" by (metis image_comp)
  then show "fst ` set (fuse_one k w ranking d) = fst ` set d \<union> fst ` set ranking" by (simp only: fuse_one_eq fuse_step(2))
qed (simp_all add: fuse_one_eq fuse_step(1,3) rrf_of_def)

lemma fuse_all_facts:
  "score_in (fold (fuse_one k w) rs d) cid = score_in d cid + rrf_total k w rs cid"
  "fst ` set (fold (fuse_one k w) rs d) = fst ` set d \<union> ids_in rs"
  "dict_wf d \<Longrightarrow> dict_wf (fold (fuse_one k w) rs d)"
  by (induction rs arbitrary: d) (auto simp: rrf_total_def ids_in_def fuse_one_facts image_Un)

definition ahead :: "(nat \<Rightarrow> real) \<Rightarrow> nat \<Rightarrow> nat \<Rightarrow> bool" where
  \<comment> \<open>a higher total, or the smaller id at equal totals\<close>
  "ahead tot a b \<longleftrightarrow> tot b < tot a \<or> tot a = tot b \<and> a < b"

lemma rrf_fuse_best:
  assumes "rrf_fuse k bm dense bw dw = Inr fused" "1 \<le> cap"
  defines "tot \<equiv> \<lambda>cid. rrf_total k bw bm cid + rrf_total k dw dense cid"
  shows "\<exists>picks. py_take cap fused = map (\<lambda>cid. (cid, tot cid)) picks \<and> distinct picks \<and> set picks \<subseteq> ids_in (bm @ dense)
    \<and> sorted_wrt (ahead tot) picks \<and> (\<forall>a \<in> set picks. \<forall>b \<in> ids_in (bm @ dense) - set picks. ahead tot a b)
    \<and> length picks = min (nat cap) (card (ids_in (bm @ dense)))"
proof -
  define all where "all = fold (fuse_one k dw) dense (fold (fuse_one k bw) bm [])"
  define ids where "ids = map fst fused"
  have fused: "fused = sort_key (\<lambda>(cid, v). (- v, cid)) all" using assms(1) by (auto simp: rrf_fuse_def all_def split: if_splits)
  have wf: "dict_wf all" by (simp add: all_def fuse_all_facts)
  have dom: "fst ` set all = ids_in (bm @ dense)" by (simp add: all_def fuse_all_facts) (simp add: ids_in_def image_Un)
  have val: "v = tot cid" if "(cid, v) \<in> set all" for cid v
  proof -
    have "score_in all cid = v" using wf that by (simp add: score_in_def)
    moreover have "score_in all cid = score_in [] cid + rrf_total k bw bm cid + rrf_total k dw dense cid"
      by (simp add: all_def fuse_all_facts)
    ultimately show ?thesis by (simp add: tot_def score_in_def)
  qed
  have "map (\<lambda>cid. (cid, tot cid)) (map fst fused) = fused"
    unfolding map_map by (rule map_idI) (auto simp: fused dest: val)
  then have eq: "fused = map (\<lambda>cid. (cid, tot cid)) ids" by (simp add: ids_def)
  have set_ids: "set ids = ids_in (bm @ dense)" by (simp add: ids_def fused dom)
  have dist: "distinct ids" using wf by (simp add: ids_def fused distinct_map)
  have "sorted (map (\<lambda>cid. (- tot cid, cid)) ids)"
    using sorted_sort_key [of "\<lambda>(cid, v). (- v, cid)" all] unfolding fused [symmetric] by (simp add: eq comp_def)
  then have "sorted_wrt (ahead tot) ids" using dist
    by (simp add: sorted_map distinct_conv_nth sorted_wrt_iff_nth_less ahead_def) (metis linorder_less_linear nless_le order_less_trans)
  then have srt: "sorted_wrt (ahead tot) (take (nat cap) ids)" "\<forall>a \<in> set (take (nat cap) ids). \<forall>b \<in> set (drop (nat cap) ids). ahead tot a b"
    by (metis append_take_drop_id sorted_wrt_append)+
  have rest: "ids_in (bm @ dense) - set (take (nat cap) ids) \<subseteq> set (drop (nat cap) ids)"
    using set_ids by (metis Diff_subset_conv append_take_drop_id order_refl set_append)
  have "py_take cap fused = map (\<lambda>cid. (cid, tot cid)) (take (nat cap) ids)"
    using assms(2) by (simp add: py_take_def eq take_map)
  moreover have "length (take (nat cap) ids) = min (nat cap) (card (ids_in (bm @ dense)))"
    using distinct_card [OF dist] set_ids by (simp add: min.commute)
  ultimately show ?thesis using dist srt rest set_ids set_take_subset [of "nat cap" ids] distinct_take [OF dist]
    by (intro exI [of _ "take (nat cap) ids"]) blast
qed

text \<open>
  C11: the fusion is reciprocal rank fusion. The fused list of a search holds distinct chunks out of
  the lexical and the dense rankings, each with the weighted sum of its reciprocal ranks in all of
  them, best first and the smaller id first at equal sums, as many as the cap allows or all; no chunk
  left out is ahead of one in it.
\<close>

theorem fusion_best:
  fixes s :: searcher and ar :: search_args
  assumes "rank_all s em ar queries sc bw dw embs st = (Inr (fused, cosines), st')"
  defines "top_n \<equiv> sc_default_top_k_for_fusion (sr_config s)" and "k \<equiv> sc_rrf_k (sr_config s)"
  shows "\<exists>bm dense picks tot.
      (Inr bm, st') = (if 0 < bw then lexical_rankings s top_n (scope_to_filter sc) queries st else (Inr [], st))
    \<and> Inr dense = (if 0 < dw then dense_rankings_of s em top_n sc embs st' else Inr [])
    \<and> tot = (\<lambda>cid. rrf_total k bw bm cid + rrf_total k dw dense cid)
    \<and> fused = map (\<lambda>cid. (cid, tot cid)) picks \<and> distinct picks \<and> set picks \<subseteq> ids_in (bm @ dense)
    \<and> sorted_wrt (ahead tot) picks \<and> (\<forall>a \<in> set picks. \<forall>b \<in> ids_in (bm @ dense) - set picks. ahead tot a b)
    \<and> length picks = min (nat (fused_cap (sa_max_results ar) (sa_suppress_ids ar) top_n)) (card (ids_in (bm @ dense)))"
proof -
  obtain bm dense all where x: "(if 0 < bw then lexical_rankings s top_n (scope_to_filter sc) queries st else (Inr [], st)) = (Inr bm, st')"
    "(if 0 < dw then dense_rankings_of s em top_n sc embs st' else Inr []) = Inr dense" "rrf_fuse k bm dense bw dw = Inr all"
    "fused = py_take (fused_cap (sa_max_results ar) (sa_suppress_ids ar) top_n) all"
    using rank_all_Inr [OF assms(1)] unfolding top_n_def k_def by metis
  have "1 \<le> fused_cap (sa_max_results ar) (sa_suppress_ids ar) top_n" by (simp add: fused_cap_def Let_def)
  from rrf_fuse_best [OF x(3) this] show ?thesis
    unfolding x(4) using x(1,2) by (intro exI [of _ bm] exI [of _ dense]) (simp del: ex_simps)
qed

section \<open>What is taken\<close>

fun eligible :: "take_env \<Rightarrow> string list \<Rightarrow> (chunk_record \<times> real) list \<Rightarrow> (chunk_record \<times> real) list" where
  \<comment> \<open>without suppressed chunks, the first of each document\<close>
  "eligible te seen [] = []"
| "eligible te seen ((c, score) # rest) =
     (if int (cn_id c) \<in> set (tk_suppress te) then eligible te seen rest
      else if (case key_of te c of None \<Rightarrow> False | Some key \<Rightarrow> key \<in> set seen) then eligible te seen rest
      else (c, score) # eligible te (case key_of te c of None \<Rightarrow> seen | Some key \<Rightarrow> key # seen) rest)"

definition tokens_of :: "take_env \<Rightarrow> chunk_record \<Rightarrow> int" where
  "tokens_of te c = (if 0 < cn_token_count c then cn_token_count c else max 1 (int (length (cn_text c)) div sc_chars_per_token (tk_config te)))"

definition total_tokens :: "take_env \<Rightarrow> (chunk_record \<times> real) list \<Rightarrow> int" where
  "total_tokens te xs = sum_list (map (tokens_of te \<circ> fst) xs)"

definition answer_of :: "take_env \<Rightarrow> chunk_record \<times> real \<Rightarrow> search_chunk" where
  "answer_of te = (\<lambda>(c, score). search_chunk_of te c score (tokens_of te c))"

definition full :: "int option \<Rightarrow> nat \<Rightarrow> bool" where
  "full m n = (case m of None \<Rightarrow> False | Some m \<Rightarrow> m \<le> int n)"

lemma chunk_token_count_Inr: "chunk_token_count (tk_config te) c = Inr tok \<Longrightarrow> tok = tokens_of te c \<and> 1 \<le> tok"
  by (auto simp: chunk_token_count_def tokens_of_def split: if_splits)

lemma eligible_mem: "x \<in> set (eligible te seen xs) \<Longrightarrow> x \<in> set xs \<and> int (cn_id (fst x)) \<notin> set (tk_suppress te)"
  by (induction te seen xs rule: eligible.induct) (auto split: if_splits option.splits)

lemma eligible_subseq: "subseq (eligible te seen xs) xs"
  by (induction te seen xs rule: eligible.induct) (auto split: option.splits, metis list_emb_Cons)

lemma eligible_plain: "\<not> tk_dedup te \<Longrightarrow> eligible te seen xs = filter (\<lambda>x. int (cn_id (fst x)) \<notin> set (tk_suppress te)) xs"
  by (induction te seen xs rule: eligible.induct) (auto simp: key_of_def)

lemma eligible_keys:
  "distinct (map the (filter (\<lambda>k. k \<noteq> None) (map (key_of te \<circ> fst) (eligible te seen xs))))
    \<and> (\<forall>x \<in> set (eligible te seen xs). \<forall>key. key_of te (fst x) = Some key \<longrightarrow> key \<notin> set seen)"
proof (induction te seen xs rule: eligible.induct)
  case (2 te seen c score rest)
  let ?sup = "int (cn_id c) \<in> set (tk_suppress te)" and ?dup = "case key_of te c of None \<Rightarrow> False | Some key \<Rightarrow> key \<in> set seen"
  consider "?sup" | "\<not> ?sup" "?dup" | "\<not> ?sup" "\<not> ?dup" by blast
  then show ?case
  proof cases
    case 1
    then show ?thesis using 2(1) by simp
  next
    case 2
    then show ?thesis using "2.IH"(2) by simp
  next
    case 3
    then show ?thesis using "2.IH"(3) by (cases "key_of te c") force+
  qed
qed simp

text \<open>Once something is taken, the answer grows by eligible chunks while they fit and the limit is not reached.\<close>

lemma take_chunks_more:
  assumes "take_chunks te budget seen kept xs = Inr out" "kept \<noteq> []" "\<not> full (tk_max_results te) (length kept)"
  defines "el \<equiv> eligible te seen xs"
  shows "\<exists>n. n \<le> length el \<and> out = kept @ map (answer_of te) (take n el)
    \<and> (n = length el \<or> full (tk_max_results te) (length out) \<or> budget < total_tokens te (take (Suc n) el))
    \<and> (n = 0 \<or> total_tokens te (take n el) \<le> budget \<and> \<not> full (tk_max_results te) (length out - 1))"
  using assms(1-3) unfolding el_def
proof (induction te budget seen kept xs rule: take_chunks.induct)
  case (2 te budget seen kept c score rest)
  let ?sup = "int (cn_id c) \<in> set (tk_suppress te)" and ?dup = "case key_of te c of None \<Rightarrow> False | Some key \<Rightarrow> key \<in> set seen"
  consider "?sup" | "\<not> ?sup" "?dup" | "\<not> ?sup" "\<not> ?dup" by blast
  then show ?case
  proof cases
    case 1
    then show ?thesis using 2 by simp
  next
    case 2
    then show ?thesis using "2.IH"(2) "2.prems" by simp
  next
    case 3
    define seen' where "seen' = (case key_of te c of None \<Rightarrow> seen | Some key \<Rightarrow> key # seen)"
    have el: "eligible te seen ((c, score) # rest) = (c, score) # eligible te seen' rest" using 3 by (simp add: seen'_def)
    obtain tok where tok: "chunk_token_count (tk_config te) c = Inr tok" "tok = tokens_of te c" "1 \<le> tok"
      using 3 "2.prems"(1) chunk_token_count_Inr [of te c] by (cases "chunk_token_count (tk_config te) c") (simp_all add: Let_def)
    let ?kept = "kept @ [search_chunk_of te c score tok]" and ?m = "tk_max_results te"
    have step: "take_chunks te budget seen kept ((c, score) # rest)
        = (if tok > budget then Inr kept else if full ?m (length ?kept) then Inr ?kept else take_chunks te (budget - tok) seen' ?kept rest)"
      using 3 tok(1) "2.prems"(2) by (cases ?m) (simp_all add: seen'_def Let_def full_def)
    have ans: "answer_of te (c, score) = search_chunk_of te c score tok" by (simp add: answer_of_def tok(2))
    consider (big) "budget < tok" | (last) "tok \<le> budget" "full ?m (length ?kept)" | (more) "tok \<le> budget" "\<not> full ?m (length ?kept)"
      by linarith
    then show ?thesis
    proof cases
      case big
      then have "out = kept" using step "2.prems"(1) by simp
      then show ?thesis using big tok(2) unfolding el by (intro exI [of _ 0]) (simp add: total_tokens_def)
    next
      case last
      then have "out = ?kept" using step "2.prems"(1) by simp
      then show ?thesis using last tok(2) "2.prems"(3) unfolding el by (intro exI [of _ 1]) (simp add: total_tokens_def ans)
    next
      case more
      have run: "take_chunks te (budget - tok) seen' ?kept rest = Inr out" using step more "2.prems"(1) by simp
      have fits: "\<not> (budget < tok \<and> kept \<noteq> [])" using more by simp
      have room: "\<not> (case ?m of None \<Rightarrow> False | Some m \<Rightarrow> m \<le> int (length ?kept))" using more(2) by (simp only: full_def simp_thms)
      obtain n where n: "n \<le> length (eligible te seen' rest)" "out = ?kept @ map (answer_of te) (take n (eligible te seen' rest))"
          "n = length (eligible te seen' rest) \<or> full ?m (length out) \<or> budget - tok < total_tokens te (take (Suc n) (eligible te seen' rest))"
          "n = 0 \<or> total_tokens te (take n (eligible te seen' rest)) \<le> budget - tok \<and> \<not> full ?m (length out - 1)"
        using "2.IH"(3) [OF 3 seen'_def tok(1) fits refl room run _ more(2)] by blast
      have "total_tokens te ((c, score) # xs) = tok + total_tokens te xs" for xs by (simp add: total_tokens_def tok(2))
      moreover have "n = 0 \<Longrightarrow> length out - 1 = length kept" using n(2) by simp
      ultimately show ?thesis using n more "2.prems"(3) unfolding el
        by (intro exI [of _ "Suc n"]) (auto simp: ans total_tokens_def)
    qed
  qed
qed (auto simp: total_tokens_def)

lemma take_chunks_start:
  assumes "take_chunks te budget seen [] xs = Inr out"
  shows "\<exists>n. n \<le> length (eligible te seen xs) \<and> out = map (answer_of te) (take n (eligible te seen xs))
    \<and> (n = length (eligible te seen xs) \<or> full (tk_max_results te) n \<or> budget < total_tokens te (take (Suc n) (eligible te seen xs)))
    \<and> (n \<le> 1 \<or> total_tokens te (take n (eligible te seen xs)) \<le> budget \<and> \<not> full (tk_max_results te) (n - 1))
    \<and> (n = 0 \<longrightarrow> eligible te seen xs = [])"
  using assms
proof (induction te seen xs rule: eligible.induct)
  case (2 te seen c score rest)
  let ?sup = "int (cn_id c) \<in> set (tk_suppress te)" and ?dup = "case key_of te c of None \<Rightarrow> False | Some key \<Rightarrow> key \<in> set seen"
  consider "?sup" | "\<not> ?sup" "?dup" | "\<not> ?sup" "\<not> ?dup" by blast
  then show ?case
  proof cases
    case 1
    then show ?thesis using "2.IH"(1) "2.prems" by simp
  next
    case 2
    then show ?thesis using "2.IH"(2) "2.prems" by simp
  next
    case 3
    define seen' where "seen' = (case key_of te c of None \<Rightarrow> seen | Some key \<Rightarrow> key # seen)"
    have el: "eligible te seen ((c, score) # rest) = (c, score) # eligible te seen' rest" using 3 by (simp add: seen'_def)
    obtain tok where tok: "chunk_token_count (tk_config te) c = Inr tok" "tok = tokens_of te c" "1 \<le> tok"
      using 3 "2.prems"(1) chunk_token_count_Inr [of te c] by (cases "chunk_token_count (tk_config te) c") (simp_all add: Let_def)
    let ?m = "tk_max_results te" and ?a = "search_chunk_of te c score tok"
    have step: "take_chunks te budget seen [] ((c, score) # rest)
        = (if full ?m 1 then Inr [?a] else take_chunks te (budget - tok) seen' [?a] rest)"
      using 3 tok(1) by (cases ?m) (simp_all add: seen'_def Let_def full_def)
    have ans: "answer_of te (c, score) = ?a" by (simp add: answer_of_def tok(2))
    show ?thesis
    proof (cases "full ?m 1")
      case True
      then have "out = [?a]" using step "2.prems" by simp
      then show ?thesis using True unfolding el by (intro exI [of _ 1]) (simp add: ans)
    next
      case False
      have run: "take_chunks te (budget - tok) seen' [?a] rest = Inr out" using step False "2.prems" by simp
      obtain n where n: "n \<le> length (eligible te seen' rest)" "out = [?a] @ map (answer_of te) (take n (eligible te seen' rest))"
          "n = length (eligible te seen' rest) \<or> full ?m (length out) \<or> budget - tok < total_tokens te (take (Suc n) (eligible te seen' rest))"
          "n = 0 \<or> total_tokens te (take n (eligible te seen' rest)) \<le> budget - tok \<and> \<not> full ?m (length out - 1)"
        using take_chunks_more [OF run] False by (auto simp only: list.size One_nat_def list.distinct simp_thms add_0)
      have "total_tokens te ((c, score) # xs) = tok + total_tokens te xs" for xs by (simp add: total_tokens_def tok(2))
      moreover have "length out = Suc n" using n(1,2) by simp
      ultimately show ?thesis using n unfolding el by (intro exI [of _ "Suc n"]) (auto simp: ans)
    qed
  qed
qed simp

definition take_env_of :: "searcher \<Rightarrow> search_args \<Rightarrow> (nat, real) dict \<Rightarrow> chunk_store \<Rightarrow> take_env" where
  "take_env_of s ar cosines st = \<lparr>tk_config = sr_config s, tk_store = st, tk_cosines = cosines,
     tk_dedup = (case sa_dedup_by_doc_root ar of Some b \<Rightarrow> b | None \<Rightarrow> sc_dedup_by_doc_root (sr_config s)),
     tk_suppress = (case sa_suppress_ids ar of None \<Rightarrow> [] | Some is \<Rightarrow> is), tk_max_results = sa_max_results ar\<rparr>"

lemma fetch_greedy:
  fixes s :: searcher and ar :: search_args
  assumes "fetch_chunks s ar query sc fused cosines st = Inr out"
  defines "te \<equiv> take_env_of s ar cosines st"
  defines "el \<equiv> eligible te [] (symbol_rerank s query sc st (ranked_chunks_of st fused))"
  shows "\<exists>n. n \<le> length el \<and> out = map (answer_of te) (take n el)
    \<and> (n = length el \<or> full (sa_max_results ar) n \<or> sa_max_tokens ar < total_tokens te (take (Suc n) el))
    \<and> (n \<le> 1 \<or> total_tokens te (take n el) \<le> sa_max_tokens ar \<and> \<not> full (sa_max_results ar) (n - 1))
    \<and> (n = 0 \<longrightarrow> el = [])"
proof -
  have "tk_max_results te = sa_max_results ar" by (simp add: te_def take_env_of_def)
  moreover have "take_chunks te (sa_max_tokens ar) [] [] (symbol_rerank s query sc st (ranked_chunks_of st fused)) = Inr out"
    using assms(1) by (simp add: fetch_chunks_def te_def take_env_of_def)
  ultimately show ?thesis unfolding el_def using take_chunks_start by metis
qed

text \<open>
  C12: the answer is the greedy one. Of the ranked chunks those the caller has seen and, when asked
  for, further chunks of one document are left out; the answer is a prefix of the rest. It is empty
  only when nothing is left, it ends where nothing is left, where \<open>max_results\<close> is reached or where
  the next chunk would exceed \<open>max_tokens\<close>, and beyond its first chunk it exceeds neither.
\<close>

theorem answer_greedy:
  fixes s :: searcher and ar :: search_args
  assumes "fetch_chunks s ar query sc fused cosines st = Inr out"
  defines "te \<equiv> take_env_of s ar cosines st"
  defines "el \<equiv> eligible te [] (symbol_rerank s query sc st (ranked_chunks_of st fused))"
  shows "\<exists>n. n \<le> length el \<and> out = map (answer_of te) (take n el)
    \<and> (n = length el \<or> full (sa_max_results ar) n \<or> sa_max_tokens ar < total_tokens te (take (Suc n) el))
    \<and> (n \<le> 1 \<or> total_tokens te (take n el) \<le> sa_max_tokens ar \<and> \<not> full (sa_max_results ar) (n - 1))
    \<and> (n = 0 \<longrightarrow> el = [])"
  unfolding te_def el_def by (rule fetch_greedy [OF assms(1)])

section \<open>Hits stay in scope\<close>

text \<open>What numpy promises of the index sorts: they sort, and return positions of the array.\<close>

definition sorts_ok :: "(xreal list \<Rightarrow> nat \<Rightarrow> nat list) \<Rightarrow> (xreal list \<Rightarrow> nat list) \<Rightarrow> bool" where
  "sorts_ok part srt \<longleftrightarrow> argsort_ok srt \<and> (\<forall>xs k. set (part xs k) \<subseteq> {0..<length xs})"

lemma select_top_range: "sorts_ok part srt \<Longrightarrow> i \<in> set (select_top part srt xs n) \<Longrightarrow> i < length xs"
proof -
  assume a: "sorts_ok part srt" "i \<in> set (select_top part srt xs n)"
  have "mset (select_top part srt xs n) = mset (take n (part xs (n - 1)))" using a(1) by (intro select_top_mset) (simp add: sorts_ok_def)
  then have "set (select_top part srt xs n) = set (take n (part xs (n - 1)))" by (metis set_mset_mset)
  then have "i \<in> set (part xs (n - 1))" using a(2) set_take_subset by fastforce
  then show ?thesis using a(1) by (fastforce simp: sorts_ok_def)
qed

lemma lexical_hits_scope:
  assumes "sorts_ok (se_argpartition en) (se_argsort en)" "scope_projects scope = Some ps" "(cid, v) \<in> set (lexical_hits en q k scope st)"
  shows "cid \<in> cn_id ` set (joined ps st)"
proof -
  obtain bm where bm: "cs_bm25 st = Some bm" using assms(3) by (cases "cs_bm25 st") (simp_all add: lexical_hits_def)
  define ids where "ids = cs_bm25_chunk_ids st"
  define masked where "masked = map (\<lambda>(cid, s). if cid \<in> set (map cn_id (joined ps st)) then Fin (- s) else PInf) (zip ids (se_bm25_scores en bm q))"
  have sc: "scope_chunk_ids scope st = Some (set (map cn_id (joined ps st)))" using assms(2) by (simp add: scope_chunk_ids_def)
  obtain i where i: "i \<in> set (select_top (se_argpartition en) (se_argsort en) masked (min (nat k) (length ids)))" "masked ! i \<noteq> PInf" "cid = ids ! i"
    using assms(3) unfolding lexical_hits_def bm option.case sc Let_def ids_def [symmetric] masked_def [symmetric]
    by (auto split: if_splits)
  have "i < length masked" by (rule select_top_range [OF assms(1) i(1)])
  then have "ids ! i \<in> set (map cn_id (joined ps st))" using i(2) by (auto simp: masked_def split: if_splits)
  then show ?thesis using i(3) by simp
qed

lemma search_lexical_scope:
  assumes "sorts_ok (se_argpartition en) (se_argsort en)" "scope_projects scope = Some ps" "search_lexical en q k scope st = (Inr hits, st')" "(cid, v) \<in> set hits"
  shows "cid \<in> cn_id ` set (joined ps st)"
proof -
  obtain r st1 where e: "ensure_bm25 en st = (r, st1)" by fastforce
  have "hits = lexical_hits en q k scope st1" using assms(3,4) by (cases r) (auto simp: search_lexical_def e split: if_splits)
  then have "cid \<in> cn_id ` set (joined ps st1)" using lexical_hits_scope [OF assms(1,2)] assms(4) by blast
  moreover have "joined ps st1 = joined ps st" using same_tables_bm25(3) [of st en] by (simp add: joined_def same_tables_def e)
  ultimately show ?thesis by simp
qed

lemma same_tables_trans: "same_tables a b \<Longrightarrow> same_tables b c \<Longrightarrow> same_tables a c" by (simp add: same_tables_def)
lemma same_tables_refl: "same_tables a a" by (simp add: same_tables_def)
lemma same_tables_joined: "same_tables a b \<Longrightarrow> joined ps b = joined ps a" by (simp add: same_tables_def joined_def)

lemma ids_in_simps [simp]: "ids_in [] = {}" "ids_in (h # rs) = fst ` set h \<union> ids_in rs" "ids_in (rs @ rs') = ids_in rs \<union> ids_in rs'"
  by (auto simp: ids_in_def)

lemma lexical_rankings_facts:
  assumes "lexical_rankings s n f qs st = (res, st')"
  shows "same_tables st st'"
    and "res = Inr rs \<Longrightarrow> sorts_ok (se_argpartition (sr_sqlite s)) (se_argsort (sr_sqlite s)) \<Longrightarrow> scope_projects f = Some ps
      \<Longrightarrow> ids_in rs \<subseteq> cn_id ` set (joined ps st)"
proof -
  have "same_tables st st' \<and> (sorts_ok (se_argpartition (sr_sqlite s)) (se_argsort (sr_sqlite s)) \<longrightarrow> scope_projects f = Some ps
      \<longrightarrow> (\<forall>rs. res = Inr rs \<longrightarrow> ids_in rs \<subseteq> cn_id ` set (joined ps st)))"
    using assms
  proof (induction qs arbitrary: st res)
    case (Cons q qs)
    obtain r1 st1 where one: "(if sql_word_tokenize q = [] then (Inr [], st) else search_lexical (sr_sqlite s) (sql_word_tokenize q) n f st) = (r1, st1)"
      by fastforce
    have t: "same_tables st st1" using one search_lexical_tables by (auto simp: same_tables_refl split: if_splits)
    show ?case
    proof (cases r1)
      case (Inl x)
      then show ?thesis using Cons.prems t unfolding lexical_rankings.simps Let_def one by auto
    next
      case (Inr hits)
      obtain r2 st2 where two: "lexical_rankings s n f qs st1 = (r2, st2)" by fastforce
      note run = Cons.prems [unfolded lexical_rankings.simps Let_def one prod.case Inr sum.case two]
      have st': "st' = st2" using run by (cases r2) simp_all
      have res: "res = map_sum id ((#) hits) r2" using run by (cases r2) auto
      have mine: "fst ` set hits \<subseteq> cn_id ` set (joined ps st)"
        if "sorts_ok (se_argpartition (sr_sqlite s)) (se_argsort (sr_sqlite s))" "scope_projects f = Some ps"
      proof (cases "sql_word_tokenize q = []")
        case True
        then show ?thesis using one Inr by simp
      next
        case False
        then have "search_lexical (sr_sqlite s) (sql_word_tokenize q) n f st = (Inr hits, st1)" using one Inr by simp
        then show ?thesis using search_lexical_scope [OF that] by fastforce
      qed
      note IH = Cons.IH [OF two [folded st']]
      have "same_tables st st'" using t IH same_tables_trans by blast
      moreover have "ids_in rs \<subseteq> cn_id ` set (joined ps st)"
        if ok: "sorts_ok (se_argpartition (sr_sqlite s)) (se_argsort (sr_sqlite s))" "scope_projects f = Some ps" and got: "res = Inr rs" for rs
      proof -
        obtain rest where r2: "r2 = Inr rest" and rs: "rs = hits # rest" using got res by (cases r2) auto
        have "joined ps st1 = joined ps st" by (rule same_tables_joined [OF t])
        then have "ids_in rest \<subseteq> cn_id ` set (joined ps st)" using IH ok r2 by metis
        then show ?thesis using mine [OF ok] by (simp add: rs)
      qed
      ultimately show ?thesis by blast
    qed
  qed (auto simp: same_tables_refl)
  then show "same_tables st st'"
    "res = Inr rs \<Longrightarrow> sorts_ok (se_argpartition (sr_sqlite s)) (se_argsort (sr_sqlite s)) \<Longrightarrow> scope_projects f = Some ps
      \<Longrightarrow> ids_in rs \<subseteq> cn_id ` set (joined ps st)" by blast+
qed

lemma search_dense_scope:
  assumes "sorts_ok part srt" "search_dense part srt em q k (Some rs) = Inr hits" "(r, v) \<in> set hits"
  shows "int r \<in> set rs \<and> (\<exists>e. live em r = Some e \<and> v = dot e q)"
proof -
  let ?neg = "scored em q (Some rs)"
  obtain n where "r \<in> set (select_top part srt ?neg n)" "?neg ! r \<noteq> PInf" "v = dot (em_npy em ! r) q"
    using assms(2,3) by (auto simp: search_dense_def Let_def split: if_splits)
  moreover from this have "r < length ?neg" using select_top_range [OF assms(1)] by blast
  ultimately show ?thesis by (auto simp: scored_def live_def split: if_splits)
qed

lemma raw_dense_scope:
  assumes "sorts_ok (sr_argpartition s) (sr_argsort s)"
  shows "raw_dense_rankings s em k (Some rs) es = Inr raw \<Longrightarrow> (r, v) \<in> set (concat raw) \<Longrightarrow>
    int r \<in> set rs \<and> (\<exists>e. \<exists>q \<in> set es. live em r = Some e \<and> v = dot e q)"
proof (induction es arbitrary: raw)
  case (Cons q es)
  then obtain hits rest where h: "search_dense (sr_argpartition s) (sr_argsort s) em q k (Some rs) = Inr hits"
      "raw_dense_rankings s em k (Some rs) es = Inr rest" "raw = hits # rest"
    by (cases "raw_dense_rankings s em k (Some rs) es") (auto split: sum.splits)
  consider "(r, v) \<in> set hits" | "(r, v) \<in> set (concat rest)" using Cons.prems(2) h(3) by auto
  then show ?case
  proof cases
    case 1
    show ?thesis using search_dense_scope [OF assms h(1) 1] by auto
  next
    case 2
    show ?thesis using Cons.IH [OF h(2) 2] by auto
  qed
qed simp

lemma rows_of_ids:
  "r \<in> set (get_embedding_rows_by_chunk_ids (map (\<lambda>i. Some (int i)) ids) st) \<Longrightarrow>
     \<exists>c \<in> set (cs_chunks st). cn_id c \<in> set ids \<and> cn_embedding_row c = Some r"
proof -
  assume r: "r \<in> set (get_embedding_rows_by_chunk_ids (map (\<lambda>i. Some (int i)) ids) st)"
  have list: "map nat (filter (\<lambda>i. 0 \<le> i) (concat (map (\<lambda>i. case i of None \<Rightarrow> [] | Some i \<Rightarrow> [i]) (map (\<lambda>i. Some (int i)) ids)))) = ids"
    by (induction ids) auto
  obtain b c where "b \<in> set (ibatched sql_in_batch ids)" "c \<in> set (cs_chunks st)" "cn_id c \<in> set b" "cn_embedding_row c = Some r"
    using r unfolding get_embedding_rows_by_chunk_ids_def list Let_def by (auto split: if_splits option.splits)
  moreover have "set b \<subseteq> set ids" if "b \<in> set (ibatched sql_in_batch ids)" for b
    using that concat_ibatched [of sql_in_batch ids] by (metis UN_upper set_concat sql_in_batch_def zero_less_numeral)
  ultimately show ?thesis by blast
qed

lemma chunk_of_row_fold:
  "dict_get (fold (\<lambda>c d. case cn_embedding_row c of None \<Rightarrow> d | Some r \<Rightarrow> if r \<in> B then dict_set r (cn_id c) d else d) cs d) r = Some cid
     \<Longrightarrow> dict_get d r = Some cid \<or> (\<exists>c \<in> set cs. cn_embedding_row c = Some r \<and> cn_id c = cid)"
  "r \<in> B \<Longrightarrow> c \<in> set cs \<Longrightarrow> cn_embedding_row c = Some r \<Longrightarrow>
     dict_get (fold (\<lambda>c d. case cn_embedding_row c of None \<Rightarrow> d | Some r \<Rightarrow> if r \<in> B then dict_set r (cn_id c) d else d) cs d) r \<noteq> None"
  "dict_get d r \<noteq> None \<Longrightarrow>
     dict_get (fold (\<lambda>c d. case cn_embedding_row c of None \<Rightarrow> d | Some r \<Rightarrow> if r \<in> B then dict_set r (cn_id c) d else d) cs d) r \<noteq> None"
proof (induction cs arbitrary: d)
  case (Cons x cs)
  {
    case 1
    then show ?case using Cons.IH(1) by (cases "cn_embedding_row x") (force simp: update_conv' split: if_splits)+
  next
    case 2
    then show ?case using Cons.IH(2,3) by (cases "c = x") (auto simp: update_conv' split: option.split)
  next
    case 3
    then show ?case using Cons.IH(3) by (simp add: update_conv' split: option.split)
  }
qed auto

lemma chunk_of_row:
  "dict_get (get_chunk_ids_by_embedding_rows (map (\<lambda>r. Some (int r)) rows) st) r = Some cid \<Longrightarrow>
     \<exists>c \<in> set (cs_chunks st). cn_embedding_row c = Some r \<and> cn_id c = cid"
  "r \<in> set rows \<Longrightarrow> c \<in> set (cs_chunks st) \<Longrightarrow> cn_embedding_row c = Some r \<Longrightarrow>
     dict_get (get_chunk_ids_by_embedding_rows (map (\<lambda>r. Some (int r)) rows) st) r \<noteq> None"
proof -
  define row_of where "row_of = (\<lambda>B d. fold (\<lambda>c d. case cn_embedding_row c of None \<Rightarrow> d | Some r \<Rightarrow> if r \<in> B then dict_set r (cn_id c) d else d) (rows_by_id st) d)"
  have list: "map nat (filter (\<lambda>i. 0 \<le> i) (concat (map (\<lambda>i. case i of None \<Rightarrow> [] | Some i \<Rightarrow> [i]) (map (\<lambda>i. Some (int i)) rows)))) = rows"
    by (induction rows) auto
  have eq: "get_chunk_ids_by_embedding_rows (map (\<lambda>r. Some (int r)) rows) st = fold (\<lambda>batch. row_of (set batch)) (ibatched sql_in_batch rows) []"
    unfolding get_chunk_ids_by_embedding_rows_def list Let_def row_of_def ..
  have cat: "concat (ibatched sql_in_batch rows) = rows" by (rule concat_ibatched) (simp add: sql_in_batch_def)
  have "dict_get (fold (\<lambda>batch. row_of (set batch)) bs d) r = Some cid \<Longrightarrow>
      dict_get d r = Some cid \<or> (\<exists>c \<in> set (cs_chunks st). cn_embedding_row c = Some r \<and> cn_id c = cid)" for bs d
  proof (induction bs arbitrary: d)
    case (Cons b bs)
    then show ?case using chunk_of_row_fold(1) [of "set b" "rows_by_id st" d r cid] by (auto simp: row_of_def)
  qed simp
  then show "dict_get (get_chunk_ids_by_embedding_rows (map (\<lambda>r. Some (int r)) rows) st) r = Some cid \<Longrightarrow>
     \<exists>c \<in> set (cs_chunks st). cn_embedding_row c = Some r \<and> cn_id c = cid" unfolding eq by fastforce
  have keep: "dict_get d r \<noteq> None \<Longrightarrow> dict_get (fold (\<lambda>batch. row_of (set batch)) bs d) r \<noteq> None" for bs d
  proof (induction bs arbitrary: d)
    case (Cons b bs)
    have "dict_get (row_of (set b) d) r \<noteq> None" unfolding row_of_def by (rule chunk_of_row_fold(3) [OF Cons.prems])
    then show ?case using Cons.IH by simp
  qed simp
  have "r \<in> set (concat bs) \<Longrightarrow> dict_get (fold (\<lambda>batch. row_of (set batch)) bs d) r \<noteq> None"
    if c: "c \<in> set (cs_chunks st)" "cn_embedding_row c = Some r" for bs d
  proof (induction bs arbitrary: d)
    case (Cons b bs)
    show ?case
    proof (cases "r \<in> set b")
      case True
      have "dict_get (row_of (set b) d) r \<noteq> None" unfolding row_of_def by (rule chunk_of_row_fold(2) [OF True]) (use c in simp_all)
      then show ?thesis using keep by simp
    next
      case False
      then show ?thesis using Cons by simp
    qed
  qed simp
  then show "r \<in> set rows \<Longrightarrow> c \<in> set (cs_chunks st) \<Longrightarrow> cn_embedding_row c = Some r \<Longrightarrow>
     dict_get (get_chunk_ids_by_embedding_rows (map (\<lambda>r. Some (int r)) rows) st) r \<noteq> None" unfolding eq using cat by metis
qed

definition rows_in_one_file :: "chunk_store \<Rightarrow> bool" where
  \<comment> \<open>chunks that share a row are chunks of one file\<close>
  "rows_in_one_file st \<longleftrightarrow> (\<forall>c \<in> set (cs_chunks st). \<forall>d \<in> set (cs_chunks st).
     cn_embedding_row c = cn_embedding_row d \<longrightarrow> cn_file_id c = cn_file_id d)"

lemma joined_iff:
  "c \<in> set (joined ps st) \<longleftrightarrow> c \<in> set (cs_chunks st) \<and> (\<exists>f \<in> set (cs_files st). fl_id f = cn_file_id c \<and> fl_project f \<in> set ps)"
  by (auto simp: joined_def list_ex_iff)

lemma scope_projects_filter:
  "scope_projects (scope_to_filter sc) = (if sd_fanout_projects sc = [] then None else Some (sd_fanout_projects sc))"
  by (cases "sd_fanout_projects sc" rule: remdups_adj.cases) (simp_all add: scope_to_filter_def scope_projects_def)

lemma scope_filter_some: "sd_fanout_projects sc \<noteq> [] \<Longrightarrow> \<exists>f. scope_to_filter sc = Some f"
  by (cases "sd_fanout_projects sc" rule: remdups_adj.cases) (simp_all add: scope_to_filter_def)

lemma dense_entry:
  assumes "sorts_ok (sr_argpartition s) (sr_argsort s)" "rows_in_one_file st" "db_ok st" "sd_fanout_projects sc \<noteq> []"
    "dense_rankings_of s em k sc es st = Inr rs" "(cid, v) \<in> set (concat rs)"
  shows "\<exists>c r e. c \<in> set (joined (sd_fanout_projects sc) st) \<and> cn_id c = cid \<and> cn_embedding_row c = Some r
    \<and> live em r = Some e \<and> (\<exists>q \<in> set es. v = dot e q)"
proof -
  let ?ps = "sd_fanout_projects sc"
  obtain f where f: "scope_to_filter sc = Some f" using scope_filter_some [OF assms(4)] by blast
  have pf: "scope_projects (Some f) = Some ?ps" using scope_projects_filter [of sc] assms(4) f by simp
  define ids where "ids = list_chunk_ids_in_scope (Some f) st"
  have ids: "set ids = cn_id ` set (joined ?ps st)" by (simp add: ids_def list_chunk_ids_in_scope_def pf)
  obtain rows where rows: "scope_to_embedding_rows sc st = Some (map int rows)"
      "\<And>r. r \<in> set rows \<Longrightarrow> \<exists>c \<in> set (joined ?ps st). cn_embedding_row c = Some r"
  proof (cases "ids = []")
    case True
    then show ?thesis using that [of "[]"] f by (simp add: scope_to_embedding_rows_def ids_def Let_def)
  next
    case False
    have "\<exists>c \<in> set (joined ?ps st). cn_embedding_row c = Some r"
      if r: "r \<in> set (get_embedding_rows_by_chunk_ids (map (\<lambda>i. Some (int i)) ids) st)" for r
    proof -
      obtain c where c: "c \<in> set (cs_chunks st)" "cn_id c \<in> set ids" "cn_embedding_row c = Some r" using rows_of_ids [OF r] by blast
      obtain d where d: "d \<in> set (joined ?ps st)" "cn_id c = cn_id d" using c(2) ids by auto
      then have "d \<in> set (cs_chunks st)" by (simp add: joined_def)
      then have "c = d" using c(1) d(2) assms(3) by (auto simp: db_ok_def distinct_map inj_on_def)
      then show ?thesis using c(3) d(1) by blast
    qed
    then show ?thesis using that False f by (simp add: scope_to_embedding_rows_def ids_def Let_def)
  qed
  obtain raw where raw: "raw_dense_rankings s em k (Some (map int rows)) es = Inr raw" "rs = rows_to_chunks st raw"
    using assms(5) rows(1) by (cases "raw_dense_rankings s em k (Some (map int rows)) es") (simp_all add: dense_rankings_of_def)
  define look where "look = get_chunk_ids_by_embedding_rows (map (\<lambda>r. Some (int r)) (remdups (map fst (concat raw)))) st"
  obtain h where h: "h \<in> set rs" "(cid, v) \<in> set h" using assms(6) by auto
  then obtain hits r where hits: "hits \<in> set raw" "(r, v) \<in> set hits"
      "cid = (case dict_get (if remdups (map fst (concat raw)) = [] then [] else look) r of None \<Rightarrow> r | Some c \<Rightarrow> c)"
    unfolding raw(2) rows_to_chunks_def Let_def look_def [symmetric] by fastforce
  have rv: "(r, v) \<in> set (concat raw)" using hits(1,2) by auto
  then have r: "r \<in> set (map fst (concat raw))" by force
  then have cid: "cid = (case dict_get look r of None \<Rightarrow> r | Some c \<Rightarrow> c)" using hits(3) by (auto split: if_splits)
  have in_rows: "r \<in> set rows" and dense: "\<exists>e. \<exists>q \<in> set es. live em r = Some e \<and> v = dot e q"
    using raw_dense_scope [OF assms(1) raw(1) rv] by auto
  obtain c where c: "c \<in> set (joined ?ps st)" "cn_embedding_row c = Some r" using rows(2) [OF in_rows] by blast
  then have cc: "c \<in> set (cs_chunks st)" by (simp add: joined_def)
  have "dict_get look r \<noteq> None" unfolding look_def by (rule chunk_of_row(2) [OF _ cc c(2)]) (use r in simp)
  then have "dict_get look r = Some cid" using cid by (auto split: option.splits)
  then obtain d where d: "d \<in> set (cs_chunks st)" "cn_embedding_row d = Some r" "cn_id d = cid"
    unfolding look_def using chunk_of_row(1) by blast
  have "cn_file_id d = cn_file_id c" using assms(2) d(1,2) cc c(2) unfolding rows_in_one_file_def by metis
  then have "d \<in> set (joined ?ps st)" using c(1) d(1) by (simp add: joined_iff)
  then show ?thesis using d dense by blast
qed

lemma dense_rankings_scope:
  assumes "sorts_ok (sr_argpartition s) (sr_argsort s)" "rows_in_one_file st" "db_ok st" "sd_fanout_projects sc \<noteq> []"
    "dense_rankings_of s em k sc es st = Inr rs"
  shows "ids_in rs \<subseteq> cn_id ` set (joined (sd_fanout_projects sc) st)"
proof
  fix cid assume "cid \<in> ids_in rs"
  then obtain v where "(cid, v) \<in> set (concat rs)" unfolding ids_in_def by (metis imageE prod.collapse)
  then show "cid \<in> cn_id ` set (joined (sd_fanout_projects sc) st)" using dense_entry [OF assms] by fast
qed

lemma best_cosines_entry: "dict_get (best_cosines rs) cid = Some v \<Longrightarrow> (cid, v) \<in> set (concat rs)"
proof -
  have "dict_get (fold (\<lambda>(cid, v) d. if v > (case dict_get d cid of None \<Rightarrow> - 1 | Some w \<Rightarrow> w) then dict_set cid v d else d) xs d) cid = Some v
      \<Longrightarrow> dict_get d cid = Some v \<or> (cid, v) \<in> set xs" for xs :: hits and d
  proof (induction xs arbitrary: d)
    case (Cons x xs)
    obtain i w where x: "x = (i, w)" by (cases x)
    show ?case using Cons.IH [OF Cons.prems [simplified x fold_simps comp_apply prod.case]]
      by (auto simp: x update_conv' split: if_splits option.splits)
  qed simp
  from this [of "concat rs" "[]"] show "dict_get (best_cosines rs) cid = Some v \<Longrightarrow> (cid, v) \<in> set (concat rs)"
    by (simp add: best_cosines_def)
qed

section \<open>One search, taken apart\<close>

lemma find_unique_id: "distinct (map g xs) \<Longrightarrow> x \<in> set xs \<Longrightarrow> find (\<lambda>y. g y = g x) xs = Some x"
  by (induction xs) (auto simp: image_iff)

lemma rows_in_one_file_tables: "same_tables a b \<Longrightarrow> rows_in_one_file a \<Longrightarrow> rows_in_one_file b"
  by (simp only: rows_in_one_file_def same_tables_def)

lemma rank_all_facts:
  assumes "rank_all s em ar queries sc bw dw embs st = (res, st')"
  shows "same_tables st st'"
    and "res = Inr (fused, cosines) \<Longrightarrow> distinct (map fst fused)"
    and "res = Inr (fused, cosines) \<Longrightarrow> sorts_ok (sr_argpartition s) (sr_argsort s) \<Longrightarrow> sorts_ok (se_argpartition (sr_sqlite s)) (se_argsort (sr_sqlite s))
      \<Longrightarrow> rows_in_one_file st \<Longrightarrow> db_ok st \<Longrightarrow> sd_fanout_projects sc \<noteq> [] \<Longrightarrow> fst ` set fused \<subseteq> cn_id ` set (joined (sd_fanout_projects sc) st)"
proof -
  define top_n where "top_n = sc_default_top_k_for_fusion (sr_config s)"
  obtain r st1 where bm: "(if 0 < bw then lexical_rankings s top_n (scope_to_filter sc) queries st else (Inr [], st)) = (r, st1)" by fastforce
  have st': "st' = st1" using assms [unfolded rank_all_def Let_def top_n_def [symmetric] bm prod.case] by (auto split: sum.splits)
  show t: "same_tables st st'"
    using bm lexical_rankings_facts(1) unfolding st' by (cases "0 < bw") (auto simp: same_tables_refl)
  assume res: "res = Inr (fused, cosines)"
  obtain bm dense all where d: "(if 0 < bw then lexical_rankings s top_n (scope_to_filter sc) queries st else (Inr [], st)) = (Inr bm, st')"
      "(if 0 < dw then dense_rankings_of s em top_n sc embs st' else Inr []) = Inr dense"
      "rrf_fuse (sc_rrf_k (sr_config s)) bm dense bw dw = Inr all"
      "fused = py_take (fused_cap (sa_max_results ar) (sa_suppress_ids ar) top_n) all"
    using rank_all_Inr [OF assms [unfolded res]] unfolding top_n_def by metis
  have "1 \<le> fused_cap (sa_max_results ar) (sa_suppress_ids ar) top_n" by (simp add: fused_cap_def Let_def)
  from rrf_fuse_best [OF d(3) this] obtain picks where
    p: "fused = map (\<lambda>cid. (cid, rrf_total (sc_rrf_k (sr_config s)) bw bm cid + rrf_total (sc_rrf_k (sr_config s)) dw dense cid)) picks"
      "distinct picks" "set picks \<subseteq> ids_in (bm @ dense)" unfolding d(4) by blast
  from p(1,2) show "distinct (map fst fused)" by (simp add: comp_def)
  assume a: "sorts_ok (sr_argpartition s) (sr_argsort s)" "sorts_ok (se_argpartition (sr_sqlite s)) (se_argsort (sr_sqlite s))"
    "rows_in_one_file st" "db_ok st" "sd_fanout_projects sc \<noteq> []"
  have ps: "scope_projects (scope_to_filter sc) = Some (sd_fanout_projects sc)" using a(5) scope_projects_filter by simp
  have "ids_in bm \<subseteq> cn_id ` set (joined (sd_fanout_projects sc) st)"
  proof (cases "0 < bw")
    case True
    then have "lexical_rankings s top_n (scope_to_filter sc) queries st = (Inr bm, st')" using d(1) by simp
    then show ?thesis by (rule lexical_rankings_facts(2) [OF _ refl a(2) ps])
  next
    case False
    then show ?thesis using d(1) by simp
  qed
  moreover have "ids_in dense \<subseteq> cn_id ` set (joined (sd_fanout_projects sc) st)"
  proof (cases "0 < dw")
    case True
    have "rows_in_one_file st'" by (rule rows_in_one_file_tables [OF t a(3)])
    moreover have "db_ok st'" using a(4) same_tables_ok [OF t] by simp
    moreover have "dense_rankings_of s em top_n sc embs st' = Inr dense" using d(2) True by simp
    ultimately show ?thesis unfolding same_tables_joined [OF t, symmetric] by (rule dense_rankings_scope [OF a(1) _ _ a(5)])
  next
    case False
    then show ?thesis using d(2) by simp
  qed
  moreover have "fst ` set fused = set picks" by (simp add: p(1) image_comp comp_def)
  ultimately show "fst ` set fused \<subseteq> cn_id ` set (joined (sd_fanout_projects sc) st)" using p(3) by (simp only: ids_in_simps) blast
qed

lemma rank_all_cosines:
  assumes "rank_all s em ar queries sc bw dw embs st = (Inr (fused, cosines), st')" "dict_get cosines cid = Some v"
    and "sorts_ok (sr_argpartition s) (sr_argsort s)" "rows_in_one_file st" "db_ok st" "sd_fanout_projects sc \<noteq> []"
  shows "\<exists>c row e. c \<in> set (cs_chunks st) \<and> cn_id c = cid \<and> cn_embedding_row c = Some row \<and> live em row = Some e \<and> (\<exists>q \<in> set embs. v = dot e q)"
proof -
  define top_n where "top_n = sc_default_top_k_for_fusion (sr_config s)"
  have same: "same_tables st st'" by (rule rank_all_facts(1) [OF assms(1)])
  obtain dense where d: "(if 0 < dw then dense_rankings_of s em top_n sc embs st' else Inr []) = Inr dense" "cosines = best_cosines dense"
    using rank_all_Inr [OF assms(1)] unfolding top_n_def by metis
  have mem: "(cid, v) \<in> set (concat dense)" using assms(2) best_cosines_entry by (simp only: d(2))
  then have dense: "dense_rankings_of s em top_n sc embs st' = Inr dense" using d(1) by (cases "0 < dw") auto
  have "db_ok st'" using assms(5) same_tables_ok [OF same] by simp
  from dense_entry [OF assms(3) rows_in_one_file_tables [OF same assms(4)] this assms(6) dense mem] show ?thesis
    using same by (simp only: same_tables_def joined_def set_filter mem_Collect_eq) blast
qed

lemma dict_of_chunks:
  "dict_get (fold (\<lambda>c. dict_set (cn_id c) c) cs d) i = Some c \<Longrightarrow> dict_get d i = Some c \<or> c \<in> set cs \<and> cn_id c = i"
  "i \<in> cn_id ` set cs \<or> dict_get d i \<noteq> None \<Longrightarrow> dict_get (fold (\<lambda>c. dict_set (cn_id c) c) cs d) i \<noteq> None"
  by (induction cs arbitrary: d) (force simp: update_conv' split: if_splits)+

lemma ranked_chunks_eq:
  assumes "db_ok st"
  shows "ranked_chunks_of st fused
    = concat (map (\<lambda>(cid, score). case find (\<lambda>c. cn_id c = cid) (cs_chunks st) of None \<Rightarrow> [] | Some c \<Rightarrow> [(c, score)]) fused)"
proof -
  define got where "got = get_chunks_by_id (map fst fused) st"
  have got: "got = concat (map (\<lambda>i. case find (\<lambda>c. cn_id c = i) (cs_chunks st) of None \<Rightarrow> [] | Some c \<Rightarrow> [c]) (map fst fused))"
    unfolding got_def by (rule get_chunks_by_id_eq [OF assms])
  have inj: "c = d" if "c \<in> set (cs_chunks st)" "d \<in> set (cs_chunks st)" "cn_id c = cn_id d" for c d
    using assms that by (auto simp: db_ok_def distinct_map inj_on_def)
  have mem: "c \<in> set (cs_chunks st)" if "c \<in> set got" for c using that by (auto simp: got split: option.splits dest!: sym [THEN find_Some])
  have look: "dict_get (fold (\<lambda>c. dict_set (cn_id c) c) got []) i = find (\<lambda>c. cn_id c = i) (cs_chunks st)" if i: "i \<in> set (map fst fused)" for i
  proof (cases "find (\<lambda>c. cn_id c = i) (cs_chunks st)")
    case None
    have "dict_get (fold (\<lambda>c. dict_set (cn_id c) c) got []) i = None"
    proof (rule ccontr)
      assume "dict_get (fold (\<lambda>c. dict_set (cn_id c) c) got []) i \<noteq> None"
      then obtain c where "dict_get (fold (\<lambda>c. dict_set (cn_id c) c) got []) i = Some c" by blast
      from dict_of_chunks(1) [OF this] have "c \<in> set got" "cn_id c = i" by simp_all
      then show False using find_None [OF None mem] by blast
    qed
    then show ?thesis using None by simp
  next
    case (Some c)
    have c: "c \<in> set (cs_chunks st)" "cn_id c = i" using Some by (auto simp: find_Some_iff)
    have "c \<in> set got" using Some i by (auto simp: got intro!: bexI)
    then have "dict_get (fold (\<lambda>c. dict_set (cn_id c) c) got []) i \<noteq> None" using dict_of_chunks(2) [of i got "[]"] c(2) by blast
    then obtain d where d: "dict_get (fold (\<lambda>c. dict_set (cn_id c) c) got []) i = Some d" by blast
    then have "d \<in> set got" "cn_id d = i" using dict_of_chunks(1) [of got "[]" i d] by auto
    then have "d = c" using mem inj c by simp
    then show ?thesis using d Some by simp
  qed
  have look': "dict_get (fold (\<lambda>c. dict_set (cn_id c) c) got []) i = find (\<lambda>c. cn_id c = i) (cs_chunks st)" if "(i, v) \<in> set fused" for i v
    by (rule look) (use that in force)
  show ?thesis unfolding ranked_chunks_of_def got_def [symmetric] Let_def
    by (rule arg_cong [of _ _ concat], rule map_cong [OF refl]) (auto simp: look' split: prod.split)
qed

lemma ranked_chunks_facts:
  assumes "db_ok st" "distinct (map fst fused)"
  shows "(c, v) \<in> set (ranked_chunks_of st fused) \<Longrightarrow> c \<in> set (cs_chunks st) \<and> (cn_id c, v) \<in> set fused"
    and "distinct (map (cn_id \<circ> fst) (ranked_chunks_of st fused))"
proof -
  show "(c, v) \<in> set (ranked_chunks_of st fused) \<Longrightarrow> c \<in> set (cs_chunks st) \<and> (cn_id c, v) \<in> set fused"
    unfolding ranked_chunks_eq [OF assms(1)] by (auto split: option.splits dest!: sym [THEN find_Some])
  have "map (cn_id \<circ> fst) (ranked_chunks_of st fused) = filter (\<lambda>i. find (\<lambda>c. cn_id c = i) (cs_chunks st) \<noteq> None) (map fst fused)"
    unfolding ranked_chunks_eq [OF assms(1)]
  proof (induction fused)
    case (Cons x fused)
    obtain cid v where x: "x = (cid, v)" by (cases x)
    show ?case using Cons by (cases "find (\<lambda>c. cn_id c = cid) (cs_chunks st)") (auto simp: x dest: find_Some)
  qed simp
  then show "distinct (map (cn_id \<circ> fst) (ranked_chunks_of st fused))" using assms(2) by simp
qed

lemma symbol_rerank_mset: "mset (symbol_rerank s query sc st xs) = mset xs"
  by (simp add: symbol_rerank_def Let_def split: option.split)

lemma search_parts:
  assumes "search s em query ar st = (Inr r, st')"
  obtains queries bw dw embs fused cosines where
    "an_scope_decision r = decide_scope query (sa_cwd ar) (sa_project ar) (sa_sticky ar) (map pj_name (list_projects st)) []"
    "rank_all s em ar queries (an_scope_decision r) bw dw embs st = (Inr (fused, cosines), st')"
    "an_no_relevant_results r \<longleftrightarrow> 0 < resolve_floor (sr_config s) (sa_relevance_floor ar) (an_scope_decision r) \<and> 0 < dw
       \<and> (fused = [] \<or> cosine_at cosines fused 0 < resolve_floor (sr_config s) (sa_relevance_floor ar) (an_scope_decision r))"
    "if an_no_relevant_results r then an_chunks r = [] else fetch_chunks s ar query (an_scope_decision r) fused cosines st' = Inr (an_chunks r)"
    "an_top1_dense_cosine r = cosine_at cosines fused 0"
    "an_retrieval_quality r = retrieval_quality (an_top1_dense_cosine r) (an_confidence_gap r) (an_no_relevant_results r) (length (an_chunks r))"
    "an_query_type r = classify_query_type query" "an_query_shape r = shape_value (detect_query_shape query)"
    "0 \<le> an_confidence_gap r"
    "embed_queries_with_prior s (query # sa_paraphrases ar) (filter (\<lambda>t. \<not> py_blank t) (sa_prior_context ar)) (sa_prior_context_weight ar) = Inr embs"
proof -
  obtain bw dw rationale hint shape where pol: "resolve_policy s query (sa_auto_policy ar) st = (bw, dw, rationale, hint, shape)"
    by (metis prod_cases5)
  have shape: "shape = shape_value (detect_query_shape query)" using pol by (auto simp: resolve_policy_def Let_def split: if_splits)
  define sc where "sc = decide_scope query (sa_cwd ar) (sa_project ar) (sa_sticky ar) (map pj_name (list_projects st)) []"
  define q where "q = sr_quiescence s (sd_primary_project sc) (case sa_wait_ms ar of Some t \<Rightarrow> t | None \<Rightarrow> sc_default_wait_for_quiescence_ms (sr_config s))"
  define fl where "fl = resolve_floor (sr_config s) (sa_relevance_floor ar) sc"
  obtain pending through where q': "q = (pending, through)" by (cases q)
  note def = assms [unfolded search_def Let_def pol prod.case sc_def [symmetric] q_def [symmetric] q' fl_def [symmetric]]
  obtain embs where embs: "embed_queries_with_prior s (query # sa_paraphrases ar) (filter (\<lambda>t. \<not> py_blank t) (sa_prior_context ar)) (sa_prior_context_weight ar) = Inr embs"
    using def by (auto split: sum.splits)
  obtain fused cosines where rank: "rank_all s em ar (query # sa_paraphrases ar) sc bw dw embs st = (Inr (fused, cosines), st')"
    using def unfolding embs sum.case by (auto split: sum.splits prod.splits)
  define no where "no = (0 < fl \<and> 0 < dw \<and> (fused = [] \<or> cosine_at cosines fused 0 < fl))"
  obtain kept where kept: "(if no then Inr [] else fetch_chunks s ar query sc fused cosines st') = Inr kept"
    using def unfolding embs sum.case rank prod.case no_def [symmetric] by (auto split: sum.splits)
  note r = def [unfolded embs sum.case rank prod.case no_def [symmetric] kept]
  show thesis
    by (rule that [of "query # sa_paraphrases ar" bw dw embs fused cosines])
      (use r rank kept shape embs in \<open>auto simp: sc_def fl_def no_def split: if_splits\<close>)
qed

lemma fanout_empty: "sd_fanout_projects (decide_scope query cwd project sticky indexed roots) = [] \<Longrightarrow> indexed = []"
  by (auto simp: decide_scope_def split: option.splits list.splits)

lemma search_sound:
  assumes run: "search s em query ar st = (Inr r, st')"
    and laws: "sorts_ok (sr_argpartition s) (sr_argsort s)" "sorts_ok (se_argpartition (sr_sqlite s)) (se_argsort (sr_sqlite s))"
    and ok: "rows_in_one_file st" "db_ok st"
  shows "same_tables st st'"
    and "k \<in> set (an_chunks r) \<Longrightarrow> \<exists>c \<in> set (cs_chunks st). \<exists>f \<in> set (cs_files st).
      fl_id f = cn_file_id c \<and> fl_project f \<in> set (sd_fanout_projects (an_scope_decision r))
      \<and> sk_chunk_id k = cn_id c \<and> sk_text k = cn_text c
      \<and> sk_citation k = \<lparr>ct_project = fl_project f, ct_file_path = fl_project f @ ''/'' @ fl_rel_path f,
          ct_start_line = cn_start_line c, ct_end_line = cn_end_line c\<rparr>
      \<and> (case sa_suppress_ids ar of None \<Rightarrow> True | Some is \<Rightarrow> int (cn_id c) \<notin> set is)"
    and "distinct (map sk_chunk_id (an_chunks r))"
    and "sa_max_results ar = Some m \<Longrightarrow> int (length (an_chunks r)) \<le> max 1 m"
    and "length (an_chunks r) \<le> 1 \<or> sum_list (map sk_token_count (an_chunks r)) \<le> sa_max_tokens ar"
proof -
  obtain queries bw dw embs fused cosines where
    sc: "an_scope_decision r = decide_scope query (sa_cwd ar) (sa_project ar) (sa_sticky ar) (map pj_name (list_projects st)) []" and
    rank: "rank_all s em ar queries (an_scope_decision r) bw dw embs st = (Inr (fused, cosines), st')" and
    out: "if an_no_relevant_results r then an_chunks r = [] else fetch_chunks s ar query (an_scope_decision r) fused cosines st' = Inr (an_chunks r)"
    using search_parts [OF run] by metis
  let ?sc = "an_scope_decision r"
  show t: "same_tables st st'" by (rule rank_all_facts(1) [OF rank])
  have ok': "db_ok st'" using same_tables_ok [OF t] ok(2) by simp
  note dist = rank_all_facts(2) [OF rank refl]
  define te where "te = take_env_of s ar cosines st'"
  define ranked where "ranked = symbol_rerank s query ?sc st' (ranked_chunks_of st' fused)"
  define el where "el = eligible te [] ranked"
  obtain n where n: "an_chunks r = map (answer_of te) (take n el)" "n \<le> 1 \<or> total_tokens te (take n el) \<le> sa_max_tokens ar \<and> \<not> full (sa_max_results ar) (n - 1)"
  proof (cases "an_no_relevant_results r")
    case True
    then show ?thesis using that [of 0] out by simp
  next
    case False
    then show ?thesis using that fetch_greedy [of s ar query ?sc fused cosines st' "an_chunks r"] out
      unfolding el_def ranked_def te_def by auto
  qed
  have mem: "c \<in> set (cs_chunks st) \<and> cn_id c \<in> fst ` set fused \<and> int (cn_id c) \<notin> set (tk_suppress te)" if "(c, v) \<in> set el" for c v
  proof -
    have "(c, v) \<in> set ranked" "int (cn_id c) \<notin> set (tk_suppress te)" using eligible_mem that by (fastforce simp: el_def)+
    moreover from this have "(c, v) \<in> set (ranked_chunks_of st' fused)" using symbol_rerank_mset [of s query ?sc st'] by (metis ranked_def set_mset_mset)
    ultimately show ?thesis using ranked_chunks_facts(1) [OF ok' dist] t by (force simp: same_tables_def)
  qed
  have "mset (map (cn_id \<circ> fst) ranked) = mset (map (cn_id \<circ> fst) (ranked_chunks_of st' fused))" by (simp add: ranked_def symbol_rerank_mset)
  then have "distinct (map (cn_id \<circ> fst) ranked)" using ranked_chunks_facts(2) [OF ok' dist] by (metis mset_eq_imp_distinct_iff)
  moreover have "subseq (map (cn_id \<circ> fst) (take n el)) (map (cn_id \<circ> fst) ranked)"
    unfolding el_def using eligible_subseq [of te "[]" ranked] take_is_prefix [of n "eligible te [] ranked"]
    by (intro subseq_map) (metis prefix_imp_subseq subseq_order.order_trans)
  ultimately have "distinct (map (cn_id \<circ> fst) (take n el))" by (auto simp: subseq_conv_nths intro: distinct_nthsI)
  moreover have "map sk_chunk_id (an_chunks r) = map (cn_id \<circ> fst) (take n el)"
    by (simp add: n(1) answer_of_def search_chunk_of_def split_beta)
  ultimately show "distinct (map sk_chunk_id (an_chunks r))" by simp
  have len: "length (an_chunks r) \<le> n" by (simp add: n(1))
  show "sa_max_results ar = Some m \<Longrightarrow> int (length (an_chunks r)) \<le> max 1 m"
    using n(2) len by (auto simp: full_def)
  have "map sk_token_count (an_chunks r) = map (tokens_of te \<circ> fst) (take n el)"
    by (simp add: n(1) answer_of_def search_chunk_of_def split_beta)
  then show "length (an_chunks r) \<le> 1 \<or> sum_list (map sk_token_count (an_chunks r)) \<le> sa_max_tokens ar"
    using n(2) len by (auto simp: total_tokens_def)
  assume "k \<in> set (an_chunks r)"
  then obtain c v where c: "(c, v) \<in> set el" "k = answer_of te (c, v)" unfolding n(1) by (auto dest: in_set_takeD)
  note m = mem [OF c(1)]
  obtain f where f: "f \<in> set (cs_files st)" "fl_id f = cn_file_id c" using m ok(2) by (auto simp: db_ok_def)
  have "find (\<lambda>g. fl_id g = fl_id f) (cs_files st) = Some f"
    using f(1) ok(2) by (intro find_unique_id) (auto simp: db_ok_def)
  then have get: "get_file_by_id (cn_file_id c) st' = Some f" using t f(2) by (simp add: get_file_by_id_def same_tables_def)
  have "fl_project f \<in> set (sd_fanout_projects ?sc)"
  proof (cases "sd_fanout_projects ?sc = []")
    case True
    then have "list_projects st = []" using fanout_empty sc by fastforce
    then have "cs_projects st = []" by (metis list_projects_def set_empty set_sort)
    then show ?thesis using f(1) ok(2) by (auto simp: db_ok_def)
  next
    case False
    have "cn_id c \<in> cn_id ` set (joined (sd_fanout_projects ?sc) st)"
      using rank_all_facts(3) [OF rank refl laws ok False] m by blast
    then obtain d where d: "d \<in> set (joined (sd_fanout_projects ?sc) st)" "cn_id c = cn_id d" by blast
    then have "d \<in> set (cs_chunks st)" by (simp add: joined_def)
    then have "c = d" using m d(2) ok(2) by (auto simp: db_ok_def distinct_map inj_on_def)
    then obtain g where "g \<in> set (cs_files st)" "fl_id g = cn_file_id c" "fl_project g \<in> set (sd_fanout_projects ?sc)" using d(1) by (auto simp: joined_iff)
    moreover from this have "g = f" using f ok(2) by (auto simp: db_ok_def distinct_map inj_on_def)
    ultimately show ?thesis by simp
  qed
  then show "\<exists>c \<in> set (cs_chunks st). \<exists>f \<in> set (cs_files st).
      fl_id f = cn_file_id c \<and> fl_project f \<in> set (sd_fanout_projects (an_scope_decision r))
      \<and> sk_chunk_id k = cn_id c \<and> sk_text k = cn_text c
      \<and> sk_citation k = \<lparr>ct_project = fl_project f, ct_file_path = fl_project f @ ''/'' @ fl_rel_path f,
          ct_start_line = cn_start_line c, ct_end_line = cn_end_line c\<rparr>
      \<and> (case sa_suppress_ids ar of None \<Rightarrow> True | Some is \<Rightarrow> int (cn_id c) \<notin> set is)"
    using m f get by (intro bexI [of _ c] bexI [of _ f])
      (simp_all add: c(2) answer_of_def search_chunk_of_def build_citation_def te_def take_env_of_def split: option.split)
qed

lemma search_cosine:
  assumes run: "search s em query ar st = (Inr r, st')"
    and laws: "sorts_ok (sr_argpartition s) (sr_argsort s)" "sorts_ok (se_argpartition (sr_sqlite s)) (se_argsort (sr_sqlite s))"
    and ok: "rows_in_one_file st" "db_ok st"
    and embs: "embed_queries_with_prior s (query # sa_paraphrases ar) (filter (\<lambda>t. \<not> py_blank t) (sa_prior_context ar)) (sa_prior_context_weight ar) = Inr embs"
    and k: "k \<in> set (an_chunks r)" "sk_dense_cosine k = Some v"
  shows "\<exists>c row e. c \<in> set (cs_chunks st) \<and> cn_id c = sk_chunk_id k \<and> cn_embedding_row c = Some row \<and> live em row = Some e
    \<and> (\<exists>q \<in> set embs. v = dot e q)"
proof -
  obtain queries bw dw fused cosines where
    rank: "rank_all s em ar queries (an_scope_decision r) bw dw embs st = (Inr (fused, cosines), st')" and
    out: "if an_no_relevant_results r then an_chunks r = [] else fetch_chunks s ar query (an_scope_decision r) fused cosines st' = Inr (an_chunks r)"
    using search_parts [OF run] embs by (metis Inr_inject)
  have "fetch_chunks s ar query (an_scope_decision r) fused cosines st' = Inr (an_chunks r)" using out k(1) by (auto split: if_splits)
  from fetch_greedy [OF this] have "k \<in> answer_of (take_env_of s ar cosines st') ` UNIV" using k(1) by auto
  then have "dict_get cosines (sk_chunk_id k) = Some v"
    using k(2) by (auto simp: answer_of_def search_chunk_of_def take_env_of_def)
  moreover have "sd_fanout_projects (an_scope_decision r) \<noteq> []" using search_sound(2) [OF run laws ok k(1)] by auto
  ultimately show ?thesis using rank_all_cosines [OF rank _ laws(1) ok] by blast
qed

text \<open>
  C34: an answer is well typed. Every label in an answer is one of those documented for it; the answer
  abstains exactly when it reports no relevant result, and then holds no chunk; the gap between the
  two best cosines is never negative; and a primary project is the first of the projects searched.
\<close>

theorem search_typed:
  fixes s :: searcher and ar :: search_args
  assumes "search s em query ar st = (Inr r, st')"
  defines "d \<equiv> an_scope_decision r"
  shows "an_query_type r \<in> {''natural_language'', ''find_similar''} \<and> an_query_shape r \<in> {''unknown'', ''symbolic'', ''prose'', ''mixed''}
    \<and> an_retrieval_quality r \<in> {''abstain'', ''high'', ''medium'', ''low'', ''unknown''}
    \<and> (an_retrieval_quality r = ''abstain'' \<longleftrightarrow> an_no_relevant_results r) \<and> (an_chunks r = [] \<or> \<not> an_no_relevant_results r)
    \<and> 0 \<le> an_confidence_gap r
    \<and> sd_primary_source d \<in> {''explicit_project'', ''cross_project_pattern'', ''active_project_sticky'', ''cwd_walk_to_sentinel'', ''fanout_no_primary''}
    \<and> (sd_primary_project d = None \<longleftrightarrow> sd_primary_source d = ''fanout_no_primary'')
    \<and> (sd_primary_project d = None \<or> sd_fanout_projects d \<noteq> [] \<and> sd_primary_project d = Some (hd (sd_fanout_projects d)))"
proof -
  have scope: "sd_primary_source c \<in> {''explicit_project'', ''cross_project_pattern'', ''active_project_sticky'', ''cwd_walk_to_sentinel'', ''fanout_no_primary''}
      \<and> (sd_primary_project c = None \<longleftrightarrow> sd_primary_source c = ''fanout_no_primary'')
      \<and> (sd_primary_project c = None \<or> sd_fanout_projects c \<noteq> [] \<and> sd_primary_project c = Some (hd (sd_fanout_projects c)))"
    if "c = decide_scope query cwd project sticky indexed roots" for c cwd project sticky indexed roots
    using that by (simp add: decide_scope_def split: option.split list.split)
  have quality: "retrieval_quality t g b n \<in> {''abstain'', ''high'', ''medium'', ''low'', ''unknown''}"
    "retrieval_quality t g b n = ''abstain'' \<longleftrightarrow> b" for t g b n
    by (simp_all add: retrieval_quality_def)
  have shape: "shape_value sh \<in> {''unknown'', ''symbolic'', ''prose'', ''mixed''}" for sh by (cases sh) (simp_all add: shape_value_def)
  have type: "classify_query_type query \<in> {''natural_language'', ''find_similar''}" by (simp add: classify_query_type_def)
  show ?thesis
  proof (rule search_parts [OF assms(1)], goal_cases)
    case (1 queries bw dw embs fused cosines)
    have "an_chunks r = [] \<or> \<not> an_no_relevant_results r" using 1(4) by (cases "an_no_relevant_results r") simp_all
    then show ?case unfolding d_def 1(6-8)
      using quality [of "an_top1_dense_cosine r" "an_confidence_gap r" "an_no_relevant_results r" "length (an_chunks r)"]
        scope [OF 1(1)] shape [of "detect_query_shape query"] type 1(9) by blast
  qed
qed

lemma search_same_tables:
  assumes "search s em query ar st = (res, st')"
  shows "same_tables st st'"
proof -
  obtain bw dw rationale hint shape where pol: "resolve_policy s query (sa_auto_policy ar) st = (bw, dw, rationale, hint, shape)"
    by (metis prod_cases5)
  define sc where "sc = decide_scope query (sa_cwd ar) (sa_project ar) (sa_sticky ar) (map pj_name (list_projects st)) []"
  obtain pending through where q: "sr_quiescence s (sd_primary_project sc) (case sa_wait_ms ar of Some t \<Rightarrow> t | None \<Rightarrow> sc_default_wait_for_quiescence_ms (sr_config s))
      = (pending, through)" by fastforce
  note def = assms [unfolded search_def Let_def pol prod.case sc_def [symmetric] q]
  show ?thesis
  proof (cases "embed_queries_with_prior s (query # sa_paraphrases ar) (filter (\<lambda>t. \<not> py_blank t) (sa_prior_context ar)) (sa_prior_context_weight ar)")
    case (Inl x)
    then show ?thesis using def by (simp add: same_tables_refl)
  next
    case (Inr embs)
    obtain res1 st1 where rank: "rank_all s em ar (query # sa_paraphrases ar) sc bw dw embs st = (res1, st1)" by fastforce
    have "st' = st1" using def unfolding Inr sum.case rank prod.case by (auto split: sum.splits prod.splits)
    then show ?thesis using rank_all_facts(1) [OF rank] by simp
  qed
qed

section \<open>Several questions\<close>

definition group_ids :: "search_result list \<Rightarrow> nat list" where
  "group_ids rs = concat (map (\<lambda>r. map sk_chunk_id (an_chunks r)) rs)"

lemma search_groups_facts:
  assumes "search_groups s em ar suppress qs st = (Inr rs, st')"
    and laws: "sorts_ok (sr_argpartition s) (sr_argsort s)" "sorts_ok (se_argpartition (sr_sqlite s)) (se_argsort (sr_sqlite s))"
    and "rows_in_one_file st" "db_ok st"
  shows "length rs = length qs \<and> distinct (group_ids rs) \<and> (\<forall>i \<in> set (group_ids rs). int i \<notin> set suppress)"
  using assms(1,4,5)
proof (induction qs arbitrary: suppress st rs)
  case (Cons q qs)
  define ar1 where "ar1 = ar\<lparr>sa_suppress_ids := (if suppress = [] then None else Some suppress)\<rparr>"
  obtain r st1 where r: "search s em q ar1 st = (Inr r, st1)" using Cons.prems(1) by (auto simp: ar1_def split: prod.splits sum.splits)
  define sup where "sup = suppress @ map (\<lambda>k. int (sk_chunk_id k)) (an_chunks r)"
  obtain rest where rest: "search_groups s em ar sup qs st1 = (Inr rest, st')" "rs = r # rest"
    using Cons.prems(1) r by (auto simp: ar1_def sup_def split: prod.splits sum.splits)
  note snd = search_sound [OF r laws Cons.prems(2,3)]
  have "rows_in_one_file st1" by (rule rows_in_one_file_tables [OF snd(1) Cons.prems(2)])
  moreover have "db_ok st1" using same_tables_ok [OF snd(1)] Cons.prems(3) by simp
  ultimately have IH: "length rest = length qs" "distinct (group_ids rest)" "\<forall>i \<in> set (group_ids rest). int i \<notin> set sup"
    using Cons.IH [OF rest(1)] by blast+
  have "int (sk_chunk_id k) \<notin> set suppress" if "k \<in> set (an_chunks r)" for k
    using snd(2) [OF that] by (auto simp: ar1_def split: if_splits)
  moreover have "set (map sk_chunk_id (an_chunks r)) \<inter> set (group_ids rest) = {}" using IH(3) by (force simp: sup_def)
  moreover have "group_ids rs = map sk_chunk_id (an_chunks r) @ group_ids rest" by (simp add: rest(2) group_ids_def)
  ultimately show ?case using IH snd(3) by (auto simp: rest(2) sup_def)
qed (simp add: group_ids_def)

end
