(* ===== verification/Dmn_Indexer.thy ===== *)
theory Dmn_Indexer
  imports Dmn_Sqlite Dmn_Memmap Rag_Chunker LC_Path
begin

text \<open>
  The indexer of the daemon (\<open>longctx_daemon/indexer.py\<close>): which files of a project are indexed, and
  how a file's chunks and embeddings follow its content. It drives the chunk store, the embedding
  store and the library's chunker, which are modelled. Outside the repository are the encoder
  (which may raise), pathspec's matcher, SHA-256 and the decoding of UTF-8. Each operation sees one
  state of the file system. The identity of the embedder (a hash of its files), the release of
  device memory and timing are left out, and pathspec is installed.
\<close>

section \<open>The world and the state\<close>

record indexer_config =
  xc_max_file_size_bytes :: int
  xc_include_extensions :: "string list"
  xc_exclude_patterns :: "string list"
  xc_secret_patterns :: "string list"
  xc_forbidden_dirs :: "string list"
  xc_respect_gitignore :: bool

record indexer_env =
  ie_config :: indexer_config
  ie_chunker :: chunker
  ie_sha1 :: "string \<Rightarrow> string"
  ie_sha256 :: "string \<Rightarrow> string"
  ie_encode :: "string list \<Rightarrow> exc + vec list"
  ie_model :: string
  ie_model_sha :: string
  ie_match :: "string list \<Rightarrow> string \<Rightarrow> bool"      \<comment> \<open>\<open>PathSpec.from_lines('gitignore', patterns).match_file\<close>\<close>
  ie_decode :: "string \<Rightarrow> string"                     \<comment> \<open>bytes to text, bad bytes replaced\<close>
  ie_utf8 :: "string \<Rightarrow> bool"                         \<comment> \<open>bytes that decode\<close>

record file_state =
  fi_bytes :: "string option"                      \<comment> \<open>None: reading raises\<close>
  fi_size :: int
  fi_mtime :: int

datatype dir_tree = DirTree "string list" "(string \<times> dir_tree) list"   \<comment> \<open>its files and directories as listed\<close>

record world =
  wo_file :: "path \<Rightarrow> file_state option"          \<comment> \<open>None: nothing there\<close>
  wo_tree :: "path \<Rightarrow> dir_tree option"            \<comment> \<open>None: not a directory\<close>
  wo_gitignore :: "path \<Rightarrow> string list option"    \<comment> \<open>the lines of the file, if it can be read\<close>
  wo_resolve :: "path \<Rightarrow> path"
  wo_now :: int

record indexer =
  id_store :: chunk_store
  id_embed :: embed_store

record scan_counts =
  sn_files :: nat
  sn_chunks_total :: nat
  sn_chunks_new :: nat
  sn_chunks_reused :: nat
  sn_files_skipped :: nat

section \<open>Which files\<close>

definition default_exclude_patterns :: "string list" where
  "default_exclude_patterns = [''**/node_modules'', ''**/.git/objects'', ''**/__pycache__'', ''**/.venv'', ''**/venv'', ''**/.pytest_cache'',
     ''**/target'', ''**/build'', ''**/dist'', ''**/.next'', ''**/.svelte-kit'', ''**/*.lock'', ''**/*.min.js'', ''**/*.map'']"

definition default_secret_patterns :: "string list" where
  "default_secret_patterns = [''.env'', ''.env.*'', ''*.key'', ''*.pem'', ''id_rsa*'', ''id_ed25519*'', ''*.p12'', ''*.pfx'', ''**/secrets/**'',
     ''**/credentials/**'', ''**/.aws/**'', ''**/.ssh/**'', ''**/.gnupg/**'']"

definition default_forbidden_dirs :: "string list" where
  "default_forbidden_dirs = [''secrets'', ''credentials'', ''.aws'', ''.ssh'', ''.gnupg'']"

definition text_extensions :: "string list" where
  "text_extensions = [''.swift'', ''.py'', ''.pyi'', ''.cpp'', ''.cc'', ''.c'', ''.h'', ''.hpp'', ''.hh'',
     ''.md'', ''.txt'', ''.rst'', ''.json'', ''.yaml'', ''.yml'', ''.toml'', ''.ini'',
     ''.cfg'', ''.go'', ''.rs'', ''.ts'', ''.tsx'', ''.js'', ''.jsx'', ''.mjs'', ''.cjs'',
     ''.java'', ''.kt'', ''.scala'', ''.rb'', ''.php'', ''.lua'', ''.sh'', ''.bash'',
     ''.zsh'', ''.fish'', ''.html'', ''.htm'', ''.xml'', ''.css'', ''.scss'', ''.sass'',
     ''.less'', ''.sql'', ''.graphql'', ''.proto'', ''.tex'', ''.bib'', ''.m'', ''.mm'',
     ''.dart'', ''.vue'', ''.svelte'', ''.astro'', ''.elm'', ''.clj'',
     ''.cljs'', ''.ex'', ''.exs'', ''.erl'', ''.hs'', ''.ml'', ''.mli'', ''.fs'',
     ''.cs'', ''.vb'', ''.r'', ''.jl'', ''.nim'', ''.zig'', ''.v'', ''.sv'', ''.vhd'',
     ''.csv'', ''.tsv'', ''.log'']"

definition default_indexer_config :: indexer_config where
  "default_indexer_config = \<lparr>xc_max_file_size_bytes = 5 * 1024 * 1024, xc_include_extensions = [], xc_exclude_patterns = default_exclude_patterns,
     xc_secret_patterns = default_secret_patterns, xc_forbidden_dirs = default_forbidden_dirs, xc_respect_gitignore = True\<rparr>"

definition gitignored :: "indexer_env \<Rightarrow> world \<Rightarrow> path \<Rightarrow> string \<Rightarrow> bool" where
  \<comment> \<open>\<open>_GitignoreMatcher(root).is_ignored\<close>\<close>
  "gitignored en w root_dir rel = (case wo_gitignore w root_dir of None \<Rightarrow> False | Some ls \<Rightarrow> ie_match en ls rel)"

definition base_name :: "string \<Rightarrow> string" where
  \<comment> \<open>\<open>p.rsplit('/', 1)[-1]\<close>\<close>
  "base_name p = last (split_on (CHR ''/'') p)"

definition matches_any :: "indexer_env \<Rightarrow> string \<Rightarrow> string list \<Rightarrow> bool" where
  "matches_any en rel_path patterns =
     (if patterns = [] then False else ie_match en patterns rel_path \<or> ie_match en patterns (base_name rel_path))"

definition looks_binary :: "indexer_env \<Rightarrow> file_state \<Rightarrow> bool" where
  "looks_binary en f =
     (case fi_bytes f of
        None \<Rightarrow> True
      | Some bytes \<Rightarrow> let head = take 8192 bytes in CHR 0x00 \<in> set head \<or> \<not> ie_utf8 en head)"

definition should_index :: "indexer_env \<Rightarrow> world \<Rightarrow> path \<Rightarrow> path \<Rightarrow> bool" where
  "should_index en w root_dir p =
     (case relative_to p root_dir of
        None \<Rightarrow> False
      | Some rel \<Rightarrow>
          let cf = ie_config en; rel_posix = path_str rel
          in if matches_any en rel_posix (xc_secret_patterns cf) then False
             else if matches_any en rel_posix (xc_exclude_patterns cf) then False
             else if xc_respect_gitignore cf \<and> gitignored en w root_dir rel_posix then False
             else if xc_include_extensions cf \<noteq> [] \<and> py_lower (path_suffix p) \<notin> set (map py_lower (xc_include_extensions cf)) then False
             else case wo_file w p of
                    None \<Rightarrow> False
                  | Some f \<Rightarrow>
                      if xc_max_file_size_bytes cf < fi_size f then False
                      else if fi_size f = 0 then False
                      else if py_lower (path_suffix p) \<in> set text_extensions then True
                      else \<not> looks_binary en f)"

definition forbidden_subdirs :: "string list" where
  "forbidden_subdirs = [''.git'', ''node_modules'', ''__pycache__'', ''.venv'', ''venv'', ''.pytest_cache'', ''target'', ''build'', ''dist'',
     ''.next'', ''.svelte-kit'', ''.tox'', ''.mypy_cache'', ''.ruff_cache'']"

fun idx_walk :: "indexer_config \<Rightarrow> path \<Rightarrow> dir_tree \<Rightarrow> path list" where
  "idx_walk cf dirpath (DirTree files dirs) =
     map (\<lambda>f. dirpath @ [f]) files
     @ concat (map (\<lambda>(d, t). if d \<in> set forbidden_subdirs \<or> d \<in> set (xc_forbidden_dirs cf) then [] else idx_walk cf (dirpath @ [d]) t) dirs)"

section \<open>Line numbers\<close>

fun newline_starts :: "int \<Rightarrow> string \<Rightarrow> int list" where
  \<comment> \<open>one past each newline\<close>
  "newline_starts i [] = []"
| "newline_starts i (c # s) = (if c = CHR 0x0A then (i + 1) # newline_starts (i + 1) s else newline_starts (i + 1) s)"

definition line_start_offsets :: "string \<Rightarrow> int list" where
  "line_start_offsets t = 0 # newline_starts 0 t"

definition bisect_right :: "int list \<Rightarrow> int \<Rightarrow> nat" where
  "bisect_right xs x = length (takeWhile (\<lambda>y. y \<le> x) xs)"

definition offset_to_line :: "int list \<Rightarrow> int \<Rightarrow> nat" where
  "offset_to_line line_offsets offset = max 1 (bisect_right line_offsets offset)"

section \<open>One file\<close>

definition build_record :: "indexer_env \<Rightarrow> nat \<Rightarrow> string \<Rightarrow> nat \<Rightarrow> rag_chunk \<Rightarrow> chunk_record" where
  "build_record en file_id text idx c =
     \<lparr>cn_id = 0, cn_file_id = file_id, cn_chunk_index = idx, cn_start_offset = rc_start_offset c, cn_end_offset = rc_end_offset c,
      cn_start_line = offset_to_line (line_start_offsets text) (rc_start_offset c),
      cn_end_line = offset_to_line (line_start_offsets text) (max (rc_end_offset c - 1) (rc_start_offset c)),
      cn_token_count = rc_token_count c, cn_content_hash = ie_sha256 en (rc_text c), cn_text = rc_text c,
      cn_embedder_model = ie_model en, cn_embedder_sha256 = ie_model_sha en, cn_embedding_row = None\<rparr>"

definition build_records :: "indexer_env \<Rightarrow> nat \<Rightarrow> string \<Rightarrow> rag_chunk list \<Rightarrow> chunk_record list" where
  "build_records en file_id text raw_chunks = map (\<lambda>(idx, c). build_record en file_id text idx c) (enumerate 0 raw_chunks)"

fun free_rows :: "nat option list \<Rightarrow> embed_store \<Rightarrow> (exc + unit) \<times> embed_store" where
  \<comment> \<open>\<open>if chunk.embedding_row is not None: self._embed.free_row(..)\<close>\<close>
  "free_rows [] em = (Inr (), em)"
| "free_rows (None # rs) em = free_rows rs em"
| "free_rows (Some r # rs) em = (case free_row (int r) em of (Inl x, em) \<Rightarrow> (Inl x, em) | (Inr u, em) \<Rightarrow> free_rows rs em)"

definition rows_by_hash :: "chunk_record list \<Rightarrow> string list \<Rightarrow> (string, nat) dict" where
  \<comment> \<open>the rows kept: those of the old chunks, by content hash\<close>
  "rows_by_hash old_chunks new_hashes =
     (let old_by_hash = fold (\<lambda>c. dict_set (cn_content_hash c) c) old_chunks []
      in fold (\<lambda>h d. case dict_get old_by_hash h of
                 None \<Rightarrow> d
               | Some c \<Rightarrow> (case cn_embedding_row c of None \<Rightarrow> d | Some r \<Rightarrow> dict_set h r d)) new_hashes [])"

definition embed_new :: "indexer_env \<Rightarrow> string list \<Rightarrow> embed_store \<Rightarrow> (exc + nat list) \<times> embed_store" where
  "embed_new en texts em =
     (if texts = [] then (Inr [], em)
      else case ie_encode en texts of Inl x \<Rightarrow> (Inl x, em) | Inr embeddings \<Rightarrow> append_batch embeddings em)"

fun assign_rows :: "(string, nat) dict \<Rightarrow> chunk_record list \<Rightarrow> nat list \<Rightarrow> exc + chunk_record list" where
  \<comment> \<open>the final records: kept rows by hash, new rows in order\<close>
  "assign_rows kept [] rows = Inr []"
| "assign_rows kept (r # rs) rows =
     (case dict_get kept (cn_content_hash r) of
        Some row \<Rightarrow> map_sum id ((#) (r\<lparr>cn_embedding_row := Some row\<rparr>)) (assign_rows kept rs rows)
      | None \<Rightarrow> (case rows of
            [] \<Rightarrow> Inl KeyError
          | row # rows \<Rightarrow> map_sum id ((#) (r\<lparr>cn_embedding_row := Some row\<rparr>)) (assign_rows kept rs rows)))"

definition index_chunks :: "indexer_env \<Rightarrow> string \<Rightarrow> nat \<Rightarrow> indexer \<Rightarrow> (exc + nat \<times> nat \<times> nat) \<times> indexer" where
  \<comment> \<open>the second half of \<open>_index_file\<close>, after the file record was written\<close>
  "index_chunks en text file_id st =
     (case rag_chunk_text (ie_sha1 en) (ie_chunker en) text 0 of
        Inl x \<Rightarrow> (Inl x, st)
      | Inr raw_chunks \<Rightarrow>
          let old_chunks = get_chunks_by_file file_id (id_store st) in
          if raw_chunks = []
          then (case free_rows (map cn_embedding_row old_chunks) (id_embed st) of
                  (Inl x, em) \<Rightarrow> (Inl x, st\<lparr>id_embed := em\<rparr>)
                | (Inr u, em) \<Rightarrow> (Inr (0, 0, 0), st\<lparr>id_embed := em, id_store := delete_chunks_by_file file_id (id_store st)\<rparr>))
          else
            let new_records = build_records en file_id text raw_chunks;
                new_hashes = map cn_content_hash new_records;
                kept_rows = rows_by_hash old_chunks new_hashes
            in case free_rows (map cn_embedding_row (filter (\<lambda>c. cn_content_hash c \<notin> set new_hashes) old_chunks)) (id_embed st) of
                 (Inl x, em) \<Rightarrow> (Inl x, st\<lparr>id_embed := em\<rparr>)
               | (Inr u, em) \<Rightarrow>
                   let to_embed = filter (\<lambda>r. dict_get kept_rows (cn_content_hash r) = None) new_records
                   in case embed_new en (map cn_text to_embed) em of
                        (Inl x, em) \<Rightarrow> (Inl x, st\<lparr>id_embed := em\<rparr>)
                      | (Inr rows, em) \<Rightarrow>
                          (case assign_rows kept_rows new_records rows of
                             Inl x \<Rightarrow> (Inl x, st\<lparr>id_embed := em\<rparr>)
                           | Inr final \<Rightarrow>
                               (case upsert_chunks final (delete_chunks_by_file file_id (id_store st)) of
                                  (Inl x, cs) \<Rightarrow> (Inl x, st\<lparr>id_embed := em, id_store := cs\<rparr>)
                                | (Inr u, cs) \<Rightarrow> (Inr (length final, length to_embed, length final - length to_embed),
                                    st\<lparr>id_embed := em, id_store := cs\<rparr>))))"

definition file_entry :: "string \<Rightarrow> path \<Rightarrow> file_state \<Rightarrow> string \<Rightarrow> file_record option \<Rightarrow> file_record" where
  "file_entry project_name rel f file_hash existing =
     \<lparr>fl_id = (case existing of None \<Rightarrow> 0 | Some e \<Rightarrow> fl_id e), fl_project = project_name, fl_rel_path = path_str rel,
      fl_mtime = fi_mtime f, fl_size_bytes = fi_size f, fl_content_hash = file_hash\<rparr>"

definition index_file :: "indexer_env \<Rightarrow> world \<Rightarrow> string \<Rightarrow> path \<Rightarrow> path \<Rightarrow> indexer \<Rightarrow> (exc + (nat \<times> nat \<times> nat) option) \<times> indexer" where
  "index_file en w project_name root_dir p st =
     (case wo_file w p of
        None \<Rightarrow> (Inr None, st)
      | Some f \<Rightarrow>
          (case fi_bytes f of
             None \<Rightarrow> (Inr None, st)
           | Some raw \<Rightarrow>
               let text = ie_decode en raw; file_hash = ie_sha256 en raw in
               case relative_to p root_dir of
                 None \<Rightarrow> (Inl ValueError, st)
               | Some rel \<Rightarrow>
                   let existing = get_file project_name (path_str rel) (id_store st) in
                   if (case existing of None \<Rightarrow> False | Some e \<Rightarrow> fl_content_hash e = file_hash)
                   then let n = length (get_chunks_by_file (fl_id (the existing)) (id_store st)) in (Inr (Some (n, 0, n)), st)
                   else
                     case upsert_file (file_entry project_name rel f file_hash existing) (id_store st) of
                          (Inl x, cs) \<Rightarrow> (Inl x, st\<lparr>id_store := cs\<rparr>)
                        | (Inr file_id, cs) \<Rightarrow>
                            (case index_chunks en text file_id (st\<lparr>id_store := cs\<rparr>) of
                               (Inl x, st) \<Rightarrow> (Inl x, st)
                             | (Inr counts, st) \<Rightarrow> (Inr (Some counts), st))))"

section \<open>The public operations\<close>

definition stored_shas :: "chunk_store \<Rightarrow> string list" where
  \<comment> \<open>the embedder hash of the first chunk of each file that has one, project by project\<close>
  "stored_shas cs = concat (map (\<lambda>pr. concat (map (\<lambda>f. map cn_embedder_sha256 (take 1 (get_chunks_by_file (fl_id f) cs)))
     (list_files (Some (pj_name pr)) cs))) (list_projects cs))"

definition embedder_consistent :: "indexer_env \<Rightarrow> chunk_store \<Rightarrow> bool" where
  \<comment> \<open>\<open>_assert_embedder_consistent\<close>: the first chunk found decides\<close>
  "embedder_consistent en cs = (case stored_shas cs of [] \<Rightarrow> True | sha # _ \<Rightarrow> sha = ie_model_sha en)"

definition add_project :: "indexer_env \<Rightarrow> world \<Rightarrow> string \<Rightarrow> path \<Rightarrow> indexer \<Rightarrow> (exc + project) \<times> indexer" where
  "add_project en w name root_path st =
     (let root = wo_resolve w root_path in
      if path_name root \<in> set (xc_forbidden_dirs (ie_config en)) then (Inl ForbiddenProject, st)
      else if wo_tree w root = None then (Inl FileNotFound, st)
      else
        let existing = get_project name (id_store st);
            project = \<lparr>pj_name = name, pj_root_path = path_str root,
              pj_last_full_scan_at = (case existing of None \<Rightarrow> 0 | Some p \<Rightarrow> pj_last_full_scan_at p),
              pj_session_id = (case existing of None \<Rightarrow> None | Some p \<Rightarrow> pj_session_id p)\<rparr>
        in case upsert_project project (id_store st) of
             (Inl x, cs) \<Rightarrow> (Inl x, st\<lparr>id_store := cs\<rparr>)
           | (Inr u, cs) \<Rightarrow> (Inr project, st\<lparr>id_store := cs\<rparr>))"

definition count_file :: "(nat \<times> nat \<times> nat) option \<Rightarrow> scan_counts \<Rightarrow> scan_counts" where
  "count_file res n =
     (case res of
        None \<Rightarrow> n\<lparr>sn_files_skipped := sn_files_skipped n + 1\<rparr>
      | Some (n_total, n_new, n_reused) \<Rightarrow>
          n\<lparr>sn_files := sn_files n + 1, sn_chunks_total := sn_chunks_total n + n_total,
            sn_chunks_new := sn_chunks_new n + n_new, sn_chunks_reused := sn_chunks_reused n + n_reused\<rparr>)"

definition no_counts :: scan_counts where
  "no_counts = \<lparr>sn_files = 0, sn_chunks_total = 0, sn_chunks_new = 0, sn_chunks_reused = 0, sn_files_skipped = 0\<rparr>"

fun scan_files :: "indexer_env \<Rightarrow> world \<Rightarrow> string \<Rightarrow> path \<Rightarrow> path list \<Rightarrow> scan_counts \<Rightarrow> indexer \<Rightarrow> (exc + scan_counts) \<times> indexer" where
  "scan_files en w name root_dir [] n st = (Inr n, st)"
| "scan_files en w name root_dir (p # ps) n st =
     (if \<not> should_index en w root_dir p then scan_files en w name root_dir ps (count_file None n) st
      else case index_file en w name root_dir p st of
             (Inl x, st) \<Rightarrow> (Inl x, st)
           | (Inr res, st) \<Rightarrow> scan_files en w name root_dir ps (count_file res n) st)"

definition full_scan :: "indexer_env \<Rightarrow> world \<Rightarrow> string \<Rightarrow> indexer \<Rightarrow> (exc + scan_counts) \<times> indexer" where
  "full_scan en w project st =
     (if \<not> embedder_consistent en (id_store st) then (Inl EmbedderMismatch, st)
      else case get_project project (id_store st) of
        None \<Rightarrow> (Inl KeyError, st)
      | Some proj \<Rightarrow>
          let root = path_of (pj_root_path proj);
              files = (case wo_tree w root of None \<Rightarrow> [] | Some t \<Rightarrow> idx_walk (ie_config en) root t)
          in case scan_files en w (pj_name proj) root files no_counts st of
               (Inl x, st) \<Rightarrow> (Inl x, st)
             | (Inr n, st) \<Rightarrow>
                 (case upsert_project (proj\<lparr>pj_last_full_scan_at := wo_now w\<rparr>) (id_store st) of
                    (Inl x, cs) \<Rightarrow> (Inl x, st\<lparr>id_store := cs\<rparr>)
                  | (Inr u, cs) \<Rightarrow> (Inr n, st\<lparr>id_store := cs\<rparr>)))"

definition update_file :: "indexer_env \<Rightarrow> world \<Rightarrow> string \<Rightarrow> path \<Rightarrow> indexer \<Rightarrow> (exc + scan_counts) \<times> indexer" where
  "update_file en w project abs_path st =
     (if \<not> embedder_consistent en (id_store st) then (Inl EmbedderMismatch, st)
      else case get_project project (id_store st) of
        None \<Rightarrow> (Inl KeyError, st)
      | Some proj \<Rightarrow>
          let root = path_of (pj_root_path proj); p = wo_resolve w abs_path
          in if \<not> should_index en w root p then (Inr (count_file None no_counts), st)
             else case index_file en w (pj_name proj) root p st of
                    (Inl x, st) \<Rightarrow> (Inl x, st)
                  | (Inr res, st) \<Rightarrow> (Inr (count_file res no_counts), st))"

definition add_counts :: "scan_counts \<Rightarrow> scan_counts \<Rightarrow> scan_counts" where
  "add_counts a b = \<lparr>sn_files = sn_files a + sn_files b, sn_chunks_total = sn_chunks_total a + sn_chunks_total b,
     sn_chunks_new = sn_chunks_new a + sn_chunks_new b, sn_chunks_reused = sn_chunks_reused a + sn_chunks_reused b,
     sn_files_skipped = sn_files_skipped a + sn_files_skipped b\<rparr>"

fun update_files_from :: "indexer_env \<Rightarrow> world \<Rightarrow> string \<Rightarrow> path list \<Rightarrow> scan_counts \<Rightarrow> indexer \<Rightarrow> (exc + scan_counts) \<times> indexer" where
  "update_files_from en w project [] n st = (Inr n, st)"
| "update_files_from en w project (p # ps) n st =
     (case update_file en w project p st of
        (Inl x, st) \<Rightarrow> (Inl x, st)
      | (Inr res, st) \<Rightarrow> update_files_from en w project ps (add_counts n res) st)"

definition update_files :: "indexer_env \<Rightarrow> world \<Rightarrow> string \<Rightarrow> path list \<Rightarrow> indexer \<Rightarrow> (exc + scan_counts) \<times> indexer" where
  "update_files en w project abs_paths st = update_files_from en w project abs_paths no_counts st"

definition idx_delete_file :: "string \<Rightarrow> string \<Rightarrow> indexer \<Rightarrow> (exc + unit) \<times> indexer" where
  "idx_delete_file project rel_path st =
     (case get_file project rel_path (id_store st) of
        None \<Rightarrow> (Inr (), st)
      | Some r \<Rightarrow>
          (case free_rows (map cn_embedding_row (get_chunks_by_file (fl_id r) (id_store st))) (id_embed st) of
             (Inl x, em) \<Rightarrow> (Inl x, st\<lparr>id_embed := em\<rparr>)
           | (Inr u, em) \<Rightarrow> (Inr (), st\<lparr>id_embed := em, id_store := delete_file (fl_id r) (id_store st)\<rparr>)))"

definition idx_delete_project :: "string \<Rightarrow> indexer \<Rightarrow> (exc + unit) \<times> indexer" where
  "idx_delete_project name st =
     (case free_rows (map cn_embedding_row (concat (map (\<lambda>f. get_chunks_by_file (fl_id f) (id_store st)) (list_files (Some name) (id_store st)))))
        (id_embed st) of
        (Inl x, em) \<Rightarrow> (Inl x, st\<lparr>id_embed := em\<rparr>)
      | (Inr u, em) \<Rightarrow> (Inr (), st\<lparr>id_embed := em, id_store := delete_project name (id_store st)\<rparr>))"

definition idx_rename_file :: "indexer_env \<Rightarrow> world \<Rightarrow> string \<Rightarrow> string \<Rightarrow> string \<Rightarrow> indexer \<Rightarrow> (exc + bool) \<times> indexer" where
  \<comment> \<open>the store always has a rename hook; a failing one falls back to delete and reindex\<close>
  "idx_rename_file en w project old_rel_path new_rel_path st =
     (case (get_project project (id_store st), get_file project old_rel_path (id_store st)) of
        (Some proj, Some existing) \<Rightarrow>
          let root = path_of (pj_root_path proj);
              new_abs = wo_resolve w (let q = path_of new_rel_path in if path_abs q then q else root @ q)
          in if \<not> should_index en w root new_abs
             then map_prod (map_sum id (\<lambda>u. False)) id (idx_delete_file project old_rel_path st)
             else
               let mtime = (case wo_file w new_abs of None \<Rightarrow> fl_mtime existing | Some f \<Rightarrow> fi_mtime f)
               in case rename_file (fl_id existing) new_rel_path mtime (id_store st) of
                    (Inr u, cs) \<Rightarrow> (Inr True, st\<lparr>id_store := cs\<rparr>)
                  | (Inl x, cs) \<Rightarrow>
                      (case idx_delete_file project old_rel_path st of
                         (Inl x, st) \<Rightarrow> (Inl x, st)
                       | (Inr u, st) \<Rightarrow>
                           if wo_file w new_abs = None then (Inr False, st)
                           else map_prod (map_sum id (\<lambda>r. False)) id (index_file en w project root new_abs st))
      | _ \<Rightarrow> (Inr False, st))"

section \<open>What the embedding store does for the indexer\<close>

definition em_shape :: "embed_store \<Rightarrow> nat \<times> bool" where
  "em_shape em = (ei_dim (em_state em), em_validate em)"

lemma assert_normalized_shape: "em_shape em' = em_shape em \<Longrightarrow> assert_normalized em' v = assert_normalized em v"
  by (simp add: assert_normalized_def em_shape_def)

lemma take_free_shape: "em_shape (snd (take_free e em)) = em_shape em"
  by (simp add: take_free_def em_shape_def Let_def)

lemma fill_free_shape: "em_shape (snd (snd (fill_free es em))) = em_shape em"
proof (induction es em rule: fill_free.induct)
  case (2 e es em)
  then show ?case using take_free_shape [of e em] by (auto split: prod.splits)
qed simp

lemma reserve_shape: "em_shape (reserve n em) = em_shape em"
proof (induction n em rule: reserve.induct)
  case (1 n em)
  then show ?case by (subst reserve.simps) (simp add: em_shape_def)
qed

lemma save_idx_shape [simp]: "em_shape (save_idx em) = em_shape em"
  by (simp add: em_shape_def save_idx_def)

lemma append_batch_shape: "em_shape (snd (append_batch es em)) = em_shape em"
proof -
  obtain rows rest em1 where f: "fill_free es em = (rows, rest, em1)" using prod_cases3 by blast
  have "em_shape em1 = em_shape em" using fill_free_shape [of es em] by (simp add: f)
  moreover have "em_shape (snd (write_tail rest em2)) = em_shape em2" for em2
    by (simp add: write_tail_def em_shape_def Let_def)
  ultimately show ?thesis using reserve_shape [of "length rest" em1]
    by (simp add: append_batch_def f Let_def case_prod_beta)
qed

lemma free_row_result:
  assumes "embed_ok em" "live em r \<noteq> None \<or> r < ei_num_rows (em_state em)"
  shows "\<exists>em'. free_row (int r) em = (Inr (), em') \<and> embed_ok em' \<and> live em' = (live em)(r := None) \<and> em_shape em' = em_shape em
    \<and> ei_num_rows (em_state em') = ei_num_rows (em_state em)"
proof -
  have r: "r < ei_num_rows (em_state em)" using assms(2) by (auto simp: live_def split: if_splits)
  obtain res em' where f: "free_row (int r) em = (res, em')" by fastforce
  have "res = Inr ()" "em_shape em' = em_shape em" "ei_num_rows (em_state em') = ei_num_rows (em_state em)"
    using f r by (auto simp: free_row_def em_shape_def save_idx_def split: if_splits)
  then show ?thesis using free_row_live [OF assms(1) f] f by simp
qed

lemma free_rows_result:
  assumes "embed_ok em" "\<forall>r. Some r \<in> set rs \<longrightarrow> r < ei_num_rows (em_state em)"
  shows "\<exists>em'. free_rows rs em = (Inr (), em') \<and> embed_ok em' \<and> live em' = (\<lambda>r. if Some r \<in> set rs then None else live em r)
    \<and> em_shape em' = em_shape em"
  using assms
proof (induction rs em rule: free_rows.induct)
  case (3 r rs em)
  obtain em1 where f: "free_row (int r) em = (Inr (), em1)" "embed_ok em1" "live em1 = (live em)(r := None)" "em_shape em1 = em_shape em"
      "ei_num_rows (em_state em1) = ei_num_rows (em_state em)"
    using free_row_result [OF 3(2), of r] 3(3) by auto
  have "\<forall>r. Some r \<in> set rs \<longrightarrow> r < ei_num_rows (em_state em1)" using 3(3) f(5) by simp
  then obtain em2 where "free_rows rs em1 = (Inr (), em2)" "embed_ok em2" "live em2 = (\<lambda>r. if Some r \<in> set rs then None else live em1 r)"
      "em_shape em2 = em_shape em1"
    using 3(1) [OF f(1) [symmetric] refl f(2)] by blast
  then show ?case using f by (auto simp: fun_eq_iff)
qed simp_all

definition encoder_fits :: "indexer_env \<Rightarrow> (string \<Rightarrow> vec) \<Rightarrow> embed_store \<Rightarrow> bool" where
  \<comment> \<open>the encoder works text by text and gives vectors the store takes\<close>
  "encoder_fits en f em \<longleftrightarrow> (\<forall>ts. ie_encode en ts = Inr (map f ts)) \<and> (\<forall>t. length (f t) = ei_dim (em_state em) \<and> assert_normalized em (f t))"

lemma encoder_fits_shape: "encoder_fits en f em \<Longrightarrow> em_shape em' = em_shape em \<Longrightarrow> encoder_fits en f em'"
  using assert_normalized_shape [of em' em] by (auto simp: encoder_fits_def em_shape_def)

lemma live_upds:
  assumes "distinct rows" "length rows = length vs" "(v, r) \<in> set (zip vs rows)"
  shows "(m(rows [\<mapsto>] vs)) r = Some v"
proof -
  have "map_of (rev (zip rows vs)) r = Some v"
    using assms by (intro map_of_is_SomeI) (auto simp: rev_map [symmetric] set_zip)
  then show ?thesis by (simp add: map_upds_def map_add_def)
qed

lemma embed_new_result:
  assumes "embed_ok em" "encoder_fits en f em"
  shows "\<exists>rows em'. embed_new en ts em = (Inr rows, em') \<and> embed_ok em' \<and> em_shape em' = em_shape em \<and> distinct rows
    \<and> length rows = length ts \<and> (\<forall>r \<in> set rows. live em r = None) \<and> live em' = (live em)(rows [\<mapsto>] map f ts)"
proof (cases "ts = []")
  case True
  then show ?thesis using assms by (simp add: embed_new_def)
next
  case False
  obtain res em' where a: "append_batch (map f ts) em = (res, em')" by fastforce
  have "list_all (\<lambda>e. length e = ei_dim (em_state em)) (map f ts)" "list_all (assert_normalized em) (map f ts)"
    using assms(2) by (simp_all add: encoder_fits_def list_all_iff)
  then obtain rows where rows: "res = Inr rows" using a False by (auto simp: append_batch_def split: prod.splits if_splits)
  have "em_shape em' = em_shape em" using append_batch_shape [of "map f ts" em] by (simp add: a)
  then show ?thesis using append_batch_live [OF assms(1) a] assms(2) False a rows
    by (auto simp: embed_new_def encoder_fits_def)
qed

section \<open>What the chunk store does for it\<close>

lemma upsert_each_new:
  assumes "\<forall>c \<in> set cs. cn_id c = 0 \<and> cn_file_id c \<in> fl_id ` set (cs_files st)"
  shows "\<exists>new. upsert_each cs st = (Inr (), st\<lparr>cs_chunks := cs_chunks st @ new\<rparr>) \<and> map (\<lambda>c. c\<lparr>cn_id := 0\<rparr>) new = cs"
  using assms
proof (induction cs arbitrary: st)
  case (Cons c cs)
  define st1 where "st1 = st\<lparr>cs_chunks := cs_chunks st @ [c\<lparr>cn_id := next_id (map cn_id (cs_chunks st))\<rparr>]\<rparr>"
  have u: "upsert_chunk c st = (Inr (), st1)" using Cons.prems by (simp add: upsert_chunk_def st1_def)
  obtain new where new: "upsert_each cs st1 = (Inr (), st1\<lparr>cs_chunks := cs_chunks st1 @ new\<rparr>)" "map (\<lambda>c. c\<lparr>cn_id := 0\<rparr>) new = cs"
    using Cons.IH [of st1] Cons.prems by (auto simp: st1_def)
  have "c\<lparr>cn_id := 0\<rparr> = c" using Cons.prems by simp
  then show ?case using u new
    by (intro exI [of _ "c\<lparr>cn_id := next_id (map cn_id (cs_chunks st))\<rparr> # new"]) (simp add: st1_def)
qed simp

lemma upsert_chunks_new:
  assumes "\<forall>c \<in> set cs. cn_id c = 0 \<and> cn_file_id c \<in> fl_id ` set (cs_files st)" "cs_bm25_dirty st"
  shows "\<exists>new. upsert_chunks cs st = (Inr (), st\<lparr>cs_chunks := cs_chunks st @ new\<rparr>) \<and> map (\<lambda>c. c\<lparr>cn_id := 0\<rparr>) new = cs"
proof -
  have "st\<lparr>cs_chunks := x, cs_bm25_dirty := True\<rparr> = st\<lparr>cs_chunks := x\<rparr>" for x using assms(2) by (cases st) simp
  then show ?thesis using upsert_each_new [OF assms(1)] by (cases "cs = []") (auto simp: upsert_chunks_def intro: exI [of _ "[]"])
qed

lemma set_chunks_by_file: "set (get_chunks_by_file i st) = {c \<in> set (cs_chunks st). cn_file_id c = i}"
  by (auto simp: get_chunks_by_file_def)

section \<open>Rows kept and rows assigned\<close>

lemma find_append: "find P (xs @ ys) = (case find P xs of None \<Rightarrow> find P ys | Some x \<Rightarrow> Some x)"
  by (induction xs) auto

lemma old_by_hash_get:
  "dict_get (fold (\<lambda>c. dict_set (cn_content_hash c) c) cs d) h = (case find (\<lambda>c. cn_content_hash c = h) (rev cs) of None \<Rightarrow> dict_get d h | Some c \<Rightarrow> Some c)"
  by (induction cs arbitrary: d) (auto simp: dict_simps find_append split: option.splits)

lemma rows_by_hash_get:
  assumes "\<forall>c \<in> set old. cn_embedding_row c \<noteq> None"
  shows "dict_get (rows_by_hash old hashes) h = (if h \<in> set hashes
    then (case find (\<lambda>c. cn_content_hash c = h) (rev old) of None \<Rightarrow> None | Some c \<Rightarrow> cn_embedding_row c) else None)"
proof -
  let ?o = "fold (\<lambda>c. dict_set (cn_content_hash c) c) old []"
  let ?s = "\<lambda>h d. case dict_get ?o h of None \<Rightarrow> d | Some c \<Rightarrow> (case cn_embedding_row c of None \<Rightarrow> d | Some r \<Rightarrow> dict_set h r d)"
  let ?row = "case find (\<lambda>c. cn_content_hash c = h) (rev old) of None \<Rightarrow> None | Some c \<Rightarrow> cn_embedding_row c"
  have o: "dict_get ?o h = find (\<lambda>c. cn_content_hash c = h) (rev old)" for h
    by (simp add: old_by_hash_get split: option.split)
  have step: "dict_get (?s k d) h = (if k = h \<and> ?row \<noteq> None then ?row else dict_get d h)" for k d
    by (auto simp: o dict_simps split: option.splits)
  have "dict_get (fold ?s hs d) h = (if h \<in> set hs \<and> ?row \<noteq> None then ?row else dict_get d h)" for hs d
    by (induction hs arbitrary: d) (auto simp: step)
  then show ?thesis by (simp add: rows_by_hash_def Let_def)
qed

lemma rows_by_hash_Some:
  assumes "\<forall>c \<in> set old. cn_embedding_row c \<noteq> None" "dict_get (rows_by_hash old hashes) h = Some r"
  shows "h \<in> set hashes \<and> (\<exists>c \<in> set old. cn_content_hash c = h \<and> cn_embedding_row c = Some r)"
proof -
  have "h \<in> set hashes" using assms(2) unfolding rows_by_hash_get [OF assms(1)] by (simp split: if_splits)
  moreover obtain c where "find (\<lambda>c. cn_content_hash c = h) (rev old) = Some c" "cn_embedding_row c = Some r"
    using assms(2) unfolding rows_by_hash_get [OF assms(1)] by (auto split: if_splits option.splits)
  ultimately show ?thesis using find_Some [of "\<lambda>c. cn_content_hash c = h" "rev old" c] by auto
qed

definition row_choice :: "(string, nat) dict \<Rightarrow> chunk_record list \<Rightarrow> nat list \<Rightarrow> chunk_record \<Rightarrow> nat \<Rightarrow> bool" where
  \<comment> \<open>the kept row of its hash, or the new row of its text\<close>
  "row_choice kept recs rows c r \<longleftrightarrow> (case dict_get kept (cn_content_hash c) of
     Some k \<Rightarrow> r = k
   | None \<Rightarrow> (cn_text c, r) \<in> set (zip (map cn_text (filter (\<lambda>r. dict_get kept (cn_content_hash r) = None) recs)) rows))"

lemma assign_rows_result:
  assumes "length rows = length (filter (\<lambda>r. dict_get kept (cn_content_hash r) = None) recs)"
  shows "\<exists>final. assign_rows kept recs rows = Inr final
    \<and> map (\<lambda>c. c\<lparr>cn_embedding_row := None\<rparr>) final = map (\<lambda>c. c\<lparr>cn_embedding_row := None\<rparr>) recs
    \<and> (\<forall>c \<in> set final. \<exists>r. cn_embedding_row c = Some r \<and> row_choice kept recs rows c r)"
  using assms
proof (induction recs arbitrary: rows)
  case (Cons x rs)
  show ?case
  proof (cases "dict_get kept (cn_content_hash x)")
    case None
    then obtain row rows' where rows: "rows = row # rows'" using Cons.prems by (cases rows) auto
    have "length rows' = length (filter (\<lambda>r. dict_get kept (cn_content_hash r) = None) rs)" using Cons.prems None by (simp add: rows)
    then obtain final where final: "assign_rows kept rs rows' = Inr final"
        "map (\<lambda>c. c\<lparr>cn_embedding_row := None\<rparr>) final = map (\<lambda>c. c\<lparr>cn_embedding_row := None\<rparr>) rs"
        "\<forall>c \<in> set final. \<exists>r. cn_embedding_row c = Some r \<and> row_choice kept rs rows' c r"
      using Cons.IH by blast
    have "row_choice kept (x # rs) rows c r" if "row_choice kept rs rows' c r" for c r
      using that None by (simp add: row_choice_def rows split: option.splits)
    moreover have "row_choice kept (x # rs) rows (x\<lparr>cn_embedding_row := Some row\<rparr>) row" using None by (simp add: row_choice_def rows)
    ultimately show ?thesis using final None
      by (intro exI [of _ "x\<lparr>cn_embedding_row := Some row\<rparr> # final"]) (auto simp: rows)
  next
    case (Some k)
    have "length rows = length (filter (\<lambda>r. dict_get kept (cn_content_hash r) = None) rs)" using Cons.prems Some by simp
    then obtain final where final: "assign_rows kept rs rows = Inr final"
        "map (\<lambda>c. c\<lparr>cn_embedding_row := None\<rparr>) final = map (\<lambda>c. c\<lparr>cn_embedding_row := None\<rparr>) rs"
        "\<forall>c \<in> set final. \<exists>r. cn_embedding_row c = Some r \<and> row_choice kept rs rows c r"
      using Cons.IH by blast
    have "row_choice kept (x # rs) rows c r" if "row_choice kept rs rows c r" for c r
      using that Some by (simp add: row_choice_def split: option.splits)
    moreover have "row_choice kept (x # rs) rows (x\<lparr>cn_embedding_row := Some k\<rparr>) k" using Some by (simp add: row_choice_def)
    ultimately show ?thesis using final Some
      by (intro exI [of _ "x\<lparr>cn_embedding_row := Some k\<rparr> # final"]) auto
  qed
qed simp

section \<open>Chunks and rows agree\<close>

definition faithful :: "indexer_env \<Rightarrow> (string \<Rightarrow> vec) \<Rightarrow> indexer \<Rightarrow> bool" where
  \<comment> \<open>every chunk has a row in use that holds the embedding of its text; a row serves one text of one file\<close>
  "faithful en f st \<longleftrightarrow> db_ok (id_store st) \<and> embed_ok (id_embed st)
     \<and> (\<forall>c \<in> set (cs_chunks (id_store st)). cn_content_hash c = ie_sha256 en (cn_text c)
          \<and> (\<exists>r. cn_embedding_row c = Some r \<and> live (id_embed st) r = Some (f (cn_text c))))
     \<and> (\<forall>c \<in> set (cs_chunks (id_store st)). \<forall>d \<in> set (cs_chunks (id_store st)).
          cn_embedding_row c = cn_embedding_row d \<longrightarrow> cn_file_id c = cn_file_id d \<and> cn_content_hash c = cn_content_hash d)"

lemma faithful_db: "faithful en f st \<Longrightarrow> db_ok (id_store st)"
  unfolding faithful_def by blast

lemma faithful_row:
  "faithful en f st \<Longrightarrow> c \<in> set (cs_chunks (id_store st)) \<Longrightarrow>
   \<exists>r. cn_embedding_row c = Some r \<and> live (id_embed st) r = Some (f (cn_text c)) \<and> r < ei_num_rows (em_state (id_embed st))"
proof -
  assume a: "faithful en f st" "c \<in> set (cs_chunks (id_store st))"
  then obtain r where r: "cn_embedding_row c = Some r" "live (id_embed st) r = Some (f (cn_text c))" unfolding faithful_def by blast
  then have "r < ei_num_rows (em_state (id_embed st))" by (simp add: live_def split: if_splits)
  then show ?thesis using r by blast
qed

lemma faithful_shared:
  "faithful en f st \<Longrightarrow> c \<in> set (cs_chunks (id_store st)) \<Longrightarrow> d \<in> set (cs_chunks (id_store st)) \<Longrightarrow>
   cn_embedding_row c = cn_embedding_row d \<Longrightarrow> cn_file_id c = cn_file_id d \<and> cn_content_hash c = cn_content_hash d"
  unfolding faithful_def by blast

text \<open>Freeing the rows of chunks that go, where no chunk that stays has one of them.\<close>

lemma free_chunks:
  assumes "faithful en f st" "set gone \<subseteq> set (cs_chunks (id_store st))"
  shows "\<exists>em. free_rows (map cn_embedding_row gone) (id_embed st) = (Inr (), em) \<and> embed_ok em \<and> em_shape em = em_shape (id_embed st)
    \<and> live em = (\<lambda>r. if Some r \<in> cn_embedding_row ` set gone then None else live (id_embed st) r)"
proof -
  have "r < ei_num_rows (em_state (id_embed st))" if "Some r \<in> set (map cn_embedding_row gone)" for r
  proof -
    from that obtain c where "c \<in> set gone" and r: "cn_embedding_row c = Some r" by auto
    then have "c \<in> set (cs_chunks (id_store st))" using assms(2) by blast
    then show ?thesis using faithful_row [OF assms(1)] r by fastforce
  qed
  moreover have "embed_ok (id_embed st)" using assms(1) by (simp add: faithful_def)
  ultimately show ?thesis using free_rows_result [of "id_embed st" "map cn_embedding_row gone"] by auto
qed

lemma faithful_drop:
  assumes "faithful en f st" "db_ok cs" "set (cs_chunks cs) \<subseteq> set (cs_chunks (id_store st))" "embed_ok em"
    "live em = (\<lambda>r. if Some r \<in> cn_embedding_row ` set gone then None else live (id_embed st) r)"
    "\<And>c. c \<in> set (cs_chunks cs) \<Longrightarrow> cn_embedding_row c \<notin> cn_embedding_row ` set gone"
  shows "faithful en f \<lparr>id_store = cs, id_embed = em\<rparr>"
proof -
  have "\<exists>r. cn_embedding_row c = Some r \<and> live em r = Some (f (cn_text c))" if c: "c \<in> set (cs_chunks cs)" for c
  proof -
    obtain r where r: "cn_embedding_row c = Some r" "live (id_embed st) r = Some (f (cn_text c))"
      using faithful_row [OF assms(1)] assms(3) c by blast
    moreover have "Some r \<notin> cn_embedding_row ` set gone" using assms(6) [OF c] r(1) by simp
    ultimately show ?thesis by (simp add: assms(5))
  qed
  then show ?thesis using assms(1-4) by (simp add: faithful_def) blast
qed

section \<open>Indexing one file\<close>

definition strip_record :: "chunk_record \<Rightarrow> chunk_record" where
  \<comment> \<open>without what the stores assign\<close>
  "strip_record c = c\<lparr>cn_id := 0, cn_embedding_row := None\<rparr>"

lemma strip_record_fields [simp]:
  "cn_file_id (strip_record c) = cn_file_id c" "cn_chunk_index (strip_record c) = cn_chunk_index c" "cn_text (strip_record c) = cn_text c"
  "cn_content_hash (strip_record c) = cn_content_hash c" "cn_id (strip_record c) = 0" "cn_embedding_row (strip_record c) = None"
  by (simp_all add: strip_record_def)

lemma build_record_fields [simp]:
  "cn_file_id (build_record en i t k c) = i" "cn_chunk_index (build_record en i t k c) = k" "cn_text (build_record en i t k c) = rc_text c"
  "cn_content_hash (build_record en i t k c) = ie_sha256 en (rc_text c)" "cn_id (build_record en i t k c) = 0"
  "cn_embedding_row (build_record en i t k c) = None"
  by (simp_all add: build_record_def)

lemma build_records_props:
  "\<forall>r \<in> set (build_records en i t raw). cn_file_id r = i \<and> cn_id r = 0 \<and> cn_embedding_row r = None \<and> cn_content_hash r = ie_sha256 en (cn_text r)"
  "map cn_chunk_index (build_records en i t raw) = [0..<length raw]"
  by (auto simp: build_records_def comp_def case_prod_beta)

lemma strip_build: "map strip_record (build_records en i t raw) = build_records en i t raw"
  using build_records_props(1) [of en i t raw] by (intro map_idI) (simp add: strip_record_def)

definition carried :: "chunk_store \<Rightarrow> chunk_record list \<Rightarrow> chunk_record \<Rightarrow> bool" where
  \<comment> \<open>a chunk whose row an old one had that does not go\<close>
  "carried cs gone c \<longleftrightarrow> (\<exists>b \<in> set (cs_chunks cs). cn_file_id b = cn_file_id c \<and> cn_content_hash b = cn_content_hash c \<and> cn_text b = cn_text c
     \<and> cn_embedding_row b = cn_embedding_row c) \<and> cn_embedding_row c \<notin> cn_embedding_row ` set gone"

definition embedded_now :: "indexer_env \<Rightarrow> nat \<Rightarrow> string list \<Rightarrow> nat list \<Rightarrow> chunk_record \<Rightarrow> bool" where
  "embedded_now en fid texts rows c \<longleftrightarrow> cn_file_id c = fid \<and> cn_content_hash c = ie_sha256 en (cn_text c)
     \<and> (\<exists>r. cn_embedding_row c = Some r \<and> (cn_text c, r) \<in> set (zip texts rows))"

lemma faithful_replace:
  assumes inv: "faithful en f st" and db: "db_ok cs"
    and em1: "live em1 = (\<lambda>r. if Some r \<in> cn_embedding_row ` set gone then None else live (id_embed st) r)"
    and em2: "embed_ok em2" "live em2 = (live em1)(rows [\<mapsto>] map f texts)" "distinct rows" "length rows = length texts" "\<forall>r \<in> set rows. live em1 r = None"
    and each: "\<And>c. c \<in> set (cs_chunks cs) \<Longrightarrow> carried (id_store st) gone c \<or> embedded_now en fid texts rows c"
  shows "faithful en f \<lparr>id_store = cs, id_embed = em2\<rparr>"
proof -
  have old: "cn_content_hash c = ie_sha256 en (cn_text c) \<and> (\<exists>r. cn_embedding_row c = Some r \<and> live em1 r = Some (f (cn_text c)) \<and> r \<notin> set rows)"
    if car: "carried (id_store st) gone c" for c
  proof -
    obtain b where b: "b \<in> set (cs_chunks (id_store st))" "cn_content_hash b = cn_content_hash c" "cn_text b = cn_text c"
        "cn_embedding_row b = cn_embedding_row c" "cn_embedding_row c \<notin> cn_embedding_row ` set gone"
      using car unfolding carried_def by blast
    obtain r where r: "cn_embedding_row b = Some r" "live (id_embed st) r = Some (f (cn_text b))" using faithful_row [OF inv b(1)] by blast
    then have "live em1 r = Some (f (cn_text c))" using b(3,4,5) by (simp add: em1)
    moreover have "cn_content_hash b = ie_sha256 en (cn_text b)" using inv b(1) unfolding faithful_def by blast
    ultimately show ?thesis using r(1) b em2(5) by force
  qed
  have new: "r \<in> set rows \<and> live em2 r = Some (f (cn_text c))" if "(cn_text c, r) \<in> set (zip texts rows)" for c r
  proof -
    have "(f (cn_text c), r) \<in> set (zip (map f texts) rows)" using that by (force simp: zip_map1)
    then show ?thesis using live_upds [OF em2(3), of "map f texts"] em2(2,4) that by (auto dest: set_zip_rightD)
  qed
  have each_row: "cn_content_hash c = ie_sha256 en (cn_text c) \<and> (\<exists>r. cn_embedding_row c = Some r \<and> live em2 r = Some (f (cn_text c)))"
    if c: "c \<in> set (cs_chunks cs)" for c
    using each [OF c]
  proof
    assume "carried (id_store st) gone c"
    then show ?thesis using old [of c] by (auto simp: em2(2) map_upds_apply_nontin)
  next
    assume "embedded_now en fid texts rows c"
    then show ?thesis using new [of c] by (auto simp: embedded_now_def)
  qed
  have shared: "cn_file_id c = cn_file_id d \<and> cn_content_hash c = cn_content_hash d"
    if cd: "c \<in> set (cs_chunks cs)" "d \<in> set (cs_chunks cs)" "cn_embedding_row c = cn_embedding_row d" for c d
  proof -
    consider "carried (id_store st) gone c" "carried (id_store st) gone d" | "carried (id_store st) gone c" "embedded_now en fid texts rows d"
      | "embedded_now en fid texts rows c" "carried (id_store st) gone d" | "embedded_now en fid texts rows c" "embedded_now en fid texts rows d"
      using each cd(1,2) by blast
    then show ?thesis
    proof cases
      case 1
      obtain b b' where "b \<in> set (cs_chunks (id_store st))" "b' \<in> set (cs_chunks (id_store st))"
          "cn_file_id b = cn_file_id c" "cn_content_hash b = cn_content_hash c" "cn_embedding_row b = cn_embedding_row c"
          "cn_file_id b' = cn_file_id d" "cn_content_hash b' = cn_content_hash d" "cn_embedding_row b' = cn_embedding_row d"
        using 1 unfolding carried_def by blast
      then show ?thesis using faithful_shared [OF inv, of b b'] cd(3) by simp
    next
      case 2
      then show ?thesis using old [of c] new [of d] cd(3) by (auto simp: embedded_now_def)
    next
      case 3
      then show ?thesis using old [of d] new [of c] cd(3) by (auto simp: embedded_now_def)
    next
      case 4
      then obtain r where "(cn_text c, r) \<in> set (zip texts rows)" "(cn_text d, r) \<in> set (zip texts rows)"
        using cd(3) by (auto simp: embedded_now_def)
      then have "cn_text c = cn_text d" using em2(3) by (auto simp: set_zip nth_eq_iff_index_eq)
      then show ?thesis using 4 by (simp add: embedded_now_def)
    qed
  qed
  show ?thesis unfolding faithful_def indexer.select_convs using db em2(1) each_row shared by blast
qed

lemma indexer_update [simp]: "st\<lparr>id_embed := em, id_store := cs\<rparr> = \<lparr>id_store = cs, id_embed = em\<rparr>"
  by (cases st) simp

lemma get_chunks_appended:
  assumes "\<forall>c \<in> set cs. cn_file_id c \<noteq> fid" "\<forall>c \<in> set new. cn_file_id c = fid" "sorted (map cn_chunk_index new)"
  shows "get_chunks_by_file fid (st\<lparr>cs_chunks := cs @ new\<rparr>) = new"
  using assms by (simp add: get_chunks_by_file_def filter_empty_conv [THEN iffD2] filter_id_conv [THEN iffD2] sort_key_id_if_sorted)

lemma other_file_carried:
  assumes inv: "faithful en f st" and old: "set old = {c \<in> set (cs_chunks (id_store st)). cn_file_id c = fid}" "set gone \<subseteq> set old"
    and mem: "c \<in> set (cs_chunks (id_store st))" "cn_file_id c \<noteq> fid"
  shows "carried (id_store st) gone c"
proof -
  have "cn_embedding_row c \<noteq> cn_embedding_row g" if "g \<in> set gone" for g
  proof -
    have "g \<in> set (cs_chunks (id_store st))" "cn_file_id g = fid" using that old by auto
    then show ?thesis using faithful_shared [OF inv mem(1)] mem(2) by metis
  qed
  then show ?thesis using mem(1) unfolding carried_def by blast
qed

lemma kept_row_carried:
  assumes inv: "faithful en f st" and inj: "inj (ie_sha256 en)"
    and old: "set old = {c \<in> set (cs_chunks (id_store st)). cn_file_id c = fid}"
    and gone: "gone = filter (\<lambda>c. cn_content_hash c \<notin> set hs) old"
    and c: "cn_file_id c = fid" "cn_content_hash c = ie_sha256 en (cn_text c)" "cn_content_hash c \<in> set hs" "cn_embedding_row c = Some r"
    and kept: "dict_get (rows_by_hash old hs) (cn_content_hash c) = Some r"
  shows "carried (id_store st) gone c"
proof -
  have rows_old: "\<forall>c \<in> set old. cn_embedding_row c \<noteq> None" using faithful_row [OF inv] old by fastforce
  obtain b where b: "b \<in> set old" "cn_content_hash b = cn_content_hash c" "cn_embedding_row b = Some r"
    using rows_by_hash_Some [OF rows_old kept] by auto
  have b': "b \<in> set (cs_chunks (id_store st))" "cn_file_id b = fid" using b(1) old by auto
  then have "cn_content_hash b = ie_sha256 en (cn_text b)" using inv unfolding faithful_def by blast
  then have "cn_text b = cn_text c" using b(2) c(2) inj by (metis injD)
  moreover have "cn_embedding_row c \<notin> cn_embedding_row ` set gone"
  proof
    assume "cn_embedding_row c \<in> cn_embedding_row ` set gone"
    then obtain g where g: "g \<in> set gone" "cn_embedding_row b = cn_embedding_row g" using b(3) c(4) by auto
    then have "g \<in> set (cs_chunks (id_store st))" using old by (simp add: gone)
    then have "cn_content_hash g = cn_content_hash b" using faithful_shared [OF inv b'(1)] g(2) by simp
    then show False using g(1) b(2) c(3) by (simp add: gone)
  qed
  ultimately show ?thesis using b b' c(1,4) unfolding carried_def by metis
qed

lemma index_chunks_none:
  assumes inv: "faithful en f st" and raw: "rag_chunk_text (ie_sha1 en) (ie_chunker en) txt 0 = Inr []"
  shows "\<exists>em. index_chunks en txt fid st = (Inr (0, 0, 0), \<lparr>id_store = delete_chunks_by_file fid (id_store st), id_embed = em\<rparr>)
    \<and> faithful en f \<lparr>id_store = delete_chunks_by_file fid (id_store st), id_embed = em\<rparr> \<and> em_shape em = em_shape (id_embed st)"
proof -
  let ?cs = "id_store st" and ?em = "id_embed st"
  define old where "old = get_chunks_by_file fid ?cs"
  have old: "set old = {c \<in> set (cs_chunks ?cs). cn_file_id c = fid}" by (simp add: old_def set_chunks_by_file)
  have db0: "db_ok (delete_chunks_by_file fid ?cs)" by (rule delete_chunks_ok [OF faithful_db [OF inv]])
  obtain em where em: "free_rows (map cn_embedding_row old) ?em = (Inr (), em)" "embed_ok em" "em_shape em = em_shape ?em"
      "live em = (\<lambda>r. if Some r \<in> cn_embedding_row ` set old then None else live ?em r)"
    using free_chunks [OF inv, of old] old by auto
  have "faithful en f \<lparr>id_store = delete_chunks_by_file fid ?cs, id_embed = em\<rparr>"
  proof (rule faithful_drop [OF inv db0 _ em(2,4)])
    show "set (cs_chunks (delete_chunks_by_file fid ?cs)) \<subseteq> set (cs_chunks ?cs)" by (auto simp: delete_chunks_by_file_def)
    fix c assume "c \<in> set (cs_chunks (delete_chunks_by_file fid ?cs))"
    then show "cn_embedding_row c \<notin> cn_embedding_row ` set old"
      using faithful_shared [OF inv, of c] old by (auto simp: delete_chunks_by_file_def)
  qed
  moreover have "index_chunks en txt fid st = (Inr (0, 0, 0), \<lparr>id_store = delete_chunks_by_file fid ?cs, id_embed = em\<rparr>)"
    using em(1) by (simp add: index_chunks_def raw flip: old_def)
  ultimately show ?thesis using em(3) by blast
qed

lemma index_chunks_ok:
  assumes inv: "faithful en f st" and fits: "encoder_fits en f (id_embed st)" and inj: "inj (ie_sha256 en)"
    and file_there: "fid \<in> fl_id ` set (cs_files (id_store st))" and raw: "rag_chunk_text (ie_sha1 en) (ie_chunker en) text 0 = Inr raw"
  shows "\<exists>counts st'. index_chunks en text fid st = (Inr counts, st') \<and> faithful en f st' \<and> em_shape (id_embed st') = em_shape (id_embed st)
    \<and> cs_files (id_store st') = cs_files (id_store st) \<and> cs_projects (id_store st') = cs_projects (id_store st)
    \<and> filter (\<lambda>c. cn_file_id c \<noteq> fid) (cs_chunks (id_store st')) = filter (\<lambda>c. cn_file_id c \<noteq> fid) (cs_chunks (id_store st))
    \<and> map strip_record (get_chunks_by_file fid (id_store st')) = build_records en fid text raw"
proof -
  let ?cs = "id_store st" and ?em = "id_embed st"
  define old where "old = get_chunks_by_file fid ?cs"
  have old: "set old = {c \<in> set (cs_chunks ?cs). cn_file_id c = fid}" by (simp add: old_def set_chunks_by_file)
  have db: "db_ok ?cs" using inv by (simp add: faithful_def)
  have db0: "db_ok (delete_chunks_by_file fid ?cs)" by (rule delete_chunks_ok [OF db])
  show ?thesis
  proof (cases "raw = []")
    case True
    then obtain em where "index_chunks en text fid st = (Inr (0, 0, 0), \<lparr>id_store = delete_chunks_by_file fid ?cs, id_embed = em\<rparr>)"
        "faithful en f \<lparr>id_store = delete_chunks_by_file fid ?cs, id_embed = em\<rparr>" "em_shape em = em_shape ?em"
      using index_chunks_none [OF inv, of "text" fid] raw by blast
    moreover have "get_chunks_by_file fid (delete_chunks_by_file fid ?cs) = []"
      by (simp add: get_chunks_by_file_def delete_chunks_by_file_def)
    ultimately show ?thesis using True
      by (intro exI [of _ "(0, 0, 0)"] exI [of _ "\<lparr>id_store = delete_chunks_by_file fid ?cs, id_embed = em\<rparr>"])
        (simp add: delete_chunks_by_file_def build_records_def)
  next
    case False
    define recs where "recs = build_records en fid text raw"
    define hs where "hs = map cn_content_hash recs"
    define kept where "kept = rows_by_hash old hs"
    define gone where "gone = filter (\<lambda>c. cn_content_hash c \<notin> set hs) old"
    have rows_old: "\<forall>c \<in> set old. cn_embedding_row c \<noteq> None" using faithful_row [OF inv] old by fastforce
    obtain em1 where em1: "free_rows (map cn_embedding_row gone) ?em = (Inr (), em1)" "embed_ok em1" "em_shape em1 = em_shape ?em"
        "live em1 = (\<lambda>r. if Some r \<in> cn_embedding_row ` set gone then None else live ?em r)"
      using free_chunks [OF inv, of gone] old by (auto simp: gone_def)
    define to_embed where "to_embed = filter (\<lambda>r. dict_get kept (cn_content_hash r) = None) recs"
    obtain rows em2 where em2: "embed_new en (map cn_text to_embed) em1 = (Inr rows, em2)" "embed_ok em2" "em_shape em2 = em_shape em1"
        "distinct rows" "length rows = length (map cn_text to_embed)" "\<forall>r \<in> set rows. live em1 r = None"
        "live em2 = (live em1)(rows [\<mapsto>] map f (map cn_text to_embed))"
      using embed_new_result [OF em1(2) encoder_fits_shape [OF fits em1(3)], of "map cn_text to_embed"] by auto
    obtain final where final: "assign_rows kept recs rows = Inr final"
        "map (\<lambda>c. c\<lparr>cn_embedding_row := None\<rparr>) final = map (\<lambda>c. c\<lparr>cn_embedding_row := None\<rparr>) recs"
        "\<forall>c \<in> set final. \<exists>r. cn_embedding_row c = Some r \<and> row_choice kept recs rows c r"
      using assign_rows_result [of rows kept recs] em2(5) by (auto simp: to_embed_def)
    have strip: "map strip_record final = recs"
    proof -
      have "map strip_record xs = map (\<lambda>c. c\<lparr>cn_id := 0\<rparr>) (map (\<lambda>c. c\<lparr>cn_embedding_row := None\<rparr>) xs)" for xs by (simp add: strip_record_def)
      then have "map strip_record final = map strip_record recs" using final(2) by metis
      then show ?thesis by (simp add: recs_def strip_build)
    qed
    have ids: "map cn_id final = map cn_id recs"
    proof -
      have "map cn_id xs = map cn_id (map (\<lambda>c. c\<lparr>cn_embedding_row := None\<rparr>) xs)" for xs by simp
      then show ?thesis using final(2) by metis
    qed
    have fin: "cn_id c = 0 \<and> cn_file_id c = fid \<and> cn_content_hash c = ie_sha256 en (cn_text c) \<and> cn_content_hash c \<in> set hs"
      if c: "c \<in> set final" for c
    proof -
      have mem: "strip_record c \<in> set recs" using c strip by (metis imageI list.set_map)
      have "cn_content_hash (strip_record c) \<in> set hs" unfolding hs_def set_map by (rule imageI [OF mem])
      then have "cn_content_hash c \<in> set hs" by simp
      moreover have "cn_id c \<in> set (map cn_id recs)" using c ids by (metis imageI list.set_map)
      ultimately show ?thesis using build_records_props(1) [of en fid "text" raw] mem unfolding recs_def [symmetric] by fastforce
    qed
    define cs0 where "cs0 = delete_chunks_by_file fid ?cs"
    have cs0: "cs_files cs0 = cs_files ?cs" "cs_projects cs0 = cs_projects ?cs" "cs_bm25_dirty cs0"
        "cs_chunks cs0 = filter (\<lambda>c. cn_file_id c \<noteq> fid) (cs_chunks ?cs)"
      by (simp_all add: cs0_def delete_chunks_by_file_def)
    have "\<forall>c \<in> set final. cn_id c = 0 \<and> cn_file_id c \<in> fl_id ` set (cs_files cs0)" using fin file_there cs0(1) by auto
    then obtain new where new: "upsert_chunks final cs0 = (Inr (), cs0\<lparr>cs_chunks := cs_chunks cs0 @ new\<rparr>)"
        "map (\<lambda>c. c\<lparr>cn_id := 0\<rparr>) new = final"
      using upsert_chunks_new cs0(3) by blast
    define cs1 where "cs1 = cs0\<lparr>cs_chunks := cs_chunks cs0 @ new\<rparr>"
    have db1: "db_ok cs1" using upsert_chunks_ok [OF _ new(1)] db0 by (simp add: cs1_def cs0_def)
    have res: "index_chunks en text fid st
        = (Inr (length final, length to_embed, length final - length to_embed), \<lparr>id_store = cs1, id_embed = em2\<rparr>)"
      unfolding index_chunks_def raw sum.case Let_def old_def [symmetric] recs_def [symmetric] hs_def [symmetric] kept_def [symmetric]
        gone_def [symmetric] to_embed_def [symmetric] cs0_def [symmetric]
      using False em1(1) em2(1) final(1) new(1) by (simp add: cs1_def)
    have strip_new: "map strip_record new = recs"
    proof -
      have "map strip_record new = map strip_record (map (\<lambda>c. c\<lparr>cn_id := 0\<rparr>) new)" by (simp add: strip_record_def)
      then show ?thesis using new(2) strip by simp
    qed
    have each: "carried ?cs gone c \<or> embedded_now en fid (map cn_text to_embed) rows c" if c: "c \<in> set (cs_chunks cs1)" for c
    proof (cases "c \<in> set (cs_chunks cs0)")
      case True
      then have mem: "c \<in> set (cs_chunks ?cs)" "cn_file_id c \<noteq> fid" by (auto simp: cs0(4))
      then show ?thesis using other_file_carried [OF inv old, of gone c] by (auto simp: gone_def)
    next
      case False
      then have "c \<in> set new" using c by (simp add: cs1_def)
      then have c': "c\<lparr>cn_id := 0\<rparr> \<in> set final" using new(2) by force
      have cf: "cn_file_id c = fid" "cn_content_hash c = ie_sha256 en (cn_text c)" "cn_content_hash c \<in> set hs"
      proof -
        have "cn_file_id x = fid" "cn_content_hash x = ie_sha256 en (cn_text x)" "cn_content_hash x \<in> set hs" if "x = c\<lparr>cn_id := 0\<rparr>" for x
          using fin [OF c'] that by blast+
        from this [OF refl] show "cn_file_id c = fid" "cn_content_hash c = ie_sha256 en (cn_text c)" "cn_content_hash c \<in> set hs"
          by simp_all
      qed
      obtain r where "cn_embedding_row (c\<lparr>cn_id := 0\<rparr>) = Some r" "row_choice kept recs rows (c\<lparr>cn_id := 0\<rparr>) r"
        using final(3) c' by blast
      then have r: "cn_embedding_row c = Some r" "row_choice kept recs rows c r" by (simp_all add: row_choice_def split: option.splits)
      show ?thesis
      proof (cases "dict_get kept (cn_content_hash c)")
        case None
        then show ?thesis using r cf by (simp add: row_choice_def embedded_now_def to_embed_def)
      next
        case (Some k)
        then have "k = r" using r(2) by (simp add: row_choice_def)
        then have "dict_get (rows_by_hash old hs) (cn_content_hash c) = Some r" using Some by (simp add: kept_def)
        then show ?thesis using kept_row_carried [OF inv inj old gone_def cf r(1)] by blast
      qed
    qed
    have "faithful en f \<lparr>id_store = cs1, id_embed = em2\<rparr>"
      using faithful_replace [OF inv db1 em1(4) em2(2,7,4,5,6) each] .
    moreover have "filter (\<lambda>c. cn_file_id c \<noteq> fid) (cs_chunks cs1) = filter (\<lambda>c. cn_file_id c \<noteq> fid) (cs_chunks ?cs)"
      "get_chunks_by_file fid cs1 = new"
    proof -
      have mem: "cn_file_id c = fid" if "c \<in> set new" for c
        using that strip_new build_records_props(1) [of en fid "text" raw] by (metis imageI list.set_map recs_def strip_record_fields(1))
      then have "filter (\<lambda>c. cn_file_id c \<noteq> fid) new = []" by (simp add: filter_empty_conv)
      then show "filter (\<lambda>c. cn_file_id c \<noteq> fid) (cs_chunks cs1) = filter (\<lambda>c. cn_file_id c \<noteq> fid) (cs_chunks ?cs)" by (simp add: cs1_def cs0(4))
      have "map cn_chunk_index new = map cn_chunk_index (map strip_record new)" by simp
      then have "sorted (map cn_chunk_index new)" using build_records_props(2) [of en fid "text" raw] by (simp only: strip_new recs_def sorted_upt)
      then show "get_chunks_by_file fid cs1 = new" unfolding cs1_def using mem by (intro get_chunks_appended) (auto simp: cs0(4))
    qed
    ultimately show ?thesis using res em1(3) em2(3) strip_new cs0(1,2)
      by (intro exI [of _ "(length final, length to_embed, length final - length to_embed)"] exI [of _ "\<lparr>id_store = cs1, id_embed = em2\<rparr>"])
        (simp add: cs1_def recs_def)
  qed
qed

definition indexer_env_ok :: "indexer_env \<Rightarrow> bool" where
  \<comment> \<open>SHA-256 has no collisions, the chunker divides by a number that is not zero\<close>
  "indexer_env_ok en \<longleftrightarrow> inj (ie_sha256 en) \<and> ch_chars_per_token (ie_chunker en) \<noteq> 0"

definition indexer_inv :: "indexer_env \<Rightarrow> (string \<Rightarrow> vec) \<Rightarrow> indexer \<Rightarrow> bool" where
  "indexer_inv en f st \<longleftrightarrow> faithful en f st \<and> encoder_fits en f (id_embed st)"

lemma chunker_total: "ch_chars_per_token ch \<noteq> 0 \<Longrightarrow> \<exists>raw. rag_chunk_text sha1 ch t k = Inr raw"
proof -
  assume "ch_chars_per_token ch \<noteq> 0"
  then have p: "\<exists>raw. chunk_char_proxy sha1 ch t k = Inr raw" by (simp only: chunk_char_proxy_def Let_def if_False) blast
  show ?thesis
  proof (cases "ch_tokenizer ch")
    case (Some tok)
    then show ?thesis using p
      by (cases "tok t") (simp_all add: rag_chunk_text_def chunk_with_tokenizer_def Let_def)
  qed (use p in \<open>simp add: rag_chunk_text_def\<close>)
qed

lemma find_map_same: "(\<And>x. P (u x) = P x) \<Longrightarrow> find P (map u xs) = map_option u (find P xs)"
  by (induction xs) auto

lemma faithful_store:
  "faithful en f st \<Longrightarrow> db_ok cs \<Longrightarrow> cs_chunks cs = cs_chunks (id_store st) \<Longrightarrow> faithful en f (st\<lparr>id_store := cs\<rparr>)"
  by (cases st) (simp only: faithful_def indexer.simps, blast)

lemma inv_store:
  "indexer_inv en f st \<Longrightarrow> db_ok cs \<Longrightarrow> cs_chunks cs = cs_chunks (id_store st) \<Longrightarrow> indexer_inv en f (st\<lparr>id_store := cs\<rparr>)"
  by (simp add: indexer_inv_def faithful_store)

lemma upsert_file_result:
  assumes "upsert_file fr st = (Inr i, st')" "db_ok st"
  shows "i \<in> fl_id ` set (cs_files st') \<and> (\<exists>g. get_file (fl_project fr) (fl_rel_path fr) st' = Some g \<and> fl_id g = i
     \<and> fl_content_hash g = fl_content_hash fr \<and> fl_mtime g = fl_mtime fr \<and> fl_size_bytes g = fl_size_bytes fr)"
proof (cases "get_file (fl_project fr) (fl_rel_path fr) st")
  case (Some g)
  let ?u = "\<lambda>r. if fl_id r = fl_id g then r\<lparr>fl_mtime := fl_mtime fr, fl_size_bytes := fl_size_bytes fr, fl_content_hash := fl_content_hash fr\<rparr> else r"
  have st': "st' = st\<lparr>cs_files := map ?u (cs_files st)\<rparr>" "i = fl_id g" using assms(1) Some by (auto simp: upsert_file_def)
  have g: "g \<in> set (cs_files st)" using find_Some [OF Some [unfolded get_file_def]] by blast
  have "get_file (fl_project fr) (fl_rel_path fr) st' = map_option ?u (get_file (fl_project fr) (fl_rel_path fr) st)"
    unfolding get_file_def st'(1) by (simp add: find_map_same [of _ ?u])
  then have "get_file (fl_project fr) (fl_rel_path fr) st' = Some (?u g)" by (simp add: Some)
  moreover have "i \<in> fl_id ` set (cs_files st')"
  proof -
    have "?u g \<in> set (cs_files st')" using imageI [OF g, of ?u] by (simp only: st'(1) chunk_store.simps list.set_map) (cases st, simp)
    then show ?thesis using st'(2) by (auto intro: rev_image_eqI)
  qed
  ultimately show ?thesis using st'(2) by simp
next
  case None
  let ?g = "fr\<lparr>fl_id := i\<rparr>"
  have st': "st' = st\<lparr>cs_files := cs_files st @ [?g]\<rparr>"
    using assms(1) None unfolding upsert_file_def by (auto simp: Let_def split: if_splits)
  have "get_file (fl_project fr) (fl_rel_path fr) st' = Some ?g"
    using None by (simp add: st' get_file_def find_append)
  then show ?thesis by (simp add: st')
qed

lemma index_file_inv:
  assumes env: "indexer_env_ok en" and inv: "indexer_inv en f st"
  shows "indexer_inv en f (snd (index_file en w pn root_dir p st))"
proof -
  have after: "indexer_inv en f (snd (index_chunks en t i (st\<lparr>id_store := cs\<rparr>)))"
    if u: "upsert_file fr (id_store st) = (Inr i, cs)" for fr i cs t
  proof -
    have db: "db_ok (id_store st)" using inv faithful_db unfolding indexer_inv_def by blast
    have "indexer_inv en f (st\<lparr>id_store := cs\<rparr>)"
      using inv_store [OF inv upsert_file_ok [OF db u]] same_chunks_ops(2) [of "id_store st" fr] by (simp add: u same_chunks_def)
    then have "faithful en f (st\<lparr>id_store := cs\<rparr>)" "encoder_fits en f (id_embed (st\<lparr>id_store := cs\<rparr>))" by (simp_all add: indexer_inv_def)
    moreover obtain raw where "rag_chunk_text (ie_sha1 en) (ie_chunker en) t 0 = Inr raw"
      using chunker_total [of "ie_chunker en"] env unfolding indexer_env_ok_def by blast
    moreover have "i \<in> fl_id ` set (cs_files (id_store (st\<lparr>id_store := cs\<rparr>)))" using upsert_file_result [OF u db] by simp
    moreover have "inj (ie_sha256 en)" using env by (simp add: indexer_env_ok_def)
    ultimately obtain counts st' where "index_chunks en t i (st\<lparr>id_store := cs\<rparr>) = (Inr counts, st')" "faithful en f st'"
        "em_shape (id_embed st') = em_shape (id_embed st)"
      using index_chunks_ok [of en f "st\<lparr>id_store := cs\<rparr>" i t raw] by auto
    then show ?thesis using inv encoder_fits_shape by (auto simp: indexer_inv_def)
  qed
  have failed: "indexer_inv en f (st\<lparr>id_store := cs\<rparr>)" if u: "upsert_file fr (id_store st) = (Inl x, cs)" for fr x cs
  proof -
    have "db_ok (id_store st)" using inv faithful_db unfolding indexer_inv_def by blast
    then show ?thesis using inv_store [OF inv upsert_file_ok [OF _ u]] same_chunks_ops(2) [of "id_store st" fr]
      by (simp add: u same_chunks_def)
  qed
  show ?thesis
  proof (cases "\<exists>ff raw rel. wo_file w p = Some ff \<and> fi_bytes ff = Some raw \<and> relative_to p root_dir = Some rel")
    case False
    then show ?thesis using inv by (auto simp: index_file_def Let_def split: option.split)
  next
    case True
    then obtain ff raw rel where w: "wo_file w p = Some ff" "fi_bytes ff = Some raw" "relative_to p root_dir = Some rel" by blast
    let ?e = "get_file pn (path_str rel) (id_store st)"
    obtain r cs where u: "upsert_file (file_entry pn rel ff (ie_sha256 en raw) ?e) (id_store st) = (r, cs)" by fastforce
    show ?thesis
    proof (cases "case ?e of None \<Rightarrow> False | Some e \<Rightarrow> fl_content_hash e = ie_sha256 en raw")
      case True
      then show ?thesis using inv w by (simp add: index_file_def Let_def)
    next
      case changed: False
      show ?thesis
      proof (cases r)
        case (Inl x)
        then show ?thesis using failed [of _ x cs] u changed by (simp add: index_file_def Let_def w)
      next
        case (Inr i)
        obtain c st' where ic: "index_chunks en (ie_decode en raw) i (st\<lparr>id_store := cs\<rparr>) = (c, st')" by fastforce
        have "indexer_inv en f st'" using after [of _ i cs "ie_decode en raw"] u Inr ic by (metis snd_conv)
        then show ?thesis using u changed Inr ic by (simp add: index_file_def Let_def w split: sum.split)
      qed
    qed
  qed
qed

section \<open>Every operation keeps chunks and rows together\<close>

lemma drop_chunks_inv:
  assumes "indexer_inv en f st" "set gone \<subseteq> set (cs_chunks (id_store st))" "db_ok cs"
    "set (cs_chunks cs) = {c \<in> set (cs_chunks (id_store st)). cn_file_id c \<notin> cn_file_id ` set gone}"
  shows "\<exists>em. free_rows (map cn_embedding_row gone) (id_embed st) = (Inr (), em) \<and> indexer_inv en f \<lparr>id_store = cs, id_embed = em\<rparr>"
proof -
  have inv: "faithful en f st" using assms(1) by (simp add: indexer_inv_def)
  obtain em where em: "free_rows (map cn_embedding_row gone) (id_embed st) = (Inr (), em)" "embed_ok em" "em_shape em = em_shape (id_embed st)"
      "live em = (\<lambda>r. if Some r \<in> cn_embedding_row ` set gone then None else live (id_embed st) r)"
    using free_chunks [OF inv assms(2)] by blast
  have "faithful en f \<lparr>id_store = cs, id_embed = em\<rparr>"
  proof (rule faithful_drop [OF inv assms(3) _ em(2,4)])
    show "set (cs_chunks cs) \<subseteq> set (cs_chunks (id_store st))" using assms(4) by blast
    fix c assume c: "c \<in> set (cs_chunks cs)"
    then have c': "c \<in> set (cs_chunks (id_store st))" "cn_file_id c \<notin> cn_file_id ` set gone" using assms(4) by blast+
    show "cn_embedding_row c \<notin> cn_embedding_row ` set gone"
    proof
      assume "cn_embedding_row c \<in> cn_embedding_row ` set gone"
      then obtain g where g: "g \<in> set gone" "cn_embedding_row c = cn_embedding_row g" by blast
      then have "cn_file_id c = cn_file_id g" using faithful_shared [OF inv c'(1)] assms(2) by blast
      then show False using c'(2) g(1) by simp
    qed
  qed
  moreover have "encoder_fits en f em" using assms(1) encoder_fits_shape em(3) unfolding indexer_inv_def by blast
  ultimately show ?thesis using em(1) by (simp add: indexer_inv_def)
qed

lemma inv_db: "indexer_inv en f st \<Longrightarrow> db_ok (id_store st)"
  using faithful_db unfolding indexer_inv_def by blast

lemma idx_delete_file_inv:
  assumes inv: "indexer_inv en f st"
  shows "indexer_inv en f (snd (idx_delete_file project rel st)) \<and> \<not> isl (fst (idx_delete_file project rel st))"
proof (cases "get_file project rel (id_store st)")
  case None
  then show ?thesis using inv by (simp add: idx_delete_file_def)
next
  case (Some r)
  let ?gone = "get_chunks_by_file (fl_id r) (id_store st)" and ?cs = "delete_file (fl_id r) (id_store st)"
  have "r \<in> set (cs_files (id_store st))" using find_Some Some by (fastforce simp: get_file_def)
  then have "set (cs_chunks ?cs) = {c \<in> set (cs_chunks (id_store st)). cn_file_id c \<noteq> fl_id r}"
    by (auto simp: delete_file_def drop_files_def Let_def)
  then have "set (cs_chunks ?cs) = {c \<in> set (cs_chunks (id_store st)). cn_file_id c \<notin> cn_file_id ` set ?gone}"
    by (auto simp: set_chunks_by_file)
  then obtain em where "free_rows (map cn_embedding_row ?gone) (id_embed st) = (Inr (), em)" "indexer_inv en f \<lparr>id_store = ?cs, id_embed = em\<rparr>"
    using drop_chunks_inv [OF inv _ delete_file_ok [OF inv_db [OF inv]], of ?gone "fl_id r"] set_chunks_by_file [of "fl_id r" "id_store st"]
    by blast
  then show ?thesis using Some by (simp add: idx_delete_file_def)
qed

lemma idx_delete_project_inv:
  assumes inv: "indexer_inv en f st"
  shows "indexer_inv en f (snd (idx_delete_project name st)) \<and> \<not> isl (fst (idx_delete_project name st))"
proof -
  let ?gone = "concat (map (\<lambda>f. get_chunks_by_file (fl_id f) (id_store st)) (list_files (Some name) (id_store st)))"
  let ?cs = "delete_project name (id_store st)"
  have gone: "set ?gone = {c \<in> set (cs_chunks (id_store st)). cn_file_id c \<in> fl_id ` {f \<in> set (cs_files (id_store st)). fl_project f = name}}"
    by (auto simp: set_chunks_by_file list_files_def)
  have "set (cs_chunks ?cs) = {c \<in> set (cs_chunks (id_store st)). cn_file_id c \<notin> fl_id ` {f \<in> set (cs_files (id_store st)). fl_project f = name}}"
    by (auto simp: delete_project_def drop_files_def Let_def)
  then have "set (cs_chunks ?cs) = {c \<in> set (cs_chunks (id_store st)). cn_file_id c \<notin> cn_file_id ` set ?gone}"
    using gone by (auto simp: image_iff)
  then obtain em where "free_rows (map cn_embedding_row ?gone) (id_embed st) = (Inr (), em)" "indexer_inv en f \<lparr>id_store = ?cs, id_embed = em\<rparr>"
    using drop_chunks_inv [OF inv _ delete_project_ok [OF inv_db [OF inv]], of ?gone name] gone by blast
  then show ?thesis by (simp add: idx_delete_project_def)
qed

lemma add_project_inv:
  assumes inv: "indexer_inv en f st"
  shows "indexer_inv en f (snd (add_project en w name root_path st))"
proof -
  have "indexer_inv en f (st\<lparr>id_store := snd (upsert_project p (id_store st))\<rparr>)" for p
    using inv_store [OF inv] upsert_project_ok [OF inv_db [OF inv], of p] same_chunks_ops(1) [of "id_store st" p]
    by (simp add: same_chunks_def) (metis prod.collapse)
  then show ?thesis using inv by (simp add: add_project_def Let_def split: prod.split sum.split) (metis snd_conv)
qed

lemma scan_files_inv:
  "indexer_env_ok en \<Longrightarrow> indexer_inv en f st \<Longrightarrow> indexer_inv en f (snd (scan_files en w name root_dir ps n st))"
proof (induction ps arbitrary: n st)
  case (Cons p ps)
  note inv = index_file_inv [OF Cons.prems, of w name root_dir p]
  obtain r st1 where i: "index_file en w name root_dir p st = (r, st1)" by fastforce
  then show ?case using Cons inv by (cases r) auto
qed simp

lemma full_scan_inv:
  assumes env: "indexer_env_ok en" and inv: "indexer_inv en f st"
  shows "indexer_inv en f (snd (full_scan en w project st))"
proof (cases "embedder_consistent en (id_store st)")
  case True
  show ?thesis
  proof (cases "get_project project (id_store st)")
    case (Some proj)
    let ?files = "case wo_tree w (path_of (pj_root_path proj)) of None \<Rightarrow> [] | Some t \<Rightarrow> idx_walk (ie_config en) (path_of (pj_root_path proj)) t"
    obtain r st1 where s: "scan_files en w (pj_name proj) (path_of (pj_root_path proj)) ?files no_counts st = (r, st1)" by fastforce
    have inv1: "indexer_inv en f st1" using scan_files_inv [OF env inv, of w "pj_name proj" "path_of (pj_root_path proj)" ?files no_counts] by (simp add: s)
    obtain r2 cs where u: "upsert_project (proj\<lparr>pj_last_full_scan_at := wo_now w\<rparr>) (id_store st1) = (r2, cs)" by fastforce
    have "indexer_inv en f (st1\<lparr>id_store := cs\<rparr>)"
      using inv_store [OF inv1 upsert_project_ok [OF inv_db [OF inv1] u]] same_chunks_ops(1) [of "id_store st1"] u
      by (metis same_chunks_def snd_conv)
    then show ?thesis using True Some s inv1 u by (simp add: full_scan_def Let_def split: sum.split)
  qed (use True inv in \<open>simp add: full_scan_def\<close>)
qed (use inv in \<open>simp add: full_scan_def\<close>)

lemma update_file_inv:
  assumes env: "indexer_env_ok en" and inv: "indexer_inv en f st"
  shows "indexer_inv en f (snd (update_file en w project abs_path st))"
proof (cases "get_project project (id_store st)")
  case (Some proj)
  obtain r st1 where i: "index_file en w (pj_name proj) (path_of (pj_root_path proj)) (wo_resolve w abs_path) st = (r, st1)" by fastforce
  have "indexer_inv en f st1" using index_file_inv [OF env inv] i by (metis snd_conv)
  then show ?thesis using inv Some i by (simp add: update_file_def Let_def split: sum.split)
qed (use inv in \<open>simp add: update_file_def\<close>)

lemma update_files_inv:
  "indexer_env_ok en \<Longrightarrow> indexer_inv en f st \<Longrightarrow> indexer_inv en f (snd (update_files_from en w project ps n st))"
proof (induction ps arbitrary: n st)
  case (Cons p ps)
  obtain r st1 where u: "update_file en w project p st = (r, st1)" by fastforce
  have "indexer_inv en f st1" using update_file_inv [OF Cons.prems] u by (metis snd_conv)
  then show ?case using Cons.IH [OF Cons.prems(1)] u by (cases r) simp_all
qed simp

lemma idx_rename_inv:
  assumes env: "indexer_env_ok en" and inv: "indexer_inv en f st"
  shows "indexer_inv en f (snd (idx_rename_file en w project old_rel new_rel st))"
proof (cases "get_project project (id_store st) \<noteq> None \<and> get_file project old_rel (id_store st) \<noteq> None")
  case True
  then obtain proj e where pe: "get_project project (id_store st) = Some proj" "get_file project old_rel (id_store st) = Some e" by blast
  define root_dir where "root_dir = path_of (pj_root_path proj)"
  define new_abs where "new_abs = wo_resolve w (let q = path_of new_rel in if path_abs q then q else root_dir @ q)"
  define mtime where "mtime = (case wo_file w new_abs of None \<Rightarrow> fl_mtime e | Some f \<Rightarrow> fi_mtime f)"
  obtain r cs where u: "rename_file (fl_id e) new_rel mtime (id_store st) = (r, cs)" by fastforce
  have renamed: "indexer_inv en f (st\<lparr>id_store := cs\<rparr>)"
    using inv_store [OF inv rename_file_ok [OF inv_db [OF inv] u]] same_chunks_ops(3) [of "id_store st"] u by (metis same_chunks_def snd_conv)
  obtain d st1 where d: "idx_delete_file project old_rel st = (d, st1)" by fastforce
  have inv1: "indexer_inv en f st1" using idx_delete_file_inv [OF inv, of project old_rel] d by simp
  have inv2: "indexer_inv en f (snd (index_file en w project root_dir new_abs st1))" by (rule index_file_inv [OF env inv1])
  have eq: "idx_rename_file en w project old_rel new_rel st =
     (if \<not> should_index en w root_dir new_abs then map_prod (map_sum id (\<lambda>u. False)) id (d, st1)
      else case r of Inr u \<Rightarrow> (Inr True, st\<lparr>id_store := cs\<rparr>)
      | Inl x \<Rightarrow> (case d of Inl x \<Rightarrow> (Inl x, st1) | Inr u \<Rightarrow> if wo_file w new_abs = None then (Inr False, st1)
          else map_prod (map_sum id (\<lambda>r. False)) id (index_file en w project root_dir new_abs st1)))"
    unfolding idx_rename_file_def pe prod.case option.case Let_def root_dir_def [symmetric] new_abs_def [unfolded Let_def, symmetric]
      mtime_def [symmetric] u d by (simp split: sum.split)
  show ?thesis unfolding eq using renamed inv1 inv2 by (auto split: sum.split)
next
  case False
  then show ?thesis using inv by (auto simp: idx_rename_file_def split: option.split)
qed

datatype index_op =
    IAdd world string path | IScan world string | IUpdate world string path | IUpdates world string "path list"
  | IDelete string string | IDropProject string | IRename world string string string

fun idx_step :: "indexer_env \<Rightarrow> index_op \<Rightarrow> indexer \<Rightarrow> indexer" where
  \<comment> \<open>an operation, returning or raising, on the state of the world at that time\<close>
  "idx_step en (IAdd w name root_path) st = snd (add_project en w name root_path st)"
| "idx_step en (IScan w name) st = snd (full_scan en w name st)"
| "idx_step en (IUpdate w name p) st = snd (update_file en w name p st)"
| "idx_step en (IUpdates w name ps) st = snd (update_files en w name ps st)"
| "idx_step en (IDelete name rel) st = snd (idx_delete_file name rel st)"
| "idx_step en (IDropProject name) st = snd (idx_delete_project name st)"
| "idx_step en (IRename w name old_rel new_rel) st = snd (idx_rename_file en w name old_rel new_rel st)"

lemma idx_step_inv:
  assumes "indexer_env_ok en \<and> indexer_inv en f st"
  shows "indexer_env_ok en \<and> indexer_inv en f (idx_step en op st)"
proof -
  note a = assms [THEN conjunct1] assms [THEN conjunct2]
  show ?thesis
    using a add_project_inv [OF a(2)] full_scan_inv [OF a] update_file_inv [OF a] update_files_inv [OF a]
      idx_delete_file_inv [OF a(2)] idx_delete_project_inv [OF a(2)] idx_rename_inv [OF a]
    by (cases op) (simp_all only: idx_step.simps update_files_def)
qed

interpretation indexing: machine "idx_step en" "\<lambda>st. indexer_env_ok en \<and> indexer_inv en f st"
  by unfold_locales (rule idx_step_inv)

lemma indexer_start:
  assumes "indexer_env_ok en" "encoder_fits en f (create_new ar)"
  shows "indexer_env_ok en \<and> indexer_inv en f \<lparr>id_store = empty_chunks, id_embed = create_new ar\<rparr>"
proof -
  have "embed_ok (create_new ar)" by (auto simp: create_new_def embed_ok_def rows_ok_def Let_def)
  then have "faithful en f \<lparr>id_store = empty_chunks, id_embed = create_new ar\<rparr>"
    by (simp add: faithful_def empty_chunks_def db_ok_def)
  then show ?thesis using assms by (simp add: indexer_inv_def)
qed

text \<open>
  C6: chunks and embeddings never drift apart. Start from empty stores and run any history of
  additions, scans, updates, renames and deletions, over any changes of the files in between, also
  with operations that raise on the way, under an encoder that does not fail: then every chunk in the
  tables has a row of the embedding store that is in use and holds the embedding of the text of that
  very chunk, and two chunks share a row only if they have the same text and file.
\<close>

theorem index_rows_faithful:
  fixes ops :: "index_op list"
  assumes "indexer_env_ok en" "encoder_fits en f (create_new ar)"
  defines "st \<equiv> fold (idx_step en) ops \<lparr>id_store = empty_chunks, id_embed = create_new ar\<rparr>"
  shows "list_all (\<lambda>c. \<exists>r. cn_embedding_row c = Some r \<and> live (id_embed st) r = Some (f (cn_text c))) (cs_chunks (id_store st))
    \<and> list_all (\<lambda>c. list_all (\<lambda>d. cn_embedding_row c \<noteq> cn_embedding_row d \<or> cn_file_id c = cn_file_id d \<and> cn_text c = cn_text d)
        (cs_chunks (id_store st))) (cs_chunks (id_store st))"
proof -
  from indexing.run_inv [OF indexer_start [OF assms(1,2)], of ops] have inv: "faithful en f st" by (simp add: st_def indexer_inv_def)
  have "cn_text c = cn_text d" if "c \<in> set (cs_chunks (id_store st))" "d \<in> set (cs_chunks (id_store st))" "cn_content_hash c = cn_content_hash d" for c d
  proof -
    have "ie_sha256 en (cn_text c) = ie_sha256 en (cn_text d)" using inv that unfolding faithful_def by metis
    then show ?thesis using assms(1) by (metis indexer_env_ok_def injD)
  qed
  then show ?thesis using faithful_row [OF inv] faithful_shared [OF inv] unfolding list_all_iff by metis
qed

lemma index_file_result:
  assumes env: "indexer_env_ok en" and inv: "indexer_inv en f st"
    and w: "wo_file w p = Some ff" "fi_bytes ff = Some bytes" "relative_to p root_dir = Some rel"
    and project: "pn \<in> set (map pj_name (cs_projects (id_store st)))"
    and changed: "map_option fl_content_hash (get_file pn (path_str rel) (id_store st)) \<noteq> Some (ie_sha256 en bytes)"
  shows "\<exists>counts st' raw g. index_file en w pn root_dir p st = (Inr (Some counts), st')
    \<and> rag_chunk_text (ie_sha1 en) (ie_chunker en) (ie_decode en bytes) 0 = Inr raw
    \<and> get_file pn (path_str rel) (id_store st') = Some g \<and> fl_content_hash g = ie_sha256 en bytes
    \<and> map strip_record (get_chunks_by_file (fl_id g) (id_store st')) = build_records en (fl_id g) (ie_decode en bytes) raw
    \<and> filter (\<lambda>c. cn_file_id c \<noteq> fl_id g) (cs_chunks (id_store st')) = filter (\<lambda>c. cn_file_id c \<noteq> fl_id g) (cs_chunks (id_store st))
    \<and> index_file en w pn root_dir p st' = (Inr (Some (length raw, 0, length raw)), st')"
proof -
  let ?e = "get_file pn (path_str rel) (id_store st)" and ?h = "ie_sha256 en bytes"
  define fr where "fr = file_entry pn rel ff ?h ?e"
  have fr: "fl_project fr = pn" "fl_rel_path fr = path_str rel" "fl_content_hash fr = ?h" by (simp_all add: fr_def file_entry_def)
  have db: "db_ok (id_store st)" by (rule inv_db [OF inv])
  have "\<not> isl (fst (upsert_file fr (id_store st)))"
    using project by (cases ?e) (simp_all add: upsert_file_def fr Let_def, simp add: fr_def file_entry_def)
  then obtain i cs where u: "upsert_file fr (id_store st) = (Inr i, cs)" by (cases "upsert_file fr (id_store st)"; cases "fst (upsert_file fr (id_store st))") auto
  have same: "cs_chunks cs = cs_chunks (id_store st)" using same_chunks_ops(2) [of "id_store st" fr] by (simp add: u same_chunks_def)
  have inv1: "indexer_inv en f (st\<lparr>id_store := cs\<rparr>)" by (rule inv_store [OF inv upsert_file_ok [OF db u] same])
  obtain g where g: "get_file pn (path_str rel) cs = Some g" "fl_id g = i" "fl_content_hash g = ?h" "i \<in> fl_id ` set (cs_files cs)"
    using upsert_file_result [OF u db] by (auto simp: fr)
  obtain raw where raw: "rag_chunk_text (ie_sha1 en) (ie_chunker en) (ie_decode en bytes) 0 = Inr raw"
    using chunker_total [of "ie_chunker en"] env unfolding indexer_env_ok_def by blast
  have "faithful en f (st\<lparr>id_store := cs\<rparr>)" "encoder_fits en f (id_embed (st\<lparr>id_store := cs\<rparr>))" "inj (ie_sha256 en)"
      "i \<in> fl_id ` set (cs_files (id_store (st\<lparr>id_store := cs\<rparr>)))"
    using inv1 env g(4) by (simp_all add: indexer_inv_def indexer_env_ok_def)
  then obtain counts st' where ic: "index_chunks en (ie_decode en bytes) i (st\<lparr>id_store := cs\<rparr>) = (Inr counts, st')"
      "cs_files (id_store st') = cs_files cs"
      "filter (\<lambda>c. cn_file_id c \<noteq> i) (cs_chunks (id_store st')) = filter (\<lambda>c. cn_file_id c \<noteq> i) (cs_chunks (id_store st))"
      "map strip_record (get_chunks_by_file i (id_store st')) = build_records en i (ie_decode en bytes) raw"
    using index_chunks_ok [of en f "st\<lparr>id_store := cs\<rparr>" i "ie_decode en bytes" raw] raw same by auto
  have run: "index_file en w pn root_dir p st = (Inr (Some counts), st')"
    using changed u ic(1) by (simp add: index_file_def Let_def w flip: fr_def) (auto split: option.splits)
  have g': "get_file pn (path_str rel) (id_store st') = Some g" using g(1) ic(2) by (simp add: get_file_def)
  have "length (get_chunks_by_file i (id_store st')) = length raw"
    using arg_cong [OF ic(4), of length] by (simp add: build_records_def)
  then have "index_file en w pn root_dir p st' = (Inr (Some (length raw, 0, length raw)), st')"
    using g(2,3) by (simp add: index_file_def Let_def w g')
  then show ?thesis using run raw g' g(2,3) ic(3,4) by blast
qed


text \<open>
  C14: updating a file makes the index what its content says. When the file can be read and its
  content is not the one recorded, the update returns; the file's chunks in the tables are then
  exactly those the chunker cuts from the content, in order, with their offsets and line numbers, the
  record carries the new hash, and the chunks of every other file are untouched. A second update finds
  nothing to do.
\<close>

theorem index_file_exact:
  assumes env: "indexer_env_ok en" and inv: "indexer_inv en f st"
    and w: "wo_file w p = Some ff" "fi_bytes ff = Some bytes" "relative_to p root_dir = Some rel"
    and project: "pn \<in> set (map pj_name (cs_projects (id_store st)))"
    and changed: "map_option fl_content_hash (get_file pn (path_str rel) (id_store st)) \<noteq> Some (ie_sha256 en bytes)"
  shows "\<exists>counts st' raw g. index_file en w pn root_dir p st = (Inr (Some counts), st')
    \<and> rag_chunk_text (ie_sha1 en) (ie_chunker en) (ie_decode en bytes) 0 = Inr raw
    \<and> get_file pn (path_str rel) (id_store st') = Some g \<and> fl_content_hash g = ie_sha256 en bytes
    \<and> map strip_record (get_chunks_by_file (fl_id g) (id_store st')) = build_records en (fl_id g) (ie_decode en bytes) raw
    \<and> filter (\<lambda>c. cn_file_id c \<noteq> fl_id g) (cs_chunks (id_store st')) = filter (\<lambda>c. cn_file_id c \<noteq> fl_id g) (cs_chunks (id_store st))
    \<and> index_file en w pn root_dir p st' = (Inr (Some (length raw, 0, length raw)), st')"
  by (rule index_file_result [OF assms])

section \<open>Line numbers\<close>

lemma starts_before:
  "length (takeWhile (\<lambda>y. y \<le> k) (newline_starts i s)) = length (filter (\<lambda>c. c = CHR 0x0A) (take (nat (k - i)) s))"
proof (induction s arbitrary: i)
  case (Cons c s)
  have none: "takeWhile (\<lambda>y. y \<le> k) (newline_starts j t) = []" if "k \<le> j" for j t
    using that by (induction t arbitrary: j) auto
  show ?case
  proof (cases "i < k")
    case True
    then have "nat (k - i) = Suc (nat (k - (i + 1)))" by simp
    then show ?thesis using True Cons.IH [of "i + 1"] by simp
  next
    case False
    then show ?thesis using none [of i "c # s"] by simp
  qed
qed simp

lemma offset_to_line_counts:
  "0 \<le> k \<Longrightarrow> offset_to_line (line_start_offsets t) k = Suc (length (filter (\<lambda>c. c = CHR 0x0A) (take (nat k) t)))"
  using starts_before [of k 0 t] by (simp add: offset_to_line_def bisect_right_def line_start_offsets_def)

text \<open>
  The lines of a chunk are the lines of its characters. The bisection over the line starts gives
  one plus the number of newlines before the first character of the chunk, and one plus the number
  before its last character.
\<close>

lemma chunk_lines_exact:
  assumes "0 \<le> rc_start_offset c" "rc_start_offset c < rc_end_offset c"
  shows "cn_start_line (build_record en i t k c) = Suc (length (filter (\<lambda>c. c = CHR 0x0A) (take (nat (rc_start_offset c)) t)))
    \<and> cn_end_line (build_record en i t k c) = Suc (length (filter (\<lambda>c. c = CHR 0x0A) (take (nat (rc_end_offset c - 1)) t)))"
proof -
  have "max (rc_end_offset c - 1) (rc_start_offset c) = rc_end_offset c - 1" using assms(2) by simp
  moreover have "0 \<le> rc_end_offset c - 1" using assms by simp
  ultimately show ?thesis using assms(1) by (simp add: build_record_def offset_to_line_counts)
qed

section \<open>A failing encoder\<close>

text \<open>
  C40: an update cut off by the encoder is not made up for while the file keeps its content. The
  record of the file gets its new hash before anything is embedded and the rows of the chunks that go
  are freed before that too. So when the encoder raises while an indexed file is updated, the old
  chunks stay in the tables with the new hash beside them, those whose text is gone point to rows that
  are no longer in use, and the next update that finds the same content, at whatever time and with
  whatever encoder, takes the file for unchanged. (A later change of the content is indexed again.)
\<close>

theorem failed_embed_sticks:
  assumes inv: "faithful en f st" and enc: "ie_encode en = (\<lambda>ts. Inl x)"
    and w: "wo_file w p = Some ff" "fi_bytes ff = Some bytes" "relative_to p root_dir = Some rel"
    and e: "get_file pn (path_str rel) (id_store st) = Some e" "fl_content_hash e \<noteq> ie_sha256 en bytes"
    and raw: "rag_chunk_text (ie_sha1 en) (ie_chunker en) (ie_decode en bytes) 0 = Inr raw"
      "r \<in> set raw" "ie_sha256 en (rc_text r) \<notin> cn_content_hash ` set (get_chunks_by_file (fl_id e) (id_store st))"
    and gone: "c \<in> set (get_chunks_by_file (fl_id e) (id_store st))" "cn_content_hash c \<notin> (ie_sha256 en \<circ> rc_text) ` set raw"
    and again: "wo_file w' p = Some ff'" "fi_bytes ff' = Some bytes"
  shows "\<exists>st' row. index_file en w pn root_dir p st = (Inl x, st') \<and> cs_chunks (id_store st') = cs_chunks (id_store st)
    \<and> cn_embedding_row c = Some row \<and> live (id_embed st') row = None
    \<and> index_file (en\<lparr>ie_encode := encode\<rparr>) w' pn root_dir p st'
      = (Inr (Some (length (get_chunks_by_file (fl_id e) (id_store st)), 0, length (get_chunks_by_file (fl_id e) (id_store st)))), st')"
proof -
  let ?old = "get_chunks_by_file (fl_id e) (id_store st)" and ?h = "ie_sha256 en bytes"
  define fr where "fr = file_entry pn rel ff ?h (Some e)"
  have fr: "fl_project fr = pn" "fl_rel_path fr = path_str rel" "fl_content_hash fr = ?h" by (simp_all add: fr_def file_entry_def)
  have db: "db_ok (id_store st)" by (rule faithful_db [OF inv])
  obtain cs where u: "upsert_file fr (id_store st) = (Inr (fl_id e), cs)" using e(1) by (simp add: upsert_file_def fr)
  have same: "cs_chunks cs = cs_chunks (id_store st)" using same_chunks_ops(2) [of "id_store st" fr] by (simp add: u same_chunks_def)
  obtain g where g: "get_file pn (path_str rel) cs = Some g" "fl_id g = fl_id e" "fl_content_hash g = ?h"
    using upsert_file_result [OF u db] by (auto simp: fr)
  have old: "get_chunks_by_file (fl_id e) cs = ?old" using same by (simp add: get_chunks_by_file_def)
  define recs where "recs = build_records en (fl_id e) (ie_decode en bytes) raw"
  define hs where "hs = map cn_content_hash recs"
  have "hs = map (\<lambda>x. ie_sha256 en (rc_text (snd x))) (enumerate 0 raw)"
    by (simp add: hs_def recs_def build_records_def case_prod_beta comp_def)
  also have "\<dots> = map (ie_sha256 en \<circ> rc_text) raw"
    using map_map [of "ie_sha256 en \<circ> rc_text" snd "enumerate 0 raw"] by (simp add: comp_def)
  finally have hs: "set hs = (ie_sha256 en \<circ> rc_text) ` set raw" by simp
  define gone_cs where "gone_cs = filter (\<lambda>c. cn_content_hash c \<notin> set hs) ?old"
  have sub: "set gone_cs \<subseteq> set (cs_chunks (id_store st))" by (auto simp: gone_cs_def set_chunks_by_file)
  obtain em where em: "free_rows (map cn_embedding_row gone_cs) (id_embed st) = (Inr (), em)"
      "live em = (\<lambda>r. if Some r \<in> cn_embedding_row ` set gone_cs then None else live (id_embed st) r)"
    using free_chunks [OF inv sub] by blast
  define kept where "kept = rows_by_hash ?old hs"
  define to_embed where "to_embed = filter (\<lambda>r. dict_get kept (cn_content_hash r) = None) recs"
  have rows: "\<forall>c \<in> set ?old. cn_embedding_row c \<noteq> None" using faithful_row [OF inv] by (fastforce simp: set_chunks_by_file)
  have "dict_get kept (ie_sha256 en (rc_text r)) = None"
  proof (cases "dict_get kept (ie_sha256 en (rc_text r))")
    case (Some a)
    then show ?thesis using rows_by_hash_Some [OF rows Some [unfolded kept_def]] raw(3) by (metis imageI)
  qed
  moreover have "ie_sha256 en (rc_text r) \<in> cn_content_hash ` set recs"
    using imageI [OF raw(2), of "ie_sha256 en \<circ> rc_text"] unfolding hs [symmetric] hs_def by simp
  then obtain q where "q \<in> set recs" "cn_content_hash q = ie_sha256 en (rc_text r)" by (metis imageE)
  ultimately have "q \<in> set to_embed" by (simp add: to_embed_def)
  then have "to_embed \<noteq> []" by auto
  then have fail: "embed_new en (map cn_text to_embed) em = (Inl x, em)" by (simp add: embed_new_def enc)
  have "raw \<noteq> []" using raw(2) by auto
  moreover define st1 where "st1 = st\<lparr>id_store := cs\<rparr>"
  moreover have old1: "get_chunks_by_file (fl_id e) (id_store st1) = ?old" and em1: "id_embed st1 = id_embed st"
    using old by (simp_all add: st1_def)
  ultimately have "index_chunks en (ie_decode en bytes) (fl_id e) st1 = (Inl x, st1\<lparr>id_embed := em\<rparr>)"
    unfolding index_chunks_def raw(1) sum.case Let_def old1 em1 recs_def [symmetric] hs_def [symmetric] kept_def [symmetric]
      gone_cs_def [symmetric] to_embed_def [symmetric]
    using em(1) fail by simp
  then have ic: "index_chunks en (ie_decode en bytes) (fl_id e) (st\<lparr>id_store := cs\<rparr>) = (Inl x, st\<lparr>id_store := cs, id_embed := em\<rparr>)"
    by (simp add: st1_def)
  have run: "index_file en w pn root_dir p st = (Inl x, st\<lparr>id_store := cs, id_embed := em\<rparr>)"
    using e(2) u ic by (simp add: index_file_def Let_def w e(1) flip: fr_def)
  obtain row where row: "cn_embedding_row c = Some row" using faithful_row [OF inv, of c] gone(1) by (auto simp: set_chunks_by_file)
  have "c \<in> set gone_cs" using gone hs by (simp add: gone_cs_def)
  then have "live em row = None" using em(2) row by (metis imageI)
  moreover have "index_file (en\<lparr>ie_encode := encode\<rparr>) w' pn root_dir p (st\<lparr>id_store := cs, id_embed := em\<rparr>)
      = (Inr (Some (length ?old, 0, length ?old)), st\<lparr>id_store := cs, id_embed := em\<rparr>)"
    using g by (simp add: index_file_def Let_def w(3) again old)
  ultimately show ?thesis using run row same by auto
qed

section \<open>An instance\<close>

definition demo_chunking :: chunker where
  "demo_chunking = \<lparr>ch_tokens_per_chunk = 1, ch_token_overlap = 0, ch_tokenizer = None, ch_chars_per_token = 4,
     ch_respect_sentences = False, ch_sentence_slack = 0\<rparr>"

definition demo_indexing :: indexer_env where
  "demo_indexing = \<lparr>ie_config = default_indexer_config, ie_chunker = demo_chunking, ie_sha1 = (\<lambda>t. t), ie_sha256 = (\<lambda>t. t),
     ie_encode = (\<lambda>ts. Inr (map (\<lambda>t. [real (length t)]) ts)), ie_model = ''m'', ie_model_sha = ''s'',
     ie_match = (\<lambda>ps p. False), ie_decode = (\<lambda>b. b), ie_utf8 = (\<lambda>b. True)\<rparr>"

definition demo_args :: embed_args where
  "demo_args = demo_embed_args\<lparr>ea_dim := 1\<rparr>"

definition demo_world :: "string \<Rightarrow> world" where
  \<comment> \<open>one file with the given content under \<open>/r\<close>\<close>
  "demo_world t = \<lparr>wo_file = [[''/'', ''r'', ''a.py''] \<mapsto> \<lparr>fi_bytes = Some t, fi_size = int (length t), fi_mtime = 0\<rparr>],
     wo_tree = [[''/'', ''r''] \<mapsto> DirTree [''a.py''] []], wo_gitignore = (\<lambda>p. None), wo_resolve = (\<lambda>p. p), wo_now = 7\<rparr>"

definition demo_history :: "index_op list" where
  \<comment> \<open>the second scan finds one of the two chunks unchanged\<close>
  "demo_history = [IAdd (demo_world ''abcd'') ''p'' [''/'', ''r''], IScan (demo_world ''abcdx'') ''p'', IScan (demo_world ''wxyzx'') ''p'']"

definition demo_state :: indexer where
  "demo_state = fold (idx_step demo_indexing) demo_history \<lparr>id_store = empty_chunks, id_embed = create_new demo_args\<rparr>"

lemma demo_ok: "indexer_env_ok demo_indexing" "encoder_fits demo_indexing (\<lambda>t. [real (length t)]) (create_new demo_args)"
  by (simp_all add: indexer_env_ok_def demo_indexing_def demo_chunking_def encoder_fits_def create_new_def demo_args_def
      demo_embed_args_def assert_normalized_def inj_def Let_def)

theorem index_rows_faithful_witness:
  "list_all (\<lambda>c. \<exists>r. cn_embedding_row c = Some r \<and> live (id_embed demo_state) r = Some [real (length (cn_text c))])
     (cs_chunks (id_store demo_state))"
  using index_rows_faithful [OF demo_ok, of demo_history] unfolding demo_state_def by (rule conjunct1)

definition demo_empty :: indexer where
  \<comment> \<open>one project, nothing indexed\<close>
  "demo_empty = \<lparr>id_store = empty_chunks\<lparr>cs_projects := [\<lparr>pj_name = ''p'', pj_root_path = ''/r'', pj_last_full_scan_at = 0, pj_session_id = None\<rparr>]\<rparr>,
     id_embed = create_new demo_args\<rparr>"

lemma demo_new_ok: "embed_ok (create_new demo_args)"
  by (auto simp: create_new_def embed_ok_def rows_ok_def Let_def)

lemma demo_empty_inv: "indexer_inv demo_indexing (\<lambda>t. [real (length t)]) demo_empty"
  using demo_ok(2) demo_new_ok by (simp add: indexer_inv_def faithful_def demo_empty_def db_ok_def empty_chunks_def)

lemma demo_file:
  "wo_file (demo_world t) [''/'', ''r'', ''a.py''] = Some \<lparr>fi_bytes = Some t, fi_size = int (length t), fi_mtime = 0\<rparr>"
  "relative_to [''/'', ''r'', ''a.py''] [''/'', ''r''] = Some [''a.py'']" "path_str [''a.py''] = ''a.py''"
  by (simp_all add: demo_world_def relative_to_def path_str_def path_abs_def)

lemma demo_cut:
  "map_sum id (map rc_text) (rag_chunk_text (\<lambda>t. t) demo_chunking ''abcdx'' 0) = Inr [''abcd'', ''x'']"
  "map_sum id (map rc_text) (rag_chunk_text (\<lambda>t. t) demo_chunking ''wxyz'' 0) = Inr [''wxyz'']"
  by code_simp+

lemma demo_indexing_simps [simp]:
  "ie_sha1 demo_indexing = (\<lambda>t. t)" "ie_sha256 demo_indexing = (\<lambda>t. t)" "ie_decode demo_indexing = (\<lambda>t. t)" "ie_chunker demo_indexing = demo_chunking"
  by (simp_all add: demo_indexing_def)

lemma build_records_text: "map cn_text (build_records en i t raw) = map rc_text raw"
  by (rule nth_equalityI) (simp_all add: build_records_def build_record_def nth_enumerate_eq)

theorem index_file_exact_witness:
  "\<exists>counts st' g. index_file demo_indexing (demo_world ''abcdx'') ''p'' [''/'', ''r''] [''/'', ''r'', ''a.py''] demo_empty = (Inr (Some counts), st')
    \<and> get_file ''p'' ''a.py'' (id_store st') = Some g
    \<and> map cn_text (get_chunks_by_file (fl_id g) (id_store st')) = [''abcd'', ''x'']
    \<and> index_file demo_indexing (demo_world ''abcdx'') ''p'' [''/'', ''r''] [''/'', ''r'', ''a.py''] st' = (Inr (Some (2, 0, 2)), st')"
proof -
  have p: "''p'' \<in> set (map pj_name (cs_projects (id_store demo_empty)))" by (simp add: demo_empty_def)
  have n: "get_file ''p'' ''a.py'' (id_store demo_empty) = None" by (simp add: get_file_def demo_empty_def empty_chunks_def)
  obtain counts st' raw g where x: "index_file demo_indexing (demo_world ''abcdx'') ''p'' [''/'', ''r''] [''/'', ''r'', ''a.py''] demo_empty = (Inr (Some counts), st')"
    "rag_chunk_text (\<lambda>t. t) demo_chunking ''abcdx'' 0 = Inr raw"
    "get_file ''p'' ''a.py'' (id_store st') = Some g"
    "map strip_record (get_chunks_by_file (fl_id g) (id_store st')) = build_records demo_indexing (fl_id g) ''abcdx'' raw"
    "index_file demo_indexing (demo_world ''abcdx'') ''p'' [''/'', ''r''] [''/'', ''r'', ''a.py''] st' = (Inr (Some (length raw, 0, length raw)), st')"
    using index_file_exact [OF demo_ok(1) demo_empty_inv demo_file(1) _ demo_file(2) p, of "''abcdx''"] by (auto simp: demo_file n)
  have r: "map rc_text raw = [''abcd'', ''x'']" using demo_cut(1) x(2) by simp
  have "map cn_text cs = map cn_text (map strip_record cs)" for cs by (simp add: strip_record_def)
  then have "map cn_text (get_chunks_by_file (fl_id g) (id_store st')) = map rc_text raw"
    by (metis x(4) build_records_text)
  moreover have "length raw = 2" using arg_cong [OF r, of length] by simp
  ultimately show ?thesis using x(1,3,5) r by (intro exI [of _ counts] exI [of _ st'] exI [of _ g]) simp
qed

lemma chunk_lines_exact_witness:
  "cn_start_line (build_record demo_indexing 1 [CHR ''a'', CHR 0x0A, CHR ''b''] 0
     \<lparr>rc_id = ''x'', rc_text = ''b'', rc_start_offset = 2, rc_end_offset = 3, rc_token_count = 1\<rparr>) = 2"
  using chunk_lines_exact [of "\<lparr>rc_id = ''x'', rc_text = ''b'', rc_start_offset = 2, rc_end_offset = 3, rc_token_count = 1\<rparr>"
      demo_indexing 1 "[CHR ''a'', CHR 0x0A, CHR ''b'']" 0] by (simp add: numeral_2_eq_2)

definition demo_indexed :: indexer where
  \<comment> \<open>the file indexed when it was \<open>abcd\<close>\<close>
  "demo_indexed = \<lparr>id_store = (id_store demo_empty)\<lparr>
       cs_files := [\<lparr>fl_id = 1, fl_project = ''p'', fl_rel_path = ''a.py'', fl_mtime = 0, fl_size_bytes = 4, fl_content_hash = ''abcd''\<rparr>],
       cs_chunks := [\<lparr>cn_id = 1, cn_file_id = 1, cn_chunk_index = 0, cn_start_offset = 0, cn_end_offset = 4, cn_start_line = 1, cn_end_line = 1,
         cn_token_count = 1, cn_content_hash = ''abcd'', cn_text = ''abcd'', cn_embedder_model = ''m'', cn_embedder_sha256 = ''s'',
         cn_embedding_row = Some 0\<rparr>]\<rparr>,
     id_embed = snd (append_row [4] (create_new demo_args))\<rparr>"

lemma demo_indexed_inv: "faithful (demo_indexing\<lparr>ie_encode := e\<rparr>) (\<lambda>t. [real (length t)]) demo_indexed"
proof -
  have "live (snd (append_row [4] (create_new demo_args))) 0 = Some [4]" "embed_ok (snd (append_row [4] (create_new demo_args)))"
    by (auto simp: append_row_def append_data_def create_new_def demo_args_def demo_embed_args_def assert_normalized_def
        save_idx_def zero_row_def Let_def live_def numeral_2_eq_2 embed_ok_def rows_ok_def take_free_def less_Suc_eq nth_Cons')
  then show ?thesis
    by (simp add: faithful_def demo_indexed_def demo_empty_def db_ok_def empty_chunks_def)
qed

theorem failed_embed_sticks_witness:
  "\<exists>st' row. index_file (demo_indexing\<lparr>ie_encode := \<lambda>ts. Inl RuntimeError\<rparr>) (demo_world ''wxyz'') ''p'' [''/'', ''r''] [''/'', ''r'', ''a.py''] demo_indexed
      = (Inl RuntimeError, st')
    \<and> cs_chunks (id_store st') = cs_chunks (id_store demo_indexed) \<and> live (id_embed st') row = None \<and> row = 0
    \<and> index_file demo_indexing (demo_world ''wxyz'') ''p'' [''/'', ''r''] [''/'', ''r'', ''a.py''] st' = (Inr (Some (1, 0, 1)), st')"
proof -
  have get: "get_file ''p'' ''a.py'' (id_store demo_indexed) = Some (hd (cs_files (id_store demo_indexed)))"
    "fl_id (hd (cs_files (id_store demo_indexed))) = 1" "fl_content_hash (hd (cs_files (id_store demo_indexed))) = ''abcd''"
    "get_chunks_by_file 1 (id_store demo_indexed) = cs_chunks (id_store demo_indexed)"
    "map cn_content_hash (cs_chunks (id_store demo_indexed)) = [''abcd'']" "map cn_embedding_row (cs_chunks (id_store demo_indexed)) = [Some 0]"
    by (simp_all add: get_file_def demo_indexed_def get_chunks_by_file_def)
  obtain c where c: "cs_chunks (id_store demo_indexed) = [c]" "cn_content_hash c = ''abcd''" "cn_embedding_row c = Some 0"
    using get(5,6) by auto
  obtain r where r: "rag_chunk_text (\<lambda>t. t) demo_chunking ''wxyz'' 0 = Inr [r]" "rc_text r = ''wxyz''"
    using demo_cut(2) by (cases "rag_chunk_text (\<lambda>t. t) demo_chunking ''wxyz'' 0") auto
  have same_env: "demo_indexing\<lparr>ie_encode := \<lambda>ts. Inl RuntimeError\<rparr>\<lparr>ie_encode := ie_encode demo_indexing\<rparr> = demo_indexing" by simp
  show ?thesis
    using failed_embed_sticks [OF demo_indexed_inv _ demo_file(1) _ demo_file(2), of "\<lambda>ts. Inl RuntimeError" RuntimeError "''wxyz''" "''wxyz''" "''p''"
        "hd (cs_files (id_store demo_indexed))" "[r]" r c "demo_world ''wxyz''" _ "ie_encode demo_indexing"] get c r
    by (auto simp: demo_file same_env)
qed

text \<open>The file is indexed when the project is new.\<close>

lemma demo_cut4: "\<exists>i. rag_chunk_text (\<lambda>t. t) demo_chunking ''abcd'' 0 = Inr [\<lparr>rc_id = i, rc_text = ''abcd'', rc_start_offset = 0, rc_end_offset = 4, rc_token_count = 1\<rparr>]"
proof -
  have "map_sum id (map (\<lambda>c. c\<lparr>rc_id := []\<rparr>)) (rag_chunk_text (\<lambda>t. t) demo_chunking ''abcd'' 0)
      = Inr [\<lparr>rc_id = [], rc_text = ''abcd'', rc_start_offset = 0, rc_end_offset = 4, rc_token_count = 1\<rparr>]" by code_simp
  then obtain c where c: "rag_chunk_text (\<lambda>t. t) demo_chunking ''abcd'' 0 = Inr [c]" "c\<lparr>rc_id := []\<rparr> = \<lparr>rc_id = [], rc_text = ''abcd'', rc_start_offset = 0, rc_end_offset = 4, rc_token_count = 1\<rparr>"
    by (cases "rag_chunk_text (\<lambda>t. t) demo_chunking ''abcd'' 0") auto
  then show ?thesis by (cases c) simp
qed

lemma demo_add: "idx_step demo_indexing (IAdd (demo_world ''abcd'') ''p'' [''/'', ''r'']) \<lparr>id_store = empty_chunks, id_embed = create_new demo_args\<rparr> = demo_empty"
  by (simp add: add_project_def demo_world_def Let_def demo_indexing_def default_indexer_config_def default_forbidden_dirs_def path_name_def demo_empty_def
     upsert_project_def get_project_def empty_chunks_def path_str_def path_abs_def)

lemma demo_should: "should_index demo_indexing (demo_world ''abcd'') [''/'', ''r''] [''/'', ''r'', ''a.py'']"
  by (simp add: should_index_def demo_file matches_any_def demo_indexing_def Let_def default_indexer_config_def gitignored_def demo_world_def relative_to_def
   looks_binary_def default_secret_patterns_def)

definition demo_em :: embed_store where
  "demo_em = snd (append_row [4] (create_new demo_args))"

lemma demo_em_eq: "append_batch [[4]] (create_new demo_args) = (Inr [0], demo_em)"
proof -
  have "reserve 1 (create_new demo_args) = create_new demo_args"
    by (subst reserve.simps) (simp add: create_new_def demo_args_def demo_embed_args_def Let_def)
  then show ?thesis
    by (simp add: append_batch_def demo_em_def append_row_def append_data_def write_tail_def Let_def save_idx_def)
      (simp add: demo_args_def demo_embed_args_def create_new_def Let_def assert_normalized_def zero_row_def numeral_2_eq_2 save_idx_def)
qed

lemma demo_update_file: "\<exists>res. update_file demo_indexing (demo_world ''abcd'') ''p'' [''/'', ''r'', ''a.py''] demo_empty = (Inr res, demo_indexed)"
proof -
  obtain i where cut: "rag_chunk_text (\<lambda>t. t) demo_chunking ''abcd'' 0 = Inr [\<lparr>rc_id = i, rc_text = ''abcd'', rc_start_offset = 0, rc_end_offset = 4, rc_token_count = 1\<rparr>]"
    using demo_cut4 by blast
  have w: "wo_resolve (demo_world ''abcd'') = (\<lambda>p. p)" by (simp add: demo_world_def)
  have ch: "ie_encode demo_indexing = (\<lambda>ts. Inr (map (\<lambda>t. [real (length t)]) ts))" "ie_model demo_indexing = ''m''" "ie_model_sha demo_indexing = ''s''"
    by (simp_all add: demo_indexing_def)
  have root: "path_of ''/r'' = [''/'', ''r'']" by code_simp
  have e: "embedder_consistent demo_indexing (id_store demo_empty)" by (simp add: embedder_consistent_def stored_shas_def list_projects_def list_files_def demo_empty_def empty_chunks_def)
  have g: "get_project ''p'' (id_store demo_empty) = Some \<lparr>pj_name = ''p'', pj_root_path = ''/r'', pj_last_full_scan_at = 0, pj_session_id = None\<rparr>"
     by (simp add: demo_empty_def get_project_def)
  have i: "\<exists>counts. index_file demo_indexing (demo_world ''abcd'') ''p'' [''/'', ''r''] [''/'', ''r'', ''a.py''] demo_empty = (Inr counts, demo_indexed)"
    apply (simp add: index_file_def demo_file Let_def)
    apply (simp add: get_file_def demo_empty_def empty_chunks_def upsert_file_def file_entry_def next_id_def)
    apply (simp add: index_chunks_def cut get_chunks_by_file_def Let_def build_records_def build_record_def line_start_offsets_def offset_to_line_def bisect_right_def
       rows_by_hash_def embed_new_def ch demo_file)
    apply (simp add: demo_em_eq upsert_chunks_def upsert_chunk_def delete_chunks_by_file_def next_id_def demo_indexed_def demo_empty_def empty_chunks_def demo_em_def)
    done
  then show ?thesis by (auto simp: update_file_def e g w Let_def root demo_should)
qed

lemma demo_update: "idx_step demo_indexing (IUpdate (demo_world ''abcd'') ''p'' [''/'', ''r'', ''a.py'']) demo_empty = demo_indexed"
  using demo_update_file by auto

end
