(* ===== verification/Dmn_Watch.thy ===== *)
theory Dmn_Watch
  imports Dmn_Indexer
begin

text \<open>
  The daemon's watcher (\<open>longctx_daemon/watcher.py\<close>): events of the file system wait in a queue per
  project, are merged after the debounce time and reach the indexer; a full queue is replaced by a
  walk of the project; a sweep looks for changes that no event told of, drops projects whose root
  stays away and pauses projects nobody asks for. All of it runs on one event loop, so the steps
  between two \<open>await\<close> are atomic: they are the operations here, and a history interleaves them
  freely: a sweep is its visits to the projects and the cleanup after them, a drain is its taking and
  then a step per batch. What the loop hands to a thread (a batch for the indexer, a walk) counts as
  one step; the code puts each event of a walk into the queue under the lock. The clocks, the CPU
  load and the file system (as in \<open>Dmn_Indexer\<close>) are arguments.
  \<open>watchfiles\<close>, logging and the retries after its errors are left out.
\<close>

section \<open>Events, configuration, state\<close>

datatype event_type = CREATE | MODIFY | DELETE | RENAME

record watch_event =
  we_project :: string
  we_type :: event_type
  we_path :: string
  we_old_path :: "string option"
  we_observed_at :: real

record watcher_config =
  wf_debounce_ms :: int
  wf_queue_size :: int
  wf_mtime_sweep_seconds :: int
  wf_idle_pause_days :: int
  wf_missing_root_grace_days :: int
  wf_check_seconds :: int
  wf_ignore_dirs :: "string list"
  wf_embed_chunks_per_second :: real
  wf_self_throttle_cpu_pct :: real

definition default_watcher_config :: watcher_config where
  "default_watcher_config = \<lparr>wf_debounce_ms = 200, wf_queue_size = 10000, wf_mtime_sweep_seconds = 30, wf_idle_pause_days = 30,
     wf_missing_root_grace_days = 7, wf_check_seconds = 3600,
     wf_ignore_dirs = [''.git'', ''.hg'', ''.svn'', ''target'', ''build'', ''dist'', ''.build'', ''node_modules'', ''bower_components'',
       ''__pycache__'', ''.pytest_cache'', ''.ruff_cache'', ''.mypy_cache'', ''.venv'', ''venv'', ''env'', ''.idea'', ''.vscode'',
       ''.next'', ''.svelte-kit'', ''.nuxt'', ''criterion'', ''outputs'', ''.cache'', ''DerivedData'', ''.gradle''],
     wf_embed_chunks_per_second = 20, wf_self_throttle_cpu_pct = 70\<rparr>"

definition watch_filter :: "string list \<Rightarrow> string \<Rightarrow> bool" where
  "watch_filter ignore_dirs p = list_all (\<lambda>part. part \<notin> set ignore_dirs) (split_on (CHR ''/'') p)"

record proj_watch =
  pw_root :: path
  pw_queue :: "watch_event list"
  pw_last_event_at :: real
  pw_last_query_at :: real
  pw_paused :: bool
  pw_rescan_pending :: bool
  pw_first_missing_at :: "real option"
  pw_watched :: "path option"               \<comment> \<open>the root a live watch task was started on\<close>

section \<open>The token bucket\<close>

record bucket =
  tb_rate :: real
  tb_burst :: real
  tb_tokens :: real
  tb_last_refill :: real

definition new_bucket :: "real \<Rightarrow> real \<Rightarrow> real \<Rightarrow> bucket" where
  "new_bucket tokens_per_second burst now =
     \<lparr>tb_rate = max 0 tokens_per_second, tb_burst = max 1 burst, tb_tokens = max 1 burst, tb_last_refill = now\<rparr>"

definition refill :: "real \<Rightarrow> bucket \<Rightarrow> bucket" where
  "refill now b =
     (let elapsed = now - tb_last_refill b
      in if elapsed > 0 then b\<lparr>tb_tokens := min (tb_burst b) (tb_tokens b + elapsed * tb_rate b), tb_last_refill := now\<rparr> else b)"

definition acquire :: "real \<Rightarrow> real \<Rightarrow> real \<Rightarrow> bucket \<Rightarrow> real \<times> bucket" where
  \<comment> \<open>the time slept and the bucket; \<open>later\<close> is the clock after the sleep\<close>
  "acquire n now later b =
     (if tb_rate b \<le> 0 then (0, b)
      else let b = refill now b in
        if tb_tokens b \<ge> n then (0, b\<lparr>tb_tokens := tb_tokens b - n\<rparr>)
        else let sleep = max (1 / 100) ((n - tb_tokens b) / tb_rate b) in
          if n > tb_burst b then (sleep, b\<lparr>tb_tokens := 0, tb_last_refill := later\<rparr>)
          else (sleep, b\<lparr>tb_tokens := max 0 (min (tb_burst b) (tb_tokens b + (later - tb_last_refill b) * tb_rate b) - n),
                         tb_last_refill := later\<rparr>))"

definition set_rate :: "real \<Rightarrow> bucket \<Rightarrow> bucket" where
  "set_rate tokens_per_second b = b\<lparr>tb_rate := max 0 tokens_per_second\<rparr>"

record watcher =
  wx_config :: watcher_config
  wx_states :: "(string, proj_watch) dict"
  wx_running :: bool                                            \<comment> \<open>\<open>run\<close> is under way, with \<open>watchfiles\<close>\<close>
  wx_in_flight :: "(string \<times> watch_event list \<times> bool) list"    \<comment> \<open>what \<open>_drain_now\<close> took and still has to handle\<close>
  wx_indexed_through :: string
  wx_last_cleanup_at :: real
  wx_bucket :: bucket
  wx_throttle_active :: bool
  wx_last_throttle_check :: real

definition watcher_new :: "watcher_config \<Rightarrow> real \<Rightarrow> string \<Rightarrow> watcher" where
  "watcher_new cf now stamp =
     \<lparr>wx_config = cf, wx_states = [], wx_running = False, wx_in_flight = [], wx_indexed_through = stamp, wx_last_cleanup_at = 0,
      wx_bucket = new_bucket (wf_embed_chunks_per_second cf) (max 10 (wf_embed_chunks_per_second cf / 2)) now,
      wx_throttle_active = False, wx_last_throttle_check = 0\<rparr>"

definition put_state :: "string \<Rightarrow> proj_watch \<Rightarrow> watcher \<Rightarrow> watcher" where
  "put_state name s x = x\<lparr>wx_states := dict_set name s (wx_states x)\<rparr>"

definition with_state :: "string \<Rightarrow> watcher \<Rightarrow> (proj_watch \<Rightarrow> watcher) \<Rightarrow> watcher" where
  "with_state name x act = (case dict_get (wx_states x) name of None \<Rightarrow> x | Some s \<Rightarrow> act s)"

section \<open>The registry\<close>

definition spawn_watch_task :: "string \<Rightarrow> watcher \<Rightarrow> watcher" where
  "spawn_watch_task name x =
     (if \<not> wx_running x then x
      else with_state name x (\<lambda>s. if pw_paused s \<or> pw_watched s \<noteq> None then x else put_state name (s\<lparr>pw_watched := Some (pw_root s)\<rparr>) x))"

definition watch_add :: "string \<Rightarrow> path \<Rightarrow> real \<Rightarrow> watcher \<Rightarrow> watcher" where
  "watch_add name root_path now x =
     (let s = (case dict_get (wx_states x) name of
                 Some existing \<Rightarrow> existing\<lparr>pw_root := root_path, pw_first_missing_at := None, pw_paused := False, pw_rescan_pending := False\<rparr>
               | None \<Rightarrow> \<lparr>pw_root = root_path, pw_queue = [], pw_last_event_at = 0, pw_last_query_at = now, pw_paused = False,
                          pw_rescan_pending = False, pw_first_missing_at = None, pw_watched = None\<rparr>)
      in spawn_watch_task name (put_state name s x))"

definition watch_remove :: "string \<Rightarrow> watcher \<Rightarrow> watcher" where
  "watch_remove name x = x\<lparr>wx_states := dict_pop name (wx_states x)\<rparr>"

definition pause_project :: "string \<Rightarrow> watcher \<Rightarrow> watcher" where
  "pause_project name x =
     with_state name x (\<lambda>s. if pw_paused s then x else put_state name (s\<lparr>pw_paused := True, pw_watched := None\<rparr>) x)"

definition resume_project :: "string \<Rightarrow> watcher \<Rightarrow> watcher" where
  \<comment> \<open>a running loop then walks the project and watches it again: \<open>resume_task\<close>\<close>
  "resume_project name x = with_state name x (\<lambda>s. if pw_paused s then put_state name (s\<lparr>pw_paused := False\<rparr>) x else x)"

definition note_query :: "string option \<Rightarrow> real \<Rightarrow> watcher \<Rightarrow> watcher" where
  "note_query project now x =
     (case project of
        None \<Rightarrow> x
      | Some name \<Rightarrow>
          with_state name x (\<lambda>s. let x' = put_state name (s\<lparr>pw_last_query_at := now\<rparr>) x in if pw_paused s then resume_project name x' else x'))"

definition watch_run :: "watcher \<Rightarrow> watcher" where
  "watch_run x = fold spawn_watch_task (dict_keys (wx_states x)) (x\<lparr>wx_running := True\<rparr>)"

definition watch_shutdown :: "watcher \<Rightarrow> watcher" where
  \<comment> \<open>\<open>stop\<close> and \<open>_shutdown\<close>; cancelling the worker inside \<open>_drain_now\<close> loses the batches it had taken and
    not yet handled; the worker's last drain is steps of its own\<close>
  "watch_shutdown x =
     x\<lparr>wx_states := map (\<lambda>(name, s). (name, s\<lparr>pw_watched := None\<rparr>)) (wx_states x), wx_running := False, wx_in_flight := []\<rparr>"

definition watch_task_ended :: "string \<Rightarrow> watcher \<Rightarrow> watcher" where
  \<comment> \<open>the root vanished\<close>
  "watch_task_ended name x = with_state name x (\<lambda>s. put_state name (s\<lparr>pw_watched := None\<rparr>) x)"

section \<open>The queues\<close>

definition enqueue_event :: "watch_event \<Rightarrow> real \<Rightarrow> watcher \<Rightarrow> watcher" where
  "enqueue_event event now x =
     with_state (we_project event) x (\<lambda>s.
       if pw_rescan_pending s then put_state (we_project event) (s\<lparr>pw_last_event_at := now\<rparr>) x
       else let queue = pw_queue s @ [event] in
         put_state (we_project event)
           (if int (length queue) > wf_queue_size (wx_config x)
            then s\<lparr>pw_queue := [], pw_last_event_at := now, pw_rescan_pending := True\<rparr>
            else s\<lparr>pw_queue := queue, pw_last_event_at := now\<rparr>) x)"

definition watch_changes :: "string \<Rightarrow> real \<Rightarrow> (event_type option \<times> string) list \<Rightarrow> watcher \<Rightarrow> watcher" where
  \<comment> \<open>one batch of \<open>watchfiles\<close>, past its filter; None is a change of another kind\<close>
  "watch_changes name now changes x =
     fold (\<lambda>(t, p) x. case t of
             None \<Rightarrow> x
           | Some t \<Rightarrow> enqueue_event \<lparr>we_project = name, we_type = t, we_path = p, we_old_path = None, we_observed_at = now\<rparr> now x)
       (filter (\<lambda>(t, p). watch_filter (wf_ignore_dirs (wx_config x)) p) changes) x"

definition pending_updates :: "string option \<Rightarrow> watcher \<Rightarrow> nat" where
  "pending_updates project x =
     (case project of
        Some name \<Rightarrow> (case dict_get (wx_states x) name of None \<Rightarrow> 0 | Some s \<Rightarrow> length (pw_queue s))
      | None \<Rightarrow> sum_list (map (\<lambda>(name, s). length (pw_queue s)) (wx_states x)))"

fun wait_for_quiescence :: "string option \<Rightarrow> real \<Rightarrow> (real \<times> watcher) list \<Rightarrow> nat \<times> string" where
  \<comment> \<open>the clock and the watcher at the call and at each wakeup, last at the timeout\<close>
  "wait_for_quiescence project deadline [] = (0, [])"
| "wait_for_quiescence project deadline ((now, x) # rest) =
     (let pending = pending_updates project x
      in if pending = 0 then (0, wx_indexed_through x)
         else if deadline - now \<le> 0 \<or> rest = [] then (pending, wx_indexed_through x)
         else wait_for_quiescence project deadline rest)"

section \<open>Merging a batch\<close>

definition first_at :: "watch_event list \<Rightarrow> string \<Rightarrow> event_type \<Rightarrow> nat option" where
  "first_at events p t = map_option fst (find (\<lambda>(i, ev). we_path ev = p \<and> we_type ev = t) (enumerate 0 events))"

definition saved_in_place :: "watch_event list \<Rightarrow> string \<Rightarrow> bool" where
  "saved_in_place events p =
     (case (first_at events p DELETE, first_at events p CREATE) of (Some d, Some c) \<Rightarrow> d < c | _ \<Rightarrow> False)"

definition per_path :: "watch_event list \<Rightarrow> real \<Rightarrow> (string, watch_event) dict" where
  \<comment> \<open>the last event of each path, in the order of first mention; a deletion then a creation is a change\<close>
  "per_path events now =
     map (\<lambda>(p, ev).
            (p, if we_type ev = CREATE \<and> saved_in_place events p
                then \<lparr>we_project = we_project ev, we_type = MODIFY, we_path = p, we_old_path = None, we_observed_at = now\<rparr> else ev))
       (fold (\<lambda>ev. dict_set (we_path ev) ev) events [])"

definition coalesce_events :: "watch_event list \<Rightarrow> real \<Rightarrow> watch_event list" where
  "coalesce_events events now =
     (let d = per_path events now;
          deletes = filter (\<lambda>ev. we_type ev = DELETE) (map snd d);
          creates = filter (\<lambda>ev. we_type ev = CREATE) (map snd d)
      in case (deletes, creates) of
           ([old], [new]) \<Rightarrow>
             if we_path old \<noteq> we_path new
             then map snd (dict_set (we_path new)
                    \<lparr>we_project = we_project old, we_type = RENAME, we_path = we_path new, we_old_path = Some (we_path old), we_observed_at = now\<rparr>
                    (dict_pop (we_path old) d))
             else map snd d
         | _ \<Rightarrow> map snd d)"

section \<open>What the indexer is told\<close>

definition event_file :: "world \<Rightarrow> path \<Rightarrow> string \<Rightarrow> path" where
  "event_file w root_dir p = (let q = path_of p in if path_abs q then q else wo_resolve w (root_dir @ q))"

definition to_rel :: "world \<Rightarrow> path \<Rightarrow> string \<Rightarrow> string option" where
  "to_rel w root_dir abs_path = map_option path_str (relative_to (event_file w root_dir abs_path) root_dir)"

definition apply_tail :: "indexer_env \<Rightarrow> world \<Rightarrow> string \<Rightarrow> path \<Rightarrow> watch_event \<Rightarrow> indexer \<Rightarrow> indexer" where
  \<comment> \<open>what the indexer raises is logged\<close>
  "apply_tail en w name root_dir ev st =
     (case we_type ev of
        DELETE \<Rightarrow> (case to_rel w root_dir (we_path ev) of None \<Rightarrow> st | Some rel \<Rightarrow> snd (idx_delete_file name rel st))
      | RENAME \<Rightarrow>
          (case (to_rel w root_dir (case we_old_path ev of None \<Rightarrow> [] | Some p \<Rightarrow> p), to_rel w root_dir (we_path ev)) of
             (Some rel_old, Some rel_new) \<Rightarrow> snd (idx_rename_file en w name rel_old rel_new st)
           | _ \<Rightarrow> st)
      | _ \<Rightarrow> st)"

definition apply_events :: "indexer_env \<Rightarrow> world \<Rightarrow> string \<Rightarrow> path \<Rightarrow> watch_event list \<Rightarrow> indexer \<Rightarrow> indexer" where
  \<comment> \<open>for a project that is registered, with its root\<close>
  "apply_events en w name root_dir events st =
     (let bulk_paths = map (\<lambda>ev. event_file w root_dir (we_path ev)) (filter (\<lambda>ev. we_type ev = CREATE \<or> we_type ev = MODIFY) events);
          per_event_tail = filter (\<lambda>ev. \<not> (we_type ev = CREATE \<or> we_type ev = MODIFY)) events;
          st = (if bulk_paths = [] then st
                else case update_files en w name bulk_paths st of
                       (Inr res, st) \<Rightarrow> st
                     | (Inl exc, st) \<Rightarrow> fold (\<lambda>p st. snd (update_file en w name p st)) bulk_paths st)
      in fold (apply_tail en w name root_dir) per_event_tail st)"

section \<open>The walk of a project\<close>

definition root_exists :: "world \<Rightarrow> path \<Rightarrow> bool" where
  "root_exists w root_dir \<longleftrightarrow> wo_tree w root_dir \<noteq> None \<or> wo_file w root_dir \<noteq> None"

definition skip_dirs :: "string list" where
  "skip_dirs = [''.git'', ''node_modules'', ''__pycache__'', ''.venv'', ''venv'', ''.pytest_cache'', ''target'', ''build'', ''dist'',
     ''.next'', ''.svelte-kit'', ''.tox'', ''.mypy_cache'', ''.ruff_cache'']"

fun sweep_walk :: "path \<Rightarrow> dir_tree \<Rightarrow> path list" where
  "sweep_walk dirpath (DirTree fnames dirs) =
     map (\<lambda>f. dirpath @ [f]) fnames @ concat (map (\<lambda>(d, t). if d \<in> set skip_dirs then [] else sweep_walk (dirpath @ [d]) t) dirs)"

definition recorded_mtimes :: "string \<Rightarrow> indexer \<Rightarrow> (string, int) dict" where
  "recorded_mtimes name st = fold (\<lambda>r. dict_set (fl_rel_path r) (fl_mtime r)) (list_files (Some name) (id_store st)) []"

definition walk_found :: "world \<Rightarrow> path \<Rightarrow> (string \<times> path) list" where
  \<comment> \<open>the files under the root, with their relative paths\<close>
  "walk_found w root_dir =
     concat (map (\<lambda>full. case relative_to full root_dir of None \<Rightarrow> [] | Some rel \<Rightarrow> [(path_str rel, full)])
       (case wo_tree w root_dir of None \<Rightarrow> [] | Some t \<Rightarrow> sweep_walk root_dir t))"

definition walk_events :: "world \<Rightarrow> string \<Rightarrow> path \<Rightarrow> (string, int) dict \<Rightarrow> real \<Rightarrow> watch_event list" where
  \<comment> \<open>new and newer files in walk order, then the files that are gone (in Python in the order of a set)\<close>
  "walk_events w name root_dir recorded now =
     (let event = (\<lambda>t p. \<lparr>we_project = name, we_type = t, we_path = path_str p, we_old_path = None, we_observed_at = now\<rparr>);
          found = walk_found w root_dir;
          changed = concat (map (\<lambda>(rel, full).
             case wo_file w full of
               None \<Rightarrow> []
             | Some f \<Rightarrow> (case dict_get recorded rel of
                   None \<Rightarrow> [event CREATE full]
                 | Some rec_mtime \<Rightarrow> if fi_mtime f > rec_mtime then [event MODIFY full] else [])) found);
          gone = map (\<lambda>rel. event DELETE (root_dir @ path_of rel)) (filter (\<lambda>rel. rel \<notin> set (map fst found)) (dict_keys recorded))
      in changed @ gone)"

definition mtime_walk_project :: "world \<Rightarrow> string \<Rightarrow> indexer \<Rightarrow> real \<Rightarrow> watcher \<Rightarrow> watcher" where
  \<comment> \<open>one removed and added again in the meantime is taken for the new one\<close>
  "mtime_walk_project w name st now x =
     with_state name x (\<lambda>s.
       if \<not> root_exists w (pw_root s) then x
       else fold (\<lambda>ev. enqueue_event ev now) (walk_events w name (pw_root s) (recorded_mtimes name st) now) x)"

definition resume_task :: "world \<Rightarrow> string \<Rightarrow> indexer \<Rightarrow> real \<Rightarrow> watcher \<Rightarrow> watcher" where
  \<comment> \<open>\<open>_spawn_resume_task_safe\<close>\<close>
  "resume_task w name st now x = spawn_watch_task name (mtime_walk_project w name st now x)"

section \<open>Draining\<close>

definition debounced :: "watcher_config \<Rightarrow> real \<Rightarrow> proj_watch \<Rightarrow> bool" where
  "debounced cf now s =
     (case pw_queue s of [] \<Rightarrow> False | ev # evs \<Rightarrow> we_observed_at ev + real_of_int (wf_debounce_ms cf) / 1000 \<le> now)"

definition ready_events :: "watcher_config \<Rightarrow> real \<Rightarrow> proj_watch \<Rightarrow> watch_event list" where
  "ready_events cf now s = (if debounced cf now s then pw_queue s else [])"

definition take_ready :: "real \<Rightarrow> watcher \<Rightarrow> watcher" where
  \<comment> \<open>the first half of \<open>_drain_now\<close>, which its only caller starts when the last drain is done\<close>
  "take_ready now x =
     (if wx_in_flight x \<noteq> [] then x
      else x\<lparr>wx_in_flight := concat (map (\<lambda>(name, s).
                if ready_events (wx_config x) now s \<noteq> [] \<or> pw_rescan_pending s
                then [(name, ready_events (wx_config x) now s, pw_rescan_pending s)] else []) (wx_states x)),
             wx_states := map (\<lambda>(name, s).
                (name, if debounced (wx_config x) now s then s\<lparr>pw_queue := [], pw_rescan_pending := False\<rparr> else s\<lparr>pw_rescan_pending := False\<rparr>))
                (wx_states x)\<rparr>)"

definition next_deadline :: "real \<Rightarrow> watcher \<Rightarrow> real option" where
  \<comment> \<open>when \<open>_worker_loop\<close> drains next; None: it waits for an event\<close>
  "next_deadline now x =
     (let deadlines = concat (map (\<lambda>(name, s).
            case pw_queue s of
              ev # evs \<Rightarrow> [we_observed_at ev + real_of_int (wf_debounce_ms (wx_config x)) / 1000]
            | [] \<Rightarrow> if pw_rescan_pending s then [now] else []) (wx_states x))
      in if deadlines = [] then None else Some (Min (set deadlines)))"

definition apply_ready :: "indexer_env \<Rightarrow> world \<Rightarrow> real \<Rightarrow> real \<Rightarrow> string \<Rightarrow> watcher \<times> indexer \<Rightarrow> watcher \<times> indexer" where
  \<comment> \<open>one turn of the second half of \<open>_drain_now\<close>; \<open>later\<close> is the clock after the rate limit, \<open>stamp\<close> the time at the end\<close>
  "apply_ready en w now later stamp = (\<lambda>(x, st).
     case wx_in_flight x of
       [] \<Rightarrow> (x, st)
     | (name, events, rescan) # rest \<Rightarrow>
         let x = x\<lparr>wx_in_flight := rest, wx_indexed_through := (if rest = [] then stamp else wx_indexed_through x)\<rparr>
         in if rescan then (mtime_walk_project w name st now x, st)
            else let coalesced = coalesce_events events now
                 in if coalesced = [] then (x, st)
                    else (x\<lparr>wx_bucket := snd (acquire (real (length coalesced)) now later (wx_bucket x))\<rparr>,
                          case dict_get (wx_states x) name of
                            None \<Rightarrow> st
                          | Some s \<Rightarrow> apply_events en w name (pw_root s) coalesced st))"

definition self_throttle :: "real \<Rightarrow> real \<Rightarrow> watcher \<Rightarrow> watcher" where
  \<comment> \<open>\<open>pct\<close> is the CPU load since the last look\<close>
  "self_throttle pct now x =
     (let cf = wx_config x; threshold = wf_self_throttle_cpu_pct cf; baseline = wf_embed_chunks_per_second cf in
      if threshold \<le> 0 then x
      else if now - wx_last_throttle_check x < 60 then x
      else let x = x\<lparr>wx_last_throttle_check := now\<rparr> in
        if pct > threshold \<and> \<not> wx_throttle_active x
        then x\<lparr>wx_bucket := set_rate (max 1 (baseline / 2)) (wx_bucket x), wx_throttle_active := True\<rparr>
        else if pct < threshold * (3 / 5) \<and> wx_throttle_active x
        then x\<lparr>wx_bucket := set_rate baseline (wx_bucket x), wx_throttle_active := False\<rparr>
        else x)"

section \<open>Sweep and cleanup\<close>

definition cleanup_one :: "world \<Rightarrow> real \<Rightarrow> string \<Rightarrow> watcher \<times> indexer \<Rightarrow> watcher \<times> indexer" where
  "cleanup_one w now name = (\<lambda>(x, st).
     case dict_get (wx_states x) name of
       None \<Rightarrow> (x, st)
     | Some s \<Rightarrow>
         let grace_seconds = real_of_int (wf_missing_root_grace_days (wx_config x)) * 86400;
             idle_seconds = real_of_int (wf_idle_pause_days (wx_config x)) * 86400;
             missing = \<not> root_exists w (pw_root s);
             since = (case pw_first_missing_at s of None \<Rightarrow> now | Some t \<Rightarrow> t)
         in if missing \<and> now - since \<ge> grace_seconds
            then (watch_remove name x, snd (idx_delete_project name st))
            else let s = s\<lparr>pw_first_missing_at := (if missing then Some since else None)\<rparr>; x = put_state name s x
                 in if \<not> pw_paused s \<and> now - pw_last_query_at s \<ge> idle_seconds \<and> pw_queue s = []
                    then (pause_project name x, st) else (x, st))"

definition cleanup_tick :: "world \<Rightarrow> real \<Rightarrow> watcher \<times> indexer \<Rightarrow> watcher \<times> indexer" where
  "cleanup_tick w now = (\<lambda>(x, st). fold (cleanup_one w now) (dict_keys (wx_states x)) (x, st))"

definition sweep_visit :: "world \<Rightarrow> string \<Rightarrow> indexer \<Rightarrow> real \<Rightarrow> watcher \<Rightarrow> watcher" where
  \<comment> \<open>\<open>_mtime_sweep_once\<close>, the turn of one project\<close>
  "sweep_visit w name st ticks x = with_state name x (\<lambda>s. if pw_paused s then x else mtime_walk_project w name st ticks x)"

definition sweep_cleanup :: "world \<Rightarrow> real \<Rightarrow> watcher \<times> indexer \<Rightarrow> watcher \<times> indexer" where
  \<comment> \<open>\<open>_mtime_sweep_once\<close> after the visits\<close>
  "sweep_cleanup w now = (\<lambda>(x, st).
     if now - wx_last_cleanup_at x \<ge> real_of_int (wf_check_seconds (wx_config x))
     then cleanup_tick w now (x\<lparr>wx_last_cleanup_at := now\<rparr>, st) else (x, st))"

section \<open>Histories\<close>

datatype watch_op =
    WAdd string path real | WRemove string | WPause string | WResume string | WResumed world string real | WQuery "string option" real
  | WRun | WShutdown | WEnded string | WEvent watch_event real | WChanges string real "(event_type option \<times> string) list"
  | WTake real | WApply world real real string | WThrottle real real | WWalk world string real | WVisit world string real
  | WCleanup world real

fun watch_step :: "indexer_env \<Rightarrow> watch_op \<Rightarrow> watcher \<times> indexer \<Rightarrow> watcher \<times> indexer" where
  "watch_step en (WAdd name root_path now) (x, st) = (watch_add name root_path now x, st)"
| "watch_step en (WRemove name) (x, st) = (watch_remove name x, st)"
| "watch_step en (WPause name) (x, st) = (pause_project name x, st)"
| "watch_step en (WResume name) (x, st) = (resume_project name x, st)"
| "watch_step en (WResumed w name now) (x, st) = (resume_task w name st now x, st)"
| "watch_step en (WQuery project now) (x, st) = (note_query project now x, st)"
| "watch_step en WRun (x, st) = (watch_run x, st)"
| "watch_step en WShutdown (x, st) = (watch_shutdown x, st)"
| "watch_step en (WEnded name) (x, st) = (watch_task_ended name x, st)"
| "watch_step en (WEvent ev now) (x, st) = (enqueue_event ev now x, st)"
| "watch_step en (WChanges name now changes) (x, st) = (watch_changes name now changes x, st)"
| "watch_step en (WTake now) (x, st) = (take_ready now x, st)"
| "watch_step en (WApply w now later stamp) (x, st) = apply_ready en w now later stamp (x, st)"
| "watch_step en (WThrottle pct now) (x, st) = (self_throttle pct now x, st)"
| "watch_step en (WWalk w name now) (x, st) = (mtime_walk_project w name st now x, st)"
| "watch_step en (WVisit w name now) (x, st) = (sweep_visit w name st now x, st)"
| "watch_step en (WCleanup w now) (x, st) = sweep_cleanup w now (x, st)"

section \<open>What every step keeps\<close>

definition state_ok :: "watcher_config \<Rightarrow> string \<Rightarrow> proj_watch \<Rightarrow> bool" where
  "state_ok cf name s \<longleftrightarrow> int (length (pw_queue s)) \<le> max 0 (wf_queue_size cf) \<and> (pw_rescan_pending s \<longrightarrow> pw_queue s = [])
     \<and> (pw_paused s \<longrightarrow> pw_watched s = None) \<and> (\<forall>ev \<in> set (pw_queue s). we_project ev = name)"

definition watch_ok :: "watcher \<Rightarrow> bool" where
  "watch_ok x \<longleftrightarrow> dict_wf (wx_states x) \<and> (\<forall>name s. dict_get (wx_states x) name = Some s \<longrightarrow> state_ok (wx_config x) name s)"

named_theorems keeps_ok \<open>operations of the watcher keep its invariant\<close>
named_theorems keeps_config \<open>and its configuration\<close>

lemma get_ok: "watch_ok x \<Longrightarrow> dict_get (wx_states x) name = Some s \<Longrightarrow> state_ok (wx_config x) name s"
  by (simp add: watch_ok_def)

lemma put_ok [keeps_ok]: "watch_ok x \<Longrightarrow> state_ok (wx_config x) name s \<Longrightarrow> watch_ok (put_state name s x)"
  by (simp add: watch_ok_def put_state_def distinct_update update_conv')

lemma put_config [keeps_config]: "wx_config (put_state name s x) = wx_config x"
  by (simp add: put_state_def)

lemma with_state_ok:
  "watch_ok x \<Longrightarrow> (\<And>s. dict_get (wx_states x) name = Some s \<Longrightarrow> state_ok (wx_config x) name s \<Longrightarrow> watch_ok (act s)) \<Longrightarrow> watch_ok (with_state name x act)"
  by (simp add: with_state_def get_ok split: option.split)

lemma with_state_config: "(\<And>s. wx_config (act s) = wx_config x) \<Longrightarrow> wx_config (with_state name x act) = wx_config x"
  by (simp add: with_state_def split: option.split)

lemma enqueue_ok [keeps_ok]: "watch_ok x \<Longrightarrow> watch_ok (enqueue_event ev now x)"
  unfolding enqueue_event_def
  by (rule with_state_ok) (auto simp: Let_def state_ok_def intro!: put_ok)

lemma enqueue_config [keeps_config]: "wx_config (enqueue_event ev now x) = wx_config x"
  unfolding enqueue_event_def by (rule with_state_config) (simp add: put_config Let_def)

lemma enqueue_all_ok [keeps_ok]: "watch_ok x \<Longrightarrow> watch_ok (fold (\<lambda>ev. enqueue_event ev now) evs x)"
  by (induction evs arbitrary: x) (simp_all add: enqueue_ok)

lemma enqueue_all_config [keeps_config]: "wx_config (fold (\<lambda>ev. enqueue_event ev now) evs x) = wx_config x"
  by (induction evs arbitrary: x) (simp_all add: enqueue_config)

lemma walk_ok [keeps_ok]: "watch_ok x \<Longrightarrow> watch_ok (mtime_walk_project w name st now x)"
  unfolding mtime_walk_project_def by (rule with_state_ok) (simp_all add: enqueue_all_ok)

lemma walk_config [keeps_config]: "wx_config (mtime_walk_project w name st now x) = wx_config x"
  unfolding mtime_walk_project_def by (rule with_state_config) (simp add: enqueue_all_config)

lemma visit_ok [keeps_ok]: "watch_ok x \<Longrightarrow> watch_ok (sweep_visit w name st now x)"
  unfolding sweep_visit_def with_state_def by (auto simp: walk_ok split: option.split)

lemma spawn_ok [keeps_ok]: "watch_ok x \<Longrightarrow> watch_ok (spawn_watch_task name x)"
  unfolding spawn_watch_task_def
  by (cases "wx_running x") (auto simp: state_ok_def intro!: with_state_ok put_ok)

lemma spawn_config [keeps_config]: "wx_config (spawn_watch_task name x) = wx_config x"
  by (simp add: spawn_watch_task_def with_state_def put_config split: option.split)

lemma watch_add_ok [keeps_ok]: "watch_ok x \<Longrightarrow> watch_ok (watch_add name p now x)"
  unfolding watch_add_def Let_def using get_ok [of x name]
  by (intro spawn_ok put_ok) (auto simp: state_ok_def split: option.split)

lemma watch_remove_ok [keeps_ok]: "watch_ok x \<Longrightarrow> watch_ok (watch_remove name x)"
  by (simp add: watch_ok_def watch_remove_def distinct_delete delete_conv')

lemma pause_ok [keeps_ok]: "watch_ok x \<Longrightarrow> watch_ok (pause_project name x)"
  unfolding pause_project_def by (rule with_state_ok) (auto simp: state_ok_def intro!: put_ok)

lemma resume_project_ok [keeps_ok]: "watch_ok x \<Longrightarrow> watch_ok (resume_project name x)"
  unfolding resume_project_def by (rule with_state_ok) (auto simp: state_ok_def intro!: put_ok)

lemma note_query_ok [keeps_ok]: "watch_ok x \<Longrightarrow> watch_ok (note_query project now x)"
proof (cases project)
  case (Some name)
  assume x: "watch_ok x"
  have "watch_ok (put_state name (s\<lparr>pw_last_query_at := now\<rparr>) x)" if "dict_get (wx_states x) name = Some s" for s
    using get_ok [OF x that] by (intro put_ok [OF x]) (simp add: state_ok_def)
  then show ?thesis unfolding note_query_def Some option.case Let_def
    by (intro with_state_ok [OF x]) (auto intro: resume_project_ok)
qed (simp add: note_query_def)

lemma ended_ok [keeps_ok]: "watch_ok x \<Longrightarrow> watch_ok (watch_task_ended name x)"
  unfolding watch_task_ended_def by (rule with_state_ok) (auto simp: state_ok_def intro!: put_ok)

lemma fold_keeps: "watch_ok x \<Longrightarrow> (\<And>a x. watch_ok x \<Longrightarrow> watch_ok (g a x)) \<Longrightarrow> watch_ok (fold g as x)"
  by (induction as arbitrary: x) simp_all

lemma watch_run_ok [keeps_ok]: "watch_ok x \<Longrightarrow> watch_ok (watch_run x)"
  unfolding watch_run_def by (rule fold_keeps [OF _ spawn_ok]) (simp_all add: watch_ok_def)

lemma map_states_ok:
  assumes "watch_ok x" "\<And>name s. state_ok (wx_config x) name s \<Longrightarrow> state_ok (wx_config x) name (g s)" "wx_states y = map (\<lambda>(name, s). (name, g s)) (wx_states x)"
    "wx_config y = wx_config x"
  shows "watch_ok y"
proof -
  have "dict_get (wx_states y) name = map_option g (dict_get (wx_states x) name)" for name by (simp add: assms(3) map_of_map)
  moreover have "map fst (wx_states y) = map fst (wx_states x)" by (simp add: assms(3) comp_def split_def)
  ultimately show ?thesis using assms(1,2,4) by (auto simp: watch_ok_def)
qed

lemma shutdown_ok [keeps_ok]: "watch_ok x \<Longrightarrow> watch_ok (watch_shutdown x)"
  by (rule map_states_ok [where g = "\<lambda>s. s\<lparr>pw_watched := None\<rparr>"]) (simp_all add: watch_shutdown_def state_ok_def)

lemma take_ready_ok [keeps_ok]: "watch_ok x \<Longrightarrow> watch_ok (take_ready now x)"
proof (cases "wx_in_flight x = []")
  case True
  assume "watch_ok x"
  then show ?thesis
    by (rule map_states_ok [where g = "\<lambda>s. if debounced (wx_config x) now s then s\<lparr>pw_queue := [], pw_rescan_pending := False\<rparr> else s\<lparr>pw_rescan_pending := False\<rparr>"])
      (simp_all add: take_ready_def True state_ok_def)
qed (simp add: take_ready_def)

lemma changes_ok [keeps_ok]: "watch_ok x \<Longrightarrow> watch_ok (watch_changes name now changes x)"
  unfolding watch_changes_def by (rule fold_keeps) (auto intro: enqueue_ok split: option.split)

lemma ok_fields: "watch_ok (x\<lparr>wx_in_flight := l, wx_indexed_through := t\<rparr>) = watch_ok x" "watch_ok (x\<lparr>wx_bucket := b\<rparr>) = watch_ok x"
  "watch_ok (x\<lparr>wx_last_throttle_check := now\<rparr>) = watch_ok x" "watch_ok (x\<lparr>wx_last_cleanup_at := now\<rparr>) = watch_ok x"
  "watch_ok (x\<lparr>wx_throttle_active := c\<rparr>) = watch_ok x"
  by (simp_all add: watch_ok_def)

lemma throttle_ok [keeps_ok]: "watch_ok x \<Longrightarrow> watch_ok (self_throttle pct now x)"
  by (simp add: self_throttle_def Let_def watch_ok_def)

section \<open>The index under the watcher\<close>

lemma fold_inv: "P st \<Longrightarrow> (\<And>a st. P st \<Longrightarrow> P (g a st)) \<Longrightarrow> P (fold g as st)"
  by (induction as arbitrary: st) simp_all

lemma apply_events_inv:
  assumes "indexer_env_ok en \<and> indexer_inv en f st"
  shows "indexer_env_ok en \<and> indexer_inv en f (apply_events en w name root_dir evs st)"
proof -
  have many: "indexer_env_ok en \<and> indexer_inv en f (snd (update_files en w name ps st))" if "indexer_env_ok en \<and> indexer_inv en f st" for ps st
    using idx_step_inv [OF that, of "IUpdates w name ps"] by simp
  have one: "indexer_env_ok en \<and> indexer_inv en f (snd (update_file en w name p st))" if "indexer_env_ok en \<and> indexer_inv en f st" for p st
    using idx_step_inv [OF that, of "IUpdate w name p"] by simp
  have del: "indexer_env_ok en \<and> indexer_inv en f (snd (idx_delete_file name rel st))" if "indexer_env_ok en \<and> indexer_inv en f st" for rel st
    using idx_step_inv [OF that, of "IDelete name rel"] by simp
  have ren: "indexer_env_ok en \<and> indexer_inv en f (snd (idx_rename_file en w name a b st))" if "indexer_env_ok en \<and> indexer_inv en f st" for a b st
    using idx_step_inv [OF that, of "IRename w name a b"] by simp
  have tail: "indexer_env_ok en \<and> indexer_inv en f (apply_tail en w name root_dir ev st)" if "indexer_env_ok en \<and> indexer_inv en f st" for ev st
    unfolding apply_tail_def using that del [OF that] ren [OF that]
    by (cases "we_type ev") (auto split: option.split)
  define bulk where "bulk = map (\<lambda>ev. event_file w root_dir (we_path ev)) (filter (\<lambda>ev. we_type ev = CREATE \<or> we_type ev = MODIFY) evs)"
  obtain r st1 where u: "update_files en w name bulk st = (r, st1)" by fastforce
  have "indexer_env_ok en \<and> indexer_inv en f st1" using many [OF assms, of bulk] by (simp add: u)
  then have "indexer_env_ok en \<and> indexer_inv en f (case r of Inr res \<Rightarrow> st1 | Inl exc \<Rightarrow> fold (\<lambda>p st. snd (update_file en w name p st)) bulk st1)"
    using fold_inv [where P = "\<lambda>st. indexer_env_ok en \<and> indexer_inv en f st" and g = "\<lambda>p st. snd (update_file en w name p st)", OF _ one] by (cases r) simp_all
  then show ?thesis
    unfolding apply_events_def Let_def bulk_def [symmetric] u prod.case
    using assms by (intro fold_inv [where P = "\<lambda>st. indexer_env_ok en \<and> indexer_inv en f st", OF _ tail]) simp
qed

definition watched_inv :: "indexer_env \<Rightarrow> (string \<Rightarrow> vec) \<Rightarrow> watcher \<times> indexer \<Rightarrow> bool" where
  "watched_inv en f = (\<lambda>(x, st). watch_ok x \<and> indexer_env_ok en \<and> indexer_inv en f st)"

lemma apply_ready_inv: "watched_inv en f (x, st) \<Longrightarrow> watched_inv en f (apply_ready en w now later stamp (x, st))"
proof (cases "wx_in_flight x")
  case (Cons item rest)
  obtain name evs rescan where item: "item = (name, evs, rescan)" by (cases item)
  assume "watched_inv en f (x, st)"
  then have x: "watch_ok x" and st: "indexer_env_ok en \<and> indexer_inv en f st" by (simp_all add: watched_inv_def)
  define y where "y = x\<lparr>wx_in_flight := rest, wx_indexed_through := (if rest = [] then stamp else wx_indexed_through x)\<rparr>"
  have y: "watch_ok y" using x by (simp add: y_def ok_fields)
  show ?thesis
    unfolding apply_ready_def prod.case Cons list.case item Let_def y_def [symmetric]
    using y st walk_ok [OF y] apply_events_inv [OF st] by (simp add: watched_inv_def ok_fields split: option.split)
qed (simp add: apply_ready_def)

lemma cleanup_one_inv: "watched_inv en f (x, st) \<Longrightarrow> watched_inv en f (cleanup_one w now name (x, st))"
proof (cases "dict_get (wx_states x) name")
  case (Some s)
  assume inv: "watched_inv en f (x, st)"
  have s: "state_ok (wx_config x) name s" using inv Some by (auto simp: watched_inv_def intro: get_ok)
  have "watch_ok (put_state name (s\<lparr>pw_first_missing_at := t\<rparr>) x)" for t
    using inv s by (intro put_ok) (auto simp: watched_inv_def state_ok_def)
  moreover have "indexer_env_ok en \<and> indexer_inv en f (snd (idx_delete_project name st))"
    using idx_step_inv [of en f st "IDropProject name"] inv by (simp add: watched_inv_def)
  ultimately show ?thesis using inv unfolding cleanup_one_def prod.case Some option.case Let_def
    by (auto simp: watched_inv_def watch_remove_ok pause_ok)
qed (simp add: cleanup_one_def)

lemma cleanup_tick_inv: "watched_inv en f (x, st) \<Longrightarrow> watched_inv en f (cleanup_tick w now (x, st))"
proof -
  have "watched_inv en f y \<Longrightarrow> watched_inv en f (fold (cleanup_one w now) names y)" for names y
    by (induction names arbitrary: y) (simp_all add: cleanup_one_inv [of _ _ "fst y" "snd y" for y, simplified])
  then show "watched_inv en f (x, st) \<Longrightarrow> ?thesis" by (simp add: cleanup_tick_def)
qed

lemma watch_step_inv: "watched_inv en f y \<Longrightarrow> watched_inv en f (watch_step en op y)"
proof (cases y)
  case (Pair x st)
  assume inv: "watched_inv en f y"
  then have x: "watch_ok x" and st: "indexer_env_ok en \<and> indexer_inv en f st" by (auto simp: watched_inv_def Pair)
  have upd: "watched_inv en f (x', st)" if "watch_ok x'" for x' using that st by (simp add: watched_inv_def)
  show ?thesis
  proof (cases op)
    case (WApply w now later stamp)
    then show ?thesis using inv by (simp add: Pair apply_ready_inv)
  next
    case (WCleanup w now)
    then show ?thesis unfolding Pair WCleanup watch_step.simps sweep_cleanup_def prod.case
      by (auto intro!: cleanup_tick_inv upd x simp: ok_fields)
  qed (auto simp: Pair resume_task_def intro!: upd keeps_ok x)
qed

interpretation watching: machine "watch_step en" "watched_inv en f"
  by unfold_locales (rule watch_step_inv)

section \<open>Merging, exactly\<close>





















section \<open>No event is lost\<close>

definition covered :: "string \<Rightarrow> watch_event \<Rightarrow> watcher \<Rightarrow> bool" where
  \<comment> \<open>the event waits in the queue, or a walk of its project does, or it was taken and waits to be handled\<close>
  "covered name ev x \<longleftrightarrow>
     (case dict_get (wx_states x) name of None \<Rightarrow> False | Some s \<Rightarrow> ev \<in> set (pw_queue s) \<or> pw_rescan_pending s)
     \<or> (\<exists>evs r. (name, evs, r) \<in> set (wx_in_flight x) \<and> (ev \<in> set evs \<or> r))"

definition kept_or_gone :: "string \<Rightarrow> watch_event \<Rightarrow> watcher \<Rightarrow> bool" where
  "kept_or_gone name ev x \<longleftrightarrow> covered name ev x \<or> dict_get (wx_states x) name = None"

fun hands_over :: "string \<Rightarrow> watch_event \<Rightarrow> watch_op \<Rightarrow> watcher \<Rightarrow> bool" where
  \<comment> \<open>the batch with the event, or the walk, is handled in this step\<close>
  "hands_over name ev (WApply w now later stamp) x =
     (case wx_in_flight x of [] \<Rightarrow> False | (n, evs, r) # rest \<Rightarrow> n = name \<and> (ev \<in> set evs \<or> r))"
| "hands_over name ev op x = False"

lemma put_keeps:
  assumes "kept_or_gone name ev x" "dict_get (wx_states x) n = Some s"
    and "set (pw_queue s) \<subseteq> set (pw_queue s') \<or> pw_rescan_pending s'" "pw_rescan_pending s \<longrightarrow> pw_rescan_pending s'"
  shows "kept_or_gone name ev (put_state n s' x)"
  using assms by (cases "n = name") (auto simp: kept_or_gone_def covered_def put_state_def dict_simps split: option.splits)

lemma with_state_keeps:
  "kept_or_gone name ev x \<Longrightarrow> (\<And>s. dict_get (wx_states x) n = Some s \<Longrightarrow> kept_or_gone name ev (act s)) \<Longrightarrow> kept_or_gone name ev (with_state n x act)"
  by (simp add: with_state_def split: option.split)

lemma enqueue_keeps: "kept_or_gone name ev x \<Longrightarrow> kept_or_gone name ev (enqueue_event e now x)"
  unfolding enqueue_event_def Let_def by (rule with_state_keeps) (auto intro!: put_keeps)

lemma fold_keeps_event: "kept_or_gone name ev x \<Longrightarrow> (\<And>a x. kept_or_gone name ev x \<Longrightarrow> kept_or_gone name ev (g a x)) \<Longrightarrow> kept_or_gone name ev (fold g as x)"
  by (rule fold_inv)

lemma walk_keeps: "kept_or_gone name ev x \<Longrightarrow> kept_or_gone name ev (mtime_walk_project w n st now x)"
  unfolding mtime_walk_project_def by (rule with_state_keeps) (auto intro!: fold_keeps_event enqueue_keeps)

lemma spawn_keeps: "kept_or_gone name ev x \<Longrightarrow> kept_or_gone name ev (spawn_watch_task n x)"
  unfolding spawn_watch_task_def by (cases "wx_running x") (auto intro!: with_state_keeps put_keeps)

lemma resume_keeps: "kept_or_gone name ev x \<Longrightarrow> kept_or_gone name ev (resume_project n x)"
  unfolding resume_project_def by (rule with_state_keeps) (auto intro!: put_keeps)

lemma pause_keeps: "kept_or_gone name ev x \<Longrightarrow> kept_or_gone name ev (pause_project n x)"
  unfolding pause_project_def by (rule with_state_keeps) (auto intro!: put_keeps)

lemma note_query_keeps: "kept_or_gone name ev x \<Longrightarrow> kept_or_gone name ev (note_query project now x)"
proof (cases project)
  case (Some n)
  assume x: "kept_or_gone name ev x"
  show ?thesis unfolding note_query_def Some option.case Let_def
    by (rule with_state_keeps [OF x]) (auto intro!: resume_keeps put_keeps x)
qed (simp add: note_query_def)

lemma other_add_keeps: "kept_or_gone name ev x \<Longrightarrow> n \<noteq> name \<Longrightarrow> kept_or_gone name ev (watch_add n p now x)"
  unfolding watch_add_def Let_def
  by (rule spawn_keeps) (simp add: kept_or_gone_def covered_def put_state_def dict_simps)

lemma remove_keeps: "kept_or_gone name ev x \<Longrightarrow> kept_or_gone name ev (watch_remove n x)"
  by (cases "n = name") (simp_all add: kept_or_gone_def covered_def watch_remove_def dict_simps)

lemma taken_item:
  assumes "wx_in_flight x = []" "(name, s) \<in> set (wx_states x)" "ready_events (wx_config x) now s \<noteq> [] \<or> pw_rescan_pending s"
  shows "(name, ready_events (wx_config x) now s, pw_rescan_pending s) \<in> set (wx_in_flight (take_ready now x))"
  using assms(2,3) by (auto simp: take_ready_def assms(1) intro!: bexI [of _ "(name, s)"])

lemma take_keeps: "kept_or_gone name ev x \<Longrightarrow> kept_or_gone name ev (take_ready now x)"
proof (cases "wx_in_flight x = []")
  case empty: True
  assume x: "kept_or_gone name ev x"
  show ?thesis
  proof (cases "dict_get (wx_states x) name")
    case None
    then show ?thesis by (simp add: kept_or_gone_def take_ready_def empty map_of_map)
  next
    case (Some s)
    then have mem: "(name, s) \<in> set (wx_states x)" by (rule map_of_SomeD)
    have "ev \<in> set (pw_queue s) \<or> pw_rescan_pending s" using x Some empty by (simp add: kept_or_gone_def covered_def)
    then consider "ev \<in> set (pw_queue s)" "\<not> debounced (wx_config x) now s" | "debounced (wx_config x) now s" "ev \<in> set (pw_queue s)" | "pw_rescan_pending s"
      by blast
    then have "covered name ev (take_ready now x)"
    proof cases
      case 1
      then show ?thesis using Some by (simp add: covered_def take_ready_def empty map_of_map)
    next
      case 2
      then have "ready_events (wx_config x) now s = pw_queue s" "pw_queue s \<noteq> []" by (auto simp: ready_events_def)
      then show ?thesis using taken_item [OF empty mem, of now] 2(2) unfolding covered_def by metis
    next
      case 3
      then show ?thesis using taken_item [OF empty mem, of now] unfolding covered_def by metis
    qed
    then show ?thesis by (simp add: kept_or_gone_def)
  qed
qed (simp add: take_ready_def)

lemma apply_keeps:
  assumes "kept_or_gone name ev x" "\<not> hands_over name ev (WApply w now later stamp) x"
  shows "kept_or_gone name ev (fst (apply_ready en w now later stamp (x, st)))"
proof (cases "wx_in_flight x")
  case (Cons item rest)
  obtain n evs r where item: "item = (n, evs, r)" by (cases item)
  define y where "y = x\<lparr>wx_in_flight := rest, wx_indexed_through := (if rest = [] then stamp else wx_indexed_through x)\<rparr>"
  have "kept_or_gone name ev y" using assms by (auto simp: kept_or_gone_def covered_def y_def Cons item)
  then show ?thesis
    unfolding apply_ready_def prod.case Cons list.case item Let_def y_def [symmetric]
    using walk_keeps by (auto simp: kept_or_gone_def covered_def)
qed (use assms in \<open>simp add: apply_ready_def\<close>)

lemma cleanup_keeps: "kept_or_gone name ev (fst y) \<Longrightarrow> kept_or_gone name ev (fst (cleanup_one w now n y))"
proof (cases y)
  case (Pair x st)
  assume "kept_or_gone name ev (fst y)"
  then have x: "kept_or_gone name ev x" by (simp add: Pair)
  show ?thesis
  proof (cases "dict_get (wx_states x) n")
    case (Some s)
    have "kept_or_gone name ev (put_state n (s\<lparr>pw_first_missing_at := t\<rparr>) x)" for t by (rule put_keeps [OF x Some]) auto
    then show ?thesis using x by (auto simp: Pair cleanup_one_def Some Let_def remove_keeps pause_keeps)
  qed (use x in \<open>simp add: Pair cleanup_one_def\<close>)
qed

lemma visit_keeps: "kept_or_gone name ev x \<Longrightarrow> kept_or_gone name ev (sweep_visit w n st now x)"
  unfolding sweep_visit_def by (rule with_state_keeps) (auto intro: walk_keeps)

lemma sweep_keeps: "kept_or_gone name ev x \<Longrightarrow> kept_or_gone name ev (fst (sweep_cleanup w now (x, st)))"
proof -
  assume x: "kept_or_gone name ev x"
  have "kept_or_gone name ev (fst (fold (cleanup_one w now) names (x\<lparr>wx_last_cleanup_at := now\<rparr>, st)))" for names
    by (rule fold_inv [where P = "\<lambda>y. kept_or_gone name ev (fst y)", OF _ cleanup_keeps])
      (use x in \<open>simp_all add: kept_or_gone_def covered_def\<close>)
  then show ?thesis using x by (simp add: sweep_cleanup_def cleanup_tick_def)
qed

text \<open>The three other ways an event can leave.\<close>

definition registered :: "string \<Rightarrow> watcher \<Rightarrow> bool" where
  "registered name x \<longleftrightarrow> dict_get (wx_states x) name \<noteq> None"

definition cut_off :: "string \<Rightarrow> watch_event \<Rightarrow> watch_op \<Rightarrow> watcher \<Rightarrow> bool" where
  \<comment> \<open>the watcher shuts down while the batch with the event, or the walk, is taken and not yet handled\<close>
  "cut_off name ev op x \<longleftrightarrow> op = WShutdown \<and> (\<exists>evs r. (name, evs, r) \<in> set (wx_in_flight x) \<and> (ev \<in> set evs \<or> r))"

definition walk_forgotten :: "string \<Rightarrow> watch_op \<Rightarrow> watcher \<Rightarrow> bool" where
  \<comment> \<open>the project is added anew while a walk of it waits\<close>
  "walk_forgotten name op x \<longleftrightarrow> (\<exists>p now. op = WAdd name p now) \<and> (\<exists>s. dict_get (wx_states x) name = Some s \<and> pw_rescan_pending s)"

lemma add_keeps:
  assumes "kept_or_gone name ev x" "registered name x" "\<not> walk_forgotten name (WAdd n p now) x"
  shows "kept_or_gone name ev (watch_add n p now x)"
proof (cases "n = name")
  case True
  obtain s where s: "dict_get (wx_states x) name = Some s" "\<not> pw_rescan_pending s"
    using assms(2,3) True by (auto simp: registered_def walk_forgotten_def)
  show ?thesis unfolding watch_add_def Let_def True s(1) option.case
    by (rule spawn_keeps, rule put_keeps [OF assms(1) s(1)]) (use s(2) in simp_all)
qed (use assms(1) in \<open>simp add: other_add_keeps\<close>)

lemma step_keeps:
  assumes "kept_or_gone name ev (fst y)" "registered name (fst y)"
    "\<not> hands_over name ev op (fst y)" "\<not> cut_off name ev op (fst y)" "\<not> walk_forgotten name op (fst y)"
  shows "kept_or_gone name ev (fst (watch_step en op y))"
proof (cases y)
  case (Pair x st)
  have x: "kept_or_gone name ev x" using assms(1) by (simp add: Pair)
  show ?thesis
  proof (cases op)
    case (WAdd n p now)
    then show ?thesis using add_keeps [OF x] assms(2,5) by (simp add: Pair)
  next
    case WRun
    have "kept_or_gone name ev (fold spawn_watch_task names (x\<lparr>wx_running := True\<rparr>))" for names
      by (rule fold_keeps_event [OF _ spawn_keeps]) (use x in \<open>simp_all add: kept_or_gone_def covered_def\<close>)
    then show ?thesis by (simp add: Pair WRun watch_run_def)
  next
    case WShutdown
    then show ?thesis using x assms(4)
      by (auto simp: Pair kept_or_gone_def covered_def cut_off_def watch_shutdown_def map_of_map split: option.splits)
  next
    case (WEnded n)
    then show ?thesis using x by (auto simp: Pair watch_task_ended_def intro!: with_state_keeps put_keeps)
  next
    case (WChanges n now changes)
    then show ?thesis using x by (auto simp: Pair watch_changes_def intro!: fold_keeps_event enqueue_keeps split: option.split)
  next
    case (WThrottle pct now)
    then show ?thesis using x by (simp add: Pair self_throttle_def Let_def kept_or_gone_def covered_def)
  next
    case (WApply w now later stamp)
    then show ?thesis using x assms(3) apply_keeps by (simp add: Pair)
  qed (use x in \<open>simp_all add: Pair remove_keeps pause_keeps resume_keeps resume_task_def spawn_keeps walk_keeps note_query_keeps
      enqueue_keeps take_keeps visit_keeps sweep_keeps\<close>)
qed

text \<open>
  C9: no event is lost unnoticed. Whatever happens to the watcher, in any order, an event that reached
  the queue of a registered project waits there, or a walk of the project waits in its place, or the
  batch with it is taken and waits to be handled; until a step that hands the batch to the indexer or
  starts the walk, or a step that drops the project, or one of the two ways the code loses events:
  shutting down between the taking of the batch and its handling, and adding the project anew while a
  walk of it waits.
\<close>

theorem watch_events_kept:
  fixes ops :: "watch_op list" and x :: watcher and st :: indexer and now :: real
  assumes "registered (we_project ev) x"
  defines "y \<equiv> (enqueue_event ev now x, st)"
  shows "covered (we_project ev) ev (fst (fold (watch_step en) ops y))
    \<or> (\<exists>before op after z. ops = before @ op # after \<and> z = fold (watch_step en) before y \<and>
         (hands_over (we_project ev) ev op (fst z)
          \<or> registered (we_project ev) (fst z) \<and> \<not> registered (we_project ev) (fst (watch_step en op z))
          \<or> cut_off (we_project ev) ev op (fst z) \<or> walk_forgotten (we_project ev) op (fst z)))"
proof -
  let ?n = "we_project ev"
  define leaves where "leaves op z \<longleftrightarrow> hands_over ?n ev op (fst z) \<or> registered ?n (fst z) \<and> \<not> registered ?n (fst (watch_step en op z))
    \<or> cut_off ?n ev op (fst z) \<or> walk_forgotten ?n op (fst z)" for op z
  define held where "held z \<longleftrightarrow> covered ?n ev (fst z) \<and> registered ?n (fst z)" for z :: "watcher \<times> indexer"
  have step: "held (watch_step en op z)" if "held z" "\<not> leaves op z" for op z
    using step_keeps [of ?n ev z op en] that by (auto simp: held_def leaves_def kept_or_gone_def registered_def)
  have "held y" using assms(1)
    by (auto simp: y_def held_def registered_def covered_def enqueue_event_def with_state_def put_state_def Let_def dict_simps split: option.split)
  then have "held (fold (watch_step en) ops y) \<or> (\<exists>before op after. ops = before @ op # after \<and> leaves op (fold (watch_step en) before y))"
  proof (induction ops arbitrary: y)
    case (Cons op ops)
    show ?case
    proof (cases "leaves op y")
      case True
      then show ?thesis by (intro disjI2 exI [of _ "[]"] exI [of _ op] exI [of _ ops]) simp
    next
      case False
      then show ?thesis using Cons.IH [OF step [OF Cons.prems False]] by (auto intro: exI [of _ "op # _"]) (metis append_Cons fold_simps(2))
    qed
  qed simp
  then show ?thesis unfolding held_def leaves_def by blast
qed

text \<open>The losses are real: a batch that was taken is gone after a shutdown, though its project stays.\<close>

lemma shutdown_loses_batch:
  assumes "dict_get (wx_states x) (we_project ev) = Some s" "pw_queue s = []" "\<not> pw_rescan_pending s"
  shows "\<not> covered (we_project ev) ev (watch_shutdown x) \<and> registered (we_project ev) (watch_shutdown x)"
  using assms by (simp add: covered_def registered_def watch_shutdown_def map_of_map)

section \<open>The rate of the indexer's work\<close>

fun clock_ok :: "(real \<times> real \<times> real) list \<Rightarrow> bucket \<Rightarrow> bool" where
  \<comment> \<open>requests with the clock before and after; it does not run backwards, and a sleep takes its time\<close>
  "clock_ok [] b \<longleftrightarrow> True"
| "clock_ok ((n, now, later) # rest) b \<longleftrightarrow>
     0 \<le> n \<and> tb_last_refill b \<le> now \<and> now + fst (acquire n now later b) \<le> later \<and> clock_ok rest (snd (acquire n now later b))"

lemma acquire_step:
  assumes "0 < tb_rate b" "0 \<le> tb_tokens b" "0 \<le> n" "tb_last_refill b \<le> now" "now + fst (acquire n now later b) \<le> later"
  defines "b' \<equiv> snd (acquire n now later b)"
  shows "tb_rate b' = tb_rate b \<and> 0 \<le> tb_tokens b' \<and> tb_last_refill b' \<le> later
    \<and> tb_tokens b' + n \<le> tb_tokens b + tb_rate b * (tb_last_refill b' - tb_last_refill b)"
proof -
  define c where "c = refill now b"
  have c: "tb_rate c = tb_rate b" "tb_burst c = tb_burst b" "tb_last_refill c = now" "tb_tokens c \<le> tb_tokens b + tb_rate b * (now - tb_last_refill b)"
    using assms(4) by (auto simp: c_def refill_def Let_def mult.commute)
  have c0: "0 \<le> tb_tokens c \<or> True" by simp
  define sleep where "sleep = max (1 / 100) ((n - tb_tokens c) / tb_rate b)"
  have a: "acquire n now later b = (if tb_tokens c \<ge> n then (0, c\<lparr>tb_tokens := tb_tokens c - n\<rparr>)
      else if n > tb_burst b then (sleep, c\<lparr>tb_tokens := 0, tb_last_refill := later\<rparr>)
      else (sleep, c\<lparr>tb_tokens := max 0 (min (tb_burst b) (tb_tokens c + (later - now) * tb_rate b) - n), tb_last_refill := later\<rparr>))"
    using assms(1) by (simp add: acquire_def Let_def c_def [symmetric] c sleep_def)
  show ?thesis
  proof (cases "tb_tokens c \<ge> n")
    case True
    then show ?thesis using assms(3,5) c by (simp add: b'_def a)
  next
    case False
    have "fst (acquire n now later b) = sleep" using False by (simp add: a)
    then have "(n - tb_tokens c) / tb_rate b \<le> later - now" using assms(5) by (simp add: sleep_def)
    then have wait: "n - tb_tokens c \<le> tb_rate b * (later - now)" using assms(1) by (simp add: pos_divide_le_eq mult.commute)
    have sum: "tb_tokens c + tb_rate b * (later - now) \<le> tb_tokens b + tb_rate b * (later - tb_last_refill b)"
      using c(4) by (simp add: algebra_simps)
    show ?thesis
    proof (cases "n > tb_burst b")
      case True
      then show ?thesis using False wait sum c by (simp add: b'_def a)
    next
      case small: False
      have "max 0 (min (tb_burst b) (tb_tokens c + (later - now) * tb_rate b) - n) + n \<le> tb_tokens c + tb_rate b * (later - now)"
        using wait by (simp add: mult.commute)
      then show ?thesis using False small sum c by (simp add: b'_def a)
    qed
  qed
qed

text \<open>
  C31: the bucket keeps the rate. Whatever is asked of a new bucket, in whatever portions, also larger
  ones than it holds: until any time it has let through at most what it held at first and what
  its rate yields since then, when the clock does not run backwards and a sleep takes its time.
\<close>

theorem bucket_rate:
  assumes "0 < rate" "clock_ok reqs (new_bucket rate burst start)" "list_all (\<lambda>(n, now, later). later \<le> until) reqs" "start \<le> until"
  shows "sum_list (map fst reqs) \<le> max 1 burst + rate * (until - start)"
proof -
  have "sum_list (map fst reqs) \<le> tb_tokens b + tb_rate b * (until - tb_last_refill b)"
    if "0 < tb_rate b" "0 \<le> tb_tokens b" "clock_ok reqs b" "list_all (\<lambda>(n, now, later). later \<le> until) reqs" "tb_last_refill b \<le> until" for b
    using that
  proof (induction reqs arbitrary: b)
    case (Cons q reqs)
    obtain n now later where q: "q = (n, now, later)" by (cases q)
    define b' where "b' = snd (acquire n now later b)"
    have s: "tb_rate b' = tb_rate b" "0 \<le> tb_tokens b'" "tb_last_refill b' \<le> later" "tb_tokens b' + n \<le> tb_tokens b + tb_rate b * (tb_last_refill b' - tb_last_refill b)"
      using acquire_step [of b n now later] Cons.prems(1,2,3) by (simp_all add: q b'_def)
    have "sum_list (map fst reqs) \<le> tb_tokens b' + tb_rate b' * (until - tb_last_refill b')"
      using Cons.prems s by (intro Cons.IH) (simp_all add: q b'_def)
    then show ?case using s(1,4) by (simp add: q algebra_simps)
  qed simp
  from this [of "new_bucket rate burst start"] show ?thesis using assms by (simp add: new_bucket_def)
qed

section \<open>A project is dropped only after its grace\<close>

definition look_of :: "real \<Rightarrow> real \<Rightarrow> watch_op \<Rightarrow> (world \<times> real) list" where
  \<comment> \<open>a sweep looks at the roots when the time between looks has passed since the last one\<close>
  "look_of check last_at op = (case op of WCleanup w now \<Rightarrow> if now - last_at \<ge> check then [(w, now)] else [] | _ \<Rightarrow> [])"

definition last_look :: "real \<Rightarrow> (world \<times> real) list \<Rightarrow> real" where
  "last_look d looks = (if looks = [] then d else snd (last looks))"

fun looked :: "real \<Rightarrow> real \<Rightarrow> watch_op list \<Rightarrow> (world \<times> real) list" where
  \<comment> \<open>what a history saw of the roots\<close>
  "looked check d [] = []"
| "looked check d (op # ops) = look_of check d op @ looked check (last_look d (look_of check d op)) ops"

lemma looked_snoc: "looked check d (ops @ [op]) = looked check d ops @ look_of check (last_look d (looked check d ops)) op"
proof (induction ops arbitrary: d)
  case (Cons a ops)
  have "last_look (last_look d l) k = last_look d (l @ k)" for l k by (simp add: last_look_def)
  then show ?case by (simp add: Cons)
qed (simp add: last_look_def)

definition same_grace :: "watcher \<Rightarrow> watcher \<Rightarrow> bool" where
  \<comment> \<open>no root came under suspicion, and none was looked at\<close>
  "same_grace x y \<longleftrightarrow> wx_config y = wx_config x \<and> wx_last_cleanup_at y = wx_last_cleanup_at x
     \<and> (\<forall>name s t. dict_get (wx_states y) name = Some s \<and> pw_first_missing_at s = Some t \<longrightarrow>
          (\<exists>s'. dict_get (wx_states x) name = Some s' \<and> pw_first_missing_at s' = Some t \<and> pw_root s' = pw_root s))"

lemma same_grace_refl: "same_grace x x" by (simp add: same_grace_def)

lemma same_grace_trans: "same_grace x y \<Longrightarrow> same_grace y z \<Longrightarrow> same_grace x z" unfolding same_grace_def by metis

lemma put_grace:
  assumes "same_grace x y" "pw_first_missing_at s = None
    \<or> (\<exists>s'. dict_get (wx_states y) name = Some s' \<and> pw_first_missing_at s' = pw_first_missing_at s \<and> pw_root s' = pw_root s)"
  shows "same_grace x (put_state name s y)"
proof -
  have "same_grace y (put_state name s y)" using assms(2) by (auto simp: same_grace_def put_state_def dict_simps)
  then show ?thesis using assms(1) same_grace_trans by blast
qed

lemma with_state_grace:
  "same_grace x y \<Longrightarrow> (\<And>s. dict_get (wx_states y) name = Some s \<Longrightarrow> same_grace x (act s)) \<Longrightarrow> same_grace x (with_state name y act)"
  by (simp add: with_state_def split: option.split)

lemma enqueue_grace: "same_grace x y \<Longrightarrow> same_grace x (enqueue_event ev now y)"
  unfolding enqueue_event_def Let_def by (rule with_state_grace) (auto intro!: put_grace)

lemma walk_grace: "same_grace x y \<Longrightarrow> same_grace x (mtime_walk_project w n st now y)"
  unfolding mtime_walk_project_def by (rule with_state_grace) (auto intro!: fold_inv [where P = "same_grace x"] enqueue_grace)

lemma visit_grace: "same_grace x y \<Longrightarrow> same_grace x (sweep_visit w n st now y)"
  unfolding sweep_visit_def by (rule with_state_grace) (auto intro: walk_grace)

lemma spawn_grace: "same_grace x y \<Longrightarrow> same_grace x (spawn_watch_task n y)"
  unfolding spawn_watch_task_def by (cases "wx_running y") (auto intro!: with_state_grace put_grace)

lemma pause_grace: "same_grace x y \<Longrightarrow> same_grace x (pause_project n y)"
  unfolding pause_project_def by (rule with_state_grace) (auto intro!: put_grace)

lemma resume_grace: "same_grace x y \<Longrightarrow> same_grace x (resume_project n y)"
  unfolding resume_project_def by (rule with_state_grace) (auto intro!: put_grace)

lemma note_query_grace: "same_grace x y \<Longrightarrow> same_grace x (note_query project now y)"
proof (cases project)
  case (Some n)
  assume y: "same_grace x y"
  show ?thesis unfolding note_query_def Some option.case Let_def
    by (rule with_state_grace [OF y]) (auto intro!: resume_grace put_grace y)
qed (simp add: note_query_def)

lemma map_grace:
  assumes "wx_states z = map (\<lambda>(name, s). (name, g s)) (wx_states y)" "wx_config z = wx_config y" "wx_last_cleanup_at z = wx_last_cleanup_at y"
    "\<And>s. pw_first_missing_at (g s) = pw_first_missing_at s \<and> pw_root (g s) = pw_root s"
  shows "same_grace y z"
  using assms by (auto simp: same_grace_def map_of_map)

lemma step_grace:
  assumes "\<forall>w now. op \<noteq> WCleanup w now"
  shows "same_grace x (fst (watch_step en op (x, st)))"
proof (cases op)
  case (WAdd n p now)
  show ?thesis unfolding WAdd watch_step.simps fst_conv watch_add_def Let_def
    by (rule spawn_grace, rule put_grace [OF same_grace_refl]) (simp split: option.split)
next
  case (WRemove n)
  then show ?thesis by (simp add: same_grace_def watch_remove_def dict_simps)
next
  case WRun
  have "same_grace x (x\<lparr>wx_running := True\<rparr>)" by (simp add: same_grace_def)
  then show ?thesis unfolding WRun watch_step.simps fst_conv watch_run_def by (rule fold_inv [where P = "same_grace x", OF _ spawn_grace])
next
  case WShutdown
  show ?thesis unfolding WShutdown watch_step.simps fst_conv
    by (rule map_grace [where g = "\<lambda>s. s\<lparr>pw_watched := None\<rparr>"]) (simp_all add: watch_shutdown_def)
next
  case (WEnded n)
  show ?thesis unfolding WEnded watch_step.simps fst_conv watch_task_ended_def
    by (rule with_state_grace [OF same_grace_refl]) (auto intro!: put_grace same_grace_refl)
next
  case (WChanges n now changes)
  show ?thesis unfolding WChanges watch_step.simps fst_conv watch_changes_def
    by (rule fold_inv [where P = "same_grace x", OF same_grace_refl]) (auto intro!: enqueue_grace split: option.split)
next
  case (WTake now)
  show ?thesis
  proof (cases "wx_in_flight x = []")
    case True
    then show ?thesis unfolding WTake watch_step.simps fst_conv
      by (intro map_grace [where g = "\<lambda>s. if debounced (wx_config x) now s then s\<lparr>pw_queue := [], pw_rescan_pending := False\<rparr> else s\<lparr>pw_rescan_pending := False\<rparr>"])
        (simp_all add: take_ready_def)
  qed (simp add: WTake take_ready_def same_grace_refl)
next
  case (WApply w now later stamp)
  show ?thesis
  proof (cases "wx_in_flight x")
    case (Cons item rest)
    obtain n evs r where item: "item = (n, evs, r)" by (cases item)
    define y where "y = x\<lparr>wx_in_flight := rest, wx_indexed_through := (if rest = [] then stamp else wx_indexed_through x)\<rparr>"
    have y: "same_grace x y" by (simp add: same_grace_def y_def)
    then have bucket: "same_grace x (y\<lparr>wx_bucket := b\<rparr>)" for b by (simp add: same_grace_def)
    show ?thesis
      unfolding WApply watch_step.simps apply_ready_def prod.case Cons list.case item Let_def y_def [symmetric]
      using y walk_grace [OF y] bucket by simp
  qed (simp add: WApply apply_ready_def same_grace_refl)
next
  case (WThrottle pct now)
  then show ?thesis by (simp add: self_throttle_def Let_def same_grace_def)
qed (use assms in \<open>simp_all add: resume_task_def pause_grace resume_grace spawn_grace walk_grace visit_grace note_query_grace enqueue_grace same_grace_refl\<close>)

definition grace_of :: "watcher \<Rightarrow> real" where
  "grace_of x = real_of_int (wf_missing_root_grace_days (wx_config x)) * 86400"

definition since_of :: "real \<Rightarrow> proj_watch \<Rightarrow> real" where
  "since_of now s = (case pw_first_missing_at s of None \<Rightarrow> now | Some t \<Rightarrow> t)"

lemma cleanup_one_other: "n \<noteq> name \<Longrightarrow> dict_get (wx_states (fst (cleanup_one w now n (x, st)))) name = dict_get (wx_states x) name"
  by (simp add: cleanup_one_def Let_def watch_remove_def pause_project_def with_state_def put_state_def dict_simps split: option.split)

lemma cleanup_one_config:
  "wx_config (fst (cleanup_one w now n (x, st))) = wx_config x \<and> wx_last_cleanup_at (fst (cleanup_one w now n (x, st))) = wx_last_cleanup_at x"
  by (simp add: cleanup_one_def Let_def watch_remove_def pause_project_def with_state_def put_state_def split: option.split)

lemma cleanup_one_at:
  assumes "dict_get (wx_states x) name = Some s"
  shows "case dict_get (wx_states (fst (cleanup_one w now name (x, st)))) name of
      None \<Rightarrow> \<not> root_exists w (pw_root s) \<and> grace_of x \<le> now - since_of now s
    | Some s' \<Rightarrow> pw_root s' = pw_root s \<and> pw_first_missing_at s' = (if root_exists w (pw_root s) then None else Some (since_of now s))"
  using assms by (auto simp: cleanup_one_def Let_def watch_remove_def pause_project_def with_state_def put_state_def dict_simps grace_of_def since_of_def)

lemma cleanup_fold:
  assumes "name \<in> set names \<or> seen" "dict_get (wx_states x) name = Some s" "seen \<Longrightarrow> pw_first_missing_at s = (if root_exists w (pw_root s) then None else Some (since_of now s))"
  shows "case dict_get (wx_states (fst (fold (cleanup_one w now) names (x, st)))) name of
      None \<Rightarrow> \<not> root_exists w (pw_root s) \<and> grace_of x \<le> now - since_of now s
    | Some s' \<Rightarrow> pw_root s' = pw_root s \<and> pw_first_missing_at s' = (if root_exists w (pw_root s) then None else Some (since_of now s))"
  using assms
proof (induction names arbitrary: x st s seen)
  case (Cons n names)
  obtain x1 st1 where c: "cleanup_one w now n (x, st) = (x1, st1)" by fastforce
  have g: "grace_of x1 = grace_of x" using cleanup_one_config [of w now n x st] by (simp add: c grace_of_def)
  show ?case
  proof (cases "n = name")
    case False
    have d: "dict_get (wx_states x1) name = Some s" using cleanup_one_other [OF False, of w now x st] Cons.prems(2) by (simp add: c)
    have "name \<in> set names \<or> seen" using Cons.prems(1) False by auto
    from Cons.IH [OF this d Cons.prems(3), of st1, unfolded g] show ?thesis by (simp only: c fold_simps comp_apply)
  next
    case True
    note at = cleanup_one_at [OF Cons.prems(2), of w now st, folded True, unfolded c fst_conv]
    show ?thesis
    proof (cases "dict_get (wx_states x1) name")
      case None
      have "dict_get (wx_states (fst (fold (cleanup_one w now) names (x1, st1)))) name = None"
      proof -
        have "dict_get (wx_states (fst (fold (cleanup_one w now) names y))) name = None" if "dict_get (wx_states (fst y)) name = None" for y
          using that
        proof (induction names arbitrary: y)
          case (Cons m names)
          have "dict_get (wx_states (fst (cleanup_one w now m y))) name = None"
            using Cons.prems cleanup_one_other [of m name w now "fst y" "snd y"] by (cases "m = name") (auto simp: cleanup_one_def split_beta)
          then show ?case using Cons.IH by simp
        qed simp
        then show ?thesis using None by simp
      qed
      then show ?thesis using at None by (simp add: c [unfolded True] True)
    next
      case (Some s1)
      then have s1: "pw_root s1 = pw_root s" "pw_first_missing_at s1 = (if root_exists w (pw_root s) then None else Some (since_of now s))"
        using at by (simp_all add: True)
      then have since: "\<not> root_exists w (pw_root s) \<Longrightarrow> since_of now s1 = since_of now s" by (simp add: since_of_def)
      have p: "pw_first_missing_at s1 = (if root_exists w (pw_root s1) then None else Some (since_of now s1))" using s1 since by simp
      show ?thesis
        using Cons.IH [of True x1 s1 st1, OF _ Some p] since
        by (cases "dict_get (wx_states (fst (fold (cleanup_one w now) names (x1, st1)))) name"; cases "root_exists w (pw_root s)")
          (simp_all add: c s1 g)
    qed
  qed
qed auto

definition grace_view :: "watcher \<Rightarrow> string \<Rightarrow> (path \<times> real option) option" where
  "grace_view x name = map_option (\<lambda>s. (pw_root s, pw_first_missing_at s)) (dict_get (wx_states x) name)"

lemma sweep_eq:
  "watch_step en (WCleanup w now) (x, st) =
    (if now - wx_last_cleanup_at x \<ge> real_of_int (wf_check_seconds (wx_config x))
     then cleanup_tick w now (x\<lparr>wx_last_cleanup_at := now\<rparr>, st) else (x, st))"
  by (simp add: sweep_cleanup_def)

lemma cleanup_tick_get:
  fixes now :: real
  assumes "grace_view x name = Some (r, since)"
  defines "t \<equiv> (case since of None \<Rightarrow> now | Some t \<Rightarrow> t)"
  shows "case grace_view (fst (cleanup_tick w now (x, st))) name of
      None \<Rightarrow> \<not> root_exists w r \<and> grace_of x \<le> now - t
    | Some v \<Rightarrow> v = (r, if root_exists w r then None else Some t)"
proof -
  obtain s where s: "dict_get (wx_states x) name = Some s" "pw_root s = r" "pw_first_missing_at s = since"
    using assms(1) by (auto simp: grace_view_def)
  have "name \<in> set (dict_keys (wx_states x)) \<or> False" using s(1) by (metis map_of_eq_None_iff option.distinct(1) set_map)
  from cleanup_fold [OF this s(1), of w now st] show ?thesis
    by (auto simp: grace_view_def cleanup_tick_def s t_def since_of_def split: option.splits)
qed

lemma cleanup_tick_none:
  assumes "grace_view x name = None"
  shows "grace_view (fst (cleanup_tick w now (x, st))) name = None"
proof -
  have "dict_get (wx_states (fst (fold (cleanup_one w now) names y))) name = None" if "dict_get (wx_states (fst y)) name = None" for names y
    using that
  proof (induction names arbitrary: y)
    case (Cons m names)
    have "dict_get (wx_states (fst (cleanup_one w now m y))) name = None"
      using Cons.prems cleanup_one_other [of m name w now "fst y" "snd y"] by (cases "m = name") (auto simp: cleanup_one_def split_beta)
    then show ?case using Cons.IH by simp
  qed simp
  then show ?thesis using assms by (simp add: grace_view_def cleanup_tick_def)
qed

lemma cleanup_tick_fields: "wx_config (fst (cleanup_tick w now (x, st))) = wx_config x \<and> wx_last_cleanup_at (fst (cleanup_tick w now (x, st))) = wx_last_cleanup_at x"
proof -
  have "wx_config (fst (fold (cleanup_one w now) names y)) = wx_config (fst y) \<and> wx_last_cleanup_at (fst (fold (cleanup_one w now) names y)) = wx_last_cleanup_at (fst y)" for names y
    by (induction names arbitrary: y) (simp_all add: cleanup_one_config [of w now _ "fst y" "snd y" for y, simplified])
  then show ?thesis by (simp add: cleanup_tick_def)
qed

definition suspected :: "watcher_config \<Rightarrow> (world \<times> real) list \<Rightarrow> watcher \<Rightarrow> bool" where
  \<comment> \<open>a root counts as missing since a look at which it was, and it was missing at every look since\<close>
  "suspected cf looks x \<longleftrightarrow> wx_config x = cf \<and> wx_last_cleanup_at x = last_look 0 looks
     \<and> (\<forall>name r t. grace_view x name = Some (r, Some t) \<longrightarrow>
          (\<exists>before since. looks = before @ since \<and> since \<noteq> [] \<and> snd (hd since) = t \<and> (\<forall>l \<in> set since. \<not> root_exists (fst l) r)))"

lemma suspected_grace: "suspected cf looks x \<Longrightarrow> same_grace x y \<Longrightarrow> suspected cf looks y"
  unfolding suspected_def same_grace_def grace_view_def by auto metis

lemma suspected_step:
  assumes "suspected cf looks x"
  shows "suspected cf (looks @ look_of (real_of_int (wf_check_seconds cf)) (last_look 0 looks) op) (fst (watch_step en op (x, st)))"
proof (cases "\<exists>w now. op = WCleanup w now")
  case False
  then have "look_of (real_of_int (wf_check_seconds cf)) (last_look 0 looks) op = []" by (cases op) (simp_all add: look_of_def)
  then show ?thesis using suspected_grace [OF assms step_grace] False by auto
next
  case True
  then obtain w now where op: "op = WCleanup w now" by blast
  note y = assms
  show ?thesis
  proof (cases "now - last_look 0 looks \<ge> real_of_int (wf_check_seconds cf)")
    case False
    then show ?thesis using y by (simp add: op sweep_eq del: watch_step.simps) (simp add: suspected_def look_of_def)
  next
    case due: True
    define z where "z = x\<lparr>wx_last_cleanup_at := now\<rparr>"
    have zv: "grace_view z = grace_view x" by (rule ext) (simp add: z_def grace_view_def)
    have step: "watch_step en op (x, st) = cleanup_tick w now (z, st)"
      using due y unfolding op sweep_eq z_def by (simp add: suspected_def)
    have look: "look_of (real_of_int (wf_check_seconds cf)) (last_look 0 looks) op = [(w, now)]" using due by (simp add: op look_of_def)
    have old: "\<exists>before since. looks @ [(w, now)] = before @ since \<and> since \<noteq> [] \<and> snd (hd since) = t \<and> (\<forall>l \<in> set since. \<not> root_exists (fst l) r)"
      if v: "grace_view (fst (cleanup_tick w now (z, st))) name = Some (r, Some t)" for name r t
    proof -
      obtain r' first where b: "grace_view x name = Some (r', first)"
        using cleanup_tick_none [of z name w now st] v zv by (cases "grace_view x name") auto
      have eq: "r = r'" "\<not> root_exists w r" "t = (case first of None \<Rightarrow> now | Some t \<Rightarrow> t)"
        using cleanup_tick_get [where x = z and name = name and r = r' and since = first and now = now and w = w and st = st] b v zv by (auto split: if_splits)
      show ?thesis
      proof (cases first)
        case None
        then show ?thesis using eq by (intro exI [of _ looks] exI [of _ "[(w, now)]"]) simp
      next
        case (Some u)
        obtain before since where "looks = before @ since" "since \<noteq> []" "snd (hd since) = u" "\<forall>l \<in> set since. \<not> root_exists (fst l) r'"
          using y b Some unfolding suspected_def by blast
        then show ?thesis using eq Some by (intro exI [of _ before] exI [of _ "since @ [(w, now)]"]) auto
      qed
    qed
    have "wx_config z = cf" using y by (simp add: z_def suspected_def)
    then show ?thesis unfolding step look using cleanup_tick_fields [of w now z st] old
      by (simp add: suspected_def last_look_def) (simp add: z_def)
  qed
qed

lemma suspected_run:
  "suspected cf (looked (real_of_int (wf_check_seconds cf)) 0 ops) (fst (fold (watch_step en) ops (watcher_new cf start stamp, st)))"
proof (induction ops rule: rev_induct)
  case (snoc op ops)
  show ?case using suspected_step [OF snoc, of op en "snd (fold (watch_step en) ops (watcher_new cf start stamp, st))"] by (simp add: looked_snoc)
qed (simp add: suspected_def watcher_new_def grace_view_def last_look_def)

text \<open>
  C37: a project is dropped only after its grace. When the cleanup at the end of a sweep drops a
  project, then it finds the root of the project missing, and so did every cleanup that looked at the
  roots since one that is at least the grace time older.
\<close>

theorem drop_needs_grace:
  fixes ops :: "watch_op list" and cf :: watcher_config and st0 :: indexer and start :: real and en :: indexer_env and stamp :: string
  defines "x \<equiv> fst (fold (watch_step en) ops (watcher_new cf start stamp, st0))" and "st \<equiv> snd (fold (watch_step en) ops (watcher_new cf start stamp, st0))"
  assumes "dict_get (wx_states x) name = Some s" "dict_get (wx_states (fst (watch_step en (WCleanup w now) (x, st)))) name = None"
  shows "\<exists>before since. looked (real_of_int (wf_check_seconds cf)) 0 (ops @ [WCleanup w now]) = before @ since \<and> since \<noteq> [] \<and> last since = (w, now)
    \<and> list_all (\<lambda>l. \<not> root_exists (fst l) (pw_root s)) since
    \<and> real_of_int (wf_missing_root_grace_days cf) * 86400 \<le> now - snd (hd since)"
proof -
  let ?c = "real_of_int (wf_check_seconds cf)"
  have x: "suspected cf (looked ?c 0 ops) x" unfolding x_def by (rule suspected_run)
  have view: "grace_view x name = Some (pw_root s, pw_first_missing_at s)" using assms(3) by (simp add: grace_view_def)
  have gone: "grace_view (fst (watch_step en (WCleanup w now) (x, st))) name = None" using assms(4) by (simp add: grace_view_def)
  define z where "z = x\<lparr>wx_last_cleanup_at := now\<rparr>"
  have fields: "wx_config x = cf" "wx_last_cleanup_at x = last_look 0 (looked ?c 0 ops)"
    using x by (simp_all add: suspected_def)
  have due: "now - last_look 0 (looked ?c 0 ops) \<ge> ?c" using gone view fields unfolding sweep_eq by (auto split: if_splits)
  then have step: "watch_step en (WCleanup w now) (x, st) = cleanup_tick w now (z, st)"
    using fields unfolding sweep_eq z_def by simp
  have zv: "grace_view z name = Some (pw_root s, pw_first_missing_at s)" using view by (simp add: z_def grace_view_def)
  have fin: "\<not> root_exists w (pw_root s)" "grace_of z \<le> now - (case pw_first_missing_at s of None \<Rightarrow> now | Some t \<Rightarrow> t)"
    using cleanup_tick_get [OF zv, where now = now and w = w and st = st] gone unfolding step by simp_all
  have g: "grace_of z = real_of_int (wf_missing_root_grace_days cf) * 86400" using fields by (simp add: grace_of_def z_def)
  have looks: "looked ?c 0 (ops @ [WCleanup w now]) = looked ?c 0 ops @ [(w, now)]" using due by (simp add: looked_snoc look_of_def)
  show ?thesis
  proof (cases "pw_first_missing_at s")
    case None
    then show ?thesis using fin g looks by (intro exI [of _ "looked ?c 0 ops"] exI [of _ "[(w, now)]"]) simp
  next
    case (Some t)
    have "grace_view x name = Some (pw_root s, Some t)" using assms(3) Some by (simp add: grace_view_def)
    then obtain before since where "looked ?c 0 ops = before @ since" "since \<noteq> []" "snd (hd since) = t" "\<forall>l \<in> set since. \<not> root_exists (fst l) (pw_root s)"
      using x unfolding suspected_def by blast
    then show ?thesis using fin g looks Some by (intro exI [of _ before] exI [of _ "since @ [(w, now)]"]) (auto simp: list_all_iff)
  qed
qed

section \<open>From an edit to the index\<close>

lemma coalesce_single: "we_type ev = CREATE \<or> we_type ev = MODIFY \<Longrightarrow> coalesce_events [ev] now = [ev]"
  by (auto simp: coalesce_events_def per_path_def saved_in_place_def first_at_def Let_def)

lemma concat_map_single:
  "distinct (map fst xs) \<Longrightarrow> (k, v) \<in> set xs \<Longrightarrow> (\<And>k' v'. (k', v') \<in> set xs \<Longrightarrow> k' \<noteq> k \<Longrightarrow> g (k', v') = []) \<Longrightarrow> concat (map g xs) = g (k, v)"
proof (induction xs)
  case (Cons a xs)
  obtain k' v' where a: "a = (k', v')" by (cases a)
  show ?case
  proof (cases "k' = k")
    case True
    then have "v' = v" using Cons.prems(1,2) by (force simp: a)
    moreover have "g y = []" if "y \<in> set xs" for y using Cons.prems(1,3) that by (cases y) (force simp: a True)
    then have "concat (map g xs) = []" by simp
    ultimately show ?thesis by (simp add: a True)
  next
    case False
    then show ?thesis using Cons.IH Cons.prems by (auto simp: a)
  qed
qed simp

lemma update_files_single:
  assumes "update_file en w name p st = (Inr res, st')"
  shows "\<exists>res'. update_files en w name [p] st = (Inr res', st')"
  using assms by (simp add: update_files_def)

text \<open>
  C8: an edit reaches the index. When a registered project has nothing queued, a new or changed file
  is reported and the debounce time has passed, then one drain makes the chunks of the file those of its
  content, and nothing is pending any more.
\<close>

theorem edit_reaches_index:
  assumes env: "indexer_env_ok en" "indexer_inv en f st" and x: "watch_ok x" "wx_in_flight x = []" "1 \<le> wf_queue_size (wx_config x)"
    and idle: "list_all (\<lambda>(n, s). pw_queue s = [] \<and> \<not> pw_rescan_pending s) (wx_states x)"
    and project: "dict_get (wx_states x) pn = Some s" "get_project pn (id_store st) = Some proj" "pw_root s = path_of (pj_root_path proj)"
    and ev: "we_project ev = pn" "we_type ev = CREATE \<or> we_type ev = MODIFY" "we_observed_at ev + real_of_int (wf_debounce_ms (wx_config x)) / 1000 \<le> t1"
    and src: "event_file w (pw_root s) (we_path ev) = p" "wo_resolve w p = p" "should_index en w (pw_root s) p" "embedder_consistent en (id_store st)"
      "wo_file w p = Some ff" "fi_bytes ff = Some bytes" "relative_to p (pw_root s) = Some rel"
      "map_option fl_content_hash (get_file pn (path_str rel) (id_store st)) \<noteq> Some (ie_sha256 en bytes)"
  shows "\<exists>x' st' raw g. fold (watch_step en) [WEvent ev t0, WTake t1, WApply w t2 t3 stamp] (x, st) = (x', st')
    \<and> pending_updates (Some pn) x' = 0 \<and> wx_in_flight x' = [] \<and> wx_indexed_through x' = stamp
    \<and> rag_chunk_text (ie_sha1 en) (ie_chunker en) (ie_decode en bytes) 0 = Inr raw
    \<and> get_file pn (path_str rel) (id_store st') = Some g \<and> fl_content_hash g = ie_sha256 en bytes
    \<and> map strip_record (get_chunks_by_file (fl_id g) (id_store st')) = build_records en (fl_id g) (ie_decode en bytes) raw"
proof -
  define s1 where "s1 = s\<lparr>pw_queue := [ev], pw_last_event_at := t0\<rparr>"
  have s: "pw_queue s = []" "\<not> pw_rescan_pending s" using idle map_of_SomeD [OF project(1)] by (auto simp: list_all_iff)
  define x1 where "x1 = put_state pn s1 x"
  have e: "enqueue_event ev t0 x = x1" using s x(3) by (simp add: enqueue_event_def with_state_def ev(1) project(1) Let_def x1_def s1_def)
  have wf: "dict_wf (wx_states x1)" using x(1) by (simp add: x1_def put_state_def watch_ok_def distinct_update)
  have cf: "wx_config x1 = wx_config x" "wx_in_flight x1 = []" by (simp_all add: x1_def put_state_def x(2))
  have get1: "dict_get (wx_states x1) n = (if n = pn then Some s1 else dict_get (wx_states x) n)" for n by (simp add: x1_def put_state_def dict_simps)
  have mem: "(pn, s1) \<in> set (wx_states x1)" using get1 [of pn] by (simp add: map_of_SomeD)
  have others: "pw_queue v = [] \<and> \<not> pw_rescan_pending v" if "(n, v) \<in> set (wx_states x1)" "n \<noteq> pn" for n v
  proof -
    have "dict_get (wx_states x1) n = Some v" using that(1) dict_item_get [OF wf] by blast
    then have "dict_get (wx_states x) n = Some v" using get1 [of n] that(2) by simp
    then show ?thesis using idle map_of_SomeD by (fastforce simp: list_all_iff)
  qed
  have ready: "ready_events (wx_config x) t1 s1 = [ev]" using ev(3) by (simp add: ready_events_def debounced_def s1_def)
  define x2 where "x2 = take_ready t1 x1"
  have fl: "wx_in_flight x2 = [(pn, [ev], False)]"
  proof -
    let ?g = "\<lambda>(name, s). if ready_events (wx_config x) t1 s \<noteq> [] \<or> pw_rescan_pending s then [(name, ready_events (wx_config x) t1 s, pw_rescan_pending s)] else []"
    have "concat (map ?g (wx_states x1)) = ?g (pn, s1)"
      using others by (intro concat_map_single [OF wf mem]) (auto simp: ready_events_def)
    moreover have "wx_in_flight x2 = concat (map ?g (wx_states x1))" unfolding x2_def take_ready_def cf by simp
    moreover have "?g (pn, s1) = [(pn, [ev], False)]" using s by (simp add: ready) (simp add: s1_def)
    ultimately show ?thesis by simp
  qed
  have get2: "dict_get (wx_states x2) pn = Some (s1\<lparr>pw_queue := [], pw_rescan_pending := False\<rparr>)"
    using get1 [of pn] ev(3) by (simp add: x2_def take_ready_def cf map_of_map debounced_def s1_def)
  define root_dir where "root_dir = pw_root s"
  have pn: "pn \<in> set (map pj_name (cs_projects (id_store st)))" "pj_name proj = pn"
    using find_Some [OF project(2) [unfolded get_project_def]] by auto
  obtain counts st' raw g where r: "index_file en w pn root_dir p st = (Inr (Some counts), st')"
      "rag_chunk_text (ie_sha1 en) (ie_chunker en) (ie_decode en bytes) 0 = Inr raw"
      "get_file pn (path_str rel) (id_store st') = Some g" "fl_content_hash g = ie_sha256 en bytes"
      "map strip_record (get_chunks_by_file (fl_id g) (id_store st')) = build_records en (fl_id g) (ie_decode en bytes) raw"
    using index_file_result [OF env src(5-7) pn(1) src(8)] unfolding root_dir_def by blast
  have "update_file en w pn p st = (Inr (count_file (Some counts) no_counts), st')"
    using r(1) by (simp add: update_file_def src(2-4) project(2) pn(2) flip: project(3)) (simp add: root_dir_def src(3))
  then obtain res where "update_files en w pn [p] st = (Inr res, st')" using update_files_single by blast
  then have app: "apply_events en w pn root_dir [ev] st = st'"
    using ev(2) by (auto simp: apply_events_def Let_def root_dir_def src(1))
  have root2: "pw_root (s1\<lparr>pw_queue := [], pw_rescan_pending := False\<rparr>) = root_dir" by (simp add: s1_def root_dir_def)
  define y where "y = x2\<lparr>wx_in_flight := [], wx_indexed_through := stamp\<rparr>"
  have "apply_ready en w t2 t3 stamp (x2, st) = (y\<lparr>wx_bucket := snd (acquire 1 t2 t3 (wx_bucket y))\<rparr>, st')"
    using get2 app by (simp add: apply_ready_def fl Let_def coalesce_single [OF ev(2)] y_def s1_def root_dir_def)
  then have "fold (watch_step en) [WEvent ev t0, WTake t1, WApply w t2 t3 stamp] (x, st) = (y\<lparr>wx_bucket := snd (acquire 1 t2 t3 (wx_bucket y))\<rparr>, st')"
    by (simp add: e x2_def)
  then show ?thesis using r(2-5) get2 by (intro exI [of _ st'] exI [of _ raw] exI [of _ g] exI) (auto simp: pending_updates_def y_def)
qed

section \<open>What goes wrong\<close>

lemma watch_queue_upd:
  "pw_queue (s\<lparr>pw_queue := q, pw_last_event_at := t\<rparr>) = q" "pw_root (s\<lparr>pw_queue := q, pw_last_event_at := t\<rparr>) = pw_root s"
  "pw_rescan_pending (s\<lparr>pw_queue := q, pw_last_event_at := t\<rparr>) = pw_rescan_pending s"
  by simp_all

lemma enqueue_many:
  assumes "dict_get (wx_states x) name = Some s" "\<not> pw_rescan_pending s" "\<forall>ev \<in> set evs. we_project ev = name" "int (length (pw_queue s)) \<le> wf_queue_size (wx_config x)"
  shows "\<exists>s'. dict_get (wx_states (fold (\<lambda>ev. enqueue_event ev now) evs x)) name = Some s' \<and> pw_root s' = pw_root s
    \<and> (if int (length (pw_queue s @ evs)) \<le> wf_queue_size (wx_config x) then pw_queue s' = pw_queue s @ evs \<and> \<not> pw_rescan_pending s'
       else pw_queue s' = [] \<and> pw_rescan_pending s')"
  using assms
proof (induction evs arbitrary: x s)
  case (Cons ev evs)
  have cfg: "wx_config (enqueue_event ev now x) = wx_config x" by (rule enqueue_config)
  show ?case
  proof (cases "int (length (pw_queue s @ [ev])) \<le> wf_queue_size (wx_config x)")
    case True
    have g: "dict_get (wx_states (enqueue_event ev now x)) name = Some (s\<lparr>pw_queue := pw_queue s @ [ev], pw_last_event_at := now\<rparr>)"
      using Cons.prems True by (simp add: enqueue_event_def with_state_def put_state_def Let_def dict_simps)
    have "\<exists>s'. dict_get (wx_states (fold (\<lambda>ev. enqueue_event ev now) evs (enqueue_event ev now x))) name = Some s' \<and> pw_root s' = pw_root s
      \<and> (if int (length ((pw_queue s @ [ev]) @ evs)) \<le> wf_queue_size (wx_config x) then pw_queue s' = (pw_queue s @ [ev]) @ evs \<and> \<not> pw_rescan_pending s'
         else pw_queue s' = [] \<and> pw_rescan_pending s')"
      using Cons.IH [OF g, unfolded cfg, simplified watch_queue_upd] Cons.prems(2,3) True by (auto simp: cfg)
    then show ?thesis by (simp only: fold_simps append_assoc append_Cons append_Nil)
  next
    case False
    have storm: "\<exists>s'. dict_get (wx_states (fold (\<lambda>ev. enqueue_event ev now) evs y)) name = Some s' \<and> pw_root s' = pw_root t \<and> pw_queue s' = [] \<and> pw_rescan_pending s'"
      if "dict_get (wx_states y) name = Some t" "pw_queue t = []" "pw_rescan_pending t" "\<forall>ev \<in> set evs. we_project ev = name" for y t
      using that
    proof (induction evs arbitrary: y t)
      case (Cons e evs)
      have "dict_get (wx_states (enqueue_event e now y)) name = Some (t\<lparr>pw_last_event_at := now\<rparr>)"
        using Cons.prems by (simp add: enqueue_event_def with_state_def put_state_def dict_simps)
      from Cons.IH [OF this] show ?case using Cons.prems by simp
    qed auto
    have "dict_get (wx_states (enqueue_event ev now x)) name = Some (s\<lparr>pw_queue := [], pw_last_event_at := now, pw_rescan_pending := True\<rparr>)"
      using Cons.prems False by (simp add: enqueue_event_def with_state_def put_state_def Let_def dict_simps)
    from storm [OF this] show ?thesis using Cons.prems False by auto
  qed
qed auto

text \<open>
  A walk that finds more changed files than the queue holds ends in the state that asked for the walk:
  the drains walk the project again and again and nothing of it ever reaches the indexer.
\<close>

lemma storm_repeats:
  assumes "wx_states x = [(name, s)]" "wx_in_flight x = []" "pw_queue s = []" "pw_rescan_pending s" "root_exists w (pw_root s)"
    and "0 \<le> wf_queue_size (wx_config x)"
    and "wf_queue_size (wx_config x) < int (length (walk_events w name (pw_root s) (recorded_mtimes name st) t2))"
  shows "\<exists>x' s'. fold (watch_step en) [WTake t1, WApply w t2 t3 stamp] (x, st) = (x', st)
    \<and> dict_get (wx_states x') name = Some s' \<and> pw_queue s' = [] \<and> pw_rescan_pending s' \<and> pw_root s' = pw_root s"
proof -
  define x2 where "x2 = x\<lparr>wx_states := [(name, s\<lparr>pw_rescan_pending := False\<rparr>)], wx_in_flight := [], wx_indexed_through := stamp\<rparr>"
  have run: "fold (watch_step en) [WTake t1, WApply w t2 t3 stamp] (x, st) = (mtime_walk_project w name st t2 x2, st)"
    using assms(1-4) by (simp add: take_ready_def ready_events_def debounced_def apply_ready_def Let_def x2_def)
  have evs: "\<forall>ev \<in> set (walk_events w name (pw_root s) (recorded_mtimes name st) t2). we_project ev = name"
    by (auto simp: walk_events_def Let_def split: option.splits if_splits)
  have "\<exists>s'. dict_get (wx_states (mtime_walk_project w name st t2 x2)) name = Some s' \<and> pw_root s' = pw_root s \<and> pw_queue s' = [] \<and> pw_rescan_pending s'"
    using enqueue_many [of x2 name "s\<lparr>pw_rescan_pending := False\<rparr>", OF _ _ evs, of t2] assms
    by (auto simp: mtime_walk_project_def with_state_def x2_def)
  then show ?thesis using run by auto
qed

text \<open>While a batch is on its way to the indexer, nothing counts as pending.\<close>

lemma quiescent_in_flight:
  assumes "dict_get (wx_states x) name = Some s" "wx_in_flight x = []" "debounced (wx_config x) now s"
  shows "pending_updates (Some name) (take_ready now x) = 0 \<and> (name, pw_queue s, pw_rescan_pending s) \<in> set (wx_in_flight (take_ready now x))
    \<and> snd (watch_step en (WTake now) (x, st)) = st"
proof -
  have "pw_queue s \<noteq> []" using assms(3) by (auto simp: debounced_def)
  then show ?thesis using taken_item [OF assms(2) map_of_SomeD [OF assms(1)], of now] assms
    by (simp add: ready_events_def pending_updates_def) (simp add: take_ready_def map_of_map)
qed

text \<open>A file deleted and another created in one batch are taken for a renaming: the chunks of the old one stay under the new name, with its time.\<close>

lemma rename_keeps_old_text:
  assumes "db_ok (id_store st)" "get_project pn (id_store st) = Some proj" "get_file pn old_rel (id_store st) = Some g" "get_file pn new_rel (id_store st) = None"
    and "new_abs = wo_resolve w (let q = path_of new_rel in if path_abs q then q else path_of (pj_root_path proj) @ q)"
    and "should_index en w (path_of (pj_root_path proj)) new_abs" "wo_file w new_abs = Some ff"
  shows "\<exists>st' g'. idx_rename_file en w pn old_rel new_rel st = (Inr True, st') \<and> cs_chunks (id_store st') = cs_chunks (id_store st)
    \<and> get_file pn new_rel (id_store st') = Some g' \<and> fl_id g' = fl_id g \<and> fl_content_hash g' = fl_content_hash g \<and> fl_mtime g' = fi_mtime ff"
proof -
  let ?u = "\<lambda>f. if fl_id f = fl_id g then f\<lparr>fl_rel_path := new_rel, fl_mtime := fi_mtime ff\<rparr> else f"
  let ?cs = "(id_store st)\<lparr>cs_files := map ?u (cs_files (id_store st))\<rparr>"
  have g: "g \<in> set (cs_files (id_store st))" "fl_project g = pn" using find_Some [OF assms(3) [unfolded get_file_def]] by auto
  have dist: "distinct (map fl_id (cs_files (id_store st)))" using assms(1) by (simp add: db_ok_def)
  have only: "f = g" if "f \<in> set (cs_files (id_store st))" "fl_id f = fl_id g" for f
    using dist that g(1) by (auto simp: distinct_map inj_on_def)
  have new: "\<not> (fl_project f = pn \<and> fl_rel_path f = new_rel)" if "f \<in> set (cs_files (id_store st))" for f
    using find_None [OF assms(4) [unfolded get_file_def] that] by simp
  obtain h where h: "find (\<lambda>f. fl_id f = fl_id g) (cs_files (id_store st)) = Some h"
    using g(1) by (cases "find (\<lambda>f. fl_id f = fl_id g) (cs_files (id_store st))") (auto dest: find_None)
  have "h = g" using find_Some [OF h] only by blast
  then have ren: "rename_file (fl_id g) new_rel (fi_mtime ff) (id_store st) = (Inr (), ?cs)"
    using new g(2) by (auto simp: rename_file_def h list_ex_iff)
  have "get_file pn new_rel ?cs \<noteq> None"
  proof
    assume "get_file pn new_rel ?cs = None"
    then have "\<not> (fl_project (?u g) = pn \<and> fl_rel_path (?u g) = new_rel)"
      unfolding get_file_def by (rule find_None) (use g(1) in force)
    then show False using g(2) by simp
  qed
  then obtain g' where g': "get_file pn new_rel ?cs = Some g'" by blast
  then obtain f where f: "f \<in> set (cs_files (id_store st))" "g' = ?u f" "fl_project g' = pn" "fl_rel_path g' = new_rel"
    using find_Some [OF g' [unfolded get_file_def]] by auto
  have "fl_id f = fl_id g"
  proof (rule ccontr)
    assume "fl_id f \<noteq> fl_id g"
    then show False using f new [OF f(1)] by simp
  qed
  then have "f = g" using only f(1) by blast
  then have "fl_id g' = fl_id g \<and> fl_content_hash g' = fl_content_hash g \<and> fl_mtime g' = fi_mtime ff" by (simp add: f(2))
  moreover have "idx_rename_file en w pn old_rel new_rel st = (Inr True, st\<lparr>id_store := ?cs\<rparr>)"
    by (cases "path_abs (path_of new_rel)") (use assms(5-7) ren in \<open>simp_all add: idx_rename_file_def assms(2,3) Let_def\<close>)
  ultimately show ?thesis using g' by (intro exI [of _ "st\<lparr>id_store := ?cs\<rparr>"] exI [of _ g']) simp
qed

lemma readd_watches_old_root:
  "wx_running x \<Longrightarrow> dict_get (wx_states x) name = Some s \<Longrightarrow> pw_watched s = Some p \<Longrightarrow>
   \<exists>s'. dict_get (wx_states (watch_add name new_root now x)) name = Some s' \<and> pw_root s' = new_root \<and> pw_watched s' = Some p"
  by (simp add: watch_add_def spawn_watch_task_def with_state_def put_state_def Let_def dict_simps)

lemma readd_forgets_rescan:
  "dict_get (wx_states x) name = Some s \<Longrightarrow> pw_rescan_pending s \<Longrightarrow> pw_queue s = [] \<Longrightarrow>
   \<exists>s'. dict_get (wx_states (watch_add name p now x)) name = Some s' \<and> pw_queue s' = [] \<and> \<not> pw_rescan_pending s'"
  by (simp add: watch_add_def spawn_watch_task_def with_state_def put_state_def Let_def dict_simps)

lemma paused_not_swept: "dict_get (wx_states x) name = Some s \<Longrightarrow> pw_paused s \<Longrightarrow> sweep_visit w name st ticks x = x"
  by (simp add: sweep_visit_def with_state_def)

lemma young_events_stay:
  "dict_get (wx_states x) name = Some s \<Longrightarrow> pw_queue s = ev # evs \<Longrightarrow> now < we_observed_at ev + real_of_int (wf_debounce_ms (wx_config x)) / 1000 \<Longrightarrow>
   \<exists>s'. dict_get (wx_states (take_ready now x)) name = Some s' \<and> pw_queue s' = ev # evs"
  by (cases "wx_in_flight x = []") (auto simp: take_ready_def map_of_map debounced_def)

section \<open>On a concrete project\<close>

definition demo_event :: watch_event where
  "demo_event = \<lparr>we_project = ''p'', we_type = CREATE, we_path = ''/r/a.py'', we_old_path = None, we_observed_at = 0\<rparr>"

definition demo_watcher :: watcher where
  "demo_watcher = watch_add ''p'' [''/'', ''r''] 0 (watcher_new default_watcher_config 0 ''t0'')"

definition demo_watched :: proj_watch where
  "demo_watched = \<lparr>pw_root = [''/'', ''r''], pw_queue = [], pw_last_event_at = 0, pw_last_query_at = 0, pw_paused = False,
     pw_rescan_pending = False, pw_first_missing_at = None, pw_watched = None\<rparr>"

lemma demo_watcher_facts [simp]:
  "wx_states demo_watcher = [(''p'', demo_watched)]" "wx_in_flight demo_watcher = []" "wx_config demo_watcher = default_watcher_config"
  by (simp_all add: demo_watcher_def watch_add_def watcher_new_def put_state_def spawn_watch_task_def demo_watched_def)

lemma demo_watcher_ok: "watch_ok demo_watcher"
  by (simp add: watch_ok_def state_ok_def demo_watched_def)


theorem watch_events_kept_witness:
  "covered ''p'' demo_event (fst (fold (watch_step demo_indexing) [WPause ''p'', WTake 1] (enqueue_event demo_event 0 demo_watcher, demo_empty)))"
proof -
  let ?y = "(enqueue_event demo_event 0 demo_watcher, demo_empty)"
  have name: "we_project demo_event = ''p''" by (simp add: demo_event_def)
  have here: "registered ''p'' demo_watcher" by (simp add: registered_def)
  have stays: "registered ''p'' (fst (watch_step demo_indexing op z))" if "registered ''p'' (fst z)" "op = WPause ''p'' \<or> op = WTake 1" for op z
    using that by (cases z) (auto simp: registered_def pause_project_def with_state_def put_state_def take_ready_def map_of_map dict_simps split: option.splits)
  have "\<not> (hands_over ''p'' demo_event op (fst z) \<or> registered ''p'' (fst z) \<and> \<not> registered ''p'' (fst (watch_step demo_indexing op z))
      \<or> cut_off ''p'' demo_event op (fst z) \<or> walk_forgotten ''p'' op (fst z))"
    if "[WPause ''p'', WTake 1] = before @ op # after" for before op after z
  proof -
    have "op \<in> set [WPause ''p'', WTake 1]" unfolding that by simp
    then show ?thesis using stays by (auto simp: cut_off_def walk_forgotten_def)
  qed
  then show ?thesis using watch_events_kept [of demo_event demo_watcher demo_indexing "[WPause ''p'', WTake 1]" 0 demo_empty] here
    unfolding name by metis
qed

theorem bucket_rate_witness:
  "sum_list (map fst [(10, 0, 0), (10, 0, 1 / 2)]) \<le> max 1 10 + 20 * (1 / 2 - (0 :: real))"
  using bucket_rate [of 20 "[(10, 0, 0), (10, 0, 1 / 2)]" 10 0 "1 / 2"]
  by (simp add: acquire_def new_bucket_def refill_def Let_def)

definition demo_absent :: world where
  "demo_absent = \<lparr>wo_file = (\<lambda>p. None), wo_tree = (\<lambda>p. None), wo_gitignore = (\<lambda>p. None), wo_resolve = (\<lambda>p. p), wo_now = 7\<rparr>"

definition demo_dropping :: "watch_op list" where
  \<comment> \<open>the root is missing when the first sweep looks for it\<close>
  "demo_dropping = [WAdd ''p'' [''/'', ''r''] 0, WCleanup demo_absent 3600]"

lemma demo_dropping_run:
  "fold (watch_step demo_indexing) demo_dropping (watcher_new default_watcher_config 0 ''t0'', demo_empty)
     = (demo_watcher\<lparr>wx_states := [(''p'', demo_watched\<lparr>pw_first_missing_at := Some 3600\<rparr>)], wx_last_cleanup_at := 3600\<rparr>, demo_empty)"
proof -
  have r: "\<not> root_exists demo_absent p" for p by (simp add: root_exists_def demo_absent_def)
  have l: "wx_last_cleanup_at demo_watcher = 0" by (simp add: demo_watcher_def watch_add_def watcher_new_def put_state_def spawn_watch_task_def)
  have cf: "wf_check_seconds default_watcher_config = 3600" "wf_missing_root_grace_days default_watcher_config = 7" "wf_idle_pause_days default_watcher_config = 30"
    by (simp_all add: default_watcher_config_def)
  show ?thesis
    by (simp add: demo_dropping_def flip: demo_watcher_def)
      (simp add: sweep_cleanup_def r l cf cleanup_tick_def cleanup_one_def demo_watched_def put_state_def)
qed

theorem drop_needs_grace_witness:
  "\<exists>before since. [(demo_absent, 3600), (demo_absent, 608400)] = before @ since \<and> since \<noteq> [] \<and> last since = (demo_absent, 608400)
    \<and> list_all (\<lambda>l. \<not> root_exists (fst l) [''/'', ''r'']) since \<and> 604800 \<le> (608400 :: real) - snd (hd since)"
proof -
  let ?y = "fold (watch_step demo_indexing) demo_dropping (watcher_new default_watcher_config 0 ''t0'', demo_empty)"
  have cf: "wf_check_seconds default_watcher_config = 3600" "wf_missing_root_grace_days default_watcher_config = 7"
    by (simp_all add: default_watcher_config_def)
  have get: "dict_get (wx_states (fst ?y)) ''p'' = Some (demo_watched\<lparr>pw_first_missing_at := Some 3600\<rparr>)" by (simp add: demo_dropping_run)
  have gone: "dict_get (wx_states (fst (watch_step demo_indexing (WCleanup demo_absent 608400) (fst ?y, snd ?y)))) ''p'' = None"
    by (simp add: demo_dropping_run sweep_cleanup_def root_exists_def demo_absent_def cf demo_watched_def
        cleanup_tick_def cleanup_one_def watch_remove_def)
  have "looked (real_of_int (wf_check_seconds default_watcher_config)) 0 (demo_dropping @ [WCleanup demo_absent 608400]) = [(demo_absent, 3600), (demo_absent, 608400)]"
    by (simp add: demo_dropping_def cf look_of_def last_look_def)
  moreover have "pw_root (demo_watched\<lparr>pw_first_missing_at := Some 3600\<rparr>) = [''/'', ''r'']" by (simp add: demo_watched_def)
  ultimately show ?thesis using drop_needs_grace [OF get gone] unfolding cf by simp
qed

lemma demo_project: "get_project ''p'' (id_store demo_empty) = Some \<lparr>pj_name = ''p'', pj_root_path = ''/r'', pj_last_full_scan_at = 0, pj_session_id = None\<rparr>"
  by (simp add: demo_empty_def get_project_def)

lemma demo_paths: "path_of ''/r'' = [''/'', ''r'']" "path_of ''/r/a.py'' = [''/'', ''r'', ''a.py'']"
  by code_simp+

lemma demo_event_file: "event_file (demo_world t) [''/'', ''r''] ''/r/a.py'' = [''/'', ''r'', ''a.py'']"
  by (simp add: event_file_def demo_paths path_abs_def)

theorem edit_reaches_index_witness:
  "\<exists>x' st' g. fold (watch_step demo_indexing) [WEvent demo_event 0, WTake 1, WApply (demo_world ''abcd'') 1 1 ''t1''] (demo_watcher, demo_empty) = (x', st')
    \<and> pending_updates (Some ''p'') x' = 0 \<and> wx_indexed_through x' = ''t1''
    \<and> get_file ''p'' ''a.py'' (id_store st') = Some g \<and> map cn_text (get_chunks_by_file (fl_id g) (id_store st')) = [''abcd'']"
proof -
  have n: "get_file ''p'' ''a.py'' (id_store demo_empty) = None" by (simp add: get_file_def demo_empty_def empty_chunks_def)
  have e: "embedder_consistent demo_indexing (id_store demo_empty)"
    by (simp add: embedder_consistent_def stored_shas_def list_projects_def list_files_def demo_empty_def empty_chunks_def)
  have cf: "wf_queue_size default_watcher_config = 10000" "wf_debounce_ms default_watcher_config = 200" by (simp_all add: default_watcher_config_def)
  have x: "1 \<le> wf_queue_size (wx_config demo_watcher)" "list_all (\<lambda>(n, s). pw_queue s = [] \<and> \<not> pw_rescan_pending s) (wx_states demo_watcher)"
    "dict_get (wx_states demo_watcher) ''p'' = Some demo_watched"
    "pw_root demo_watched = path_of (pj_root_path \<lparr>pj_name = ''p'', pj_root_path = ''/r'', pj_last_full_scan_at = 0, pj_session_id = None\<rparr>)"
    "we_project demo_event = ''p''" "we_type demo_event = CREATE \<or> we_type demo_event = MODIFY"
    "we_observed_at demo_event + real_of_int (wf_debounce_ms (wx_config demo_watcher)) / 1000 \<le> 1"
    "event_file (demo_world ''abcd'') [''/'', ''r''] (we_path demo_event) = [''/'', ''r'', ''a.py'']"
    "wo_resolve (demo_world ''abcd'') [''/'', ''r'', ''a.py''] = [''/'', ''r'', ''a.py'']"
    "fi_bytes \<lparr>fi_bytes = Some ''abcd'', fi_size = int (length ''abcd''), fi_mtime = 0\<rparr> = Some ''abcd''"
    "map_option fl_content_hash (get_file ''p'' (path_str [''a.py'']) (id_store demo_empty)) \<noteq> Some (ie_sha256 demo_indexing ''abcd'')"
    by (simp_all add: cf demo_watched_def demo_event_def demo_paths demo_event_file n demo_file) (simp add: demo_world_def)
  have root: "[''/'', ''r''] = pw_root demo_watched" by (simp add: demo_watched_def)
  obtain x' st' raw g where r: "fold (watch_step demo_indexing) [WEvent demo_event 0, WTake 1, WApply (demo_world ''abcd'') 1 1 ''t1''] (demo_watcher, demo_empty) = (x', st')"
    "pending_updates (Some ''p'') x' = 0" "wx_indexed_through x' = ''t1''" "rag_chunk_text (\<lambda>t. t) demo_chunking ''abcd'' 0 = Inr raw"
    "get_file ''p'' ''a.py'' (id_store st') = Some g" "map strip_record (get_chunks_by_file (fl_id g) (id_store st')) = build_records demo_indexing (fl_id g) ''abcd'' raw"
    using edit_reaches_index [OF demo_ok(1) demo_empty_inv demo_watcher_ok demo_watcher_facts(2) x(1,2,3) demo_project x(4-7) x(8,9) [unfolded root] demo_should [unfolded root] e demo_file(1) x(10) demo_file(2) [unfolded root] x(11),
        of 0 1 1 "''t1''"] unfolding demo_file(3) demo_indexing_simps by (elim exE conjE) (rule that)
  have "map rc_text raw = [''abcd'']" using demo_cut4 r(4) by auto
  then have "map cn_text (get_chunks_by_file (fl_id g) (id_store st')) = [''abcd'']"
    using arg_cong [OF r(6), of "map cn_text"] by (simp add: build_records_text strip_record_def o_def)
  then show ?thesis by (intro exI [of _ x'] exI [of _ st'] exI [of _ g] conjI r(1-3,5))
qed

lemma demo_drain_run:
  "\<exists>x'. fold (watch_step demo_indexing) [WEvent demo_event 0, WTake 1, WApply (demo_world ''abcd'') 1 1 ''t1''] (demo_watcher, demo_empty) = (x', demo_indexed)"
proof -
  have cf: "wf_queue_size default_watcher_config = 10000" "wf_debounce_ms default_watcher_config = 200" by (simp_all add: default_watcher_config_def)
  obtain res where "update_files demo_indexing (demo_world ''abcd'') ''p'' [[''/'', ''r'', ''a.py'']] demo_empty = (Inr res, demo_indexed)"
    using update_files_single demo_update_file by blast
  then have "apply_events demo_indexing (demo_world ''abcd'') ''p'' [''/'', ''r''] [demo_event] demo_empty = demo_indexed"
    by (simp add: apply_events_def demo_event_def demo_event_file)
  then show ?thesis
    by (simp add: enqueue_event_def with_state_def put_state_def cf take_ready_def ready_events_def debounced_def apply_ready_def)
      (simp add: demo_event_def demo_watched_def cf coalesce_single put_state_def)
qed

lemma watcher_new_ok: "watch_ok (watcher_new cf now stamp)"
  by (simp add: watch_ok_def watcher_new_def)

end
