(* ===== verification/Dmn_Answer.thy ===== *)
theory Dmn_Answer
  imports Dmn_Searcher Dmn_Watch
begin

text \<open>
  The daemon's parts together: histories in which the watcher, the indexer and the searcher take
  turns over one chunk store and one embedding store, and what an answer is worth after any of them.
\<close>

section \<open>Histories\<close>

datatype daemon_op = DIndex index_op | DWatch watch_op | DSearch string search_args | DMulti "string list" search_args

fun daemon_step :: "indexer_env \<Rightarrow> searcher \<Rightarrow> daemon_op \<Rightarrow> watcher \<times> indexer \<Rightarrow> watcher \<times> indexer" where
  "daemon_step en s (DIndex op) (x, st) = (x, idx_step en op st)"
| "daemon_step en s (DWatch op) (x, st) = watch_step en op (x, st)"
| "daemon_step en s (DSearch q ar) (x, st) = (x, st\<lparr>id_store := snd (search s (id_embed st) q ar (id_store st))\<rparr>)"
| "daemon_step en s (DMulti qs ar) (x, st) = (x, st\<lparr>id_store := snd (search_multi s (id_embed st) qs ar (id_store st))\<rparr>)"

lemma search_groups_tables: "search_groups s em ar hide qs st = (res, st') \<Longrightarrow> same_tables st st'"
proof (induction qs arbitrary: hide st res st')
  case (Cons q qs)
  define ar1 where "ar1 = ar\<lparr>sa_suppress_ids := (if hide = [] then None else Some hide)\<rparr>"
  obtain r st1 where r: "search s em q ar1 st = (r, st1)" by fastforce
  have t: "same_tables st st1" by (rule search_same_tables [OF r])
  show ?case
  proof (cases r)
    case (Inl x)
    then show ?thesis using Cons.prems r t by (simp add: ar1_def)
  next
    case (Inr a)
    define hide1 where "hide1 = hide @ map (\<lambda>k. int (sk_chunk_id k)) (an_chunks a)"
    obtain rest st2 where rest: "search_groups s em ar hide1 qs st1 = (rest, st2)" by fastforce
    have "st' = st2" using Cons.prems r rest by (auto simp: ar1_def hide1_def Inr split: sum.splits)
    then show ?thesis using same_tables_trans [OF t Cons.IH [OF rest]] by simp
  qed
qed (simp add: same_tables_refl)

lemma search_multi_tables: "same_tables st (snd (search_multi s em qs ar st))"
proof -
  obtain res st' where g: "search_groups s em (ar\<lparr>sa_paraphrases := [], sa_auto_policy := False\<rparr>)
      (case sa_suppress_ids ar of None \<Rightarrow> [] | Some is \<Rightarrow> is) qs st = (res, st')" by fastforce
  show ?thesis using search_groups_tables [OF g] by (cases res) (simp_all add: search_multi_def g same_tables_refl)
qed

lemma inv_tables:
  assumes "indexer_inv en f st" "same_tables (id_store st) cs"
  shows "indexer_inv en f (st\<lparr>id_store := cs\<rparr>)"
proof (rule inv_store [OF assms(1)])
  show "db_ok cs" using same_tables_ok [OF assms(2)] inv_db [OF assms(1)] by simp
  show "cs_chunks cs = cs_chunks (id_store st)" using assms(2) by (simp add: same_tables_def)
qed

lemma daemon_step_inv:
  assumes "watched_inv en f y"
  shows "watched_inv en f (daemon_step en s op y)"
proof (cases y)
  case (Pair x st)
  have inv: "watch_ok x" "indexer_env_ok en \<and> indexer_inv en f st" using assms by (simp_all add: Pair watched_inv_def)
  show ?thesis
  proof (cases op)
    case (DIndex iop)
    then show ?thesis using inv(1) idx_step_inv [OF inv(2)] by (simp add: Pair watched_inv_def)
  next
    case (DWatch wop)
    then show ?thesis using watch_step_inv [OF assms] by (simp add: Pair)
  next
    case (DSearch q ar)
    have "same_tables (id_store st) (snd (search s (id_embed st) q ar (id_store st)))" by (rule search_same_tables [OF prod.collapse [symmetric]])
    then show ?thesis using inv inv_tables by (simp add: Pair DSearch watched_inv_def)
  next
    case (DMulti qs ar)
    then show ?thesis using inv inv_tables [OF _ search_multi_tables] by (simp add: Pair watched_inv_def)
  qed
qed

interpretation daemon: machine "daemon_step en s" "watched_inv en f"
  by unfold_locales (rule daemon_step_inv)

lemma faithful_one_file: "faithful en f st \<Longrightarrow> rows_in_one_file (id_store st)"
  unfolding rows_in_one_file_def using faithful_shared by blast

definition daemon_run :: "indexer_env \<Rightarrow> searcher \<Rightarrow> watcher_config \<Rightarrow> real \<Rightarrow> string \<Rightarrow> embed_args \<Rightarrow> daemon_op list \<Rightarrow> indexer" where
  \<comment> \<open>the index after a history that starts with a new watcher and empty stores\<close>
  "daemon_run en s cf start stamp es ops =
     snd (fold (daemon_step en s) ops (watcher_new cf start stamp, \<lparr>id_store = empty_chunks, id_embed = create_new es\<rparr>))"

lemma daemon_reached:
  assumes "indexer_env_ok en" "encoder_fits en f (create_new es)"
  shows "faithful en f (daemon_run en s cf start stamp es ops)"
proof -
  have "watched_inv en f (watcher_new cf start stamp, \<lparr>id_store = empty_chunks, id_embed = create_new es\<rparr>)"
    using indexer_start [OF assms] watcher_new_ok by (simp add: watched_inv_def)
  from daemon.run_inv [OF this, of s ops] show ?thesis by (simp add: daemon_run_def watched_inv_def indexer_inv_def split: prod.splits)
qed

section \<open>What an answer is worth\<close>

lemma answer_of_reached:
  assumes inv: "faithful en f st"
    and run: "search s (id_embed st) query ar (id_store st) = (Inr r, cs)"
    and laws: "sorts_ok (sr_argpartition s) (sr_argsort s)" "sorts_ok (se_argpartition (sr_sqlite s)) (se_argsort (sr_sqlite s))"
    and embs: "embed_queries_with_prior s (query # sa_paraphrases ar) (filter (\<lambda>t. \<not> py_blank t) (sa_prior_context ar)) (sa_prior_context_weight ar) = Inr embs"
    and k: "k \<in> set (an_chunks r)"
  shows "\<exists>c \<in> set (cs_chunks (id_store st)). \<exists>g \<in> set (cs_files (id_store st)).
      fl_id g = cn_file_id c \<and> fl_project g \<in> set (sd_fanout_projects (an_scope_decision r))
      \<and> sk_chunk_id k = cn_id c \<and> sk_text k = cn_text c
      \<and> sk_citation k = \<lparr>ct_project = fl_project g, ct_file_path = fl_project g @ ''/'' @ fl_rel_path g,
          ct_start_line = cn_start_line c, ct_end_line = cn_end_line c\<rparr>
      \<and> (case sk_dense_cosine k of None \<Rightarrow> True | Some v \<Rightarrow> v \<in> (\<lambda>q. dot (f (sk_text k)) q) ` set embs)
      \<and> (case sa_suppress_ids ar of None \<Rightarrow> True | Some is \<Rightarrow> int (cn_id c) \<notin> set is)"
proof -
  note ok = faithful_one_file [OF inv] faithful_db [OF inv]
  obtain c g where c: "c \<in> set (cs_chunks (id_store st))" "g \<in> set (cs_files (id_store st))"
      "fl_id g = cn_file_id c" "fl_project g \<in> set (sd_fanout_projects (an_scope_decision r))"
      "sk_chunk_id k = cn_id c" "sk_text k = cn_text c"
      "sk_citation k = \<lparr>ct_project = fl_project g, ct_file_path = fl_project g @ ''/'' @ fl_rel_path g,
          ct_start_line = cn_start_line c, ct_end_line = cn_end_line c\<rparr>"
      "case sa_suppress_ids ar of None \<Rightarrow> True | Some is \<Rightarrow> int (cn_id c) \<notin> set is"
    using search_sound(2) [OF run laws ok k] by blast
  have "v \<in> (\<lambda>q. dot (f (sk_text k)) q) ` set embs" if v: "sk_dense_cosine k = Some v" for v
  proof -
    obtain d row e where d: "d \<in> set (cs_chunks (id_store st))" "cn_id d = sk_chunk_id k" "cn_embedding_row d = Some row"
        "live (id_embed st) row = Some e" "\<exists>q \<in> set embs. v = dot e q"
      using search_cosine [OF run laws ok embs k v] by blast
    then have "d = c" using c(1,5) ok(2) by (auto simp: db_ok_def distinct_map inj_on_def)
    then have "e = f (cn_text c)" using faithful_row [OF inv c(1)] d(3,4) by auto
    then show ?thesis using d(5) c(6) by auto
  qed
  then show ?thesis using c by (intro bexI [of _ c] bexI [of _ g]) (auto split: option.split)
qed

text \<open>
  C7: an answer tells the truth about the index. After any history of indexing, watching and
  searching that starts from empty stores, every chunk of an answer is a chunk of the store, with its text and its
  place in a file of one of the projects searched; the cosine it reports, if any, is that of the
  embedding of its text and of one of the questions; it is none of those the caller asked to leave
  out. No chunk comes twice, and beyond the first chunk neither bound the caller gave is exceeded.
\<close>

theorem daemon_answers_sound:
  fixes s :: searcher and ar :: search_args and ops :: "daemon_op list" and cf :: watcher_config and start :: real and stamp :: string
  assumes "indexer_env_ok en" "encoder_fits en f (create_new es)"
    and laws: "sorts_ok (sr_argpartition s) (sr_argsort s)" "sorts_ok (se_argpartition (sr_sqlite s)) (se_argsort (sr_sqlite s))"
  defines "st \<equiv> daemon_run en s cf start stamp es ops"
  assumes run: "search s (id_embed st) query ar (id_store st) = (Inr r, cs)"
    and embs: "embed_queries_with_prior s (query # sa_paraphrases ar) (filter (\<lambda>t. \<not> py_blank t) (sa_prior_context ar)) (sa_prior_context_weight ar) = Inr embs"
  shows "list_all (\<lambda>k. \<exists>c \<in> set (cs_chunks (id_store st)). \<exists>g \<in> set (cs_files (id_store st)).
        fl_id g = cn_file_id c \<and> fl_project g \<in> set (sd_fanout_projects (an_scope_decision r))
        \<and> sk_chunk_id k = cn_id c \<and> sk_text k = cn_text c
        \<and> sk_citation k = \<lparr>ct_project = fl_project g, ct_file_path = fl_project g @ ''/'' @ fl_rel_path g,
            ct_start_line = cn_start_line c, ct_end_line = cn_end_line c\<rparr>
        \<and> (case sk_dense_cosine k of None \<Rightarrow> True | Some v \<Rightarrow> v \<in> (\<lambda>q. dot (f (sk_text k)) q) ` set embs)
        \<and> (case sa_suppress_ids ar of None \<Rightarrow> True | Some is \<Rightarrow> int (cn_id c) \<notin> set is)) (an_chunks r)
    \<and> distinct (map sk_chunk_id (an_chunks r))
    \<and> (case sa_max_results ar of None \<Rightarrow> True | Some m \<Rightarrow> int (length (an_chunks r)) \<le> max 1 m)
    \<and> (length (an_chunks r) \<le> 1 \<or> sum_list (map sk_token_count (an_chunks r)) \<le> sa_max_tokens ar)"
proof -
  have inv: "faithful en f st" unfolding st_def by (rule daemon_reached [OF assms(1,2)])
  note snd = search_sound [OF run laws faithful_one_file [OF inv] faithful_db [OF inv]]
  show ?thesis
    unfolding list_all_iff using answer_of_reached [OF inv run laws embs] snd(3-5)
    by (intro conjI ballI) (auto split: option.split)
qed

text \<open>
  C33: several questions share one answer. After any history, a search for several questions answers
  each of them in a group of its own, in their order; no chunk is in two groups or twice in one, and
  no chunk the caller asked to leave out is in any.
\<close>

theorem multi_search_no_repeats:
  fixes s :: searcher and ar :: search_args and ops :: "daemon_op list" and cf :: watcher_config and start :: real and stamp :: string
  assumes "indexer_env_ok en" "encoder_fits en f (create_new es)"
    and laws: "sorts_ok (sr_argpartition s) (sr_argsort s)" "sorts_ok (se_argpartition (sr_sqlite s)) (se_argsort (sr_sqlite s))"
  defines "st \<equiv> daemon_run en s cf start stamp es ops"
  assumes run: "search_multi s (id_embed st) questions ar (id_store st) = (Inr r, cs)"
  shows "mr_queries r = questions \<and> length (mr_groups r) = length questions
    \<and> distinct (concat (map (\<lambda>g. map sk_chunk_id (an_chunks g)) (mr_groups r)))
    \<and> list_all (\<lambda>g. list_all (\<lambda>k. case sa_suppress_ids ar of None \<Rightarrow> True | Some is \<Rightarrow> int (sk_chunk_id k) \<notin> set is) (an_chunks g)) (mr_groups r)"
proof (cases "questions = []")
  case True
  then show ?thesis using run by (auto simp: search_multi_def)
next
  case False
  have inv: "faithful en f st" unfolding st_def by (rule daemon_reached [OF assms(1,2)])
  define hide where "hide = (case sa_suppress_ids ar of None \<Rightarrow> [] | Some is \<Rightarrow> is)"
  obtain rs where rs: "search_groups s (id_embed st) (ar\<lparr>sa_paraphrases := [], sa_auto_policy := False\<rparr>) hide questions (id_store st) = (Inr rs, cs)"
      "mr_queries r = questions" "mr_groups r = rs"
    using run False by (auto simp: search_multi_def hide_def split: prod.splits sum.splits)
  from search_groups_facts [OF rs(1) laws faithful_one_file [OF inv] faithful_db [OF inv]] show ?thesis
    unfolding rs(2,3) group_ids_def hide_def by (auto simp: list_all_iff split: option.splits)
qed

section \<open>On a concrete store\<close>

text \<open>One file of one chunk, indexed and then searched for.\<close>

definition demo_searcher :: searcher where
  "demo_searcher = \<lparr>sr_config = default_searcher_config\<lparr>sc_bm25_weight := 0\<rparr>, sr_encode = (\<lambda>ts. Inr (map (\<lambda>t. [1]) ts)), sr_sqlite = demo_sql,
     sr_argpartition = (\<lambda>xs k. stable_argsort xs), sr_argsort = stable_argsort, sr_quiescence = (\<lambda>p t. (0, ''now'')), sr_now = ''now'',
     sr_rg = (\<lambda>p t. None), sr_root_exists = (\<lambda>p. True), sr_resolve = (\<lambda>p. p)\<rparr>"

definition demo_search_args :: search_args where
  "demo_search_args = \<lparr>sa_cwd = None, sa_project = Some ''p'', sa_max_tokens = 10, sa_max_results = Some 2, sa_wait_ms = None, sa_sticky = None,
     sa_paraphrases = [], sa_relevance_floor = None, sa_auto_policy = False, sa_dedup_by_doc_root = None, sa_prior_context = [],
     sa_prior_context_weight = 0, sa_suppress_ids = None\<rparr>"

definition demo_scope :: scope_decision where
  "demo_scope = \<lparr>sd_primary_project = Some ''p'', sd_primary_source = ''explicit_project'', sd_fanout_projects = [''p''],
                   sd_cross_project_pattern_matched = None, sd_active_project_sticky = None\<rparr>"

lemma demo_em_simps: "em_state demo_em = \<lparr>ei_num_rows = 1, ei_dim = 1, ei_model_name = ''BAAI/bge'', ei_model_sha256 = ''s'', ei_freelist = [], ei_capacity = 2\<rparr>"
   "em_npy demo_em = [[4], [0]]"
  by (simp_all add: demo_em_def append_row_def append_data_def demo_args_def demo_embed_args_def create_new_def Let_def assert_normalized_def save_idx_def zero_row_def
     numeral_2_eq_2)

lemma one_batch: "ibatched 500 [x] = [[x]]"
  by (simp add: ibatched.simps [of 500 "[x]"] ibatched.simps [of 500 "[]"])

lemma demo_rows_scope: "scope_to_embedding_rows demo_scope (id_store demo_indexed) = Some [0]"
  by (simp add: scope_to_embedding_rows_def scope_to_filter_def demo_scope_def list_chunk_ids_in_scope_def scope_projects_def joined_def demo_indexed_def demo_empty_def
     empty_chunks_def Let_def get_embedding_rows_by_chunk_ids_def one_batch sql_in_batch_def)

lemma demo_dense: "search_dense (\<lambda>xs k. stable_argsort xs) stable_argsort demo_em [1] 1000 (Some [0]) = Inr [(0, 4)]"
  by (simp add: search_dense_def demo_em_simps scored_def select_top_def stable_argsort_def dot_def)

lemma demo_searcher_simps [simp]:
  "sr_argpartition demo_searcher = (\<lambda>xs k. stable_argsort xs)" "sr_argsort demo_searcher = stable_argsort" "sr_encode demo_searcher = (\<lambda>ts. Inr (map (\<lambda>t. [1]) ts))"
  "sr_config demo_searcher = default_searcher_config\<lparr>sc_bm25_weight := 0\<rparr>" "sr_quiescence demo_searcher = (\<lambda>p t. (0, ''now''))" "sr_sqlite demo_searcher = demo_sql"
  by (simp_all add: demo_searcher_def)

lemma demo_dense_all: "dense_rankings_of demo_searcher demo_em 1000 demo_scope [[1]] (id_store demo_indexed) = Inr [[(1, 4)]]"
proof -
  have raw: "raw_dense_rankings demo_searcher demo_em 1000 (Some [0]) [[1]] = Inr [[(0, 4)]]" by (simp add: demo_dense)
  show ?thesis
    unfolding dense_rankings_of_def demo_rows_scope raw
    by (simp add: rows_to_chunks_def Let_def get_chunk_ids_by_embedding_rows_def rows_by_id_def
       demo_indexed_def demo_empty_def one_batch sql_in_batch_def)
qed

lemma demo_rank: "seen \<in> {None, Some [1]} \<Longrightarrow>
   rank_all demo_searcher demo_em (demo_search_args\<lparr>sa_suppress_ids := seen\<rparr>) [''abcd''] demo_scope 0 1 [[1]] (id_store demo_indexed)
   = (Inr ([(1, 1 / 61)], [(1, 4)]), id_store demo_indexed)"
  by (auto simp: rank_all_def demo_dense_all default_searcher_config_def rrf_fuse_def fuse_one_def sr_rrf_score_def best_cosines_def fused_cap_def
     demo_search_args_def py_take_def Let_def split: option.split)

definition demo_chunk :: search_chunk where
  "demo_chunk = \<lparr>sk_citation = \<lparr>ct_project = ''p'', ct_file_path = ''p/a.py'', ct_start_line = 1, ct_end_line = 1\<rparr>, sk_text = ''abcd'',
     sk_relevance_score = 1 / 61, sk_token_count = 1, sk_dense_cosine = Some 4, sk_chunk_id = 1\<rparr>"

lemma demo_query: "has_code_signal (query_features ''abcd'') = False" by code_simp

lemma demo_fetch: "fetch_chunks demo_searcher (demo_search_args\<lparr>sa_suppress_ids := seen\<rparr>) ''abcd'' demo_scope [(1, 1 / 61)] [(1, 4)] (id_store demo_indexed)
   = Inr (if seen = Some [1] then [] else [demo_chunk])" if "seen \<in> {None, Some [1]}"
  using that by (auto simp: fetch_chunks_def symbol_rerank_def Let_def demo_query demo_scope_def ranked_chunks_of_def get_chunks_by_id_def one_batch sql_in_batch_def
     demo_indexed_def demo_empty_def demo_search_args_def default_searcher_config_def key_of_def chunk_token_count_def search_chunk_of_def build_citation_def
     get_file_by_id_def demo_chunk_def)

lemma demo_scope_eq: "decide_scope q None (Some ''p'') None ps [] = demo_scope" by (simp add: decide_scope_def demo_scope_def)

lemma demo_search:
  assumes "seen \<in> {None, Some [1]}"
  shows "\<exists>r. search demo_searcher demo_em ''abcd'' (demo_search_args\<lparr>sa_suppress_ids := seen\<rparr>) (id_store demo_indexed) = (Inr r, id_store demo_indexed)
    \<and> an_chunks r = (if seen = Some [1] then [] else [demo_chunk]) \<and> an_top1_dense_cosine r = 4 \<and> an_scope_decision r = demo_scope"
proof -
  let ?ar = "demo_search_args\<lparr>sa_suppress_ids := seen\<rparr>"
  have a: "sa_auto_policy ?ar = False" "sa_project ?ar = Some ''p''" "sa_cwd ?ar = None" "sa_sticky ?ar = None" "sa_paraphrases ?ar = []"
    "sa_prior_context ?ar = []" "sa_relevance_floor ?ar = None" "sa_wait_ms ?ar = None"
    by (simp_all add: demo_search_args_def)
  have r: "resolve_floor (default_searcher_config\<lparr>sc_bm25_weight := 0\<rparr>) None demo_scope = 1 / 2"
    by (simp add: resolve_floor_def demo_scope_def default_searcher_config_def)
  have w: "sc_bm25_weight (default_searcher_config\<lparr>sc_bm25_weight := 0\<rparr>) = 0" "sc_dense_weight (default_searcher_config\<lparr>sc_bm25_weight := 0\<rparr>) = 1"
    by (simp_all add: default_searcher_config_def)
  have t: "cosine_at [(1, 4)] [(1, 1 / 61)] 0 = 4" by (simp add: cosine_at_def)
  have e: "embed_queries_with_prior demo_searcher [''abcd''] [] x = Inr [[1]]" for x by (simp add: embed_queries_with_prior_def)
  note rank = demo_rank [OF assms] and fetch = demo_fetch [OF assms]
  show ?thesis
    unfolding search_def resolve_policy_def Let_def a w demo_scope_eq e
    by (simp add: a r w demo_scope_eq e rank [simplified] fetch [simplified] t [simplified])
qed

theorem fusion_best_witness:
  "\<exists>dense picks tot. Inr dense = dense_rankings_of demo_searcher demo_em 1000 demo_scope [[1]] (id_store demo_indexed)
    \<and> tot = (\<lambda>cid. rrf_total 60 0 [] cid + rrf_total 60 1 dense cid)
    \<and> [(1, 1 / 61)] = map (\<lambda>cid. (cid, tot cid)) picks \<and> set picks \<subseteq> ids_in dense"
proof -
  have r: "rank_all demo_searcher demo_em (demo_search_args\<lparr>sa_suppress_ids := None\<rparr>) [''abcd''] demo_scope 0 1 [[1]] (id_store demo_indexed)
      = (Inr ([(1, 1 / 61)], [(1, 4)]), id_store demo_indexed)" by (rule demo_rank) simp
  have c: "sc_default_top_k_for_fusion (sr_config demo_searcher) = 1000" "sc_rrf_k (sr_config demo_searcher) = 60"
    by (simp_all add: default_searcher_config_def)
  obtain bm dense picks tot where x: "(Inr bm :: exc + hits list, id_store demo_indexed) = (Inr [], id_store demo_indexed)"
      "Inr dense = dense_rankings_of demo_searcher demo_em 1000 demo_scope [[1]] (id_store demo_indexed)"
      "tot = (\<lambda>cid. rrf_total 60 0 bm cid + rrf_total 60 1 dense cid)"
      "[(1, 1 / 61)] = map (\<lambda>cid. (cid, tot cid)) picks" "set picks \<subseteq> ids_in (bm @ dense)"
    using fusion_best [OF r] unfolding c if_not_P [OF less_irrefl] if_P [OF zero_less_one] by (elim exE conjE) (rule that)
  then show ?thesis by (intro exI [of _ dense] exI [of _ picks] exI [of _ tot]) simp
qed

theorem answer_greedy_witness:
  "\<exists>n te el. el = eligible te [] (symbol_rerank demo_searcher ''abcd'' demo_scope (id_store demo_indexed) (ranked_chunks_of (id_store demo_indexed) [(1, 1 / 61)]))
    \<and> n \<le> length el \<and> [demo_chunk] = map (answer_of te) (take n el)"
proof -
  have f: "fetch_chunks demo_searcher (demo_search_args\<lparr>sa_suppress_ids := None\<rparr>) ''abcd'' demo_scope [(1, 1 / 61)] [(1, 4)] (id_store demo_indexed)
      = Inr [demo_chunk]" using demo_fetch [of None] by simp
  define te where "te = take_env_of demo_searcher (demo_search_args\<lparr>sa_suppress_ids := None\<rparr>) [(1, 4)] (id_store demo_indexed)"
  define el where "el = eligible te [] (symbol_rerank demo_searcher ''abcd'' demo_scope (id_store demo_indexed) (ranked_chunks_of (id_store demo_indexed) [(1, 1 / 61)]))"
  obtain n where "n \<le> length el" "[demo_chunk] = map (answer_of te) (take n el)"
    using answer_greedy [OF f] unfolding te_def [symmetric] el_def [symmetric] by (elim exE conjE) (rule that)
  then show ?thesis using el_def by (intro exI [of _ n] exI [of _ te] exI [of _ el] conjI)
qed

theorem search_typed_witness:
  "\<exists>r. search demo_searcher demo_em ''abcd'' (demo_search_args\<lparr>sa_suppress_ids := None\<rparr>) (id_store demo_indexed) = (Inr r, id_store demo_indexed)
    \<and> an_chunks r = [demo_chunk] \<and> an_query_shape r \<in> {''unknown'', ''symbolic'', ''prose'', ''mixed''} \<and> \<not> an_no_relevant_results r
    \<and> sd_fanout_projects (an_scope_decision r) \<noteq> []"
proof -
  obtain r where r: "search demo_searcher demo_em ''abcd'' (demo_search_args\<lparr>sa_suppress_ids := None\<rparr>) (id_store demo_indexed) = (Inr r, id_store demo_indexed)"
      "an_chunks r = [demo_chunk]" "an_scope_decision r = demo_scope"
    using demo_search [of None] by auto
  note typed = search_typed [OF r(1)]
  have "an_query_shape r \<in> {''unknown'', ''symbolic'', ''prose'', ''mixed''}" using typed by blast
  moreover have "\<not> an_no_relevant_results r" using typed r(2) by (metis list.distinct(1))
  moreover have "sd_fanout_projects (an_scope_decision r) \<noteq> []" by (simp add: r(3) demo_scope_def)
  ultimately show ?thesis using r(1,2) by blast
qed

definition demo_daemon :: "daemon_op list" where
  \<comment> \<open>a project, an event of its file, a drain, a search\<close>
  "demo_daemon = [DIndex (IAdd (demo_world ''abcd'') ''p'' [''/'', ''r'']), DWatch (WAdd ''p'' [''/'', ''r''] 0), DWatch (WEvent demo_event 0),
     DWatch (WTake 1), DWatch (WApply (demo_world ''abcd'') 1 1 ''t1''), DSearch ''abcd'' (demo_search_args\<lparr>sa_suppress_ids := None\<rparr>)]"

lemma demo_indexed_em: "id_embed demo_indexed = demo_em"
  by (simp add: demo_indexed_def demo_em_def)

lemma demo_daemon_run: "daemon_run demo_indexing demo_searcher default_watcher_config 0 ''t0'' demo_args demo_daemon = demo_indexed"
proof -
  have s: "snd (search demo_searcher demo_em ''abcd'' (demo_search_args\<lparr>sa_suppress_ids := None\<rparr>) (id_store demo_indexed)) = id_store demo_indexed"
    using demo_search [of None] by auto
  obtain x' where w: "fold (watch_step demo_indexing) [WEvent demo_event 0, WTake 1, WApply (demo_world ''abcd'') 1 1 ''t1''] (demo_watcher, demo_empty) = (x', demo_indexed)"
    using demo_drain_run by blast
  then have "watch_step demo_indexing (WApply (demo_world ''abcd'') 1 1 ''t1'') (take_ready 1 (enqueue_event demo_event 0 demo_watcher), demo_empty) = (x', demo_indexed)"
    by (simp only: fold_simps watch_step.simps)
  then show ?thesis
    by (simp only: daemon_run_def demo_daemon_def fold_simps daemon_step.simps demo_add watch_step.simps demo_watcher_def [symmetric] demo_indexed_em s snd_conv)
      simp
qed

lemma demo_laws: "sorts_ok (sr_argpartition demo_searcher) (sr_argsort demo_searcher)"
  "sorts_ok (se_argpartition (sr_sqlite demo_searcher)) (se_argsort (sr_sqlite demo_searcher))"
  by (simp_all add: sorts_ok_def demo_sql_def stable_argsort_ok stable_argsort_def)

theorem daemon_answers_sound_witness:
  "\<exists>r cs. search demo_searcher (id_embed demo_indexed) ''abcd'' (demo_search_args\<lparr>sa_suppress_ids := None\<rparr>) (id_store demo_indexed) = (Inr r, cs)
    \<and> an_chunks r = [demo_chunk]
    \<and> list_all (\<lambda>k. \<exists>c \<in> set (cs_chunks (id_store demo_indexed)). sk_chunk_id k = cn_id c \<and> sk_text k = cn_text c
        \<and> (case sk_dense_cosine k of None \<Rightarrow> True | Some v \<Rightarrow> v = dot [real (length (sk_text k))] [1])) (an_chunks r)"
proof -
  obtain r where r: "search demo_searcher (id_embed demo_indexed) ''abcd'' (demo_search_args\<lparr>sa_suppress_ids := None\<rparr>) (id_store demo_indexed)
      = (Inr r, id_store demo_indexed)" "an_chunks r = [demo_chunk]"
    using demo_search [of None] by (auto simp: demo_indexed_em)
  have e: "embed_queries_with_prior demo_searcher (''abcd'' # sa_paraphrases (demo_search_args\<lparr>sa_suppress_ids := None\<rparr>))
      (filter (\<lambda>t. \<not> py_blank t) (sa_prior_context (demo_search_args\<lparr>sa_suppress_ids := None\<rparr>)))
      (sa_prior_context_weight (demo_search_args\<lparr>sa_suppress_ids := None\<rparr>)) = Inr [[1]]"
    by (simp add: demo_search_args_def embed_queries_with_prior_def)
  note sound = daemon_answers_sound [OF demo_ok demo_laws, where cf = default_watcher_config and start = 0 and stamp = "''t0''" and ops = demo_daemon, unfolded demo_daemon_run, OF r(1) e, THEN conjunct1]
  obtain c where "c \<in> set (cs_chunks (id_store demo_indexed))" "sk_chunk_id demo_chunk = cn_id c" "sk_text demo_chunk = cn_text c"
      "case sk_dense_cosine demo_chunk of None \<Rightarrow> True | Some v \<Rightarrow> v \<in> (\<lambda>q. dot [real (length (sk_text demo_chunk))] q) ` set [[1]]"
    using sound unfolding r(2) list.pred_inject by blast
  then show ?thesis
    using r by (intro exI [of _ r] exI [of _ "id_store demo_indexed"]) (auto simp: demo_chunk_def)
qed

theorem multi_search_no_repeats_witness:
  "\<exists>r cs. search_multi demo_searcher (id_embed demo_indexed) [''abcd'', ''abcd''] (demo_search_args\<lparr>sa_suppress_ids := None\<rparr>) (id_store demo_indexed) = (Inr r, cs)
    \<and> length (mr_groups r) = 2 \<and> map (length \<circ> an_chunks) (mr_groups r) = [1, 0]
    \<and> distinct (concat (map (\<lambda>g. map sk_chunk_id (an_chunks g)) (mr_groups r)))"
proof -
  let ?ar = "demo_search_args\<lparr>sa_suppress_ids := None, sa_paraphrases := [], sa_auto_policy := False\<rparr>"
  have ar: "?ar\<lparr>sa_suppress_ids := seen\<rparr> = demo_search_args\<lparr>sa_suppress_ids := seen\<rparr>" for seen by (simp add: demo_search_args_def)
  obtain r1 where r1: "search demo_searcher demo_em ''abcd'' (demo_search_args\<lparr>sa_suppress_ids := None\<rparr>) (id_store demo_indexed) = (Inr r1, id_store demo_indexed)"
      "an_chunks r1 = [demo_chunk]" using demo_search [of None] by auto
  obtain r2 where r2: "search demo_searcher demo_em ''abcd'' (demo_search_args\<lparr>sa_suppress_ids := Some [1]\<rparr>) (id_store demo_indexed) = (Inr r2, id_store demo_indexed)"
      "an_chunks r2 = []" using demo_search [of "Some [1]"] by auto
  have g: "search_groups demo_searcher demo_em ?ar [] [''abcd'', ''abcd''] (id_store demo_indexed) = (Inr [r1, r2], id_store demo_indexed)"
    by (simp only: search_groups.simps ar r1 r2 if_True if_False prod.case sum.case append_Nil list.map demo_chunk_def search_chunk.simps list.distinct
        simp_thms of_nat_1)
  then obtain m where m: "search_multi demo_searcher (id_embed demo_indexed) [''abcd'', ''abcd''] (demo_search_args\<lparr>sa_suppress_ids := None\<rparr>) (id_store demo_indexed)
      = (Inr m, id_store demo_indexed)" "mr_groups m = [r1, r2]"
    by (simp add: search_multi_def demo_indexed_em)
  note multi_search_no_repeats [OF demo_ok demo_laws, where cf = default_watcher_config and start = 0 and stamp = "''t0''" and ops = demo_daemon, unfolded demo_daemon_run, OF m(1)]
  then show ?thesis using m r1(2) r2(2) by (intro exI [of _ m] exI [of _ "id_store demo_indexed"]) (simp add: demo_chunk_def)
qed

end
