(* ===== verification/Spec2Isabelle.thy ===== *)
theory Spec2Isabelle
  imports Svc_Proxy Svc_Watcher Svc_Hibernate Rag_Retrieve Dmn_Answer
begin

text \<open>
  longctx: a verification development of the three Python programs of this repository, the retrieval
  service (\<open>services/longctx-svc/longctx_svc\<close>), the library (\<open>longctx/rag\<close>) and the daemon
  (\<open>longctx_daemon\<close>).

  The service. An inference server posts the text of a prompt to \<open>/retrieve\<close> (\<open>app.py\<close>). The
  service finds the project the prompt talks about (\<open>scope/detect.py\<close>, and as a fallback the
  clusters of the paths of the session, \<open>scope/cluster.py\<close> and \<open>scope/tracker.py\<close>), registers it
  (\<open>state.py\<close>), walks its files (\<open>scope/walk.py\<close>), chunks and embeds them (\<open>indexer/\<close>), keeps the
  index on disk (\<open>cache/disk.py\<close>), follows file changes (\<open>watcher/\<close>) and answers with the best
  chunks (\<open>retrieve/pipeline.py\<close>). The proxy (\<open>proxy.py\<close>) does the same for OpenAI-style requests
  and splices the chunks into the messages it forwards. Beside it stands the eviction store
  (\<open>eviction_store.py\<close>), which keeps texts evicted from a KV cache per session, in memory or
  hibernated on disk.

  The library. \<open>RetrievalPipeline\<close> ranks candidate messages for a query (\<open>pipeline.py\<close>), after a
  coarse filter by BM25 and cosine (\<open>coarse_filter.py\<close>) over chunks of text (\<open>chunker.py\<close>), with the
  embeddings cached on disk (\<open>embed_cache.py\<close>). \<open>symbol_augment.py\<close> finds the symbols of a query.

  The daemon. It indexes projects (\<open>indexer.py\<close>) into SQLite tables (\<open>storage/sqlite_store.py\<close>) and a
  memory-mapped matrix (\<open>storage/memmap_store.py\<close>), follows their files (\<open>watcher.py\<close>) and answers
  searches (\<open>searcher.py\<close>, \<open>policy.py\<close>).

  The theories, in the order of their dependencies.

  \<^item> \<open>LC_Prelude\<close>: errors as values, dictionaries with insertion order, folds, clocks, environments,
    and the locales. \<open>LC_Str\<close>: Python's string methods. \<open>LC_Path\<close>: POSIX paths as \<open>PurePosixPath\<close>
    has them. \<open>LC_Rank\<close>: sorting with a key, argsort, dot products over the reals. \<open>LC_Lines\<close>: line
    windows. \<open>LC_Regex\<close>: a backtracking matcher with groups for the regular expressions.
  \<^item> \<open>Svc_Config\<close> (\<open>config.py\<close>), \<open>Svc_Session\<close> (\<open>session/manager.py\<close>).
  \<^item> \<open>Svc_Cluster\<close>, \<open>Svc_Tracker\<close>: \<open>cluster_paths\<close> and the phase machine of
    \<open>ScopeClusterTracker.observe\<close>.
  \<^item> \<open>Svc_Evict\<close>: \<open>EvictionStore.write\<close>, \<open>retrieve\<close>, \<open>clear\<close>, \<open>stats\<close>; \<open>Svc_Hibernate\<close>: hibernation,
    resume, the idle janitor, the disk cleanup and the evict routes of \<open>app.py\<close>, over a file tree
    whose writes may fail at any step.
  \<^item> \<open>Svc_Chunker\<close>, \<open>Svc_Treesitter\<close>, \<open>Svc_Builder\<close>: the chunkers, the full and the incremental
    index build; \<open>Svc_Cache\<close>: the disk cache.
  \<^item> \<open>Svc_State\<close>: the registry with its LRU cap, idle eviction, watchers and promotions.
  \<^item> \<open>Svc_Walk\<close>, \<open>Svc_Watcher\<close>, \<open>Svc_Detect\<close>: the walk, the debounced watcher as interleaved steps,
    scope detection.
  \<^item> \<open>Rag_Symbols\<close>: symbols of a query; \<open>Svc_Pipeline\<close>: retrieval over an index, or over several.
  \<^item> \<open>Svc_App\<close>: the retrieve route as one function on the state of the whole service, and the
    background builds as steps; \<open>Svc_Messages\<close>, \<open>Svc_Proxy\<close>: the proxy.
  \<^item> \<open>Rag_Chunker\<close>, \<open>Rag_Coarse\<close> (cache and coarse filter), \<open>Rag_Retrieve\<close>: the library.
  \<^item> \<open>Dmn_Memmap\<close>, \<open>Dmn_Sqlite\<close>: the two stores; \<open>Dmn_Indexer\<close>: the indexer over both.
  \<^item> \<open>Dmn_Policy\<close>, \<open>Dmn_Searcher\<close>: the choice of projects and of the kind of search, and the search.
  \<^item> \<open>Dmn_Watch\<close>: the watcher, its queues, merging, draining, sweep, cleanup and rate limit.
    \<open>Dmn_Answer\<close>: histories in which indexer, watcher and searcher take turns.
\<close>

text \<open>
  State and operations. A Python object is a record passed through and returned; a dictionary is
  an association list without repeated keys (\<open>dict_wf\<close>), because several results depend on its
  order. Exceptions are the left side of a sum; where an operation changes state before it raises,
  the state is returned beside the sum. A lock makes the code under it one step; where the
  code leaves a lock and takes it again (\<open>hibernate\<close>, the promotion thread, the loop of the service's
  watcher) or awaits (the drain and the sweep of the daemon's) the pieces are separate definitions,
  so other operations can come in between. Clock readings are arguments.

  Interfaces. \<open>py_dict\<close> states what a dictionary promises and is interpreted on association lists
  (\<open>od\<close>); \<open>line_chunker\<close> states what both chunkers promise of their line windows (\<open>lw\<close>, \<open>tw\<close>).
  \<open>machine\<close> is an operation with an invariant it keeps, \<open>refining_machine\<close> adds an abstract view that
  every operation commutes with, \<open>answering_machine\<close> the answers too. They are interpreted on the
  operations of the eviction store (\<open>es\<close>, \<open>es_log\<close>), the registry (\<open>svc\<close>), the service (\<open>app\<close>), the
  chunk store (\<open>chunks_db\<close>), the embedding store (\<open>embeds\<close>), the indexer (\<open>indexing\<close>), the daemon's watcher
  (\<open>watching\<close>) and the daemon as a whole (\<open>daemon\<close>); the properties over histories rest on them.

  What the lemma groups show. Each component has its invariant and the preservation by every
  operation (\<open>store_inv\<close>, \<open>tracker_inv\<close>, \<open>watch_inv\<close>, \<open>index_sound\<close>, \<open>wake_inv\<close>, \<open>embed_ok\<close>, \<open>db_ok\<close>,
  \<open>indexer_inv\<close>, \<open>watched_inv\<close>) and the functional behaviour of its operations. Where there is one,
  an abstract view: the eviction store refines a log of texts per session and the embedding store a map
  from rows to vectors; the stack walk is the recursion over the tree; an incremental update equals a
  rebuild; hibernation is invisible to retrieval; save and load are inverse but for the last query
  time; the embedding cache is invisible to its callers when embedders that share a directory are
  one model. Rankings are exact: what is returned is the best by the stated score, in order, as many as asked for.
  Across components: no watcher of the service is leaked, an answer of the service is within its
  bound, the proxy forwards the conversation; in the daemon every chunk of an answer is a stored
  chunk with its text, place and true cosine after any history, and an edit reaches the index in one
  drain. The ways in which the watcher does lose events are alternatives in the statement of
  \<open>watch_events_kept\<close>, and shown to occur (\<open>shutdown_loses_batch\<close>, \<open>readd_forgets_rescan\<close>).
\<close>

text \<open>
  Parameters. Code outside the repository is an argument: sentence-transformers' encoder and
  cross-encoder, \<open>rank_bm25\<close>, numpy's index sorts, tree-sitter, pathspec, watchdog, watchfiles,
  ripgrep, the hashes, \<open>Path.resolve\<close> and the file system. The laws relied on are named
  (\<open>env_ok\<close>, \<open>encoder_ok\<close>, \<open>pipe_ok\<close>, \<open>argsort_ok\<close>, \<open>argpartition_ok\<close>, \<open>sha_ok\<close>, \<open>coarse_env_ok\<close>,
  \<open>indexer_env_ok\<close>, \<open>plain_fs\<close>) and each is met by a concrete instance in a witness.
  \<open>BM25Okapi(corpus)\<close> divides by zero when no text of the corpus has a word. The eviction store guards
  this; the chunk store, the coarse filter and the service's pipeline do not, so there whether the
  constructor returns is a parameter too (\<open>se_bm25_builds\<close>, \<open>co_bm25_builds\<close>, \<open>pe_bm25_builds\<close>), the
  error is a branch of every operation above it, and the theorems say exactly when it is taken.

  Loops and bounds. There is no fuel. Recursion is structural where it can be; otherwise a measure
  is given: on text and expression for the matcher of regular expressions (a star goes on only where
  its body read something), on the tree for the stack walk, on the rest of the text for the chunkers.
  The one loop without an evident bound, \<open>find_sentinel_root\<close>, is a \<open>partial_function\<close> that is proved to end
  for every start (\<open>detection_returns\<close>). The liveness of the service's watcher is proved for
  schedules that contain twelve steps of the loop at least the debounce time apart, whatever other steps lie
  between: enough for the loop to finish a round it is in, see the event, wait out the debounce time and hand over.

  Idealisations. Scores, embeddings and clocks are real numbers: rounding is outside the model, and so
  is storing rows as \<open>float16\<close>. Characters are those below code point 256. The text of an exception is a constant.
  \<open>attach_watcher\<close> of the service is one step although the code holds no lock between its check and its assignment.

  Not modelled. In the service: process start-up and the HTTP client (\<open>cli.py\<close>, \<open>sidecar.py\<close>,
  \<open>client.py\<close>), the status page, health check and janitor loop of \<open>app.py\<close> (the janitor's three
  operations are modelled), sending and streaming in \<open>proxy.py\<close>, logging, the confidence header: input
  and output around what is modelled. In the library: the client, the templates and the benchmarks. In the
  daemon: the command line, the MCP server with its transports, the status page and the configuration file, which
  translate between JSON and the operations modelled; the packs, the disk budget and the replay log,
  which reach the stores through those operations; \<open>auto_learn.py\<close>, which edits notes; the migrations of
  the database; the benchmarks. The scripts, corpora and examples are one-off programs.
\<close>

end
